(* ===== verification/Muntos_Prelude.thy ===== *)
theory Muntos_Prelude
  imports Main "HOL-Library.Word" "HOL-Library.Monad_Syntax" "HOL-Library.Multiset"
begin

text \<open>
  Shared ground of the development: the C integer types of the 32-bit target, the collections
  of simplification rules the component theories fill, the ordered insertion that
  \<^verbatim>\<open>rt_list_insert_by\<close> performs (with the laws it enjoys for any comparator that is a strict
  weak order), and arithmetic of machine words.
\<close>

unbundle bit_operations_syntax

section \<open>C types\<close>

text \<open>
  The model is of the 32-bit Arm target: \<^verbatim>\<open>unsigned\<close>, \<^verbatim>\<open>unsigned long\<close>, \<^verbatim>\<open>size_t\<close>,
  \<^verbatim>\<open>uint32_t\<close> and \<^verbatim>\<open>uintptr_t\<close> are 32-bit words. A C \<^verbatim>\<open>int\<close> is an \<^typ>\<open>int\<close> in the
  range of \<open>c_int\<close>; \<open>int_wrap\<close> is the two's complement wrap-around that the atomic
  read-modify-write operations on \<^verbatim>\<open>atomic_int\<close> have.
\<close>

type_synonym u32 = "32 word"
type_synonym ulong = "32 word"
type_synonym size_t = "32 word"
type_synonym uchar = "8 word"

abbreviation (input) INT_MAX :: int where
  "INT_MAX \<equiv> 2147483647"

abbreviation (input) INT_MIN :: int where
  "INT_MIN \<equiv> - 2147483648"

definition c_int :: "int \<Rightarrow> bool" where
  "c_int x \<longleftrightarrow> INT_MIN \<le> x \<and> x \<le> INT_MAX"

definition int_wrap :: "int \<Rightarrow> int" where
  "int_wrap x = (x + 2147483648) mod 4294967296 - 2147483648"

section \<open>Collections of facts\<close>

named_theorems heap_simps \<open>reading a pointer field of an updated list heap\<close>
named_theorems kernel_simps \<open>reading a field of an updated kernel state\<close>

section \<open>Machine arithmetic\<close>

lemma int_wrap_id [simp]: "c_int x \<Longrightarrow> int_wrap x = x"
  by (simp add: int_wrap_def c_int_def)

lemma c_int_int_wrap [simp]: "c_int (int_wrap x)"
proof -
  have "0 \<le> (x + 2147483648) mod 4294967296" "(x + 2147483648) mod 4294967296 < 4294967296"
    by simp_all
  then show ?thesis by (simp add: int_wrap_def c_int_def)
qed

lemma unat_inc:
  fixes n :: "'a::len word"
  shows "n \<noteq> -1 \<Longrightarrow> unat (n + 1) = Suc (unat n)"
  using unatSuc [of n] by (metis add.commute add_left_cancel add.right_inverse)

lemma unat_dec:
  fixes n :: "'a::len word"
  shows "n \<noteq> 0 \<Longrightarrow> unat (n - 1) = unat n - 1"
  by (simp add: unat_minus_one)

lemma word_diff_less_iff:
  fixes a b d :: "'a::len word"
  assumes "d \<le> a" and "d \<le> b"
  shows "a - d < b - d \<longleftrightarrow> a < b"
proof -
  have "unat d \<le> unat a" "unat d \<le> unat b"
    using assms by (simp_all add: word_le_nat_alt)
  then show ?thesis
    using assms by (simp add: word_less_nat_alt unat_sub) arith
qed

lemma unat_AND_mask:
  fixes w :: "'a::len word"
  shows "unat (w AND mask n) = unat w mod 2 ^ n"
proof -
  have "unat (take_bit n w) = take_bit n (unat w)" by (rule unsigned_take_bit_eq)
  then show ?thesis unfolding take_bit_eq_mask [symmetric] by (simp only: take_bit_eq_mod)
qed

lemma unat_AND_NOT_mask:
  fixes w :: "'a::len word"
  shows "unat (w AND NOT (mask n)) = unat w - unat w mod 2 ^ n"
proof -
  have "(w AND NOT (mask n)) + (w AND mask n) = w"
    using disjunctive_add_eq_or [of "w AND NOT (mask n)" "w AND mask n"]
    by (auto simp: bit_eq_iff bit_simps)
  then have "w AND NOT (mask n) = w - (w AND mask n)" by (metis add_diff_cancel_right')
  moreover have "w AND mask n \<le> w" by (simp add: word_le_nat_alt unat_AND_mask)
  ultimately show ?thesis by (simp add: unat_sub unat_AND_mask)
qed

lemma distinct_words_length:
  fixes xs :: "'a::len word list"
  assumes "distinct xs" and "0 \<notin> set xs"
  shows "length xs < 2 ^ LENGTH('a)"
proof -
  have "set xs \<subseteq> UNIV - {0}" using assms(2) by auto
  then have "card (set xs) \<le> card (UNIV - {0 :: 'a word})"
    by (intro card_mono) simp_all
  also have "\<dots> < 2 ^ LENGTH('a)"
    by (simp add: card_Diff_singleton card_word)
  finally show ?thesis using assms(1) by (simp add: distinct_card)
qed

section \<open>Ordered insertion\<close>

text \<open>
  The abstract effect of \<^verbatim>\<open>rt_list_insert_by\<close>: the new element goes before the first element
  it has precedence over, that is, after every element of the same rank.
\<close>

definition insert_by :: "('a \<Rightarrow> 'a \<Rightarrow> bool) \<Rightarrow> 'a \<Rightarrow> 'a list \<Rightarrow> 'a list" where
  "insert_by before x xs = takeWhile (\<lambda>y. \<not> before x y) xs @ x # dropWhile (\<lambda>y. \<not> before x y) xs"

text \<open>In order: no element has precedence over one that stands before it.\<close>

definition ordered_by :: "('a \<Rightarrow> 'a \<Rightarrow> bool) \<Rightarrow> 'a list \<Rightarrow> bool" where
  "ordered_by before xs = sorted_wrt (\<lambda>a b. \<not> before b a) xs"

lemma set_insert_by [simp]: "set (insert_by before x xs) = insert x (set xs)"
proof -
  have "set (takeWhile P xs) \<union> set (dropWhile P xs) = set xs" for P
    by (metis set_append takeWhile_dropWhile_id)
  then show ?thesis unfolding insert_by_def by auto
qed

lemma mset_insert_by: "mset (insert_by before x xs) = add_mset x (mset xs)"
proof -
  have "mset (takeWhile P xs) + mset (dropWhile P xs) = mset xs" for P
    by (metis mset_append takeWhile_dropWhile_id)
  then show ?thesis unfolding insert_by_def by simp
qed

lemma length_insert_by [simp]: "length (insert_by before x xs) = Suc (length xs)"
  by (metis mset_insert_by size_add_mset size_mset)

lemma distinct_insert_by [simp]: "distinct (insert_by before x xs) \<longleftrightarrow> x \<notin> set xs \<and> distinct xs"
proof -
  have "distinct (insert_by before x xs) = distinct (x # xs)"
    by (rule mset_eq_imp_distinct_iff) (simp add: mset_insert_by)
  then show ?thesis by simp
qed

lemma insert_by_nonempty [simp]: "insert_by before x xs \<noteq> []"
  by (simp add: insert_by_def)

lemma insert_by_cong:
  "(\<And>y. y \<in> set xs \<Longrightarrow> before x y = before' x y) \<Longrightarrow> insert_by before x xs = insert_by before' x xs"
  unfolding insert_by_def by (metis (mono_tags, lifting) dropWhile_cong takeWhile_cong)

lemma ordered_by_cong:
  "(\<And>a b. a \<in> set xs \<Longrightarrow> b \<in> set xs \<Longrightarrow> before a b = before' a b) \<Longrightarrow>
   ordered_by before xs = ordered_by before' xs"
  unfolding ordered_by_def by (induction xs) auto

lemma ordered_by_Cons:
  "ordered_by before (x # xs) \<longleftrightarrow> (\<forall>y \<in> set xs. \<not> before y x) \<and> ordered_by before xs"
  by (simp add: ordered_by_def)

lemma ordered_by_filter: "ordered_by before xs \<Longrightarrow> ordered_by before (filter P xs)"
  by (simp add: ordered_by_def sorted_wrt_filter)

lemma ordered_by_hd: "ordered_by before xs \<Longrightarrow> y \<in> set xs \<Longrightarrow> \<not> before (hd xs) (hd xs) \<Longrightarrow> \<not> before y (hd xs)"
  by (cases xs) (auto simp: ordered_by_def)

text \<open>
  What the list operations rely on from a comparator passed as a function pointer: it is a
  strict weak order, so that elements of the same rank are incomparable and rank is transitive.
\<close>

locale comparator =
  fixes before :: "'a \<Rightarrow> 'a \<Rightarrow> bool"
  assumes irrefl: "\<not> before a a"
    and trans: "before a b \<Longrightarrow> before b c \<Longrightarrow> before a c"
    and negtrans: "\<not> before a b \<Longrightarrow> \<not> before b c \<Longrightarrow> \<not> before a c"
begin

lemma asym: "before a b \<Longrightarrow> \<not> before b a"
  using irrefl trans by blast

lemma dropWhile_ranked:
  "ordered_by before xs \<Longrightarrow> b \<in> set (dropWhile (\<lambda>y. \<not> before x y) xs) \<Longrightarrow> before x b"
proof (induction xs)
  case (Cons c cs)
  then show ?case using negtrans [of x b c] by (auto simp: ordered_by_Cons split: if_splits)
qed simp

lemma ordered_insert_by:
  "ordered_by before xs \<Longrightarrow> ordered_by before (insert_by before x xs)"
proof (induction xs)
  case Nil
  then show ?case by (simp add: insert_by_def ordered_by_def)
next
  case (Cons c cs)
  then have IH: "ordered_by before (insert_by before x cs)" by (simp add: ordered_by_Cons)
  show ?case
  proof (cases "before x c")
    case True
    then have "insert_by before x (c # cs) = x # c # cs" by (simp add: insert_by_def)
    moreover have "\<not> before y x" if "y \<in> set cs" for y
      using that Cons.prems True trans [of y x c] by (auto simp: ordered_by_Cons)
    ultimately show ?thesis
      using Cons.prems asym [OF True] by (simp add: ordered_by_Cons)
  next
    case False
    then have "insert_by before x (c # cs) = c # insert_by before x cs"
      by (simp add: insert_by_def)
    then show ?thesis using IH False Cons.prems by (simp add: ordered_by_Cons)
  qed
qed

lemma hd_ordered_first:
  assumes "ordered_by before xs" and "y \<in> set xs"
  shows "\<not> before y (hd xs)"
  using assms irrefl by (rule ordered_by_hd)

lemma filter_insert_by_same_rank:
  assumes "ordered_by before xs"
  shows "filter (\<lambda>y. \<not> before x y \<and> \<not> before y x) (insert_by before x xs)
       = filter (\<lambda>y. \<not> before x y \<and> \<not> before y x) xs @ [x]"
proof -
  let ?P = "\<lambda>y. \<not> before x y \<and> \<not> before y x"
  let ?as = "takeWhile (\<lambda>y. \<not> before x y) xs" and ?bs = "dropWhile (\<lambda>y. \<not> before x y) xs"
  have "before x b" if "b \<in> set ?bs" for b using assms that by (rule dropWhile_ranked)
  then have bs: "filter ?P ?bs = []" unfolding filter_empty_conv by blast
  have "filter ?P (?as @ ?bs) = filter ?P ?as @ filter ?P ?bs" by (rule filter_append)
  then have "filter ?P xs = filter ?P ?as @ filter ?P ?bs"
    unfolding takeWhile_dropWhile_id .
  then have as: "filter ?P ?as = filter ?P xs"
    unfolding bs append_Nil2 by (rule sym)
  have "filter ?P (?as @ x # ?bs) = filter ?P ?as @ [x]"
    unfolding filter_append using bs irrefl by simp
  then show ?thesis unfolding as insert_by_def .
qed

end

text \<open>Ranking by a key gives such a comparator, in both directions.\<close>

interpretation key_less: comparator "\<lambda>a b. (f a :: 'b::linorder) < f b" for f
  by unfold_locales auto

interpretation key_greater: comparator "\<lambda>a b. (f a :: 'b::linorder) > f b" for f
  by unfold_locales auto

end
