(* ===== verification/Rt_List.thy ===== *)
theory Rt_List
  imports Muntos_Prelude
begin

text \<open>
  The intrusive circular doubly linked lists of \<^verbatim>\<open>src/list.c\<close> and
  \<^verbatim>\<open>include/muntos/list.h\<close>, on an explicit heap that maps the address of a
  \<^verbatim>\<open>struct rt_list\<close> to its two pointers, and the proof that each operation acts on the list
  of node addresses that a heap represents.
\<close>

section \<open>The code\<close>

record 'a rt_list =
  lprev :: 'a
  lnext :: 'a

type_synonym 'a list_heap = "'a \<Rightarrow> 'a rt_list"

definition set_prev :: "'a \<Rightarrow> 'a \<Rightarrow> 'a list_heap \<Rightarrow> 'a list_heap" where
  "set_prev p v h = h(p := (h p)\<lparr>lprev := v\<rparr>)"

definition set_next :: "'a \<Rightarrow> 'a \<Rightarrow> 'a list_heap \<Rightarrow> 'a list_heap" where
  "set_next p v h = h(p := (h p)\<lparr>lnext := v\<rparr>)"

definition rt_list_init :: "'a \<Rightarrow> 'a list_heap \<Rightarrow> 'a list_heap" where
  "rt_list_init lst h =
     (let h = set_prev lst lst h
      in set_next lst lst h)"

definition list_insert :: "'a \<Rightarrow> 'a \<Rightarrow> 'a \<Rightarrow> 'a list_heap \<Rightarrow> 'a list_heap" where
  "list_insert node prv nxt h =
     (let h = set_prev nxt node h;
          h = set_next prv node h;
          h = set_prev node prv h
      in set_next node nxt h)"

definition rt_list_insert_before :: "'a \<Rightarrow> 'a \<Rightarrow> 'a list_heap \<Rightarrow> 'a list_heap" where
  "rt_list_insert_before node nxt h = list_insert node (lprev (h nxt)) nxt h"

definition rt_list_push_front :: "'a \<Rightarrow> 'a \<Rightarrow> 'a list_heap \<Rightarrow> 'a list_heap" where
  "rt_list_push_front lst node h = list_insert node lst (lnext (h lst)) h"

definition rt_list_push_back :: "'a \<Rightarrow> 'a \<Rightarrow> 'a list_heap \<Rightarrow> 'a list_heap" where
  "rt_list_push_back lst node h = list_insert node (lprev (h lst)) lst h"

definition rt_list_remove :: "'a \<Rightarrow> 'a list_heap \<Rightarrow> 'a list_heap" where
  "rt_list_remove node h =
     (let nxt = lnext (h node); prv = lprev (h node);
          h = set_prev node node h;
          h = set_next node node h;
          h = set_prev nxt prv h
      in set_next prv nxt h)"

definition rt_list_is_empty :: "'a \<Rightarrow> 'a list_heap \<Rightarrow> bool" where
  "rt_list_is_empty lst h \<longleftrightarrow> lnext (h lst) = lst"

definition rt_list_front :: "'a \<Rightarrow> 'a list_heap \<Rightarrow> 'a" where
  "rt_list_front lst h = lnext (h lst)"

definition rt_list_pop_front :: "'a \<Rightarrow> 'a list_heap \<Rightarrow> 'a \<times> 'a list_heap" where
  "rt_list_pop_front lst h =
     (let front = rt_list_front lst h
      in (front, rt_list_remove front h))"

text \<open>
  The \<^verbatim>\<open>rt_list_for_each\<close> loop of \<^verbatim>\<open>rt_list_insert_by\<close>, from the successor reached so far.
  On a heap that is not a well-formed list it may run forever, and the comparator may be applied
  to an address that is not inside an object it can compare; both are the value \<^const>\<open>None\<close>.
\<close>

partial_function (option) find_successor ::
  "('a \<Rightarrow> 'a \<Rightarrow> bool option) \<Rightarrow> 'a \<Rightarrow> 'a \<Rightarrow> 'a list_heap \<Rightarrow> 'a \<Rightarrow> 'a option" where
  "find_successor cmp lst node h succ =
     (if succ \<noteq> lst then
        Option.bind (cmp node succ)
          (\<lambda>c. if c then Some succ else find_successor cmp lst node h (lnext (h succ)))
      else Some succ)"

definition rt_list_insert_by ::
  "'a \<Rightarrow> 'a \<Rightarrow> ('a \<Rightarrow> 'a \<Rightarrow> bool option) \<Rightarrow> 'a list_heap \<Rightarrow> 'a list_heap option" where
  "rt_list_insert_by lst node cmp h =
     do {
       succ \<leftarrow> find_successor cmp lst node h (rt_list_front lst h);
       Some (rt_list_insert_before node succ h)
     }"

definition rt_list_move_all :: "'a \<Rightarrow> 'a \<Rightarrow> 'a list_heap \<Rightarrow> 'a list_heap" where
  "rt_list_move_all dst src h =
     (let h = rt_list_insert_before dst src h
      in rt_list_remove src h)"

section \<open>Rings of nodes\<close>

lemma set_prev_apply [heap_simps]:
  "lprev (set_prev p v h a) = (if a = p then v else lprev (h a))"
  "lnext (set_prev p v h a) = lnext (h a)"
  by (simp_all add: set_prev_def)

lemma set_next_apply [heap_simps]:
  "lprev (set_next p v h a) = lprev (h a)"
  "lnext (set_next p v h a) = (if a = p then v else lnext (h a))"
  by (simp_all add: set_next_def)

lemma list_insert_apply [heap_simps]:
  "lprev (list_insert n p x h a) = (if a = n then p else if a = x then n else lprev (h a))"
  "lnext (list_insert n p x h a) = (if a = n then x else if a = p then n else lnext (h a))"
  by (simp_all add: list_insert_def Let_def heap_simps)

lemma rt_list_remove_apply [heap_simps]:
  "lprev (rt_list_remove n h a) =
     (if a = lnext (h n) then lprev (h n) else if a = n then n else lprev (h a))"
  "lnext (rt_list_remove n h a) =
     (if a = lprev (h n) then lnext (h n) else if a = n then n else lnext (h a))"
  by (simp_all add: rt_list_remove_def Let_def heap_simps)

text \<open>Every two neighbours of the path point at each other.\<close>

fun links :: "'a list_heap \<Rightarrow> 'a list \<Rightarrow> bool" where
  "links h (a # b # xs) \<longleftrightarrow> lnext (h a) = b \<and> lprev (h b) = a \<and> links h (b # xs)"
| "links h xs \<longleftrightarrow> True"

definition ring :: "'a list_heap \<Rightarrow> 'a list \<Rightarrow> bool" where
  "ring h zs \<longleftrightarrow> zs \<noteq> [] \<and> distinct zs \<and> links h (zs @ [hd zs])"

text \<open>The heap holds, under the list head \<open>lst\<close>, the list of nodes \<open>xs\<close>.\<close>

definition dlist :: "'a list_heap \<Rightarrow> 'a \<Rightarrow> 'a list \<Rightarrow> bool" where
  "dlist h lst xs \<longleftrightarrow> ring h (lst # xs)"

lemma links_append: "links h (xs @ a # ys) \<longleftrightarrow> links h (xs @ [a]) \<and> links h (a # ys)"
proof (induction xs)
  case (Cons x xs)
  then show ?case by (cases xs) auto
qed simp

lemma links_cong:
  assumes "\<And>a. a \<in> set (butlast zs) \<Longrightarrow> lnext (h' a) = lnext (h a)"
    and "\<And>a. a \<in> set (tl zs) \<Longrightarrow> lprev (h' a) = lprev (h a)"
  shows "links h' zs = links h zs"
  using assms
proof (induction zs rule: links.induct)
  case (1 h a b xs)
  have "links h' (b # xs) = links h (b # xs)"
    by (rule "1.IH") (use "1.prems" in \<open>auto split: if_splits dest: list.set_sel(2)\<close>)
  then show ?case using "1.prems"(1) [of a] "1.prems"(2) [of b] by simp
qed simp_all

lemma ring_rotate1: "ring h (a # xs) \<Longrightarrow> ring h (xs @ [a])"
proof (cases xs)
  case (Cons b ys)
  assume *: "ring h (a # xs)"
  then have l: "links h (a # b # ys @ [a])" and d: "distinct (a # b # ys)"
    by (simp_all add: ring_def Cons)
  have "links h ((b # ys) @ a # [b])"
    unfolding links_append [of h "b # ys" a "[b]"] using l by simp
  then show ?thesis using d by (auto simp: ring_def Cons)
qed simp

lemma ring_rotate: "ring h (xs @ ys) \<Longrightarrow> ring h (ys @ xs)"
proof (induction xs arbitrary: ys)
  case (Cons x xs)
  then have "ring h (xs @ ys @ [x])" using ring_rotate1 by fastforce
  from Cons.IH [OF this] show ?case by simp
qed simp

lemma ring_snoc:
  "ring h (ys @ [p]) \<longleftrightarrow>
     distinct (ys @ [p]) \<and> links h (ys @ [p]) \<and> links h [p, hd (ys @ [p])]"
  unfolding ring_def using links_append [of h ys p "[hd (ys @ [p])]"] by auto

lemma ring_neighbours:
  assumes "ring h (a # xs)"
  shows "lnext (h a) = hd (xs @ [a])" and "lprev (h a) = last (a # xs)"
proof -
  show "lnext (h a) = hd (xs @ [a])" using assms by (cases xs) (auto simp: ring_def)
  obtain ys p where yp: "a # xs = ys @ [p]" by (metis list.distinct(1) rev_exhaust)
  then have "a = hd (ys @ [p])" "p = last (a # xs)" by (metis list.sel(1), simp)
  moreover have "ring h (ys @ [p])" using assms yp by simp
  then have "lprev (h (hd (ys @ [p]))) = p" by (simp add: ring_snoc)
  ultimately show "lprev (h a) = last (a # xs)" by simp
qed

lemma ring_frame:
  assumes "ring h zs" and "\<And>a. a \<in> set zs \<Longrightarrow> h' a = h a"
  shows "ring h' zs"
proof -
  have "links h' (zs @ [hd zs]) = links h (zs @ [hd zs])"
    using assms by (intro links_cong) (auto simp: ring_def tl_append split: list.splits)
  then show ?thesis using assms(1) by (simp add: ring_def)
qed

lemma ring_insert:
  assumes "ring h (x # zs)" and "n \<notin> set (x # zs)"
  shows "ring (list_insert n (last (x # zs)) x h) (x # zs @ [n])"
proof -
  obtain ys p where yp: "x # zs = ys @ [p]" by (metis list.distinct(1) rev_exhaust)
  have p: "last (x # zs) = p" and x: "hd (ys @ [p]) = x"
    using yp by (simp, metis list.sel(1))
  let ?h = "list_insert n p x h"
  have d: "distinct (ys @ [p])" and l: "links h (ys @ [p])"
    using assms(1) by (simp_all add: yp ring_snoc)
  have "links ?h (ys @ [p]) = links h (ys @ [p])"
  proof (rule links_cong)
    show "lnext (?h a) = lnext (h a)" if "a \<in> set (butlast (ys @ [p]))" for a
      using that d assms(2) by (auto simp: heap_simps yp)
    show "lprev (?h a) = lprev (h a)" if "a \<in> set (tl (ys @ [p]))" for a
    proof -
      have "a \<in> set zs" using that yp by (metis list.sel(3))
      then show ?thesis using assms by (auto simp: heap_simps ring_def)
    qed
  qed
  then have "links ?h ((ys @ [p]) @ [n])"
    using l assms(2) links_append [of ?h ys p "[n]"] by (auto simp: heap_simps yp)
  moreover have "links ?h [n, x]" using assms(2) by (auto simp: heap_simps)
  ultimately have "ring ?h ((ys @ [p]) @ [n])"
    unfolding ring_snoc using d x assms(2) by (auto simp: yp hd_append)
  then show ?thesis using yp p by (metis append_Cons)
qed

lemma ring_remove:
  assumes "ring h (x # zs)" and "zs \<noteq> []"
  shows "ring (rt_list_remove x h) zs"
proof -
  let ?h = "rt_list_remove x h"
  obtain ys p where yp: "zs = ys @ [p]" using assms(2) by (metis rev_exhaust)
  have nx: "lnext (h x) = hd zs" and pv: "lprev (h x) = p"
    using ring_neighbours [OF assms(1)] by (simp_all add: yp hd_append)
  have d: "distinct (x # ys @ [p])" using assms(1) by (simp add: ring_def yp)
  have "links h (x # ys @ [p])"
    using assms(1) ring_snoc [of h "x # ys" p] by (simp add: yp)
  then have l: "links h (ys @ [p])" by (cases ys) auto
  have "links ?h (ys @ [p]) = links h (ys @ [p])"
  proof (rule links_cong)
    show "lnext (?h a) = lnext (h a)" if "a \<in> set (butlast (ys @ [p]))" for a
      using that d by (auto simp: heap_simps pv)
    show "lprev (?h a) = lprev (h a)" if "a \<in> set (tl (ys @ [p]))" for a
    proof -
      have "a \<noteq> x" "a \<noteq> hd zs" using that d by (auto simp: yp tl_append hd_append split: list.splits)
      then show ?thesis by (simp add: heap_simps nx)
    qed
  qed
  moreover have "links ?h [p, hd zs]" using d by (simp add: heap_simps nx pv)
  ultimately show ?thesis using l d unfolding yp ring_snoc by simp
qed

section \<open>What each operation does to a list\<close>

lemma list_heap_eqI:
  fixes h k :: "'a list_heap"
  shows "lprev (h a) = lprev (k b) \<Longrightarrow> lnext (h a) = lnext (k b) \<Longrightarrow> h a = k b"
  by (rule rt_list.equality) simp_all

lemma dlist_distinct: "dlist h lst xs \<Longrightarrow> distinct (lst # xs)"
  by (simp add: dlist_def ring_def)

lemma dlist_Nil: "dlist h lst [] \<longleftrightarrow> lnext (h lst) = lst \<and> lprev (h lst) = lst"
  by (simp add: dlist_def ring_def)

lemma dlist_frame: "dlist h lst xs \<Longrightarrow> (\<And>a. a \<in> set (lst # xs) \<Longrightarrow> h' a = h a) \<Longrightarrow> dlist h' lst xs"
  unfolding dlist_def by (rule ring_frame) auto

lemma dlist_unique: "dlist h lst xs \<Longrightarrow> dlist h lst ys \<Longrightarrow> xs = ys"
proof -
  have "links h (a # xs @ [lst]) \<Longrightarrow> links h (a # ys @ [lst]) \<Longrightarrow> lst \<notin> set xs \<Longrightarrow>
      lst \<notin> set ys \<Longrightarrow> xs = ys" for a
  proof (induction xs arbitrary: a ys)
    case Nil
    then show ?case by (cases ys) auto
  next
    case (Cons x xs)
    then show ?case by (cases ys) auto
  qed
  then show "dlist h lst xs \<Longrightarrow> dlist h lst ys \<Longrightarrow> xs = ys"
    by (auto simp: dlist_def ring_def)
qed

lemma rt_list_init_spec: "dlist (rt_list_init lst h) lst []"
  by (simp add: dlist_Nil rt_list_init_def Let_def heap_simps)

lemma rt_list_init_frame: "a \<noteq> lst \<Longrightarrow> rt_list_init lst h a = h a"
  by (rule list_heap_eqI) (simp_all add: rt_list_init_def Let_def heap_simps)

lemma rt_list_is_empty_spec: "dlist h lst xs \<Longrightarrow> rt_list_is_empty lst h \<longleftrightarrow> xs = []"
  using ring_neighbours(1) [of h lst xs]
  by (cases xs) (auto simp: dlist_def ring_def rt_list_is_empty_def)

lemma rt_list_front_spec: "dlist h lst xs \<Longrightarrow> rt_list_front lst h = hd (xs @ [lst])"
  using ring_neighbours(1) [of h lst xs] by (simp add: dlist_def rt_list_front_def)

lemma list_insert_frame:
  "a \<notin> {n, p, x} \<Longrightarrow> list_insert n p x h a = h a"
  by (rule list_heap_eqI) (simp_all add: heap_simps)

text \<open>Inserting before a node of the ring, the list head included.\<close>

lemma rt_list_insert_before_spec:
  assumes "dlist h lst (as @ bs)" and "n \<notin> set (lst # as @ bs)"
  shows "dlist (rt_list_insert_before n (hd (bs @ [lst])) h) lst (as @ n # bs)"
proof (cases bs)
  case Nil
  have "ring h (lst # as)" using assms(1) by (simp add: dlist_def Nil)
  from ring_insert [OF this] ring_neighbours(2) [OF this] show ?thesis
    using assms(2) by (simp add: rt_list_insert_before_def dlist_def Nil)
next
  case (Cons b cs)
  have "ring h ((b # cs) @ lst # as)"
    using assms(1) ring_rotate [of h "lst # as" "b # cs"] by (simp add: dlist_def Cons)
  then have r: "ring h (b # cs @ lst # as)" by simp
  have "ring (rt_list_insert_before n b h) (b # (cs @ lst # as) @ [n])"
    using ring_insert [OF r] ring_neighbours(2) [OF r] assms(2)
    by (auto simp: rt_list_insert_before_def Cons)
  then have "ring (rt_list_insert_before n b h) ((b # cs) @ (lst # as @ [n]))" by simp
  from ring_rotate [OF this] show ?thesis by (simp add: dlist_def Cons)
qed

lemma rt_list_insert_before_frame:
  assumes "dlist h lst xs" and "x \<in> set (lst # xs)" and "a \<notin> set (n # lst # xs)"
  shows "rt_list_insert_before n x h a = h a"
proof -
  obtain us vs where uv: "lst # xs = us @ x # vs" using assms(2) by (meson split_list)
  then have "ring h ((x # vs) @ us)"
    using assms(1) ring_rotate [of h us "x # vs"] by (simp add: dlist_def)
  then have "lprev (h x) = last (x # vs @ us)" using ring_neighbours(2) [of h x "vs @ us"] by simp
  then have "lprev (h x) \<in> set (x # vs @ us)" by (metis last_in_set list.distinct(1))
  also have "set (x # vs @ us) = set (lst # xs)" unfolding uv by auto
  finally have "a \<notin> {n, lprev (h x), x}" using assms(2,3) by auto
  then show ?thesis unfolding rt_list_insert_before_def by (rule list_insert_frame)
qed

lemma rt_list_push_back_spec:
  "dlist h lst xs \<Longrightarrow> n \<notin> set (lst # xs) \<Longrightarrow> dlist (rt_list_push_back lst n h) lst (xs @ [n])"
  using rt_list_insert_before_spec [of h lst xs "[]" n]
  by (simp add: rt_list_push_back_def rt_list_insert_before_def)

lemma rt_list_push_front_spec:
  assumes "dlist h lst xs" and "n \<notin> set (lst # xs)"
  shows "dlist (rt_list_push_front lst n h) lst (n # xs)"
proof -
  have "lprev (h (hd (xs @ [lst]))) = lst"
    using assms(1) by (cases xs) (auto simp: dlist_def ring_def)
  then have "rt_list_push_front lst n h = rt_list_insert_before n (hd (xs @ [lst])) h"
    using rt_list_front_spec [OF assms(1)]
    by (simp add: rt_list_push_front_def rt_list_insert_before_def rt_list_front_def)
  with rt_list_insert_before_spec [of h lst "[]" xs n] assms show ?thesis by simp
qed

text \<open>Removing a node leaves it linked to itself, so that removing it again changes nothing.\<close>

lemma rt_list_remove_spec:
  assumes "dlist h lst (as @ n # bs)"
  shows "dlist (rt_list_remove n h) lst (as @ bs)"
proof -
  have "ring h (n # bs @ lst # as)"
    using assms ring_rotate [of h "lst # as" "n # bs"] by (simp add: dlist_def)
  then have "ring (rt_list_remove n h) (bs @ lst # as)" by (rule ring_remove) simp
  from ring_rotate [OF this] show ?thesis by (simp add: dlist_def)
qed

lemma rt_list_remove_neighbours:
  assumes "dlist h lst xs" and "n \<in> set (lst # xs)"
  shows "lnext (h n) \<in> set (lst # xs)" and "lprev (h n) \<in> set (lst # xs)"
    and "lnext (h n) = n \<longleftrightarrow> xs = []" and "lprev (h n) = n \<longleftrightarrow> xs = []"
proof -
  obtain us vs where uv: "lst # xs = us @ n # vs" using assms(2) by (meson split_list)
  then have r: "ring h (n # vs @ us)"
    using assms(1) ring_rotate [of h us "n # vs"] by (simp add: dlist_def)
  have s: "set (lst # xs) = set (n # vs @ us)" unfolding uv by auto
  have e: "xs = [] \<longleftrightarrow> vs @ us = []"
    using uv by (metis Nil_is_append_conv append_eq_Cons_conv list.sel(3) append_Nil)
  note nb = ring_neighbours [OF r]
  show "lnext (h n) \<in> set (lst # xs)" unfolding s nb(1) by (cases "vs @ us") auto
  show "lprev (h n) \<in> set (lst # xs)" unfolding s nb(2) by (rule last_in_set) simp
  have d: "distinct (n # vs @ us)" using r by (simp add: ring_def)
  show "lnext (h n) = n \<longleftrightarrow> xs = []" unfolding e nb(1) using d by (cases "vs @ us") auto
  show "lprev (h n) = n \<longleftrightarrow> xs = []"
    unfolding e nb(2) using d by (metis distinct.simps(2) last.simps last_in_set)
qed

lemma rt_list_remove_detaches:
  assumes "dlist h lst xs" and "n \<in> set (lst # xs)"
  shows "dlist (rt_list_remove n h) n []"
  using rt_list_remove_neighbours [OF assms] by (auto simp: dlist_Nil heap_simps)

lemma rt_list_remove_frame:
  assumes "dlist h lst xs" and "n \<in> set (lst # xs)" and "a \<notin> set (lst # xs)"
  shows "rt_list_remove n h a = h a"
proof (rule list_heap_eqI)
  have "a \<noteq> n" "a \<noteq> lnext (h n)" "a \<noteq> lprev (h n)"
    using rt_list_remove_neighbours [OF assms(1,2)] assms(2,3) by metis+
  then show "lprev (rt_list_remove n h a) = lprev (h a)" "lnext (rt_list_remove n h a) = lnext (h a)"
    by (simp_all add: heap_simps)
qed

lemma rt_list_remove_detached: "dlist h n [] \<Longrightarrow> rt_list_remove n h = h"
  by (rule ext, rule list_heap_eqI) (auto simp: dlist_Nil heap_simps)

lemma rt_list_pop_front_spec:
  assumes "dlist h lst (x # xs)"
  shows "rt_list_pop_front lst h = (x, rt_list_remove x h)"
    and "dlist (rt_list_remove x h) lst xs"
  using rt_list_front_spec [OF assms] rt_list_remove_spec [of h lst "[]" x xs] assms
  by (simp_all add: rt_list_pop_front_def Let_def)

lemma find_successor_spec:
  assumes "dlist h lst (as @ bs)"
    and "\<And>x. x \<in> set bs \<Longrightarrow> cmp n x = Some (before x)"
  shows "find_successor cmp lst n h (hd (bs @ [lst]))
       = Some (hd (dropWhile (\<lambda>x. \<not> before x) bs @ [lst]))"
  using assms
proof (induction bs arbitrary: as)
  case Nil
  then show ?case by (simp add: find_successor.simps)
next
  case (Cons b bs)
  have b: "b \<noteq> lst" using dlist_distinct [OF Cons.prems(1)] by auto
  have "ring h (b # bs @ lst # as)"
    using Cons.prems(1) ring_rotate [of h "lst # as" "b # bs"] by (simp add: dlist_def)
  from ring_neighbours(1) [OF this] have nx: "lnext (h b) = hd (bs @ [lst])"
    by (cases bs) auto
  have "find_successor cmp lst n h (hd (bs @ [lst]))
      = Some (hd (dropWhile (\<lambda>x. \<not> before x) bs @ [lst]))"
    using Cons.prems by (intro Cons.IH [of "as @ [b]"]) auto
  then show ?case
    using b nx Cons.prems(2) [of b] by (simp add: find_successor.simps [of cmp lst n h b])
qed

lemma rt_list_insert_by_spec:
  assumes "dlist h lst xs" and "n \<notin> set (lst # xs)"
    and "\<And>x. x \<in> set xs \<Longrightarrow> cmp n x = Some (before n x)"
  shows "\<exists>h'. rt_list_insert_by lst n cmp h = Some h' \<and> dlist h' lst (insert_by before n xs) \<and>
     (\<forall>a. a \<notin> set (n # lst # xs) \<longrightarrow> h' a = h a)"
proof -
  let ?as = "takeWhile (\<lambda>x. \<not> before n x) xs" and ?bs = "dropWhile (\<lambda>x. \<not> before n x) xs"
  let ?succ = "hd (?bs @ [lst])"
  have ab: "dlist h lst (?as @ ?bs)" "n \<notin> set (lst # ?as @ ?bs)" using assms(1,2) by simp_all
  have "find_successor cmp lst n h (rt_list_front lst h) = Some ?succ"
    using find_successor_spec [of h lst "[]" xs cmp n "before n"] assms(1,3)
    by (simp add: rt_list_front_spec)
  then have "rt_list_insert_by lst n cmp h = Some (rt_list_insert_before n ?succ h)"
    by (simp add: rt_list_insert_by_def)
  moreover have "dlist (rt_list_insert_before n ?succ h) lst (insert_by before n xs)"
    using rt_list_insert_before_spec [OF ab] by (simp add: insert_by_def)
  moreover have "?succ \<in> set (lst # xs)"
  proof (cases ?bs)
    case (Cons b bs)
    then have "b \<in> set xs" by (metis list.set_intros(1) set_dropWhileD)
    then show ?thesis by (simp add: Cons)
  qed (simp only: append_Nil list.sel list.set, simp)
  ultimately show ?thesis using rt_list_insert_before_frame [OF assms(1)] by blast
qed

lemma rt_list_move_all_spec:
  assumes "dlist h src xs" and "dst \<notin> set (src # xs)"
  shows "dlist (rt_list_move_all dst src h) dst xs" and "dlist (rt_list_move_all dst src h) src []"
proof -
  let ?h = "rt_list_insert_before dst src h"
  have d: "dlist ?h src (xs @ [dst])"
    using rt_list_insert_before_spec [of h src xs "[]" dst] assms by simp
  then have "ring ?h (src # xs @ [dst])" by (simp add: dlist_def)
  then have "ring (rt_list_remove src ?h) (xs @ [dst])" by (rule ring_remove) simp
  from ring_rotate [OF this] show "dlist (rt_list_move_all dst src h) dst xs"
    by (simp add: dlist_def rt_list_move_all_def Let_def)
  show "dlist (rt_list_move_all dst src h) src []"
    using rt_list_remove_detaches [OF d, of src] by (simp add: rt_list_move_all_def Let_def)
qed

section \<open>The interface: disjoint lists in one heap\<close>

text \<open>
  A client keeps several lists in one heap: \<open>L\<close> maps each list head to the nodes it holds. A
  node that is linked to itself is a head of an empty list, so a detached node that the code may
  remove again is a head of \<open>L\<close> as well.
\<close>

definition lists_at ::
  "('h \<Rightarrow> 'a \<Rightarrow> 'a list \<Rightarrow> bool) \<Rightarrow> 'h \<Rightarrow> ('a \<rightharpoonup> 'a list) \<Rightarrow> bool" where
  "lists_at holds h L \<longleftrightarrow>
     (\<forall>l xs. L l = Some xs \<longrightarrow> holds h l xs) \<and>
     (\<forall>l xs l' xs'. L l = Some xs \<longrightarrow> L l' = Some xs' \<longrightarrow> l \<noteq> l' \<longrightarrow>
        set (l # xs) \<inter> set (l' # xs') = {})"

text \<open>No list other than the one a detached node heads itself has the node.\<close>

definition unlisted :: "('a \<rightharpoonup> 'a list) \<Rightarrow> 'a \<Rightarrow> bool" where
  "unlisted L n \<longleftrightarrow> (L n = None \<or> L n = Some []) \<and> (\<forall>l xs. L l = Some xs \<longrightarrow> n \<notin> set xs)"

lemma lists_at_holds: "lists_at holds h L \<Longrightarrow> L l = Some xs \<Longrightarrow> holds h l xs"
  by (simp add: lists_at_def)

lemma lists_at_disjoint:
  "lists_at holds h L \<Longrightarrow> L l = Some xs \<Longrightarrow> L l' = Some xs' \<Longrightarrow> l \<noteq> l' \<Longrightarrow>
   set (l # xs) \<inter> set (l' # xs') = {}"
  unfolding lists_at_def by blast

lemma lists_at_forget:
  "lists_at holds h L \<Longrightarrow> (\<And>l xs. L' l = Some xs \<Longrightarrow> L l = Some xs) \<Longrightarrow> lists_at holds h L'"
  unfolding lists_at_def by blast

locale node_lists =
  fixes holds :: "'h \<Rightarrow> 'a \<Rightarrow> 'a list \<Rightarrow> bool"
    and init :: "'a \<Rightarrow> 'h \<Rightarrow> 'h"
    and remove :: "'a \<Rightarrow> 'h \<Rightarrow> 'h"
    and insert_in :: "'a \<Rightarrow> 'a \<Rightarrow> ('a \<Rightarrow> 'a \<Rightarrow> bool option) \<Rightarrow> 'h \<Rightarrow> 'h option"
  assumes holds_distinct: "holds h l xs \<Longrightarrow> distinct (l # xs)"
    and init_holds: "holds (init l h) l []"
    and init_other: "holds h l xs \<Longrightarrow> n \<notin> set (l # xs) \<Longrightarrow> holds (init n h) l xs"
    and remove_holds: "holds h l (as @ n # bs) \<Longrightarrow> holds (remove n h) l (as @ bs)"
    and remove_detached: "holds h n [] \<Longrightarrow> remove n h = h"
    and remove_detaches: "holds h l xs \<Longrightarrow> n \<in> set xs \<Longrightarrow> holds (remove n h) n []"
    and remove_other: "holds h l xs \<Longrightarrow> n \<in> set xs \<Longrightarrow> holds h l' ys \<Longrightarrow>
      set (l # xs) \<inter> set (l' # ys) = {} \<Longrightarrow> holds (remove n h) l' ys"
    and insert_holds: "holds h l xs \<Longrightarrow> n \<notin> set (l # xs) \<Longrightarrow>
      (\<And>x. x \<in> set xs \<Longrightarrow> cmp n x = Some (before n x)) \<Longrightarrow>
      \<exists>h'. insert_in l n cmp h = Some h' \<and> holds h' l (insert_by before n xs) \<and>
        (\<forall>l' ys. holds h l' ys \<longrightarrow> set (l' # ys) \<inter> set (n # l # xs) = {} \<longrightarrow> holds h' l' ys)"
begin

lemma init_lists:
  assumes L: "lists_at holds h L" and n: "unlisted L n"
  shows "lists_at holds (init n h) (L(n \<mapsto> []))"
proof -
  have "holds (init n h) l xs" if "(L(n \<mapsto> [])) l = Some xs" for l xs
  proof (cases "l = n")
    case True
    with that show ?thesis by (simp add: init_holds)
  next
    case False
    with that n have "holds h l xs" "n \<notin> set (l # xs)"
      using lists_at_holds [OF L] by (auto simp: unlisted_def)
    then show ?thesis by (rule init_other)
  qed
  moreover have "set (l # xs) \<inter> set (l' # xs') = {}"
    if "(L(n \<mapsto> [])) l = Some xs" "(L(n \<mapsto> [])) l' = Some xs'" "l \<noteq> l'" for l xs l' xs'
    using that n lists_at_disjoint [OF L, of l xs l' xs'] by (auto simp: unlisted_def split: if_splits)
  ultimately show ?thesis unfolding lists_at_def by blast
qed

lemma remove_lists:
  assumes L: "lists_at holds h L" and l: "L l = Some (as @ n # bs)"
  shows "lists_at holds (remove n h) (L(l \<mapsto> as @ bs, n \<mapsto> []))" (is "lists_at _ _ ?L")
proof -
  have hl: "holds h l (as @ n # bs)" using L l by (rule lists_at_holds)
  note d = holds_distinct [OF hl]
  have Ln: "L n = None"
    using lists_at_disjoint [OF L l, of n] d by (cases "L n") fastforce+
  have other: "set (l # as @ n # bs) \<inter> set (l' # xs) = {}" if "L l' = Some xs" "l' \<noteq> l" for l' xs
    using lists_at_disjoint [OF L l that(1)] that(2) by simp
  have "holds (remove n h) l' xs" if "?L l' = Some xs" for l' xs
  proof (cases "l' = n \<or> l' = l")
    case True
    then show ?thesis
      using that d remove_holds [OF hl] remove_detaches [OF hl] by (auto split: if_splits)
  next
    case False
    with that have "L l' = Some xs" by simp
    then show ?thesis
      using False by (intro remove_other [OF hl] lists_at_holds [OF L] other) simp_all
  qed
  moreover have "set (l1 # xs) \<inter> set (l2 # ys) = {}"
    if "?L l1 = Some xs" "?L l2 = Some ys" "l1 \<noteq> l2" for l1 xs l2 ys
    using that d Ln other [of l1 xs] other [of l2 ys] lists_at_disjoint [OF L, of l1 xs l2 ys]
    by (auto split: if_splits)
  ultimately show ?thesis unfolding lists_at_def by blast
qed

lemma insert_lists:
  assumes L: "lists_at holds h L" and l: "L l = Some xs" and n: "unlisted L n" "n \<noteq> l"
    and cmp: "\<And>x. x \<in> set xs \<Longrightarrow> cmp n x = Some (before n x)"
  shows "\<exists>h'. insert_in l n cmp h = Some h' \<and>
     lists_at holds h' (L(n := None, l \<mapsto> insert_by before n xs))"
proof -
  let ?L = "L(n := None, l \<mapsto> insert_by before n xs)"
  have hl: "holds h l xs" using L l by (rule lists_at_holds)
  have nl: "n \<notin> set (l # xs)" using n l by (auto simp: unlisted_def)
  from insert_holds [OF hl nl, of cmp before] cmp
  obtain h' where h': "insert_in l n cmp h = Some h'" "holds h' l (insert_by before n xs)"
    and fr: "\<And>l' ys. holds h l' ys \<Longrightarrow> set (l' # ys) \<inter> set (n # l # xs) = {} \<Longrightarrow> holds h' l' ys"
    by blast
  have other: "set (l' # ys) \<inter> set (n # l # xs) = {}" if "L l' = Some ys" "l' \<noteq> l" "l' \<noteq> n" for l' ys
    using lists_at_disjoint [OF L l that(1)] that n by (auto simp: unlisted_def)
  have "holds h' l' ys" if "?L l' = Some ys" for l' ys
    using that h'(2) other [of l' ys] fr [of l' ys] lists_at_holds [OF L, of l' ys]
    by (auto split: if_splits)
  moreover have "set (l1 # ys) \<inter> set (l2 # zs) = {}"
    if "?L l1 = Some ys" "?L l2 = Some zs" "l1 \<noteq> l2" for l1 ys l2 zs
    using that other [of l1 ys] other [of l2 zs] lists_at_disjoint [OF L, of l1 ys l2 zs]
    by (auto split: if_splits)
  ultimately show ?thesis using h'(1) unfolding lists_at_def by blast
qed

end

interpretation rt_lists: node_lists dlist rt_list_init rt_list_remove rt_list_insert_by
proof unfold_locales
  show "distinct (l # xs)" if "dlist h l xs" for h :: "'a list_heap" and l xs
    using that by (rule dlist_distinct)
  show "dlist (rt_list_init l h) l []" for l :: 'a and h by (rule rt_list_init_spec)
  show "dlist (rt_list_init n h) l xs" if "dlist h l xs" "n \<notin> set (l # xs)"
    for h :: "'a list_heap" and l xs n
    using that by (intro dlist_frame [OF that(1)] rt_list_init_frame) auto
  show "dlist (rt_list_remove n h) l (as @ bs)" if "dlist h l (as @ n # bs)"
    for h :: "'a list_heap" and l as n bs
    using that by (rule rt_list_remove_spec)
  show "rt_list_remove n h = h" if "dlist h n []" for h :: "'a list_heap" and n
    using that by (rule rt_list_remove_detached)
  show "dlist (rt_list_remove n h) n []" if "dlist h l xs" "n \<in> set xs"
    for h :: "'a list_heap" and l xs n
    using that by (intro rt_list_remove_detaches [OF that(1)]) simp
  show "dlist (rt_list_remove n h) l' ys"
    if "dlist h l xs" "n \<in> set xs" "dlist h l' ys" "set (l # xs) \<inter> set (l' # ys) = {}"
    for h :: "'a list_heap" and l xs n l' ys
    by (rule dlist_frame [OF that(3)], rule rt_list_remove_frame [OF that(1)])
      (use that in auto)
  show "\<exists>h'. rt_list_insert_by l n cmp h = Some h' \<and> dlist h' l (insert_by before n xs) \<and>
        (\<forall>l' ys. dlist h l' ys \<longrightarrow> set (l' # ys) \<inter> set (n # l # xs) = {} \<longrightarrow> dlist h' l' ys)"
    if "dlist h l xs" "n \<notin> set (l # xs)" "\<And>x. x \<in> set xs \<Longrightarrow> cmp n x = Some (before n x)"
    for h :: "'a list_heap" and l xs n cmp before
  proof -
    from rt_list_insert_by_spec [of h l xs n cmp before] that obtain h'
      where h': "rt_list_insert_by l n cmp h = Some h'" "dlist h' l (insert_by before n xs)"
        and fr: "\<forall>a. a \<notin> set (n # l # xs) \<longrightarrow> h' a = h a" by blast
    have "dlist h' l' ys" if "dlist h l' ys" "set (l' # ys) \<inter> set (n # l # xs) = {}" for l' ys
      by (rule dlist_frame [OF that(1)]) (use fr that(2) in blast)
    with h' show ?thesis by blast
  qed
qed

end
