(* ===== verification/Rt_Types.thy ===== *)
theory Rt_Types
  imports Rt_List
begin

text \<open>
  The data of the kernel: task control blocks (\<^verbatim>\<open>include/muntos/task.h\<close>), system call
  records (\<^verbatim>\<open>include/muntos/syscall.h\<close>), semaphores (\<^verbatim>\<open>include/muntos/sem.h\<close>) and the
  static variables of \<^verbatim>\<open>src/muntos.c\<close>, gathered in one record.

  Objects are addressed by identifiers. A \<^verbatim>\<open>struct rt_list\<close> embedded in an object is a value
  of \<open>node\<close> that says which object and which member it is, so that \<^verbatim>\<open>rt_container_of\<close> is the
  partial inverse of taking a member's address: applied to anything else it is undefined
  behaviour, which the model makes the value \<^const>\<open>None\<close>.
\<close>

section \<open>Identifiers and addresses\<close>

text \<open>A pointer to a task is the static \<^verbatim>\<open>idle_task\<close> or some other 32-bit address.\<close>

datatype task_id = Idle_task | Task u32

type_synonym sem_id = u32

abbreviation NULL :: u32 where
  "NULL \<equiv> 0"

datatype node =
    Null_list
  | Ready_list
  | Sleep_list
  | Wait_list sem_id
  | Task_list task_id
  | Task_sleep_list task_id

datatype rec_id = Tick_record | Task_record task_id | Post_record sem_id

fun task_from_list :: "node \<Rightarrow> task_id option" where
  "task_from_list (Task_list t) = Some t"
| "task_from_list _ = None"

fun task_from_sleep_list :: "node \<Rightarrow> task_id option" where
  "task_from_sleep_list (Task_sleep_list t) = Some t"
| "task_from_sleep_list _ = None"

fun task_from_record :: "rec_id \<Rightarrow> task_id option" where
  "task_from_record (Task_record t) = Some t"
| "task_from_record _ = None"

section \<open>System call records\<close>

datatype rt_syscall =
    RT_SYSCALL_TICK
  | RT_SYSCALL_EXIT
  | RT_SYSCALL_SLEEP
  | RT_SYSCALL_SLEEP_PERIODIC
  | RT_SYSCALL_SEM_WAIT
  | RT_SYSCALL_SEM_TIMEDWAIT
  | RT_SYSCALL_SEM_POST
  | RT_SYSCALL_TASK_READY

text \<open>
  The union of arguments. Reading a member other than the one last stored is the value
  \<^const>\<open>None\<close> of the selectors below.
\<close>

datatype rt_syscall_args =
    No_args
  | Sleep ulong
  | Sleep_periodic ulong ulong
  | Sem_wait sem_id
  | Sem_timedwait sem_id ulong
  | Sem_post sem_id int

fun sleep_args :: "rt_syscall_args \<Rightarrow> ulong option" where
  "sleep_args (Sleep ticks) = Some ticks"
| "sleep_args _ = None"

fun sleep_periodic_args :: "rt_syscall_args \<Rightarrow> (ulong \<times> ulong) option" where
  "sleep_periodic_args (Sleep_periodic last_wake_tick period) = Some (last_wake_tick, period)"
| "sleep_periodic_args _ = None"

fun sem_wait_args :: "rt_syscall_args \<Rightarrow> sem_id option" where
  "sem_wait_args (Sem_wait sem) = Some sem"
| "sem_wait_args _ = None"

fun sem_timedwait_args :: "rt_syscall_args \<Rightarrow> (sem_id \<times> ulong) option" where
  "sem_timedwait_args (Sem_timedwait sem ticks) = Some (sem, ticks)"
| "sem_timedwait_args _ = None"

fun sem_post_args :: "rt_syscall_args \<Rightarrow> (sem_id \<times> int) option" where
  "sem_post_args (Sem_post sem n) = Some (sem, n)"
| "sem_post_args _ = None"

record rt_syscall_record =
  next_record :: "rec_id option"
  args :: rt_syscall_args
  syscall :: rt_syscall

section \<open>Tasks and semaphores\<close>

datatype rt_task_state =
    RT_TASK_STATE_RUNNING
  | RT_TASK_STATE_READY
  | RT_TASK_STATE_BLOCKED
  | RT_TASK_STATE_BLOCKED_TIMEOUT
  | RT_TASK_STATE_ASLEEP
  | RT_TASK_STATE_EXITED

text \<open>
  The members \<^verbatim>\<open>list\<close> and \<^verbatim>\<open>sleep_list\<close> are the nodes \<^const>\<open>Task_list\<close> and
  \<^const>\<open>Task_sleep_list\<close> of the list heap. Cycle counts and the MPU configuration are compiled
  out (\<^verbatim>\<open>RT_TASK_ENABLE_CYCLE\<close> and \<^verbatim>\<open>RT_MPU_ENABLE\<close> are 0 by default).
\<close>

record rt_task =
  ctx :: u32
  wake_tick :: ulong
  task_record :: rt_syscall_record
  task_name :: string
  priority :: u32
  task_state :: rt_task_state

text \<open>The member \<^verbatim>\<open>wait_list\<close> is the node \<^const>\<open>Wait_list\<close> of the list heap.\<close>

record rt_sem =
  post_record :: rt_syscall_record
  sem_value :: int
  max_value :: int
  num_waiters :: size_t
  post_pending :: bool

section \<open>The kernel state\<close>

text \<open>
  The static variables of \<^verbatim>\<open>src/muntos.c\<close>, the memory of the tasks, semaphores and list nodes,
  and two facts about the processor: whether the system call interrupt is pending
  (\<^verbatim>\<open>rt_syscall_pend\<close> sets it) and whether an interrupt handler runs
  (\<^verbatim>\<open>rt_interrupt_is_active\<close> reads it).
\<close>

record kernel =
  nodes :: "node list_heap"
  tasks :: "task_id \<Rightarrow> rt_task"
  sems :: "sem_id \<Rightarrow> rt_sem"
  tick_record :: rt_syscall_record
  pending_syscalls :: "rec_id option"
  active_task :: task_id
  rt_context_prev :: "task_id option"
  woken_tick :: ulong
  tick :: ulong
  tick_pending :: bool
  syscall_pended :: bool
  interrupt_active :: bool

abbreviation task :: "kernel \<Rightarrow> task_id \<Rightarrow> rt_task" where
  "task s t \<equiv> tasks s t"

abbreviation sem :: "kernel \<Rightarrow> sem_id \<Rightarrow> rt_sem" where
  "sem s m \<equiv> sems s m"

definition upd_task :: "task_id \<Rightarrow> (rt_task \<Rightarrow> rt_task) \<Rightarrow> kernel \<Rightarrow> kernel" where
  "upd_task t f s = s\<lparr>tasks := (tasks s)(t := f (tasks s t))\<rparr>"

definition upd_sem :: "sem_id \<Rightarrow> (rt_sem \<Rightarrow> rt_sem) \<Rightarrow> kernel \<Rightarrow> kernel" where
  "upd_sem m f s = s\<lparr>sems := (sems s)(m := f (sems s m))\<rparr>"

definition upd_nodes :: "(node list_heap \<Rightarrow> node list_heap) \<Rightarrow> kernel \<Rightarrow> kernel" where
  "upd_nodes f s = s\<lparr>nodes := f (nodes s)\<rparr>"

definition set_state :: "task_id \<Rightarrow> rt_task_state \<Rightarrow> kernel \<Rightarrow> kernel" where
  "set_state t st = upd_task t (task_state_update (\<lambda>_. st))"

fun get_record :: "kernel \<Rightarrow> rec_id \<Rightarrow> rt_syscall_record" where
  "get_record s Tick_record = tick_record s"
| "get_record s (Task_record t) = task_record (task s t)"
| "get_record s (Post_record m) = post_record (sem s m)"

fun upd_record :: "rec_id \<Rightarrow> (rt_syscall_record \<Rightarrow> rt_syscall_record) \<Rightarrow> kernel \<Rightarrow> kernel" where
  "upd_record Tick_record f s = s\<lparr>tick_record := f (tick_record s)\<rparr>"
| "upd_record (Task_record t) f s = upd_task t (task_record_update f) s"
| "upd_record (Post_record m) f s = upd_sem m (post_record_update f) s"

lemma upd_task_sel [kernel_simps]:
  "tasks (upd_task t f s) = (tasks s)(t := f (tasks s t))"
  "nodes (upd_task t f s) = nodes s"
  "sems (upd_task t f s) = sems s"
  "tick_record (upd_task t f s) = tick_record s"
  "pending_syscalls (upd_task t f s) = pending_syscalls s"
  "active_task (upd_task t f s) = active_task s"
  "woken_tick (upd_task t f s) = woken_tick s"
  "tick (upd_task t f s) = tick s"
  "tick_pending (upd_task t f s) = tick_pending s"
  "syscall_pended (upd_task t f s) = syscall_pended s"
  "interrupt_active (upd_task t f s) = interrupt_active s"
  "rt_context_prev (upd_task t f s) = rt_context_prev s"
  by (simp_all add: upd_task_def)

lemma set_state_sel [kernel_simps]:
  "nodes (set_state t st s) = nodes s" "sems (set_state t st s) = sems s"
  "pending_syscalls (set_state t st s) = pending_syscalls s"
  "active_task (set_state t st s) = active_task s"
  "woken_tick (set_state t st s) = woken_tick s" "tick (set_state t st s) = tick s"
  by (simp_all add: set_state_def upd_task_sel)

lemma upd_sem_sel [kernel_simps]:
  "sems (upd_sem m g s) = (sems s)(m := g (sems s m))"
  "nodes (upd_sem m g s) = nodes s"
  "tasks (upd_sem m g s) = tasks s"
  "tick_record (upd_sem m g s) = tick_record s"
  "pending_syscalls (upd_sem m g s) = pending_syscalls s"
  "active_task (upd_sem m g s) = active_task s"
  "woken_tick (upd_sem m g s) = woken_tick s"
  "tick (upd_sem m g s) = tick s"
  "tick_pending (upd_sem m g s) = tick_pending s"
  "syscall_pended (upd_sem m g s) = syscall_pended s"
  "interrupt_active (upd_sem m g s) = interrupt_active s"
  "rt_context_prev (upd_sem m g s) = rt_context_prev s"
  by (simp_all add: upd_sem_def)

lemma upd_nodes_sel [kernel_simps]:
  "nodes (upd_nodes k s) = k (nodes s)"
  "tasks (upd_nodes k s) = tasks s"
  "sems (upd_nodes k s) = sems s"
  "tick_record (upd_nodes k s) = tick_record s"
  "pending_syscalls (upd_nodes k s) = pending_syscalls s"
  "active_task (upd_nodes k s) = active_task s"
  "woken_tick (upd_nodes k s) = woken_tick s"
  "tick (upd_nodes k s) = tick s"
  "tick_pending (upd_nodes k s) = tick_pending s"
  "syscall_pended (upd_nodes k s) = syscall_pended s"
  "interrupt_active (upd_nodes k s) = interrupt_active s"
  "rt_context_prev (upd_nodes k s) = rt_context_prev s"
  by (simp_all add: upd_nodes_def)

section \<open>Initial values\<close>

text \<open>Static memory is zero: the first enumerators, null pointers, zero numbers.\<close>

definition zero_record :: rt_syscall_record where
  "zero_record = \<lparr>next_record = None, args = No_args, syscall = RT_SYSCALL_TICK\<rparr>"

definition zero_task :: rt_task where
  "zero_task = \<lparr>ctx = 0, wake_tick = 0, task_record = zero_record, task_name = [], priority = 0,
     task_state = RT_TASK_STATE_RUNNING\<rparr>"

definition zero_sem :: rt_sem where
  "zero_sem = \<lparr>post_record = zero_record, sem_value = 0, max_value = 0, num_waiters = 0,
     post_pending = False\<rparr>"

definition idle_task_init :: rt_task where
  "idle_task_init = zero_task\<lparr>task_name := ''idle'', priority := 0,
     task_state := RT_TASK_STATE_RUNNING\<rparr>"

definition kernel_init :: kernel where
  "kernel_init =
     \<lparr>nodes = rt_list_init Ready_list (rt_list_init Sleep_list (rt_list_init (Task_list Idle_task)
        (rt_list_init (Task_sleep_list Idle_task)
          (\<lambda>_. \<lparr>lprev = Null_list, lnext = Null_list\<rparr>)))),
      tasks = (\<lambda>_. zero_task)(Idle_task := idle_task_init),
      sems = (\<lambda>_. zero_sem),
      tick_record = \<lparr>next_record = None, args = No_args, syscall = RT_SYSCALL_TICK\<rparr>,
      pending_syscalls = None,
      active_task = Idle_task,
      rt_context_prev = None,
      woken_tick = 0,
      tick = 0,
      tick_pending = False,
      syscall_pended = False,
      interrupt_active = False\<rparr>"

end
