(* ===== verification/Rt_Kernel.thy ===== *)
theory Rt_Kernel
  imports Rt_Types
begin

text \<open>
  The scheduler and the system call handler, \<^verbatim>\<open>src/muntos.c\<close>, function by function, with the
  two functions of \<^verbatim>\<open>src/sem.c\<close> the handler calls. A function that changes the state takes it
  as its last argument and returns the new one; \<^const>\<open>None\<close> is a computation that does not
  return or has undefined behaviour (a comparator or \<^verbatim>\<open>rt_container_of\<close> applied to a node
  that is not inside a task, a member of the argument union other than the one stored).
\<close>

section \<open>Semaphore values\<close>

text \<open>\<^verbatim>\<open>int\<close> arithmetic without overflow; \<open>new_value_no_overflow\<close> shows there is none.\<close>

definition new_value :: "int \<Rightarrow> int \<Rightarrow> int \<Rightarrow> int" where
  "new_value value n maximum =
     (if value \<le> maximum - n then value + n
      else maximum)"

text \<open>The compare-exchange loop is one atomic update of the value (theory \<open>Rt_Atomic\<close>).\<close>

definition rt_sem_add_n :: "sem_id \<Rightarrow> int \<Rightarrow> kernel \<Rightarrow> kernel" where
  "rt_sem_add_n m n =
     upd_sem m (\<lambda>r. r\<lparr>sem_value := new_value (sem_value r) n (max_value r)\<rparr>)"

section \<open>Ready tasks\<close>

definition task_priority_greater_than :: "kernel \<Rightarrow> node \<Rightarrow> node \<Rightarrow> bool option" where
  "task_priority_greater_than s a b =
     do {
       ta \<leftarrow> task_from_list a;
       tb \<leftarrow> task_from_list b;
       Some (priority (task s ta) > priority (task s tb))
     }"

definition insert_by_priority :: "node \<Rightarrow> task_id \<Rightarrow> kernel \<Rightarrow> kernel option" where
  "insert_by_priority lst t s =
     do {
       h \<leftarrow> rt_list_insert_by lst (Task_list t) (task_priority_greater_than s) (nodes s);
       Some (s\<lparr>nodes := h\<rparr>)
     }"

definition rt_syscall_pend :: "kernel \<Rightarrow> kernel" where
  "rt_syscall_pend s = s\<lparr>syscall_pended := True\<rparr>"

definition rt_task_yield :: "kernel \<Rightarrow> kernel" where
  "rt_task_yield s = rt_syscall_pend s"

definition rt_task_name :: "kernel \<Rightarrow> string" where
  "rt_task_name s = task_name (task s (active_task s))"

definition rt_task_self :: "kernel \<Rightarrow> task_id" where
  "rt_task_self s = active_task s"

definition task_ready :: "task_id \<Rightarrow> kernel \<Rightarrow> kernel option" where
  "task_ready t s =
     (let s = set_state t RT_TASK_STATE_READY s
      in insert_by_priority Ready_list t s)"

section \<open>Submitting a system call\<close>

text \<open>
  The record is pushed on the stack of pending calls; the compare-exchange loop is one atomic
  push (theory \<open>Rt_Atomic\<close>).
\<close>

definition rt_syscall :: "rec_id \<Rightarrow> kernel \<Rightarrow> kernel" where
  "rt_syscall r s =
     (let s = upd_record r (next_record_update (\<lambda>_. pending_syscalls s)) s;
          s = s\<lparr>pending_syscalls := Some r\<rparr>
      in rt_syscall_pend s)"

definition rt_task_exit :: "kernel \<Rightarrow> kernel" where
  "rt_task_exit s =
     (let r = Task_record (active_task s);
          s = upd_record r (syscall_update (\<lambda>_. RT_SYSCALL_EXIT)) s
      in rt_syscall r s)"

section \<open>The scheduler\<close>

definition sched :: "kernel \<Rightarrow> (kernel \<times> u32) option" where
  "sched s =
     (if rt_list_is_empty Ready_list (nodes s) then Some (s, NULL)
      else do {
        next_task \<leftarrow> task_from_list (rt_list_front Ready_list (nodes s));
        let still_running = (task_state (task s (active_task s)) = RT_TASK_STATE_RUNNING);
        if still_running \<and> priority (task s (active_task s)) > priority (task s next_task)
        then Some (s, NULL)
        else do {
          let s = upd_nodes (rt_list_remove (Task_list next_task)) s;
          if active_task s = next_task then Some (s, NULL)
          else do {
            s \<leftarrow> (if still_running then task_ready (active_task s) s else Some s);
            let s = s\<lparr>rt_context_prev := Some (active_task s)\<rparr>;
            let s = s\<lparr>active_task := next_task\<rparr>;
            let s = set_state (active_task s) RT_TASK_STATE_RUNNING s;
            Some (s, ctx (task s (active_task s)))
          }
        }
      })"

section \<open>Sleeping tasks\<close>

definition wake_tick_less_than :: "kernel \<Rightarrow> node \<Rightarrow> node \<Rightarrow> bool option" where
  "wake_tick_less_than s a b =
     do {
       ta \<leftarrow> task_from_sleep_list a;
       tb \<leftarrow> task_from_sleep_list b;
       Some (wake_tick (task s ta) - woken_tick s < wake_tick (task s tb) - woken_tick s)
     }"

definition sleep_until :: "task_id \<Rightarrow> ulong \<Rightarrow> kernel \<Rightarrow> kernel option" where
  "sleep_until t wt s =
     (let s = upd_task t (wake_tick_update (\<lambda>_. wt)) s
      in do {
        h \<leftarrow> rt_list_insert_by Sleep_list (Task_sleep_list t) (wake_tick_less_than s) (nodes s);
        Some (s\<lparr>nodes := h\<rparr>)
      })"

section \<open>Waking the waiters of a semaphore\<close>

text \<open>The body of the loop: the first waiter becomes ready.\<close>

definition wake_first_waiter :: "sem_id \<Rightarrow> kernel \<Rightarrow> kernel option" where
  "wake_first_waiter m s =
     (let (front, h) = rt_list_pop_front (Wait_list m) (nodes s);
          s = s\<lparr>nodes := h\<rparr>
      in do {
        t \<leftarrow> task_from_list front;
        let s = upd_nodes (rt_list_remove (Task_sleep_list t)) s;
        s \<leftarrow> task_ready t s;
        Some (upd_sem m (\<lambda>r. r\<lparr>num_waiters := num_waiters r - 1\<rparr>) s)
      })"

partial_function (option) wake_while :: "size_t \<Rightarrow> sem_id \<Rightarrow> kernel \<Rightarrow> kernel option" where
  "wake_while waiters m s =
     (if num_waiters (sem s m) > waiters
      then Option.bind (wake_first_waiter m s) (wake_while waiters m)
      else Some s)"

definition wake_sem_waiters :: "sem_id \<Rightarrow> kernel \<Rightarrow> kernel option" where
  "wake_sem_waiters m s =
     (let waiters = int_wrap (- sem_value (sem s m));
          waiters = (if waiters < 0 then 0 else waiters)
      in wake_while (word_of_int waiters) m s)"

section \<open>The tick\<close>

definition rt_tick :: "kernel \<Rightarrow> ulong" where
  "rt_tick s = tick s"

text \<open>The body of the loop for a task at the front of the sleep list whose time has come.\<close>

definition wake_sleeper :: "task_id \<Rightarrow> kernel \<Rightarrow> kernel option" where
  "wake_sleeper t s =
     do {
       s \<leftarrow> (if syscall (task_record (task s t)) = RT_SYSCALL_SEM_TIMEDWAIT
            then do {
              (m, ticks) \<leftarrow> sem_timedwait_args (args (task_record (task s t)));
              let s = rt_sem_add_n m 1 s;
              let s = upd_nodes (rt_list_remove (Task_list t)) s;
              let s = upd_sem m (\<lambda>r. r\<lparr>num_waiters := num_waiters r - 1\<rparr>) s;
              s \<leftarrow> wake_sem_waiters m s;
              Some (upd_task t (task_record_update (args_update (\<lambda>_. Sem_timedwait NULL ticks))) s)
            }
            else Some s);
       let s = upd_nodes (rt_list_remove (Task_sleep_list t)) s;
       task_ready t s
     }"

partial_function (option) wake_sleepers :: "ulong \<Rightarrow> kernel \<Rightarrow> kernel option" where
  "wake_sleepers ticks_to_advance s =
     (if \<not> rt_list_is_empty Sleep_list (nodes s)
      then Option.bind (task_from_sleep_list (rt_list_front Sleep_list (nodes s)))
        (\<lambda>t. if ticks_to_advance < wake_tick (task s t) - woken_tick s then Some s
             else Option.bind (wake_sleeper t s) (wake_sleepers ticks_to_advance))
      else Some s)"

definition tick_syscall :: "kernel \<Rightarrow> kernel option" where
  "tick_syscall s =
     (let ticks_to_advance = rt_tick s - woken_tick s
      in do {
        s \<leftarrow> wake_sleepers ticks_to_advance s;
        Some (s\<lparr>woken_tick := woken_tick s + ticks_to_advance\<rparr>)
      })"

definition rt_tick_advance :: "kernel \<Rightarrow> kernel" where
  "rt_tick_advance s =
     (let s = s\<lparr>tick := tick s + 1\<rparr>;
          was_pending = tick_pending s;
          s = s\<lparr>tick_pending := True\<rparr>
      in if \<not> was_pending then rt_syscall Tick_record s else s)"

section \<open>The system call handler\<close>

text \<open>One turn of the loop in \<^verbatim>\<open>rt_syscall_run\<close>: the \<^verbatim>\<open>switch\<close> on the kind of call.\<close>

definition handle_record :: "rec_id \<Rightarrow> kernel \<Rightarrow> kernel option" where
  "handle_record r s =
     (let a = args (get_record s r)
      in case syscall (get_record s r) of
        RT_SYSCALL_TICK \<Rightarrow> tick_syscall (s\<lparr>tick_pending := False\<rparr>)
      | RT_SYSCALL_SLEEP \<Rightarrow>
          do {
            ticks \<leftarrow> sleep_args a;
            t \<leftarrow> task_from_record r;
            let s = set_state t RT_TASK_STATE_ASLEEP s;
            sleep_until t (woken_tick s + ticks) s
          }
      | RT_SYSCALL_SLEEP_PERIODIC \<Rightarrow>
          do {
            (last_wake_tick, period) \<leftarrow> sleep_periodic_args a;
            let ticks_since_last_wake = woken_tick s - last_wake_tick;
            t \<leftarrow> task_from_record r;
            if ticks_since_last_wake < period
            then do {
              let s = set_state t RT_TASK_STATE_ASLEEP s;
              sleep_until t (last_wake_tick + period) s
            }
            else Some s
          }
      | RT_SYSCALL_EXIT \<Rightarrow>
          do {
            t \<leftarrow> task_from_record r;
            Some (set_state t RT_TASK_STATE_EXITED s)
          }
      | RT_SYSCALL_SEM_WAIT \<Rightarrow>
          do {
            m \<leftarrow> sem_wait_args a;
            t \<leftarrow> task_from_record r;
            let s = set_state t RT_TASK_STATE_BLOCKED s;
            s \<leftarrow> insert_by_priority (Wait_list m) t s;
            let s = upd_sem m (\<lambda>q. q\<lparr>num_waiters := num_waiters q + 1\<rparr>) s;
            wake_sem_waiters m s
          }
      | RT_SYSCALL_SEM_TIMEDWAIT \<Rightarrow>
          do {
            (m, ticks) \<leftarrow> sem_timedwait_args a;
            t \<leftarrow> task_from_record r;
            let s = set_state t RT_TASK_STATE_BLOCKED_TIMEOUT s;
            s \<leftarrow> insert_by_priority (Wait_list m) t s;
            s \<leftarrow> sleep_until t (woken_tick s + ticks) s;
            let s = upd_sem m (\<lambda>q. q\<lparr>num_waiters := num_waiters q + 1\<rparr>) s;
            wake_sem_waiters m s
          }
      | RT_SYSCALL_SEM_POST \<Rightarrow>
          do {
            (m, n) \<leftarrow> sem_post_args a;
            let s = (if r = Post_record m then upd_sem m (post_pending_update (\<lambda>_. False)) s else s);
            let s = rt_sem_add_n m n s;
            wake_sem_waiters m s
          }
      | RT_SYSCALL_TASK_READY \<Rightarrow>
          do {
            t \<leftarrow> task_from_record r;
            task_ready t s
          })"

partial_function (option) run_records :: "rec_id option \<Rightarrow> kernel \<Rightarrow> kernel option" where
  "run_records r s =
     (case r of
        None \<Rightarrow> Some s
      | Some r' \<Rightarrow>
          (let next_r = next_record (get_record s r')
           in Option.bind (handle_record r' s) (run_records next_r)))"

definition rt_syscall_run :: "kernel \<Rightarrow> (kernel \<times> u32) option" where
  "rt_syscall_run s =
     do {
       let r = pending_syscalls s;
       let s = s\<lparr>pending_syscalls := None\<rparr>;
       s \<leftarrow> run_records r s;
       sched s
     }"

section \<open>Creating tasks\<close>

definition task_init :: "task_id \<Rightarrow> string \<Rightarrow> u32 \<Rightarrow> kernel \<Rightarrow> kernel" where
  "task_init t name prio s =
     (let s = upd_task t (\<lambda>k. k\<lparr>priority := prio\<rparr>) s;
          s = upd_task t (\<lambda>k. k\<lparr>wake_tick := 0\<rparr>) s;
          s = upd_task t (\<lambda>k. k\<lparr>task_name := name\<rparr>) s;
          s = upd_nodes (rt_list_init (Task_sleep_list t)) s;
          s = upd_record (Task_record t) (syscall_update (\<lambda>_. RT_SYSCALL_TASK_READY)) s
      in rt_syscall (Task_record t) s)"

text \<open>
  The context \<open>c\<close> is what the architecture's \<^verbatim>\<open>rt_context_create\<close> or
  \<^verbatim>\<open>rt_context_create_arg\<close> returned for the task's function and stack.
\<close>

definition rt_task_init :: "task_id \<Rightarrow> u32 \<Rightarrow> string \<Rightarrow> u32 \<Rightarrow> kernel \<Rightarrow> kernel" where
  "rt_task_init t c name prio s =
     (let s = upd_task t (\<lambda>k. k\<lparr>ctx := c\<rparr>) s
      in task_init t name prio s)"

end
