(* ===== verification/Rt_Queues.thy ===== *)
theory Rt_Queues
  imports Rt_Kernel
begin

text \<open>
  The abstract view of the scheduler: which tasks are ready, asleep and waiting on each
  semaphore, as lists, with the state of each task. The operations on this view say what the
  kernel's list manipulations mean; \<open>refines\<close> relates it to the pointer heap, \<open>queues_ok\<close> is
  the invariant of the view, and the lemmas show that each kernel function implements its
  abstract operation: it returns, and the heap it leaves represents the result.
\<close>

section \<open>Abstract queues\<close>

record queues =
  q_tasks :: "task_id set"
  q_ready :: "task_id list"
  q_sleep :: "task_id list"
  q_wait :: "sem_id \<rightharpoonup> task_id list"
  q_state :: "task_id \<Rightarrow> rt_task_state"

fun heads :: "queues \<Rightarrow> node \<Rightarrow> node list option" where
  "heads A Ready_list = Some (map Task_list (q_ready A))"
| "heads A Sleep_list = Some (map Task_sleep_list (q_sleep A))"
| "heads A (Wait_list m) = map_option (map Task_list) (q_wait A m)"
| "heads A (Task_sleep_list t) = (if t \<in> q_tasks A \<and> t \<notin> set (q_sleep A) then Some [] else None)"
| "heads A _ = None"

definition refines :: "kernel \<Rightarrow> queues \<Rightarrow> bool" where
  "refines s A \<longleftrightarrow> lists_at dlist (nodes s) (heads A) \<and> (\<forall>t. task_state (task s t) = q_state A t)"

text \<open>Precedence in the ready list and in the wait lists, and in the sleep list.\<close>

definition higher :: "kernel \<Rightarrow> task_id \<Rightarrow> task_id \<Rightarrow> bool" where
  "higher s a b \<longleftrightarrow> priority (task s a) > priority (task s b)"

definition sooner :: "kernel \<Rightarrow> task_id \<Rightarrow> task_id \<Rightarrow> bool" where
  "sooner s a b \<longleftrightarrow>
     wake_tick (task s a) - woken_tick s < wake_tick (task s b) - woken_tick s"

interpretation higher: comparator "higher s" for s
  by unfold_locales (auto simp: higher_def)

interpretation sooner: comparator "sooner s" for s
  by unfold_locales (auto simp: sooner_def)

definition queued :: "queues \<Rightarrow> task_id set" where
  "queued A = set (q_ready A) \<union> set (q_sleep A) \<union> \<Union>(set ` ran (q_wait A))"

text \<open>The task can wait: it is neither the idle task nor a null pointer.\<close>

fun can_wait :: "task_id \<Rightarrow> bool" where
  "can_wait (Task p) \<longleftrightarrow> p \<noteq> NULL"
| "can_wait Idle_task \<longleftrightarrow> False"

definition waits_on :: "kernel \<Rightarrow> queues \<Rightarrow> sem_id \<Rightarrow> task_id \<Rightarrow> bool" where
  "waits_on s A m t \<longleftrightarrow>
     q_state A t = RT_TASK_STATE_BLOCKED \<and> t \<notin> set (q_sleep A) \<or>
     q_state A t = RT_TASK_STATE_BLOCKED_TIMEOUT \<and> t \<in> set (q_sleep A) \<and>
       syscall (task_record (task s t)) = RT_SYSCALL_SEM_TIMEDWAIT \<and>
       (\<exists>ticks. args (task_record (task s t)) = Sem_timedwait m ticks)"

definition sleeps :: "kernel \<Rightarrow> queues \<Rightarrow> task_id \<Rightarrow> bool" where
  "sleeps s A t \<longleftrightarrow>
     q_state A t = RT_TASK_STATE_ASLEEP \<and>
       syscall (task_record (task s t)) \<noteq> RT_SYSCALL_SEM_TIMEDWAIT \<or>
     q_state A t = RT_TASK_STATE_BLOCKED_TIMEOUT \<and> (\<exists>ys \<in> ran (q_wait A). t \<in> set ys)"

text \<open>
  The invariant of the queues. The tasks in \<open>X\<close> are on their way between two queues; between
  system calls there is none.
\<close>

definition queues_ok :: "task_id set \<Rightarrow> kernel \<Rightarrow> queues \<Rightarrow> bool" where
  "queues_ok X s A \<longleftrightarrow>
     queued A \<subseteq> q_tasks A \<and>
     ordered_by (higher s) (q_ready A) \<and>
     ordered_by (sooner s) (q_sleep A) \<and>
     (\<forall>t \<in> set (q_ready A). q_state A t = RT_TASK_STATE_READY) \<and>
     (\<forall>t \<in> set (q_sleep A) - X. can_wait t \<and> sleeps s A t) \<and>
     (\<forall>m ys. q_wait A m = Some ys \<longrightarrow> ordered_by (higher s) ys \<and>
        (\<forall>t \<in> set ys. can_wait t \<and> (t \<notin> X \<longrightarrow> waits_on s A m t)))"

definition counts :: "kernel \<Rightarrow> queues \<Rightarrow> bool" where
  "counts s A \<longleftrightarrow> (\<forall>m ys. q_wait A m = Some ys \<longrightarrow> unat (num_waiters (sem s m)) = length ys)"

text \<open>
  A step of the handler that only moves tasks between queues: everything but the list nodes, the
  task states and the waiter counts is as it was.
\<close>

definition kframe :: "kernel \<Rightarrow> kernel \<Rightarrow> bool" where
  "kframe s s' \<longleftrightarrow>
     (\<forall>t. (task s' t)\<lparr>task_state := task_state (task s t)\<rparr> = task s t) \<and>
     (\<forall>m. (sem s' m)\<lparr>num_waiters := num_waiters (sem s m)\<rparr> = sem s m) \<and>
     s'\<lparr>nodes := nodes s, tasks := tasks s, sems := sems s\<rparr> = s"

section \<open>Abstract operations\<close>

definition q_make_ready :: "kernel \<Rightarrow> task_id \<Rightarrow> queues \<Rightarrow> queues" where
  "q_make_ready s t A =
     A\<lparr>q_ready := insert_by (higher s) t (q_ready A),
       q_state := (q_state A)(t := RT_TASK_STATE_READY)\<rparr>"

definition q_wait_on :: "kernel \<Rightarrow> sem_id \<Rightarrow> task_id \<Rightarrow> queues \<Rightarrow> queues" where
  "q_wait_on s m t A =
     A\<lparr>q_wait := (q_wait A)(m := map_option (insert_by (higher s) t) (q_wait A m))\<rparr>"

definition q_sleep_in :: "kernel \<Rightarrow> task_id \<Rightarrow> queues \<Rightarrow> queues" where
  "q_sleep_in s t A = A\<lparr>q_sleep := insert_by (sooner s) t (q_sleep A)\<rparr>"

definition q_unsleep :: "task_id \<Rightarrow> queues \<Rightarrow> queues" where
  "q_unsleep t A = A\<lparr>q_sleep := remove1 t (q_sleep A)\<rparr>"

definition q_unwait :: "sem_id \<Rightarrow> task_id \<Rightarrow> queues \<Rightarrow> queues" where
  "q_unwait m t A = A\<lparr>q_wait := (q_wait A)(m := map_option (remove1 t) (q_wait A m))\<rparr>"

definition q_set_state :: "task_id \<Rightarrow> rt_task_state \<Rightarrow> queues \<Rightarrow> queues" where
  "q_set_state t st A = A\<lparr>q_state := (q_state A)(t := st)\<rparr>"

text \<open>The highest waiter of a semaphore becomes ready, whether or not it had a timeout.\<close>

definition q_wake_first :: "kernel \<Rightarrow> sem_id \<Rightarrow> queues \<Rightarrow> queues" where
  "q_wake_first s m A =
     (case q_wait A m of
        Some (t # ys) \<Rightarrow> q_make_ready s t (q_unsleep t (q_unwait m t A))
      | _ \<Rightarrow> A)"

fun q_wake :: "nat \<Rightarrow> kernel \<Rightarrow> sem_id \<Rightarrow> queues \<Rightarrow> queues" where
  "q_wake 0 s m A = A"
| "q_wake (Suc n) s m A = q_wake n s m (q_wake_first s m A)"

section \<open>Frames\<close>

lemma kframe_refl [simp]: "kframe s s"
  by (simp add: kframe_def)

lemma kframe_fields:
  assumes "kframe s s'"
  shows "tick_record s' = tick_record s" "pending_syscalls s' = pending_syscalls s"
    "active_task s' = active_task s" "rt_context_prev s' = rt_context_prev s"
    "woken_tick s' = woken_tick s" "tick s' = tick s" "tick_pending s' = tick_pending s"
    "syscall_pended s' = syscall_pended s" "interrupt_active s' = interrupt_active s"
  using assms unfolding kframe_def by (cases s, cases s', simp)+

lemma kframe_task:
  assumes "kframe s s'"
  shows "ctx (task s' t) = ctx (task s t)" "wake_tick (task s' t) = wake_tick (task s t)"
    "task_record (task s' t) = task_record (task s t)" "task_name (task s' t) = task_name (task s t)"
    "priority (task s' t) = priority (task s t)"
proof -
  have "(task s' t)\<lparr>task_state := task_state (task s t)\<rparr> = task s t"
    using assms by (simp add: kframe_def)
  then show "ctx (task s' t) = ctx (task s t)" "wake_tick (task s' t) = wake_tick (task s t)"
    "task_record (task s' t) = task_record (task s t)" "task_name (task s' t) = task_name (task s t)"
    "priority (task s' t) = priority (task s t)"
    by (cases "task s t", cases "task s' t", simp)+
qed

lemma kframe_sem:
  assumes "kframe s s'"
  shows "post_record (sem s' m) = post_record (sem s m)" "sem_value (sem s' m) = sem_value (sem s m)"
    "max_value (sem s' m) = max_value (sem s m)" "post_pending (sem s' m) = post_pending (sem s m)"
proof -
  have "(sem s' m)\<lparr>num_waiters := num_waiters (sem s m)\<rparr> = sem s m"
    using assms by (simp add: kframe_def)
  then show "post_record (sem s' m) = post_record (sem s m)" "sem_value (sem s' m) = sem_value (sem s m)"
    "max_value (sem s' m) = max_value (sem s m)" "post_pending (sem s' m) = post_pending (sem s m)"
    by (cases "sem s m", cases "sem s' m", simp)+
qed

lemmas kframeD = kframe_fields kframe_task kframe_sem

lemma kframe_trans: "kframe s s' \<Longrightarrow> kframe s' s'' \<Longrightarrow> kframe s s''"
  unfolding kframe_def
proof (intro conjI allI)
  assume a: "(\<forall>t. (task s' t)\<lparr>task_state := task_state (task s t)\<rparr> = task s t) \<and>
     (\<forall>m. (sem s' m)\<lparr>num_waiters := num_waiters (sem s m)\<rparr> = sem s m) \<and>
     s'\<lparr>nodes := nodes s, tasks := tasks s, sems := sems s\<rparr> = s"
    and b: "(\<forall>t. (task s'' t)\<lparr>task_state := task_state (task s' t)\<rparr> = task s' t) \<and>
     (\<forall>m. (sem s'' m)\<lparr>num_waiters := num_waiters (sem s' m)\<rparr> = sem s' m) \<and>
     s''\<lparr>nodes := nodes s', tasks := tasks s', sems := sems s'\<rparr> = s'"
  show "(task s'' t)\<lparr>task_state := task_state (task s t)\<rparr> = task s t" for t
    using a [THEN conjunct1, rule_format, of t] b [THEN conjunct1, rule_format, of t]
    by (cases "task s t", cases "task s' t", cases "task s'' t") simp
  show "(sem s'' m)\<lparr>num_waiters := num_waiters (sem s m)\<rparr> = sem s m" for m
    using a [THEN conjunct2, THEN conjunct1, rule_format, of m]
      b [THEN conjunct2, THEN conjunct1, rule_format, of m]
    by (cases "sem s m", cases "sem s' m", cases "sem s'' m") simp
  show "s''\<lparr>nodes := nodes s, tasks := tasks s, sems := sems s\<rparr> = s"
    using a [THEN conjunct2, THEN conjunct2] b [THEN conjunct2, THEN conjunct2]
    by (cases s, cases s', cases s'') simp
qed

lemma kframe_nodes [simp]: "kframe s (s\<lparr>nodes := h\<rparr>)" "kframe s (upd_nodes f s)"
  by (simp_all add: kframe_def upd_nodes_def)

lemma kframe_set_state [simp]: "kframe s (set_state t st s)"
  by (simp add: kframe_def set_state_def upd_task_def)

lemma kframe_num_waiters [simp]: "kframe s (upd_sem m (\<lambda>r. r\<lparr>num_waiters := f r\<rparr>) s)"
  by (simp add: kframe_def upd_sem_def)

lemma higher_frame: "kframe s s' \<Longrightarrow> higher s' = higher s"
  by (intro ext) (simp add: higher_def kframeD)

lemma sooner_frame: "kframe s s' \<Longrightarrow> sooner s' = sooner s"
  by (intro ext) (simp add: sooner_def kframeD)

lemma queues_ok_frame: "kframe s s' \<Longrightarrow> queues_ok X s' A = queues_ok X s A"
  by (simp add: queues_ok_def higher_frame sooner_frame waits_on_def sleeps_def kframeD)

text \<open>The abstract operations depend on the kernel state through the priorities only.\<close>

lemma q_make_ready_higher: "higher s' = higher s \<Longrightarrow> q_make_ready s' = q_make_ready s"
  by (intro ext) (simp add: q_make_ready_def)

lemma q_wake_higher:
  assumes "higher s' = higher s"
  shows "q_wake n s' m A = q_wake n s m A"
proof -
  have "q_wake_first s' = q_wake_first s"
    unfolding q_wake_first_def q_make_ready_higher [OF assms] by (rule refl)
  then show ?thesis by (induction n arbitrary: A) simp_all
qed

lemmas q_make_ready_frame = q_make_ready_higher [OF higher_frame]
lemmas q_wake_frame = q_wake_higher [OF higher_frame]

section \<open>Queues and list nodes\<close>

lemma dlist_map_distinct:
  "lists_at dlist h L \<Longrightarrow> L l = Some (map f xs) \<Longrightarrow> distinct xs"
  by (metis dlist_distinct distinct.simps(2) distinct_map lists_at_holds)

lemma refines_distinct:
  assumes "refines s A"
  shows "distinct (q_ready A)" and "distinct (q_sleep A)"
    and "q_wait A m = Some ys \<Longrightarrow> distinct ys"
proof -
  have L: "lists_at dlist (nodes s) (heads A)" using assms by (simp add: refines_def)
  show "distinct (q_ready A)" "distinct (q_sleep A)"
    using dlist_map_distinct [OF L heads.simps(1)] dlist_map_distinct [OF L heads.simps(2)] .
  show "distinct ys" if "q_wait A m = Some ys"
    using dlist_map_distinct [OF L, of "Wait_list m" Task_list ys] that by simp
qed

lemma refines_disjoint:
  assumes "refines s A" and "q_wait A m = Some ys"
  shows "set (q_ready A) \<inter> set ys = {}"
    and "q_wait A m' = Some zs \<Longrightarrow> m \<noteq> m' \<Longrightarrow> set ys \<inter> set zs = {}"
proof -
  have L: "lists_at dlist (nodes s) (heads A)" using assms(1) by (simp add: refines_def)
  show "set (q_ready A) \<inter> set ys = {}"
    using lists_at_disjoint [OF L, of Ready_list "map Task_list (q_ready A)" "Wait_list m" "map Task_list ys"]
      assms(2) by auto
  show "set ys \<inter> set zs = {}" if "q_wait A m' = Some zs" "m \<noteq> m'"
    using lists_at_disjoint [OF L, of "Wait_list m" "map Task_list ys" "Wait_list m'" "map Task_list zs"]
      assms(2) that by auto
qed

lemma unlisted_Task_list:
  assumes "t \<notin> set (q_ready A)" and "\<And>m ys. q_wait A m = Some ys \<Longrightarrow> t \<notin> set ys"
  shows "unlisted (heads A) (Task_list t)"
  unfolding unlisted_def
proof (intro conjI allI impI)
  show "Task_list t \<notin> set xs" if "heads A l = Some xs" for l xs
    using that assms by (cases l) (auto split: if_splits)
qed simp

lemma unlisted_Task_sleep_list:
  assumes "t \<notin> set (q_sleep A)"
  shows "unlisted (heads A) (Task_sleep_list t)"
  unfolding unlisted_def
proof (intro conjI allI impI)
  show "Task_sleep_list t \<notin> set xs" if "heads A l = Some xs" for l xs
    using that assms by (cases l) (auto split: if_splits)
qed simp

lemma in_queued:
  "t \<in> set (q_ready A) \<Longrightarrow> t \<in> queued A"
  "t \<in> set (q_sleep A) \<Longrightarrow> t \<in> queued A"
  "q_wait A m = Some ys \<Longrightarrow> t \<in> set ys \<Longrightarrow> t \<in> queued A"
  by (auto simp: queued_def ran_def)

lemma queued_cases:
  assumes "t \<in> queued A"
  obtains "t \<in> set (q_ready A)" | "t \<in> set (q_sleep A)" | m ys where "q_wait A m = Some ys" "t \<in> set ys"
  using assms by (auto simp: queued_def ran_def)

section \<open>Each list manipulation implements its abstract operation\<close>

lemma refines_set_state: "refines s A \<Longrightarrow> refines (set_state t st s) (q_set_state t st A)"
proof -
  have "heads (q_set_state t st A) = heads A"
    by (rule ext, case_tac x) (simp_all add: q_set_state_def)
  then show "refines s A \<Longrightarrow> ?thesis"
    by (simp add: refines_def set_state_def q_set_state_def kernel_simps)
qed

lemma insert_map:
  assumes "inj f" and "\<And>y. y \<in> set ys \<Longrightarrow> before' (f x) (f y) = before x y"
  shows "insert_by before' (f x) (map f ys) = map f (insert_by before x ys)"
  using assms(2) by (induction ys) (simp_all add: insert_by_def)

text \<open>Inserting a task into the list at \<open>lst\<close> through the member \<open>f\<close>.\<close>

lemma insert_task:
  assumes r: "refines s A" and lst: "heads A lst = Some (map f ys)"
    and un: "unlisted (heads A) (f t)" "f t \<noteq> lst" and f: "inj f"
    and cmp: "\<And>x. cmp (f t) (f x) = Some (before t x)"
  shows "\<exists>h. rt_list_insert_by lst (f t) cmp (nodes s) = Some h \<and>
    lists_at dlist h ((heads A)(f t := None, lst \<mapsto> map f (insert_by before t ys)))"
proof -
  have L: "lists_at dlist (nodes s) (heads A)" using r by (simp add: refines_def)
  let ?b = "\<lambda>a b. before (inv f a) (inv f b)"
  have "\<exists>h'. rt_list_insert_by lst (f t) cmp (nodes s) = Some h' \<and>
      lists_at dlist h' ((heads A)(f t := None, lst \<mapsto> insert_by ?b (f t) (map f ys)))"
    using cmp f by (intro rt_lists.insert_lists [OF L lst un]) auto
  moreover have "insert_by ?b (f t) (map f ys) = map f (insert_by before t ys)"
    using f by (intro insert_map) simp_all
  ultimately show ?thesis by simp
qed

lemma insert_ready:
  assumes r: "refines s A" and "t \<notin> set (q_ready A)"
    and "\<And>m ys. q_wait A m = Some ys \<Longrightarrow> t \<notin> set ys"
  shows "\<exists>s'. insert_by_priority Ready_list t s = Some s' \<and>
     refines s' (A\<lparr>q_ready := insert_by (higher s) t (q_ready A)\<rparr>) \<and> kframe s s' \<and>
     sems s' = sems s"
proof -
  have un: "unlisted (heads A) (Task_list t)" using assms(2,3) by (rule unlisted_Task_list)
  from insert_task [OF r heads.simps(1) un, where cmp = "task_priority_greater_than s" and before = "higher s"]
  obtain h where h: "rt_list_insert_by Ready_list (Task_list t) (task_priority_greater_than s) (nodes s) = Some h"
    and L: "lists_at dlist h ((heads A)(Task_list t := None, Ready_list \<mapsto> map Task_list (insert_by (higher s) t (q_ready A))))"
    by (auto simp: task_priority_greater_than_def higher_def inj_def)
  have "lists_at dlist h (heads (A\<lparr>q_ready := insert_by (higher s) t (q_ready A)\<rparr>))"
    using L by (rule lists_at_forget) (case_tac l; simp split: if_splits)
  then show ?thesis using h r by (simp add: insert_by_priority_def refines_def)
qed

lemma task_ready_refines:
  assumes "refines s A" and "t \<notin> set (q_ready A)"
    and "\<And>m ys. q_wait A m = Some ys \<Longrightarrow> t \<notin> set ys"
  shows "\<exists>s'. task_ready t s = Some s' \<and> refines s' (q_make_ready s t A) \<and> kframe s s' \<and>
     sems s' = sems s"
proof -
  let ?s = "set_state t RT_TASK_STATE_READY s" and ?A = "q_set_state t RT_TASK_STATE_READY A"
  have "refines ?s ?A" using assms(1) by (rule refines_set_state)
  from insert_ready [OF this, of t] assms(2,3) obtain s' where
    s': "insert_by_priority Ready_list t ?s = Some s'"
      "refines s' (?A\<lparr>q_ready := insert_by (higher ?s) t (q_ready ?A)\<rparr>)" "kframe ?s s'"
      "sems s' = sems ?s"
    by (auto simp: q_set_state_def)
  have "?A\<lparr>q_ready := insert_by (higher ?s) t (q_ready ?A)\<rparr> = q_make_ready s t A"
    by (simp add: q_make_ready_def q_set_state_def higher_frame [OF kframe_set_state])
  moreover have "kframe s s'" using kframe_set_state s'(3) by (rule kframe_trans)
  moreover have "sems s' = sems s" using s'(4) by (simp add: set_state_def kernel_simps)
  ultimately show ?thesis using s'(1,2) by (simp add: task_ready_def Let_def)
qed

lemma insert_waiter:
  assumes r: "refines s A" and m: "q_wait A m = Some ys" and "t \<notin> set (q_ready A)"
    and "\<And>m ys. q_wait A m = Some ys \<Longrightarrow> t \<notin> set ys"
  shows "\<exists>s'. insert_by_priority (Wait_list m) t s = Some s' \<and> refines s' (q_wait_on s m t A) \<and>
     kframe s s' \<and> sems s' = sems s"
proof -
  have lst: "heads A (Wait_list m) = Some (map Task_list ys)" using m by simp
  have un: "unlisted (heads A) (Task_list t)" using assms(3,4) by (rule unlisted_Task_list)
  from insert_task [OF r lst un, where cmp = "task_priority_greater_than s" and before = "higher s"]
  obtain h where h: "rt_list_insert_by (Wait_list m) (Task_list t) (task_priority_greater_than s) (nodes s) = Some h"
    and L: "lists_at dlist h ((heads A)(Task_list t := None, Wait_list m \<mapsto> map Task_list (insert_by (higher s) t ys)))"
    by (auto simp: task_priority_greater_than_def higher_def inj_def)
  have "lists_at dlist h (heads (q_wait_on s m t A))"
    using L by (rule lists_at_forget) (case_tac l; auto simp: q_wait_on_def m split: if_splits)
  then show ?thesis using h r by (simp add: insert_by_priority_def refines_def q_wait_on_def)
qed

lemma sleep_until_refines:
  fixes wt :: ulong
  assumes r: "refines s A" and t: "t \<notin> set (q_sleep A)"
  defines "s1 \<equiv> upd_task t (wake_tick_update (\<lambda>_. wt)) s"
  shows "\<exists>s'. sleep_until t wt s = Some s' \<and> refines s' (q_sleep_in s1 t A) \<and> kframe s1 s' \<and>
     sems s' = sems s"
proof -
  have r1: "refines s1 A" using r by (simp add: refines_def s1_def kernel_simps)
  from insert_task [OF r1 heads.simps(2) unlisted_Task_sleep_list [OF t], where cmp = "wake_tick_less_than s1" and before = "sooner s1"]
  obtain h where h: "rt_list_insert_by Sleep_list (Task_sleep_list t) (wake_tick_less_than s1) (nodes s1) = Some h"
    and L: "lists_at dlist h ((heads A)(Task_sleep_list t := None, Sleep_list \<mapsto> map Task_sleep_list (insert_by (sooner s1) t (q_sleep A))))"
    by (auto simp: wake_tick_less_than_def sooner_def inj_def)
  have "lists_at dlist h (heads (q_sleep_in s1 t A))"
    using L by (rule lists_at_forget) (case_tac l; auto simp: q_sleep_in_def split: if_splits)
  then show ?thesis
    using h r1 by (simp add: sleep_until_def refines_def q_sleep_in_def s1_def kernel_simps Let_def)
qed

text \<open>Removing a task's sleep node is right whether the task sleeps or not.\<close>

lemma unsleep_refines:
  assumes r: "refines s A" and t: "t \<in> q_tasks A"
  shows "refines (upd_nodes (rt_list_remove (Task_sleep_list t)) s) (q_unsleep t A)"
proof -
  have L: "lists_at dlist (nodes s) (heads A)" using r by (simp add: refines_def)
  show ?thesis
  proof (cases "t \<in> set (q_sleep A)")
    case True
    then obtain as bs where ab: "q_sleep A = as @ t # bs" "t \<notin> set as" by (meson split_list_first)
    have "distinct (q_sleep A)" using r by (rule refines_distinct)
    then have nb: "t \<notin> set bs" by (simp add: ab)
    have "heads A Sleep_list = Some (map Task_sleep_list as @ Task_sleep_list t # map Task_sleep_list bs)"
      by (simp add: ab)
    from rt_lists.remove_lists [OF L this]
    have "lists_at dlist (rt_list_remove (Task_sleep_list t) (nodes s)) (heads (q_unsleep t A))"
      by (rule lists_at_forget) (case_tac l; auto simp: q_unsleep_def ab nb remove1_append split: if_splits)
    then show ?thesis using r by (simp add: refines_def q_unsleep_def kernel_simps)
  next
    case False
    then have "heads A (Task_sleep_list t) = Some []" using t by simp
    then have "rt_list_remove (Task_sleep_list t) (nodes s) = nodes s"
      using lists_at_holds [OF L] by (intro rt_lists.remove_detached)
    moreover have "q_unsleep t A = A" using False by (simp add: q_unsleep_def remove1_idem)
    ultimately show ?thesis using r by (simp add: upd_nodes_def)
  qed
qed

lemma unwait_refines:
  assumes r: "refines s A" and m: "q_wait A m = Some ys" and t: "t \<in> set ys"
  shows "refines (upd_nodes (rt_list_remove (Task_list t)) s) (q_unwait m t A)"
proof -
  have L: "lists_at dlist (nodes s) (heads A)" using r by (simp add: refines_def)
  obtain as bs where ab: "ys = as @ t # bs" "t \<notin> set as" using t by (meson split_list_first)
  have "heads A (Wait_list m) = Some (map Task_list as @ Task_list t # map Task_list bs)"
    by (simp add: m ab)
  from rt_lists.remove_lists [OF L this]
  have "lists_at dlist (rt_list_remove (Task_list t) (nodes s)) (heads (q_unwait m t A))"
    by (rule lists_at_forget) (case_tac l; auto simp: q_unwait_def m ab remove1_append split: if_splits)
  then show ?thesis using r by (simp add: refines_def q_unwait_def kernel_simps)
qed

lemma unready_refines:
  assumes r: "refines s A" and t: "t \<in> set (q_ready A)"
  shows "refines (upd_nodes (rt_list_remove (Task_list t)) s)
     (A\<lparr>q_ready := remove1 t (q_ready A)\<rparr>)"
proof -
  have L: "lists_at dlist (nodes s) (heads A)" using r by (simp add: refines_def)
  obtain as bs where ab: "q_ready A = as @ t # bs" "t \<notin> set as" using t by (meson split_list_first)
  have "heads A Ready_list = Some (map Task_list as @ Task_list t # map Task_list bs)"
    by (simp add: ab)
  from rt_lists.remove_lists [OF L this]
  have "lists_at dlist (rt_list_remove (Task_list t) (nodes s)) (heads (A\<lparr>q_ready := remove1 t (q_ready A)\<rparr>))"
    by (rule lists_at_forget) (case_tac l; auto simp: ab remove1_append split: if_splits)
  then show ?thesis using r by (simp add: refines_def kernel_simps)
qed

end
