(* ===== verification/Rt_Wake.thy ===== *)
theory Rt_Wake
  imports Rt_Queues
begin

text \<open>
  Waking the waiters of a semaphore. The abstract operations keep the invariant of the queues,
  and the loop of \<^verbatim>\<open>wake_sem_waiters\<close> returns with exactly the first waiters in excess moved to
  the ready list and dropped from the sleep list.
\<close>

section \<open>The abstract operations keep the invariant\<close>

lemma queues_okI:
  assumes "queued A \<subseteq> q_tasks A" and "ordered_by (higher s) (q_ready A)"
    and "ordered_by (sooner s) (q_sleep A)"
    and "\<And>t. t \<in> set (q_ready A) \<Longrightarrow> q_state A t = RT_TASK_STATE_READY"
    and "\<And>t. t \<in> set (q_sleep A) \<Longrightarrow> t \<notin> X \<Longrightarrow> can_wait t \<and> sleeps s A t"
    and "\<And>m ys. q_wait A m = Some ys \<Longrightarrow> ordered_by (higher s) ys"
    and "\<And>m ys t. q_wait A m = Some ys \<Longrightarrow> t \<in> set ys \<Longrightarrow> can_wait t"
    and "\<And>m ys t. q_wait A m = Some ys \<Longrightarrow> t \<in> set ys \<Longrightarrow> t \<notin> X \<Longrightarrow> waits_on s A m t"
  shows "queues_ok X s A"
  unfolding queues_ok_def using assms by blast

lemma queues_okD:
  assumes "queues_ok X s A"
  shows "queued A \<subseteq> q_tasks A" and "ordered_by (higher s) (q_ready A)"
    and "ordered_by (sooner s) (q_sleep A)"
    and "\<And>t. t \<in> set (q_ready A) \<Longrightarrow> q_state A t = RT_TASK_STATE_READY"
    and "\<And>t. t \<in> set (q_sleep A) \<Longrightarrow> t \<notin> X \<Longrightarrow> can_wait t"
    and "\<And>t. t \<in> set (q_sleep A) \<Longrightarrow> t \<notin> X \<Longrightarrow> sleeps s A t"
    and "\<And>m ys. q_wait A m = Some ys \<Longrightarrow> ordered_by (higher s) ys"
    and "\<And>m ys t. q_wait A m = Some ys \<Longrightarrow> t \<in> set ys \<Longrightarrow> can_wait t"
    and "\<And>m ys t. q_wait A m = Some ys \<Longrightarrow> t \<in> set ys \<Longrightarrow> t \<notin> X \<Longrightarrow> waits_on s A m t"
  using assms unfolding queues_ok_def by blast+

lemma in_remove1D: "x \<in> set (remove1 t xs) \<Longrightarrow> x \<in> set xs"
  by (rule set_remove1_subset [THEN subsetD])

lemma queued_simps [simp]:
  "q_tasks (q_make_ready s t A) = q_tasks A" "q_tasks (q_unwait m t A) = q_tasks A"
  "q_tasks (q_unsleep t A) = q_tasks A" "q_tasks (q_set_state t st A) = q_tasks A"
  "q_tasks (q_wait_on s m t A) = q_tasks A" "q_tasks (q_sleep_in s t A) = q_tasks A"
  "q_sleep (q_make_ready s t A) = q_sleep A" "q_sleep (q_unwait m t A) = q_sleep A"
  "q_sleep (q_set_state t st A) = q_sleep A" "q_sleep (q_wait_on s m t A) = q_sleep A"
  "q_ready (q_unwait m t A) = q_ready A" "q_ready (q_unsleep t A) = q_ready A"
  "q_ready (q_set_state t st A) = q_ready A" "q_ready (q_wait_on s m t A) = q_ready A"
  "q_ready (q_sleep_in s t A) = q_ready A"
  "q_wait (q_make_ready s t A) = q_wait A" "q_wait (q_unsleep t A) = q_wait A"
  "q_wait (q_set_state t st A) = q_wait A" "q_wait (q_sleep_in s t A) = q_wait A"
  by (simp_all add: q_make_ready_def q_unwait_def q_unsleep_def q_set_state_def q_wait_on_def
      q_sleep_in_def)

lemma queued_make_ready [simp]: "queued (q_make_ready s t A) = insert t (queued A)"
  by (simp add: queued_def) (simp add: q_make_ready_def)

lemma queues_ok_make_ready:
  assumes ok: "queues_ok X s A" and t: "t \<in> q_tasks A" "t \<notin> queued A"
  shows "queues_ok X s (q_make_ready s t A)" (is "queues_ok X s ?A")
proof (rule queues_okI)
  note D = queues_okD [OF ok]
  have nt: "t \<notin> set (q_sleep A)" "\<And>m ys. q_wait A m = Some ys \<Longrightarrow> t \<notin> set ys"
    using t(2) in_queued by metis+
  show "queued ?A \<subseteq> q_tasks ?A" using D(1) t(1) by simp
  show "ordered_by (higher s) (q_ready ?A)"
    using D(2) by (simp add: q_make_ready_def higher.ordered_insert_by)
  show "q_state ?A u = RT_TASK_STATE_READY" if "u \<in> set (q_ready ?A)" for u
    using that D(4) by (auto simp: q_make_ready_def)
  show "can_wait u \<and> sleeps s ?A u" if "u \<in> set (q_sleep ?A)" "u \<notin> X" for u
  proof -
    have "u \<noteq> t" using nt that by auto
    then have "sleeps s ?A u = sleeps s A u" by (simp add: sleeps_def) (simp add: q_make_ready_def)
    with D(5,6) that show ?thesis by simp
  qed
  show "waits_on s ?A m u" if "q_wait ?A m = Some ys" "u \<in> set ys" "u \<notin> X" for m ys u
  proof -
    have "u \<noteq> t" using nt(2) [of m ys] that by auto
    then have "waits_on s ?A m u = waits_on s A m u"
      by (simp add: waits_on_def) (simp add: q_make_ready_def)
    with D(9) that show ?thesis by simp
  qed
qed (use queues_okD [OF ok] in simp_all)

lemma ran_unwait:
  assumes "q_wait A m = Some ys"
  shows "(\<exists>zs \<in> ran (q_wait (q_unwait m t A)). u \<in> set zs) \<Longrightarrow> (\<exists>zs \<in> ran (q_wait A). u \<in> set zs)"
    and "u \<noteq> t \<Longrightarrow> (\<exists>zs \<in> ran (q_wait A). u \<in> set zs) \<Longrightarrow>
      (\<exists>zs \<in> ran (q_wait (q_unwait m t A)). u \<in> set zs)"
proof -
  assume "\<exists>zs \<in> ran (q_wait (q_unwait m t A)). u \<in> set zs"
  then obtain k zs where "q_wait (q_unwait m t A) k = Some zs" "u \<in> set zs" by (auto simp: ran_def)
  then show "\<exists>zs \<in> ran (q_wait A). u \<in> set zs"
    using assms by (auto simp: q_unwait_def ran_def split: if_splits dest: in_remove1D)
next
  assume u: "u \<noteq> t" and "\<exists>zs \<in> ran (q_wait A). u \<in> set zs"
  then obtain k zs where k: "q_wait A k = Some zs" "u \<in> set zs" by (auto simp: ran_def)
  let ?zs = "if k = m then remove1 t ys else zs"
  have "q_wait (q_unwait m t A) k = Some ?zs" "u \<in> set ?zs"
    using k u assms by (auto simp: q_unwait_def in_set_remove1)
  then show "\<exists>zs \<in> ran (q_wait (q_unwait m t A)). u \<in> set zs" by (meson ranI)
qed

lemma queued_unwait_subset: "q_wait A m = Some ys \<Longrightarrow> queued (q_unwait m t A) \<subseteq> queued A"
  using ran_unwait(1) [of A m ys t] unfolding queued_def by auto

lemma ordered_remove1: "ordered_by b xs \<Longrightarrow> ordered_by b (remove1 t xs)"
proof -
  have "sorted_wrt P xs \<Longrightarrow> sorted_wrt P (remove1 t xs)" for P
    by (induction xs) (auto dest: in_remove1D)
  then show "ordered_by b xs \<Longrightarrow> ordered_by b (remove1 t xs)" by (simp add: ordered_by_def)
qed

lemma queues_ok_unwait:
  assumes ok: "queues_ok X s A" and m: "q_wait A m = Some ys"
  shows "queues_ok (insert t X) s (q_unwait m t A)" (is "queues_ok _ s ?A")
proof (rule queues_okI)
  note D = queues_okD [OF ok]
  have st: "q_state ?A = q_state A" by (simp add: q_unwait_def)
  have q: "\<exists>zs'. q_wait A k = Some zs' \<and> (zs = zs' \<or> zs = remove1 t zs')"
    if "q_wait ?A k = Some zs" for k zs
    using that m by (cases "k = m") (auto simp: q_unwait_def)
  show "queued ?A \<subseteq> q_tasks ?A" using D(1) queued_unwait_subset [OF m, of t] by auto
  show "can_wait u \<and> sleeps s ?A u" if "u \<in> set (q_sleep ?A)" "u \<notin> insert t X" for u
    using that D(5,6) [of u] ran_unwait(2) [OF m, of u t] unfolding sleeps_def st by auto
  show "ordered_by (higher s) zs" if "q_wait ?A k = Some zs" for k zs
    using q [OF that] by (auto intro: D(7) ordered_remove1)
  show "can_wait u" if "q_wait ?A k = Some zs" "u \<in> set zs" for k zs u
    using q [OF that(1)] that(2) by (auto intro: D(8) dest: in_remove1D)
  show "waits_on s ?A k u" if "q_wait ?A k = Some zs" "u \<in> set zs" "u \<notin> insert t X" for k zs u
  proof -
    have "waits_on s A k u"
      using q [OF that(1)] that(2,3) by (auto intro: D(9) dest: in_remove1D)
    then show ?thesis unfolding waits_on_def st by simp
  qed
qed (use queues_okD [OF ok] in \<open>simp_all add: q_unwait_def\<close>)

lemma queues_ok_unsleep:
  assumes ok: "queues_ok X s A" and t: "t \<in> X"
  shows "queues_ok X s (q_unsleep t A)" (is "queues_ok _ s ?A")
proof (rule queues_okI)
  note D = queues_okD [OF ok]
  have st: "q_state ?A = q_state A" by (simp add: q_unsleep_def)
  have z: "u \<in> set (q_sleep ?A) \<longleftrightarrow> u \<in> set (q_sleep A)" if "u \<noteq> t" for u
    using that by (simp add: q_unsleep_def in_set_remove1)
  have sub: "set (q_sleep ?A) \<subseteq> set (q_sleep A)" by (simp add: q_unsleep_def set_remove1_subset)
  show "queued ?A \<subseteq> q_tasks ?A" using D(1) sub by (auto simp: queued_def)
  show "ordered_by (sooner s) (q_sleep ?A)" using D(3) by (simp add: q_unsleep_def ordered_remove1)
  show "can_wait u \<and> sleeps s ?A u" if "u \<in> set (q_sleep ?A)" "u \<notin> X" for u
    using that sub D(5,6) [of u] unfolding sleeps_def st by auto
  show "waits_on s ?A m u" if "q_wait ?A m = Some ys" "u \<in> set ys" "u \<notin> X" for m ys u
  proof -
    have "u \<noteq> t" using that t by auto
    then show ?thesis using D(9) [of m ys u] that z unfolding waits_on_def st by simp
  qed
qed (use queues_okD [OF ok] in \<open>simp_all add: q_unsleep_def\<close>)

text \<open>A task that is in no queue is on no way between two.\<close>

lemma queues_ok_drop:
  assumes ok: "queues_ok (insert t X) s A" and t: "t \<notin> queued A"
  shows "queues_ok X s A"
proof (rule queues_okI)
  note D = queues_okD [OF ok]
  show "can_wait u \<and> sleeps s A u" if "u \<in> set (q_sleep A)" "u \<notin> X" for u
    using that t D(5,6) [of u] in_queued(2) by auto
  show "waits_on s A m u" if "q_wait A m = Some ys" "u \<in> set ys" "u \<notin> X" for m ys u
    using that t D(9) [of m ys u] in_queued(3) [of A m ys u] by auto
qed (use queues_okD [OF ok] in simp_all)

lemma queues_ok_mono: "queues_ok X s A \<Longrightarrow> X \<subseteq> Y \<Longrightarrow> queues_ok Y s A"
  unfolding queues_ok_def by blast

section \<open>Waking one waiter\<close>

lemma q_wake_first_Cons:
  "q_wait A m = Some (t # ys) \<Longrightarrow> q_wake_first s m A = q_make_ready s t (q_unsleep t (q_unwait m t A))"
  by (simp add: q_wake_first_def)

lemma first_waiter_unqueued:
  assumes r: "refines s A" and m: "q_wait A m = Some (t # ys)"
  shows "t \<notin> queued (q_unsleep t (q_unwait m t A))"
proof
  let ?A = "q_unsleep t (q_unwait m t A)"
  have w: "q_wait ?A = (q_wait A)(m \<mapsto> ys)" by (simp add: q_unwait_def m)
  assume "t \<in> queued ?A"
  then show False
  proof (cases rule: queued_cases)
    case 1
    then show ?thesis using refines_disjoint(1) [OF r m] by auto
  next
    case 2
    then show ?thesis using refines_distinct(2) [OF r] by (simp add: q_unsleep_def q_unwait_def)
  next
    case (3 k zs)
    show ?thesis
    proof (cases "k = m")
      case True
      then show ?thesis using 3 w refines_distinct(3) [OF r m] by simp
    next
      case False
      then show ?thesis using 3 w refines_disjoint(2) [OF r m, of k zs] by auto
    qed
  qed
qed

lemma queues_ok_wake_first:
  assumes r: "refines s A" and ok: "queues_ok X s A" and m: "q_wait A m = Some (t # ys)"
  shows "queues_ok X s (q_wake_first s m A)"
proof -
  let ?A = "q_unsleep t (q_unwait m t A)"
  have "t \<in> q_tasks A" using in_queued(3) [OF m, of t] queues_okD(1) [OF ok] by auto
  moreover have "queues_ok (insert t X) s ?A"
    using queues_ok_unwait [OF ok m] by (intro queues_ok_unsleep) simp_all
  then have "queues_ok X s ?A" using first_waiter_unqueued [OF r m] by (rule queues_ok_drop)
  ultimately show ?thesis
    unfolding q_wake_first_Cons [OF m]
    using first_waiter_unqueued [OF r m] by (intro queues_ok_make_ready) simp_all
qed

lemma wake_first_waiter_refines:
  assumes r: "refines s A" and ok: "queues_ok X s A" and m: "q_wait A m = Some (t # ys)"
  shows "\<exists>s'. wake_first_waiter m s = Some s' \<and> refines s' (q_wake_first s m A) \<and> kframe s s' \<and>
     sems s' = (sems s)(m := (sem s m)\<lparr>num_waiters := num_waiters (sem s m) - 1\<rparr>)"
proof -
  have "heads A (Wait_list m) = Some (Task_list t # map Task_list ys)" using m by simp
  then have "dlist (nodes s) (Wait_list m) (Task_list t # map Task_list ys)"
    using r lists_at_holds by (metis refines_def)
  then have pop: "rt_list_pop_front (Wait_list m) (nodes s)
      = (Task_list t, rt_list_remove (Task_list t) (nodes s))"
    by (rule rt_list_pop_front_spec)
  let ?s1 = "upd_nodes (rt_list_remove (Task_list t)) s" and ?A1 = "q_unwait m t A"
  let ?s2 = "upd_nodes (rt_list_remove (Task_sleep_list t)) ?s1" and ?A2 = "q_unsleep t ?A1"
  have t: "t \<in> q_tasks A" using in_queued(3) [OF m, of t] queues_okD(1) [OF ok] by auto
  have "refines ?s1 ?A1" using r m by (rule unwait_refines) simp
  then have r2: "refines ?s2 ?A2" using t by (intro unsleep_refines) simp_all
  have fr: "kframe s ?s2" using kframe_trans [OF kframe_nodes(2) kframe_nodes(2)] .
  have un: "t \<notin> queued ?A2" using r m by (rule first_waiter_unqueued)
  obtain s3 where s3: "task_ready t ?s2 = Some s3" "refines s3 (q_make_ready ?s2 t ?A2)"
    "kframe ?s2 s3" "sems s3 = sems ?s2"
    using task_ready_refines [OF r2, of t] un in_queued by metis
  let ?s4 = "upd_sem m (\<lambda>r. r\<lparr>num_waiters := num_waiters r - 1\<rparr>) s3"
  have "wake_first_waiter m s = Some ?s4"
    using s3(1) by (simp add: wake_first_waiter_def pop) (simp add: upd_nodes_def)
  moreover have "refines ?s4 (q_wake_first s m A)"
    using s3(2) by (simp add: q_wake_first_Cons [OF m] q_make_ready_frame [OF fr] refines_def kernel_simps)
  moreover have "kframe s ?s4"
    by (rule kframe_trans [OF kframe_trans [OF fr s3(3)] kframe_num_waiters])
  ultimately show ?thesis using s3(4) by (auto simp: kernel_simps)
qed

section \<open>Waking every waiter in excess\<close>

lemma q_wake_wait:
  "q_wait A m = Some ys \<Longrightarrow> n \<le> length ys \<Longrightarrow> q_wait (q_wake n s m A) = (q_wait A)(m \<mapsto> drop n ys)"
proof (induction n arbitrary: A ys)
  case (Suc n)
  then obtain t zs where ys: "ys = t # zs" by (cases ys) auto
  have "q_wait (q_wake_first s m A) = (q_wait A)(m \<mapsto> zs)"
    using Suc.prems(1) by (simp add: ys q_wake_first_Cons) (simp add: q_unwait_def)
  then show ?case using Suc.IH [of "q_wake_first s m A" zs] Suc.prems(2) by (simp add: ys fun_eq_iff)
qed auto

lemma q_wake_first_tasks [simp]: "q_tasks (q_wake_first s m A) = q_tasks A"
  by (simp add: q_wake_first_def split: option.split list.split)

lemma q_wake_tasks [simp]: "q_tasks (q_wake n s m A) = q_tasks A"
  by (induction n arbitrary: A) simp_all

lemma q_wake_ready:
  "q_wait A m = Some ys \<Longrightarrow> n \<le> length ys \<Longrightarrow>
   q_ready (q_wake n s m A) = fold (insert_by (higher s)) (take n ys) (q_ready A)"
proof (induction n arbitrary: A ys)
  case (Suc n)
  then obtain t zs where ys: "ys = t # zs" by (cases ys) auto
  have "q_wait (q_wake_first s m A) m = Some zs"
    "q_ready (q_wake_first s m A) = insert_by (higher s) t (q_ready A)"
    using Suc.prems(1) by (simp_all add: ys q_wake_first_Cons q_unwait_def q_make_ready_def q_unsleep_def)
  then show ?case using Suc.IH [of "q_wake_first s m A" zs] Suc.prems(2) by (simp add: ys)
qed simp

lemma q_wake_sleep:
  "q_wait A m = Some ys \<Longrightarrow> n \<le> length ys \<Longrightarrow> distinct (q_sleep A) \<Longrightarrow>
   q_sleep (q_wake n s m A) = filter (\<lambda>t. t \<notin> set (take n ys)) (q_sleep A)"
proof (induction n arbitrary: A ys)
  case (Suc n)
  then obtain t zs where ys: "ys = t # zs" by (cases ys) auto
  have "q_wait (q_wake_first s m A) m = Some zs"
    "q_sleep (q_wake_first s m A) = filter (\<lambda>u. t \<noteq> u) (q_sleep A)"
    using Suc.prems by (simp_all add: ys q_wake_first_Cons q_unwait_def q_make_ready_def q_unsleep_def
        distinct_remove1_removeAll removeAll_filter_not_eq)
  then show ?case
    using Suc.IH [of "q_wake_first s m A" zs] Suc.prems(2,3)
    by (simp add: ys) (rule filter_cong; auto)
qed simp

lemma q_wake_state:
  "q_wait A m = Some ys \<Longrightarrow> n \<le> length ys \<Longrightarrow>
   q_state (q_wake n s m A) t = (if t \<in> set (take n ys) then RT_TASK_STATE_READY else q_state A t)"
proof (induction n arbitrary: A ys)
  case (Suc n)
  then obtain u zs where ys: "ys = u # zs" by (cases ys) auto
  have "q_wait (q_wake_first s m A) m = Some zs"
    "q_state (q_wake_first s m A) = (q_state A)(u := RT_TASK_STATE_READY)"
    using Suc.prems(1) by (simp_all add: ys q_wake_first_Cons q_unwait_def q_make_ready_def q_unsleep_def)
  then show ?case using Suc.IH [of "q_wake_first s m A" zs] Suc.prems(2) by (simp add: ys)
qed simp

lemma counts_wake_first:
  assumes c: "counts s A" and m: "q_wait A m = Some (t # ys)"
    and s': "sems s' = (sems s)(m := (sem s m)\<lparr>num_waiters := num_waiters (sem s m) - 1\<rparr>)"
  shows "counts s' (q_wake_first s m A)"
proof -
  have w: "q_wait (q_wake_first s m A) = (q_wait A)(m \<mapsto> ys)"
    using q_wake_wait [OF m, of 1 s] by simp
  have "unat (num_waiters (sem s m)) = Suc (length ys)" using c m by (simp add: counts_def)
  then have "unat (num_waiters (sem s m) - 1) = length ys"
    using unat_dec [of "num_waiters (sem s m)"] by (metis diff_Suc_1 nat.distinct(1) unat_0)
  then show ?thesis using c by (simp add: counts_def w s')
qed

lemma wake_while_refines:
  assumes "refines s A" and "queues_ok X s A" and "counts s A" and "q_wait A m = Some ys"
    and "set ys \<inter> X = {}"
  shows "\<exists>s'. wake_while w m s = Some s' \<and> refines s' (q_wake (length ys - unat w) s m A) \<and>
     queues_ok X s' (q_wake (length ys - unat w) s m A) \<and>
     counts s' (q_wake (length ys - unat w) s m A) \<and> kframe s s'"
  using assms
proof (induction "length ys - unat w" arbitrary: s A ys)
  case 0
  then have "\<not> num_waiters (sem s m) > w" by (simp add: counts_def word_less_nat_alt)
  then have "wake_while w m s = Some s" by (simp add: wake_while.simps)
  then show ?case using 0 by simp
next
  case (Suc n)
  then obtain t zs where ys: "ys = t # zs" by (cases ys) auto
  have m: "q_wait A m = Some (t # zs)" using Suc.prems(4) ys by simp
  have n: "n = length zs - unat w" using Suc.hyps(2) ys by simp
  let ?A = "q_wake_first s m A"
  obtain s1 where s1: "wake_first_waiter m s = Some s1" "refines s1 ?A" "kframe s s1"
    "sems s1 = (sems s)(m := (sem s m)\<lparr>num_waiters := num_waiters (sem s m) - 1\<rparr>)"
    using wake_first_waiter_refines [OF Suc.prems(1,2) m] by blast
  have c1: "counts s1 ?A" using Suc.prems(3) m s1(4) by (rule counts_wake_first)
  have ok1: "queues_ok X s1 ?A"
    using queues_ok_wake_first [OF Suc.prems(1,2) m] by (simp add: queues_ok_frame [OF s1(3)])
  have m1: "q_wait ?A m = Some zs" using q_wake_wait [OF m, of 1 s] by simp
  have "set zs \<inter> X = {}" using Suc.prems(5) by (auto simp: ys)
  from Suc.hyps(1) [OF n s1(2) ok1 c1 m1 this] obtain s' where
    s': "wake_while w m s1 = Some s'" "refines s' (q_wake n s1 m ?A)" "queues_ok X s' (q_wake n s1 m ?A)"
      "counts s' (q_wake n s1 m ?A)" "kframe s1 s'"
    unfolding n by blast
  have "num_waiters (sem s m) > w"
    using Suc.prems(3) m Suc.hyps(2) ys by (auto simp: counts_def word_less_nat_alt)
  then have "wake_while w m s = Some s'" using s1(1) s'(1) by (simp add: wake_while.simps [of w m s])
  moreover have "q_wake n s1 m ?A = q_wake (length ys - unat w) s m A"
    unfolding Suc.hyps(2) [symmetric] by (simp add: q_wake_frame [OF s1(3)])
  ultimately show ?case using s' kframe_trans [OF s1(3)] by auto
qed

text \<open>How many waiters a semaphore of this value leaves waiting.\<close>

definition sem_waiters :: "int \<Rightarrow> nat" where
  "sem_waiters v = nat (int_wrap (- v))"

lemma sem_waiters_eq: "c_int v \<Longrightarrow> v \<noteq> INT_MIN \<Longrightarrow> sem_waiters v = nat (- v)"
  by (simp add: sem_waiters_def c_int_def)

lemma wake_sem_waiters_while:
  "\<exists>w. wake_sem_waiters m s = wake_while w m s \<and> unat w = sem_waiters (sem_value (sem s m))"
proof -
  let ?v = "int_wrap (- sem_value (sem s m))"
  have c: "c_int ?v" by simp
  have "unat (word_of_int (if ?v < 0 then 0 else ?v) :: size_t) = nat ?v"
    using c by (auto simp: c_int_def unat_eq_nat_uint uint_word_of_int)
  then show ?thesis by (auto simp: wake_sem_waiters_def sem_waiters_def Let_def)
qed

lemma wake_sem_waiters_refines:
  assumes "refines s A" and "queues_ok X s A" and "counts s A" and "q_wait A m = Some ys"
    and "set ys \<inter> X = {}"
  defines "n \<equiv> length ys - sem_waiters (sem_value (sem s m))"
  shows "\<exists>s'. wake_sem_waiters m s = Some s' \<and> refines s' (q_wake n s m A) \<and>
     queues_ok X s' (q_wake n s m A) \<and> counts s' (q_wake n s m A) \<and> kframe s s'"
proof -
  obtain w where "wake_sem_waiters m s = wake_while w m s" "unat w = sem_waiters (sem_value (sem s m))"
    using wake_sem_waiters_while by blast
  then show ?thesis using wake_while_refines [OF assms(1-5), of w] unfolding n_def by simp
qed

end
