(* ===== verification/Rt_Tick.thy ===== *)
theory Rt_Tick
  imports Rt_Wake
begin

text \<open>
  The tick: \<^verbatim>\<open>tick_syscall\<close> wakes every sleeper whose time has come, whatever the wrap-around
  of the tick counter, takes timed out waiters off their semaphores, and leaves the others in
  the order of their remaining time.
\<close>

section \<open>Steps that only wake tasks\<close>

definition advances :: "queues \<Rightarrow> queues \<Rightarrow> bool" where
  "advances A A' \<longleftrightarrow>
     q_tasks A' = q_tasks A \<and> dom (q_wait A') = dom (q_wait A) \<and> queued A' \<subseteq> queued A \<and>
     set (q_ready A) \<subseteq> set (q_ready A') \<and> set (q_sleep A') \<subseteq> set (q_sleep A) \<and>
     set (q_sleep A) - set (q_sleep A') \<subseteq> set (q_ready A') \<and>
     (\<forall>m ys ys'. q_wait A m = Some ys \<longrightarrow> q_wait A' m = Some ys' \<longrightarrow>
        set ys' \<subseteq> set ys \<and> set ys - set ys' \<subseteq> set (q_ready A')) \<and>
     (\<forall>t. t \<notin> set (q_ready A') - set (q_ready A) \<longrightarrow> q_state A' t = q_state A t)"

definition asleep :: "queues \<Rightarrow> task_id set" where
  "asleep A = {t \<in> set (q_sleep A). q_state A t = RT_TASK_STATE_ASLEEP}"

lemma advances_refl [simp]: "advances A A"
  by (simp add: advances_def)

lemma advancesD:
  assumes "advances A A'"
  shows "q_tasks A' = q_tasks A" and "dom (q_wait A') = dom (q_wait A)" and "queued A' \<subseteq> queued A"
    and "set (q_ready A) \<subseteq> set (q_ready A')" and "set (q_sleep A') \<subseteq> set (q_sleep A)"
    and "set (q_sleep A) - set (q_sleep A') \<subseteq> set (q_ready A')"
    and "t \<notin> set (q_ready A') - set (q_ready A) \<Longrightarrow> q_state A' t = q_state A t"
  using assms by (simp_all add: advances_def)

lemma advances_wait:
  assumes "advances A A'" and "q_wait A m = Some ys" and "q_wait A' m = Some ys'"
  shows "set ys' \<subseteq> set ys" and "set ys - set ys' \<subseteq> set (q_ready A')"
  using assms unfolding advances_def by metis+

lemma advances_trans:
  assumes "advances A B" and "advances B C"
  shows "advances A C"
proof -
  have "set ys'' \<subseteq> set ys \<and> set ys - set ys'' \<subseteq> set (q_ready C)"
    if "q_wait A m = Some ys" "q_wait C m = Some ys''" for m ys ys''
  proof -
    have "m \<in> dom (q_wait B)" using assms that unfolding advances_def by blast
    then obtain ys' where "q_wait B m = Some ys'" by blast
    then have "set ys'' \<subseteq> set ys'" "set ys' - set ys'' \<subseteq> set (q_ready C)"
      "set ys' \<subseteq> set ys" "set ys - set ys' \<subseteq> set (q_ready B)" "set (q_ready B) \<subseteq> set (q_ready C)"
      using assms that unfolding advances_def by metis+
    then show ?thesis by blast
  qed
  moreover have "q_state C t = q_state A t" if "t \<notin> set (q_ready C) - set (q_ready A)" for t
    using assms that unfolding advances_def by (metis DiffI DiffD1 DiffD2 subsetD)
  ultimately show ?thesis using assms unfolding advances_def by (auto 0 3)
qed

lemma set_fold_insert_by [simp]:
  "set (fold (insert_by b) xs R) = set xs \<union> set R"
  by (induction xs arbitrary: R) auto

lemma q_wake_advances:
  assumes r: "refines s A" and m: "q_wait A m = Some ys" and n: "n \<le> length ys"
  shows "advances A (q_wake n s m A)" (is "advances A ?B")
proof -
  have w: "q_wait ?B = (q_wait A)(m \<mapsto> drop n ys)" using m n by (rule q_wake_wait)
  have R: "set (q_ready ?B) = set (take n ys) \<union> set (q_ready A)" using q_wake_ready [OF m n] by simp
  have Z: "set (q_sleep ?B) = set (q_sleep A) - set (take n ys)"
    using q_wake_sleep [OF m n refines_distinct(2) [OF r]] by auto
  have ys: "set (take n ys) \<union> set (drop n ys) = set ys" by (metis append_take_drop_id set_append)
  have "queued ?B \<subseteq> queued A"
  proof
    fix t assume "t \<in> queued ?B"
    then show "t \<in> queued A"
      by (cases rule: queued_cases)
        (use R Z w in_queued [where t = t and A = A] in_queued(3) [OF m, of t] in
          \<open>auto split: if_splits dest: in_set_takeD in_set_dropD\<close>)
  qed
  moreover have "q_state ?B t = q_state A t" if "t \<notin> set (q_ready ?B) - set (q_ready A)" for t
  proof -
    have "t \<notin> set (take n ys)"
      using that R refines_disjoint(1) [OF r m] ys by auto
    then show ?thesis using q_wake_state [OF m n] by simp
  qed
  moreover have "set zs' \<subseteq> set zs \<and> set zs - set zs' \<subseteq> set (q_ready ?B)"
    if "q_wait A k = Some zs" "q_wait ?B k = Some zs'" for k zs zs'
    using that R ys m w by (cases "k = m") auto
  ultimately show ?thesis using m R Z unfolding advances_def by (auto simp: w)
qed

lemma q_wake_asleep:
  assumes r: "refines s A" and ok: "queues_ok X s A" and m: "q_wait A m = Some ys"
    and n: "n \<le> length ys" and X: "set ys \<inter> X = {}"
  shows "asleep (q_wake n s m A) = asleep A"
proof -
  have Z: "set (q_sleep (q_wake n s m A)) = set (q_sleep A) - set (take n ys)"
    using q_wake_sleep [OF m n refines_distinct(2) [OF r]] by auto
  have "q_state A t \<noteq> RT_TASK_STATE_ASLEEP" if "t \<in> set (take n ys)" for t
  proof -
    have "t \<in> set ys" using that by (rule in_set_takeD)
    then have "waits_on s A m t" using queues_okD(9) [OF ok m] X by auto
    then show ?thesis by (auto simp: waits_on_def)
  qed
  then show ?thesis unfolding asleep_def Z q_wake_state [OF m n] by auto
qed

section \<open>Frames of the handler\<close>

text \<open>
  What handling one record may change: beside the queues, the semaphore values, the record of a
  task in \<open>Y\<close>, and the time. Everything else is kept.
\<close>

definition hframe :: "task_id set \<Rightarrow> kernel \<Rightarrow> kernel \<Rightarrow> bool" where
  "hframe Y s s' \<longleftrightarrow>
     (\<forall>t. ctx (task s' t) = ctx (task s t) \<and> task_name (task s' t) = task_name (task s t) \<and>
        priority (task s' t) = priority (task s t) \<and>
        next_record (task_record (task s' t)) = next_record (task_record (task s t)) \<and>
        syscall (task_record (task s' t)) = syscall (task_record (task s t)) \<and>
        (t \<notin> Y \<longrightarrow> wake_tick (task s' t) = wake_tick (task s t) \<and>
           task_record (task s' t) = task_record (task s t))) \<and>
     (\<forall>m. post_record (sem s' m) = post_record (sem s m) \<and> max_value (sem s' m) = max_value (sem s m)) \<and>
     tick_record s' = tick_record s \<and> pending_syscalls s' = pending_syscalls s \<and>
     active_task s' = active_task s \<and> rt_context_prev s' = rt_context_prev s \<and>
     tick s' = tick s \<and> syscall_pended s' = syscall_pended s \<and>
     interrupt_active s' = interrupt_active s"

lemma hframe_kframe: "kframe s s' \<Longrightarrow> hframe Y s s'"
  by (simp add: hframe_def kframeD)

lemma hframe_trans: "hframe Y s s' \<Longrightarrow> hframe Y s' s'' \<Longrightarrow> hframe Y s s''"
  by (simp add: hframe_def)

lemma hframe_mono: "hframe Y s s' \<Longrightarrow> Y \<subseteq> Y' \<Longrightarrow> hframe Y' s s'"
  unfolding hframe_def by blast

lemma hframe_get_record:
  "hframe Y s s' \<Longrightarrow> next_record (get_record s' r) = next_record (get_record s r)"
  by (cases r) (simp_all add: hframe_def)

section \<open>Waking one sleeper\<close>

lemma rt_sem_add_n_sel [kernel_simps]:
  "nodes (rt_sem_add_n m n s) = nodes s" "tasks (rt_sem_add_n m n s) = tasks s"
  "woken_tick (rt_sem_add_n m n s) = woken_tick s" "tick (rt_sem_add_n m n s) = tick s"
  "active_task (rt_sem_add_n m n s) = active_task s"
  by (simp_all add: rt_sem_add_n_def kernel_simps)

lemma refines_cong: "refines s A \<Longrightarrow> nodes s' = nodes s \<Longrightarrow> tasks s' = tasks s \<Longrightarrow> refines s' A"
  by (simp add: refines_def)

lemma queues_ok_cong:
  "queues_ok X s A \<Longrightarrow> tasks s' = tasks s \<Longrightarrow> woken_tick s' = woken_tick s \<Longrightarrow> queues_ok X s' A"
  by (simp add: queues_ok_def ordered_by_def higher_def sooner_def waits_on_def sleeps_def)

lemma sleeping_timedwait:
  assumes ok: "queues_ok {} s A" and t: "t \<in> set (q_sleep A)"
  shows "syscall (task_record (task s t)) = RT_SYSCALL_SEM_TIMEDWAIT \<Longrightarrow>
      \<exists>m ys ticks. q_wait A m = Some ys \<and> t \<in> set ys \<and>
        args (task_record (task s t)) = Sem_timedwait m ticks \<and>
        q_state A t = RT_TASK_STATE_BLOCKED_TIMEOUT"
    and "syscall (task_record (task s t)) \<noteq> RT_SYSCALL_SEM_TIMEDWAIT \<Longrightarrow>
      q_state A t = RT_TASK_STATE_ASLEEP"
proof -
  have sl: "sleeps s A t" using queues_okD(6) [OF ok t] by simp
  have w: "waits_on s A m t" if "q_wait A m = Some ys" "t \<in> set ys" for m ys
    using queues_okD(9) [OF ok that] by simp
  show "\<exists>m ys ticks. q_wait A m = Some ys \<and> t \<in> set ys \<and>
        args (task_record (task s t)) = Sem_timedwait m ticks \<and>
        q_state A t = RT_TASK_STATE_BLOCKED_TIMEOUT"
    if "syscall (task_record (task s t)) = RT_SYSCALL_SEM_TIMEDWAIT"
  proof -
    from sl that obtain m ys where "q_wait A m = Some ys" "t \<in> set ys"
      by (auto simp: sleeps_def ran_def)
    with w [of m ys] t show ?thesis by (auto simp: waits_on_def)
  qed
  show "q_state A t = RT_TASK_STATE_ASLEEP"
    if "syscall (task_record (task s t)) \<noteq> RT_SYSCALL_SEM_TIMEDWAIT"
  proof (rule ccontr)
    assume "q_state A t \<noteq> RT_TASK_STATE_ASLEEP"
    with sl obtain m ys where "q_wait A m = Some ys" "t \<in> set ys"
      by (auto simp: sleeps_def ran_def)
    with w [of m ys] t that show False by (auto simp: waits_on_def)
  qed
qed

text \<open>The end of the loop body: the task leaves the sleep list and becomes ready.\<close>

lemma wake_end:
  assumes r: "refines s A" and ok: "queues_ok {t} s A" and t: "t \<in> set (q_sleep A)"
    and un: "t \<notin> set (q_ready A)" "\<forall>m ys. q_wait A m = Some ys \<longrightarrow> t \<notin> set ys"
  defines "B \<equiv> q_make_ready s t (q_unsleep t A)"
  shows "\<exists>s'. task_ready t (upd_nodes (rt_list_remove (Task_sleep_list t)) s) = Some s' \<and>
      refines s' B \<and> queues_ok {} s' B \<and> kframe s s' \<and> sems s' = sems s"
    and "advances A B" and "asleep B = asleep A - {t}"
proof -
  let ?s = "upd_nodes (rt_list_remove (Task_sleep_list t)) s" and ?A = "q_unsleep t A"
  have tt: "t \<in> q_tasks A" using queues_okD(1) [OF ok] in_queued(2) [OF t] by auto
  have d: "distinct (q_sleep A)" using r by (rule refines_distinct)
  have Z: "set (q_sleep ?A) = set (q_sleep A) - {t}" using d by (simp add: q_unsleep_def set_remove1_eq)
  have r': "refines ?s ?A" using r tt by (rule unsleep_refines)
  have nq: "t \<notin> queued ?A"
  proof
    assume "t \<in> queued ?A"
    then show False by (cases rule: queued_cases) (use un Z in auto)
  qed
  have fr: "kframe s ?s" by simp
  obtain s' where s': "task_ready t ?s = Some s'" "refines s' (q_make_ready ?s t ?A)" "kframe ?s s'"
    "sems s' = sems ?s"
    using task_ready_refines [OF r', of t] un by auto
  have "queues_ok {t} s ?A" using ok by (rule queues_ok_unsleep) simp
  then have "queues_ok {} s ?A" using nq by (rule queues_ok_drop)
  then have "queues_ok {} s B"
    unfolding B_def using tt nq by (intro queues_ok_make_ready) simp_all
  moreover have "kframe s s'" using fr s'(3) by (rule kframe_trans)
  ultimately show "\<exists>s'. task_ready t ?s = Some s' \<and> refines s' B \<and> queues_ok {} s' B \<and>
      kframe s s' \<and> sems s' = sems s"
    using s' by (auto simp: B_def q_make_ready_frame [OF fr] queues_ok_frame kernel_simps)
  have R: "set (q_ready B) = insert t (set (q_ready A))"
    by (simp add: B_def q_make_ready_def q_unsleep_def)
  have st: "q_state B = (q_state A)(t := RT_TASK_STATE_READY)"
    by (simp add: B_def q_make_ready_def q_unsleep_def)
  have "queued ?A \<subseteq> queued A" using Z by (auto simp: queued_def)
  then have "queued B \<subseteq> queued A" using in_queued(2) [OF t] by (auto simp: B_def)
  moreover have ZB: "set (q_sleep B) = set (q_sleep A) - {t}" using Z by (simp add: B_def)
  moreover have "q_wait B = q_wait A" "q_tasks B = q_tasks A" by (simp_all add: B_def)
  ultimately show "advances A B" using un(1) R unfolding advances_def by (auto simp: st)
  show "asleep B = asleep A - {t}" using ZB by (auto simp: asleep_def st)
qed

lemma advances_from_unwait:
  assumes adv: "advances (q_unwait m t A) B" and m: "q_wait A m = Some ys" "t \<in> set ys"
    and B: "t \<in> set (q_ready B)"
  shows "advances A B"
proof -
  let ?A = "q_unwait m t A"
  have w: "q_wait ?A = (q_wait A)(m \<mapsto> remove1 t ys)" using m by (simp add: q_unwait_def)
  have "queued ?A \<subseteq> queued A" using m(1) by (rule queued_unwait_subset)
  moreover have "dom (q_wait ?A) = dom (q_wait A)" using m(1) by (auto simp: w)
  moreover have "set zs' \<subseteq> set zs \<and> set zs - set zs' \<subseteq> set (q_ready B)"
    if "q_wait A k = Some zs" "q_wait B k = Some zs'" for k zs zs'
  proof -
    let ?zs = "if k = m then remove1 t zs else zs"
    have "q_wait ?A k = Some ?zs" using that(1) m(1) by (auto simp: w)
    then have "set zs' \<subseteq> set ?zs" "set ?zs - set zs' \<subseteq> set (q_ready B)"
      using advances_wait [OF adv _ that(2)] by auto
    moreover have "set ?zs \<subseteq> set zs" by (simp add: set_remove1_subset)
    moreover have "x \<in> set ?zs" if "x \<in> set zs - {t}" for x using that by (simp add: in_set_remove1)
    ultimately show ?thesis using B by blast
  qed
  moreover have "q_state ?A = q_state A" by (simp add: q_unwait_def)
  ultimately show ?thesis using adv unfolding advances_def by auto
qed

lemma queues_ok_records:
  assumes "queues_ok X s A" and "woken_tick s' = woken_tick s"
    and "\<And>u. priority (task s' u) = priority (task s u)" "\<And>u. wake_tick (task s' u) = wake_tick (task s u)"
    and "\<And>u. u \<notin> X \<Longrightarrow> task_record (task s' u) = task_record (task s u)"
  shows "queues_ok X s' A"
proof -
  have h: "higher s' = higher s" "sooner s' = sooner s"
    by (intro ext; simp add: higher_def sooner_def assms)+
  note D = queues_okD [OF assms(1)]
  show ?thesis
  proof (rule queues_okI)
    show "can_wait u \<and> sleeps s' A u" if "u \<in> set (q_sleep A)" "u \<notin> X" for u
      using D(5,6) that assms(5) by (simp add: sleeps_def)
    show "waits_on s' A m u" if "q_wait A m = Some ys" "u \<in> set ys" "u \<notin> X" for m ys u
      using D(9) that assms(5) by (simp add: waits_on_def)
  qed (use D in \<open>simp_all add: h\<close>)
qed

lemma counts_unwait:
  assumes c: "counts s A" and m: "q_wait A m = Some ys" "t \<in> set ys"
    and s': "\<And>k. num_waiters (sem s' k) = (if k = m then num_waiters (sem s k) - 1 else num_waiters (sem s k))"
  shows "counts s' (q_unwait m t A)"
proof -
  have n: "unat (num_waiters (sem s m)) = length ys" using c m by (simp add: counts_def)
  then have "num_waiters (sem s m) \<noteq> 0" using m(2) by auto
  then have "unat (num_waiters (sem s m) - 1) = length (remove1 t ys)"
    using n m(2) by (simp add: unat_dec length_remove1)
  then show ?thesis using c m by (simp add: counts_def s' q_unwait_def)
qed

lemma wake_sleeper_asleep:
  assumes r: "refines s A" and ok: "queues_ok {} s A" and c: "counts s A"
    and t: "t \<in> set (q_sleep A)"
    and sys: "syscall (task_record (task s t)) \<noteq> RT_SYSCALL_SEM_TIMEDWAIT"
  defines "B \<equiv> q_make_ready s t (q_unsleep t A)"
  shows "\<exists>s'. wake_sleeper t s = Some s' \<and> refines s' B \<and> queues_ok {} s' B \<and> counts s' B \<and> kframe s s'"
    and "advances A B" and "asleep B = asleep A - {t}"
proof -
  have st: "q_state A t = RT_TASK_STATE_ASLEEP" using sleeping_timedwait(2) [OF ok t sys] .
  have un: "t \<notin> set (q_ready A)" using queues_okD(4) [OF ok] st by force
  have uw: "\<forall>m ys. q_wait A m = Some ys \<longrightarrow> t \<notin> set ys"
    using queues_okD(9) [OF ok, of _ _ t] st by (auto simp: waits_on_def)
  have ok': "queues_ok {t} s A" using ok by (rule queues_ok_mono) simp
  note e = wake_end [OF r ok' t un uw]
  show "advances A B" unfolding B_def by (rule e(2))
  show "asleep B = asleep A - {t}" unfolding B_def by (rule e(3))
  have "wake_sleeper t s = task_ready t (upd_nodes (rt_list_remove (Task_sleep_list t)) s)"
    using sys by (simp add: wake_sleeper_def)
  moreover have "q_wait B = q_wait A" by (simp add: B_def)
  ultimately show "\<exists>s'. wake_sleeper t s = Some s' \<and> refines s' B \<and> queues_ok {} s' B \<and>
      counts s' B \<and> kframe s s'"
    using e(1) c unfolding B_def by (auto simp: counts_def)
qed

text \<open>
  A timed out waiter gives its place in the semaphore's count back, which may let others go, and
  finds a null pointer where its record named the semaphore.
\<close>

definition timed_out :: "task_id \<Rightarrow> ulong \<Rightarrow> kernel \<Rightarrow> kernel" where
  "timed_out t ticks = upd_task t (task_record_update (args_update (\<lambda>_. Sem_timedwait NULL ticks)))"

lemma q_timeout_facts:
  assumes r: "refines s A" and t: "t \<in> set (q_sleep A)" and m: "q_wait A m = Some ys" "t \<in> set ys"
    and n: "n \<le> length ys - 1"
  defines "A2 \<equiv> q_wake n s m (q_unwait m t A)"
  shows "t \<in> set (q_sleep A2)" and "t \<notin> set (q_ready A2)"
    and "\<forall>k zs. q_wait A2 k = Some zs \<longrightarrow> t \<notin> set zs"
proof -
  have m1: "q_wait (q_unwait m t A) m = Some (remove1 t ys)" using m by (simp add: q_unwait_def)
  have nt: "t \<notin> set (remove1 t ys)" using refines_distinct(3) [OF r m(1)] by simp
  have n1: "n \<le> length (remove1 t ys)" using n m(2) by (simp add: length_remove1)
  have d: "distinct (q_sleep (q_unwait m t A))" using refines_distinct(2) [OF r] by simp
  show "t \<in> set (q_sleep A2)"
    using t nt q_wake_sleep [OF m1 n1 d, of s] by (auto simp: A2_def dest: in_set_takeD)
  show "t \<notin> set (q_ready A2)"
    using nt q_wake_ready [OF m1 n1, of s] refines_disjoint(1) [OF r m(1)] m(2)
    by (auto simp: A2_def dest: in_set_takeD)
  have "t \<notin> set zs" if "q_wait A2 k = Some zs" for k zs
  proof (cases "k = m")
    case True
    then show ?thesis
      using that nt q_wake_wait [OF m1 n1, of s] by (auto simp: A2_def dest: in_set_dropD)
  next
    case False
    then have "q_wait A k = Some zs"
      using that q_wake_wait [OF m1 n1, of s] by (simp add: A2_def q_unwait_def)
    then show ?thesis using refines_disjoint(2) [OF r m(1), of k zs] False m(2) by auto
  qed
  then show "\<forall>k zs. q_wait A2 k = Some zs \<longrightarrow> t \<notin> set zs" by blast
qed

text \<open>The part of the loop body for a timed out waiter, up to and with the wakes it allows.\<close>

lemma timeout_release:
  assumes r: "refines s A" and ok: "queues_ok {} s A" and c: "counts s A"
    and m: "q_wait A m = Some ys" "t \<in> set ys"
  defines "v \<equiv> new_value (sem_value (sem s m)) 1 (max_value (sem s m))"
  defines "s3 \<equiv> upd_sem m (\<lambda>r. r\<lparr>num_waiters := num_waiters r - 1\<rparr>)
      (upd_nodes (rt_list_remove (Task_list t)) (rt_sem_add_n m 1 s))"
  defines "A2 \<equiv> q_wake (length ys - 1 - sem_waiters v) s m (q_unwait m t A)"
  shows "\<exists>s4. wake_sem_waiters m s3 = Some s4 \<and> refines s4 A2 \<and> queues_ok {t} s4 A2 \<and>
      counts s4 A2 \<and> kframe (rt_sem_add_n m 1 s) s4"
    and "advances (q_unwait m t A) A2" and "asleep A2 = asleep A"
proof -
  let ?A1 = "q_unwait m t A"
  have "refines (rt_sem_add_n m 1 s) A" using r by (rule refines_cong) (simp_all add: kernel_simps)
  then have "refines (upd_nodes (rt_list_remove (Task_list t)) (rt_sem_add_n m 1 s)) ?A1"
    using m by (rule unwait_refines)
  then have r3: "refines s3 ?A1" by (rule refines_cong) (simp_all add: s3_def kernel_simps)
  have ok3: "queues_ok {t} s3 ?A1"
    using queues_ok_unwait [OF ok m(1)] by (rule queues_ok_cong) (simp_all add: s3_def kernel_simps)
  have c3: "counts s3 ?A1"
    using c m by (rule counts_unwait) (simp add: s3_def kernel_simps rt_sem_add_n_def)
  have m1: "q_wait ?A1 m = Some (remove1 t ys)" using m by (simp add: q_unwait_def)
  have nX: "set (remove1 t ys) \<inter> {t} = {}" using refines_distinct(3) [OF r m(1)] by simp
  have v3: "sem_value (sem s3 m) = v" by (simp add: v_def s3_def kernel_simps rt_sem_add_n_def)
  have len: "length (remove1 t ys) = length ys - 1" using m(2) by (simp add: length_remove1)
  have fr1: "kframe (rt_sem_add_n m 1 s) s3"
    unfolding s3_def by (rule kframe_trans [OF kframe_nodes(2) kframe_num_waiters])
  have "higher s3 = higher s" by (intro ext) (simp add: higher_def s3_def kernel_simps)
  then have A2: "q_wake (length (remove1 t ys) - sem_waiters v) s3 m ?A1 = A2"
    unfolding A2_def len by (rule q_wake_higher)
  show "\<exists>s4. wake_sem_waiters m s3 = Some s4 \<and> refines s4 A2 \<and> queues_ok {t} s4 A2 \<and>
      counts s4 A2 \<and> kframe (rt_sem_add_n m 1 s) s4"
    using wake_sem_waiters_refines [OF r3 ok3 c3 m1 nX] kframe_trans [OF fr1] unfolding v3 A2 by blast
  show "advances ?A1 A2"
    using q_wake_advances [OF r3 m1, of "length (remove1 t ys) - sem_waiters v"] A2 by simp
  have "asleep A2 = asleep ?A1"
    using q_wake_asleep [OF r3 ok3 m1 _ nX, of "length (remove1 t ys) - sem_waiters v"] A2 by simp
  then show "asleep A2 = asleep A" by (simp add: asleep_def q_unwait_def)
qed

lemma kframe_timed_out:
  assumes "kframe s s'"
  shows "kframe (timed_out t ticks s) (timed_out t ticks s')"
proof -
  have "(task (timed_out t ticks s') u)\<lparr>task_state := task_state (task (timed_out t ticks s) u)\<rparr>
      = task (timed_out t ticks s) u" for u
    by (rule rt_task.equality) (auto simp: timed_out_def kernel_simps kframeD [OF assms])
  then show ?thesis
    using assms unfolding kframe_def timed_out_def upd_task_def by (cases s, cases s') simp
qed

lemma wake_sleeper_timedwait:
  assumes r: "refines s A" and ok: "queues_ok {} s A" and c: "counts s A"
    and t: "t \<in> set (q_sleep A)" and m: "q_wait A m = Some ys" "t \<in> set ys"
    and sys: "syscall (task_record (task s t)) = RT_SYSCALL_SEM_TIMEDWAIT"
      "args (task_record (task s t)) = Sem_timedwait m ticks"
  defines "v \<equiv> new_value (sem_value (sem s m)) 1 (max_value (sem s m))"
  defines "A2 \<equiv> q_wake (length ys - 1 - sem_waiters v) s m (q_unwait m t A)"
  defines "B \<equiv> q_make_ready s t (q_unsleep t A2)"
  shows "\<exists>s'. wake_sleeper t s = Some s' \<and> refines s' B \<and> queues_ok {} s' B \<and> counts s' B \<and>
      kframe (timed_out t ticks (rt_sem_add_n m 1 s)) s'"
    and "advances A B" and "asleep B = asleep A - {t}"
proof -
  note rel = timeout_release [OF r ok c m, folded v_def, folded A2_def]
  obtain s4 where s4: "wake_sem_waiters m (upd_sem m (\<lambda>r. r\<lparr>num_waiters := num_waiters r - 1\<rparr>)
      (upd_nodes (rt_list_remove (Task_list t)) (rt_sem_add_n m 1 s))) = Some s4"
    "refines s4 A2" "queues_ok {t} s4 A2" "counts s4 A2" "kframe (rt_sem_add_n m 1 s) s4"
    using rel(1) by blast
  let ?s5 = "timed_out t ticks s4"
  have r5: "refines ?s5 A2" using s4(2) by (simp add: refines_def timed_out_def kernel_simps)
  have ok5: "queues_ok {t} ?s5 A2"
    by (rule queues_ok_records [OF s4(3)]) (simp_all add: timed_out_def kernel_simps)
  have "length ys - 1 - sem_waiters v \<le> length ys - 1" by simp
  note f = q_timeout_facts [OF r t m this, folded A2_def]
  note e = wake_end [OF r5 ok5 f]
  have "higher ?s5 = higher s"
    using s4(5) by (intro ext) (simp add: higher_def timed_out_def kernel_simps kframeD)
  then have B5: "q_make_ready ?s5 t (q_unsleep t A2) = B" by (simp add: B_def q_make_ready_def)
  have "advances (q_unwait m t A) B" using rel(2) e(2) unfolding B5 by (rule advances_trans)
  then show "advances A B" using m by (rule advances_from_unwait) (simp add: B_def q_make_ready_def)
  show "asleep B = asleep A - {t}" using e(3) rel(3) unfolding B5 by simp
  have step: "wake_sleeper t s = task_ready t (upd_nodes (rt_list_remove (Task_sleep_list t)) ?s5)"
    using sys s4(1) by (simp add: wake_sleeper_def timed_out_def)
  obtain s' where s': "wake_sleeper t s = Some s'" "refines s' B" "queues_ok {} s' B"
    "kframe ?s5 s'" "sems s' = sems ?s5"
    using e(1) unfolding B5 step by blast
  have "kframe (timed_out t ticks (rt_sem_add_n m 1 s)) s'"
    using kframe_timed_out [OF s4(5)] s'(4) by (rule kframe_trans)
  moreover have "counts s' B"
    using s4(4) s'(5) by (simp add: counts_def B_def timed_out_def kernel_simps)
  ultimately show "\<exists>s'. wake_sleeper t s = Some s' \<and> refines s' B \<and> queues_ok {} s' B \<and> counts s' B \<and>
      kframe (timed_out t ticks (rt_sem_add_n m 1 s)) s'"
    using s' by blast
qed

section \<open>Waking every sleeper whose time has come\<close>

text \<open>The ticks a sleeper still has to wait, modulo the width of the counter.\<close>

definition remaining :: "kernel \<Rightarrow> task_id \<Rightarrow> ulong" where
  "remaining s t = wake_tick (task s t) - woken_tick s"

definition tframe :: "task_id set \<Rightarrow> kernel \<Rightarrow> kernel \<Rightarrow> bool" where
  "tframe Y s s' \<longleftrightarrow> hframe Y s s' \<and> woken_tick s' = woken_tick s \<and>
     tick_pending s' = tick_pending s \<and> (\<forall>t. wake_tick (task s' t) = wake_tick (task s t))"

lemma tframe_kframe: "kframe s s' \<Longrightarrow> tframe Y s s'"
  by (simp add: tframe_def hframe_kframe kframeD)

lemma tframe_trans: "tframe Y s s' \<Longrightarrow> tframe Y s' s'' \<Longrightarrow> tframe Y s s''"
  by (simp add: tframe_def) (metis hframe_trans)

lemma tframe_mono: "tframe Y s s' \<Longrightarrow> Y \<subseteq> Y' \<Longrightarrow> tframe Y' s s'"
  unfolding tframe_def using hframe_mono by blast

lemma tframe_remaining: "tframe Y s s' \<Longrightarrow> remaining s' = remaining s"
  by (intro ext) (simp add: tframe_def remaining_def)

lemma tframe_timed_out: "tframe {t} s (timed_out t ticks (rt_sem_add_n m n s))"
  by (simp add: tframe_def hframe_def timed_out_def rt_sem_add_n_def kernel_simps)

lemma wake_sleeper_refines:
  assumes r: "refines s A" and ok: "queues_ok {} s A" and c: "counts s A"
    and t: "t \<in> set (q_sleep A)"
  shows "\<exists>s' B. wake_sleeper t s = Some s' \<and> refines s' B \<and> queues_ok {} s' B \<and> counts s' B \<and>
     tframe {t} s s' \<and> advances A B \<and> asleep B = asleep A - {t} \<and> t \<notin> set (q_sleep B)"
proof (cases "syscall (task_record (task s t)) = RT_SYSCALL_SEM_TIMEDWAIT")
  case True
  from sleeping_timedwait(1) [OF ok t True] obtain m ys ticks where m: "q_wait A m = Some ys"
    "t \<in> set ys" "args (task_record (task s t)) = Sem_timedwait m ticks" by blast
  note w = wake_sleeper_timedwait [OF r ok c t m(1,2) True m(3)]
  obtain s' B where sB: "wake_sleeper t s = Some s'" "refines s' B" "queues_ok {} s' B" "counts s' B"
    "kframe (timed_out t ticks (rt_sem_add_n m 1 s)) s'" "advances A B" "asleep B = asleep A - {t}"
    and B: "B = q_make_ready s t (q_unsleep t (q_wake (length ys - 1 - sem_waiters
      (new_value (sem_value (sem s m)) 1 (max_value (sem s m)))) s m (q_unwait m t A)))"
    using w by blast
  have "t \<in> set (q_ready B)" by (simp add: B q_make_ready_def)
  then have "q_state B t = RT_TASK_STATE_READY" using queues_okD(4) [OF sB(3)] by simp
  then have "t \<notin> set (q_sleep B)" using queues_okD(6) [OF sB(3), of t] by (auto simp: sleeps_def)
  moreover have "tframe {t} s s'"
    using tframe_timed_out tframe_kframe [OF sB(5)] by (rule tframe_trans)
  ultimately show ?thesis using sB by blast
next
  case False
  note w = wake_sleeper_asleep [OF r ok c t False]
  obtain s' B where sB: "wake_sleeper t s = Some s'" "refines s' B" "queues_ok {} s' B" "counts s' B"
    "kframe s s'" "advances A B" "asleep B = asleep A - {t}" and B: "B = q_make_ready s t (q_unsleep t A)"
    using w by blast
  have "t \<notin> set (q_sleep B)" using refines_distinct(2) [OF r] by (simp add: B q_unsleep_def)
  then show ?thesis using sB tframe_kframe by blast
qed

lemma sleep_front:
  assumes "refines s A"
  shows "rt_list_is_empty Sleep_list (nodes s) \<longleftrightarrow> q_sleep A = []"
    and "q_sleep A = t # zs \<Longrightarrow> rt_list_front Sleep_list (nodes s) = Task_sleep_list t"
proof -
  have d: "dlist (nodes s) Sleep_list (map Task_sleep_list (q_sleep A))"
    using assms lists_at_holds [of dlist "nodes s" "heads A" Sleep_list] by (simp add: refines_def)
  show "rt_list_is_empty Sleep_list (nodes s) \<longleftrightarrow> q_sleep A = []"
    using rt_list_is_empty_spec [OF d] by simp
  show "q_sleep A = t # zs \<Longrightarrow> rt_list_front Sleep_list (nodes s) = Task_sleep_list t"
    using rt_list_front_spec [OF d] by simp
qed

lemma sooner_remaining: "sooner s a b \<longleftrightarrow> remaining s a < remaining s b"
  by (simp add: sooner_def remaining_def)

lemma wake_sleepers_refines:
  assumes "refines s A" and "queues_ok {} s A" and "counts s A"
  shows "\<exists>s' B. wake_sleepers d s = Some s' \<and> refines s' B \<and> queues_ok {} s' B \<and> counts s' B \<and>
     tframe (set (q_sleep A)) s s' \<and> advances A B \<and>
     asleep B = {t \<in> asleep A. d < remaining s t} \<and> (\<forall>t \<in> set (q_sleep B). d < remaining s t)"
  using assms
proof (induction "length (q_sleep A)" arbitrary: s A rule: less_induct)
  case less
  note r = less.prems(1) and ok = less.prems(2) and c = less.prems(3)
  show ?case
  proof (cases "q_sleep A")
    case Nil
    then have "wake_sleepers d s = Some s" "asleep A = {}"
      using sleep_front(1) [OF r] by (simp_all add: wake_sleepers.simps asleep_def)
    then show ?thesis using less.prems Nil tframe_kframe [OF kframe_refl] by fastforce
  next
    case (Cons t zs)
    note fr = sleep_front(2) [OF r Cons]
    show ?thesis
    proof (cases "d < remaining s t")
      case True
      have "\<not> sooner s u t" if "u \<in> set (q_sleep A)" for u
        using sooner.hd_ordered_first [OF queues_okD(3) [OF ok] that] Cons by simp
      then have all: "d < remaining s u" if "u \<in> set (q_sleep A)" for u
        using that True by (force simp: sooner_remaining)
      then have "asleep A = {u \<in> asleep A. d < remaining s u}" by (auto simp: asleep_def)
      moreover have "wake_sleepers d s = Some s"
        using True fr sleep_front(1) [OF r] Cons by (simp add: wake_sleepers.simps remaining_def)
      ultimately show ?thesis
        using less.prems all tframe_kframe [OF kframe_refl] advances_refl by blast
    next
      case False
      have t: "t \<in> set (q_sleep A)" using Cons by simp
      obtain s1 A1 where s1: "wake_sleeper t s = Some s1" "refines s1 A1" "queues_ok {} s1 A1"
        "counts s1 A1" "tframe {t} s s1" "advances A A1" "asleep A1 = asleep A - {t}" "t \<notin> set (q_sleep A1)"
        using wake_sleeper_refines [OF r ok c t] by blast
      have sub: "set (q_sleep A1) \<subset> set (q_sleep A)" using advancesD(5) [OF s1(6)] t s1(8) by blast
      then have "length (q_sleep A1) < length (q_sleep A)"
        using refines_distinct(2) [OF r] refines_distinct(2) [OF s1(2)]
        by (metis distinct_card psubset_card_mono List.finite_set)
      from less.hyps [OF this s1(2-4)] obtain s' B where sB: "wake_sleepers d s1 = Some s'"
        "refines s' B" "queues_ok {} s' B" "counts s' B" "tframe (set (q_sleep A1)) s1 s'" "advances A1 B"
        "asleep B = {u \<in> asleep A1. d < remaining s1 u}" "\<forall>u \<in> set (q_sleep B). d < remaining s1 u"
        by blast
      have rem: "remaining s1 = remaining s" using s1(5) by (rule tframe_remaining)
      have "wake_sleepers d s = Some s'"
        using False fr sleep_front(1) [OF r] Cons s1(1) sB(1)
        by (simp add: wake_sleepers.simps [of d s] remaining_def)
      moreover have "tframe (set (q_sleep A)) s s'"
        using tframe_trans [OF tframe_mono [OF s1(5)] tframe_mono [OF sB(5)]] sub t by blast
      moreover have "advances A B" using s1(6) sB(6) by (rule advances_trans)
      moreover have "asleep B = {u \<in> asleep A. d < remaining s u}"
        using sB(7) s1(7) False rem by auto
      ultimately show ?thesis using sB(2-4,8) rem by auto
    qed
  qed
qed

section \<open>The tick system call\<close>

lemma ordered_rebase:
  assumes o: "ordered_by (sooner s) zs" and late: "\<forall>t \<in> set zs. d < remaining s t"
    and s': "woken_tick s' = woken_tick s + d" "\<And>t. wake_tick (task s' t) = wake_tick (task s t)"
  shows "ordered_by (sooner s') zs"
proof -
  have rem: "remaining s' t = remaining s t - d" for t by (simp add: remaining_def s')
  have "sooner s' a b = sooner s a b" if "a \<in> set zs" "b \<in> set zs" for a b
    using that late unfolding sooner_remaining rem by (intro word_diff_less_iff) auto
  then show ?thesis using o ordered_by_cong [of zs "sooner s'" "sooner s"] by simp
qed

lemma tick_syscall_refines:
  assumes r: "refines s A" and ok: "queues_ok {} s A" and c: "counts s A"
  defines "d \<equiv> tick s - woken_tick s"
  shows "\<exists>s' B. tick_syscall s = Some s' \<and> refines s' B \<and> queues_ok {} s' B \<and> counts s' B \<and>
     hframe (set (q_sleep A)) s s' \<and> (\<forall>t. wake_tick (task s' t) = wake_tick (task s t)) \<and>
     woken_tick s' = tick s \<and> tick_pending s' = tick_pending s \<and> advances A B \<and>
     asleep B = {t \<in> asleep A. d < remaining s t} \<and> (\<forall>t \<in> set (q_sleep B). d < remaining s t)"
proof -
  obtain s1 B where s1: "wake_sleepers d s = Some s1" "refines s1 B" "queues_ok {} s1 B" "counts s1 B"
    "tframe (set (q_sleep A)) s s1" "advances A B" "asleep B = {t \<in> asleep A. d < remaining s t}"
    "\<forall>t \<in> set (q_sleep B). d < remaining s t"
    using wake_sleepers_refines [OF r ok c] by blast
  let ?s = "s1\<lparr>woken_tick := woken_tick s1 + d\<rparr>"
  have t1: "woken_tick s1 = woken_tick s" using s1(5) by (simp add: tframe_def)
  have step: "tick_syscall s = Some ?s"
    using s1(1) by (simp add: tick_syscall_def rt_tick_def d_def)
  have "higher ?s = higher s1" by (intro ext) (simp add: higher_def)
  moreover have "ordered_by (sooner ?s) (q_sleep B)"
  proof (rule ordered_rebase [OF queues_okD(3) [OF s1(3)], where d = d])
    show "\<forall>t \<in> set (q_sleep B). d < remaining s1 t"
      using s1(8) unfolding tframe_remaining [OF s1(5)] .
  qed simp_all
  ultimately have "queues_ok {} ?s B"
    using s1(3) by (simp add: queues_ok_def waits_on_def sleeps_def)
  moreover have "refines ?s B" using s1(2) by (simp add: refines_def)
  moreover have "counts ?s B" using s1(4) by (simp add: counts_def)
  moreover have "hframe (set (q_sleep A)) s ?s" "woken_tick ?s = tick s"
    using s1(5) t1 by (simp_all add: tframe_def hframe_def d_def)
  ultimately show ?thesis
    using step s1(5-8) by (intro exI [of _ ?s] exI [of _ B]) (simp add: tframe_def)
qed

end
