(* ===== verification/Rt_Flags.thy ===== *)
theory Rt_Flags
  imports Rt_Kernel
begin

text \<open>
  The flags that say whether the tick record and the post record of a semaphore are on the stack
  of pending calls. Interrupts set them before they push a record and the handler clears them;
  here it is shown that the handler clears exactly the flag of the record it handles.
\<close>

definition flags :: "kernel \<Rightarrow> bool \<times> (sem_id \<Rightarrow> bool)" where
  "flags s = (tick_pending s, \<lambda>m. post_pending (sem s m))"

text \<open>A function that returns a state with the flags of its argument.\<close>

lemma flags_upd [simp]:
  "flags (upd_task t f s) = flags s" "flags (upd_nodes g s) = flags s" "flags (set_state t st s) = flags s"
  "flags (s\<lparr>nodes := h\<rparr>) = flags s" "flags (s\<lparr>woken_tick := w\<rparr>) = flags s"
  by (simp_all add: flags_def set_state_def kernel_simps)

lemma flags_upd_sem:
  "(\<And>q. post_pending (f q) = post_pending q) \<Longrightarrow> flags (upd_sem m f s) = flags s"
  by (auto simp: flags_def kernel_simps fun_eq_iff)

lemma flags_upd_sem' [simp]:
  "flags (upd_sem m (\<lambda>q. q\<lparr>num_waiters := g q\<rparr>) s) = flags s" "flags (rt_sem_add_n m n s) = flags s"
  by (auto simp: rt_sem_add_n_def intro!: flags_upd_sem)

lemma flags_insert_by_priority: "insert_by_priority l t s = Some s' \<Longrightarrow> flags s' = flags s"
  by (auto simp: insert_by_priority_def split: bind_splits)

lemma flags_task_ready: "task_ready t s = Some s' \<Longrightarrow> flags s' = flags s"
  by (auto simp: task_ready_def Let_def dest: flags_insert_by_priority)

lemma flags_sleep_until: "sleep_until t wt s = Some s' \<Longrightarrow> flags s' = flags s"
  by (auto simp: sleep_until_def Let_def split: bind_splits)

lemma flags_wake_first_waiter: "wake_first_waiter m s = Some s' \<Longrightarrow> flags s' = flags s"
  by (auto simp: wake_first_waiter_def Let_def split: bind_splits prod.splits dest!: flags_task_ready)

lemma flags_wake_while:
  assumes "wake_while w m s = Some s'"
  shows "flags s' = flags s"
proof (rule wake_while.raw_induct [where P = "\<lambda>w m s s'. flags s' = flags s", OF _ assms])
  show "flags y = flags s"
    if "\<And>w m s y. f w m s = Some y \<Longrightarrow> flags y = flags s"
      "(if w < num_waiters (sem s m) then wake_first_waiter m s \<bind> f w m else Some s) = Some y"
    for f w m s y
    using that by (auto split: if_splits bind_splits dest!: flags_wake_first_waiter)
qed

lemma flags_wake_sem_waiters: "wake_sem_waiters m s = Some s' \<Longrightarrow> flags s' = flags s"
  by (auto simp: wake_sem_waiters_def Let_def dest: flags_wake_while)

lemma flags_wake_sleeper: "wake_sleeper t s = Some s' \<Longrightarrow> flags s' = flags s"
  by (auto simp: wake_sleeper_def Let_def split: if_splits bind_splits prod.splits
      dest!: flags_task_ready flags_wake_sem_waiters)

lemma flags_wake_sleepers:
  assumes "wake_sleepers d s = Some s'"
  shows "flags s' = flags s"
proof (rule wake_sleepers.raw_induct [where P = "\<lambda>d s s'. flags s' = flags s", OF _ assms])
  show "flags y = flags s"
    if "\<And>d s y. f d s = Some y \<Longrightarrow> flags y = flags s"
      "(if \<not> rt_list_is_empty Sleep_list (nodes s)
        then task_from_sleep_list (rt_list_front Sleep_list (nodes s)) \<bind>
          (\<lambda>t. if d < wake_tick (task s t) - woken_tick s then Some s else wake_sleeper t s \<bind> f d)
        else Some s) = Some y"
    for f d s y
    using that by (auto split: if_splits bind_splits dest!: flags_wake_sleeper)
qed

lemma flags_tick_syscall: "tick_syscall s = Some s' \<Longrightarrow> flags s' = flags s"
  by (auto simp: tick_syscall_def Let_def split: bind_splits dest!: flags_wake_sleepers)

text \<open>The flags after a record was handled.\<close>

definition cleared :: "rec_id \<Rightarrow> kernel \<Rightarrow> bool \<times> (sem_id \<Rightarrow> bool)" where
  "cleared r s =
     (tick_pending s \<and> syscall (get_record s r) \<noteq> RT_SYSCALL_TICK,
      \<lambda>m. post_pending (sem s m) \<and>
        \<not> (r = Post_record m \<and> syscall (get_record s r) = RT_SYSCALL_SEM_POST \<and>
           (\<exists>n. args (get_record s r) = Sem_post m n)))"

lemma sem_post_args_eq: "sem_post_args a = Some (m, n) \<longleftrightarrow> a = Sem_post m n"
  by (cases a) auto

lemma handle_record_flags:
  assumes "handle_record r s = Some s'"
  shows "flags s' = cleared r s"
proof (cases "syscall (get_record s r)")
  case RT_SYSCALL_TICK
  then have "flags s' = flags (s\<lparr>tick_pending := False\<rparr>)"
    using assms by (auto simp: handle_record_def dest: flags_tick_syscall)
  then show ?thesis using RT_SYSCALL_TICK by (simp add: flags_def cleared_def)
next
  case RT_SYSCALL_SEM_POST
  then obtain m n where a: "args (get_record s r) = Sem_post m n"
    using assms by (auto simp: handle_record_def sem_post_args_eq split: bind_splits)
  then have "flags s' = flags (if r = Post_record m then upd_sem m (post_pending_update (\<lambda>_. False)) s else s)"
    using assms RT_SYSCALL_SEM_POST by (auto simp: handle_record_def dest: flags_wake_sem_waiters)
  then show ?thesis using RT_SYSCALL_SEM_POST a
    by (auto simp: flags_def cleared_def kernel_simps fun_eq_iff)
qed (use assms in \<open>auto simp: handle_record_def cleared_def flags_def [symmetric] Let_def
       split: bind_splits prod.splits if_splits
       dest!: flags_insert_by_priority flags_task_ready flags_sleep_until flags_wake_sem_waiters\<close>)

end
