(* ===== verification/Rt_Syscall.thy ===== *)
theory Rt_Syscall
  imports Rt_Tick Rt_Flags
begin

text \<open>
  The system call handler: every pending record that is well formed is handled, handling returns
  and keeps the invariant of the queues, whatever the records and whatever their order.
\<close>

section \<open>Entering queues\<close>

lemma q_state_simps [simp]:
  "q_state (q_set_state t st A) = (q_state A)(t := st)"
  "q_state (q_wait_on s m t A) = q_state A" "q_state (q_sleep_in s t A) = q_state A"
  "q_state (q_unwait m t A) = q_state A" "q_state (q_unsleep t A) = q_state A"
  "q_state (q_make_ready s t A) = (q_state A)(t := RT_TASK_STATE_READY)"
  by (simp_all add: q_set_state_def q_wait_on_def q_sleep_in_def q_unwait_def q_unsleep_def
      q_make_ready_def)

lemma q_insert_simps [simp]:
  "q_sleep (q_sleep_in s t A) = insert_by (sooner s) t (q_sleep A)"
  "q_ready (q_make_ready s t A) = insert_by (higher s) t (q_ready A)"
  by (simp_all add: q_sleep_in_def q_make_ready_def)

text \<open>A task in \<open>X\<close> settles once its state says which queues it is in.\<close>

lemma queues_ok_settle:
  assumes ok: "queues_ok (insert t X) s A"
    and "t \<in> set (q_sleep A) \<Longrightarrow> can_wait t \<and> sleeps s A t"
    and "\<And>m ys. q_wait A m = Some ys \<Longrightarrow> t \<in> set ys \<Longrightarrow> waits_on s A m t"
  shows "queues_ok X s A"
proof (rule queues_okI)
  note D = queues_okD [OF ok]
  show "can_wait u \<and> sleeps s A u" if "u \<in> set (q_sleep A)" "u \<notin> X" for u
    using that assms(2) D(5,6) [of u] by (cases "u = t") auto
  show "waits_on s A m u" if "q_wait A m = Some ys" "u \<in> set ys" "u \<notin> X" for m ys u
    using that assms(3) D(9) [of m ys u] by (cases "u = t") auto
qed (use queues_okD [OF ok] in simp_all)

lemma queues_ok_set_state:
  assumes ok: "queues_ok X s A" and t: "t \<notin> queued A"
  shows "queues_ok X s (q_set_state t st A)" (is "queues_ok X s ?A")
proof (rule queues_okI)
  note D = queues_okD [OF ok]
  have n: "u \<noteq> t" if "u \<in> queued A" for u using that t by auto
  have st: "q_state ?A u = q_state A u" if "u \<in> queued A" for u
    using n [OF that] by (simp add: q_set_state_def)
  show "queued ?A \<subseteq> q_tasks ?A" using D(1) by (simp add: queued_def)
  show "q_state ?A u = RT_TASK_STATE_READY" if "u \<in> set (q_ready ?A)" for u
    using that D(4) st in_queued(1) by simp
  show "can_wait u \<and> sleeps s ?A u" if "u \<in> set (q_sleep ?A)" "u \<notin> X" for u
    using that D(5,6) [of u] st [of u] in_queued(2) [of u A] by (simp add: sleeps_def)
  show "waits_on s ?A m u" if "q_wait ?A m = Some ys" "u \<in> set ys" "u \<notin> X" for m ys u
    using that D(9) [of m ys u] st [of u] in_queued(3) [of A m ys u] by (simp add: waits_on_def)
qed (use queues_okD [OF ok] in simp_all)

lemma q_wait_on_wait:
  "q_wait A m = Some ys \<Longrightarrow> q_wait (q_wait_on s m t A) = (q_wait A)(m \<mapsto> insert_by (higher s) t ys)"
  by (simp add: q_wait_on_def)

lemma in_waits:
  assumes m: "q_wait A m = Some ys"
  shows "(\<exists>k zs. q_wait (q_wait_on s m t A) k = Some zs \<and> u \<in> set zs) \<longleftrightarrow>
     u = t \<or> (\<exists>k zs. q_wait A k = Some zs \<and> u \<in> set zs)" (is "?l \<longleftrightarrow> ?r")
proof
  assume ?l
  then obtain k zs where "q_wait (q_wait_on s m t A) k = Some zs" "u \<in> set zs" by blast
  then show ?r using m unfolding q_wait_on_wait [OF m] by (cases "k = m") auto
next
  assume ?r
  then consider "u = t" | k zs where "q_wait A k = Some zs" "u \<in> set zs" by blast
  then show ?l
  proof cases
    case 1
    then show ?thesis unfolding q_wait_on_wait [OF m] by (intro exI [of _ m]) simp
  next
    case 2
    then show ?thesis using m unfolding q_wait_on_wait [OF m] by (intro exI [of _ k]) auto
  qed
qed

lemma queued_wait_on:
  assumes "q_wait A m = Some ys"
  shows "queued (q_wait_on s m t A) = insert t (queued A)"
proof -
  have "\<Union>(set ` ran w) = {u. \<exists>k zs. w k = Some zs \<and> u \<in> set zs}" for w :: "sem_id \<rightharpoonup> task_id list"
    by (auto simp: ran_def)
  then show ?thesis using in_waits [OF assms, of s t] by (auto simp: queued_def)
qed

lemma queued_sleep_in: "queued (q_sleep_in s t A) = insert t (queued A)"
  by (simp add: queued_def)

lemma queues_ok_wait_on:
  assumes ok: "queues_ok X s A" and m: "q_wait A m = Some ys"
    and t: "t \<in> X" "t \<in> q_tasks A" "can_wait t"
  shows "queues_ok X s (q_wait_on s m t A)" (is "queues_ok X s ?A")
proof (rule queues_okI)
  note D = queues_okD [OF ok]
  have st: "q_state ?A = q_state A" by (simp add: q_wait_on_def)
  have q: "\<exists>zs'. q_wait A k = Some zs' \<and> (zs = zs' \<or> zs = insert_by (higher s) t zs')"
    if "q_wait ?A k = Some zs" for k zs
    using that m by (cases "k = m") (auto simp: q_wait_on_def)
  have w: "\<exists>zs \<in> ran (q_wait ?A). u \<in> set zs" if "\<exists>zs \<in> ran (q_wait A). u \<in> set zs" for u
    using that in_waits [OF m, of s t u] by (auto simp: ran_def)
  show "queued ?A \<subseteq> q_tasks ?A" using D(1) t(2) by (simp add: queued_wait_on [OF m])
  show "can_wait u \<and> sleeps s ?A u" if "u \<in> set (q_sleep ?A)" "u \<notin> X" for u
    using that D(5,6) [of u] w [of u] unfolding sleeps_def st by auto
  show "ordered_by (higher s) zs" if "q_wait ?A k = Some zs" for k zs
    using q [OF that] by (auto intro: D(7) higher.ordered_insert_by)
  show "can_wait u" if "q_wait ?A k = Some zs" "u \<in> set zs" for k zs u
    using q [OF that(1)] that(2) t(3) by (auto intro: D(8))
  show "waits_on s ?A k u" if "q_wait ?A k = Some zs" "u \<in> set zs" "u \<notin> X" for k zs u
  proof -
    have "u \<noteq> t" using that(3) t(1) by auto
    then have "waits_on s A k u" using q [OF that(1)] that(2,3) by (auto intro: D(9))
    then show ?thesis unfolding waits_on_def st by simp
  qed
qed (use queues_okD [OF ok] in \<open>simp_all add: q_wait_on_def\<close>)

lemma queues_ok_sleep_in:
  fixes wt :: ulong
  assumes ok: "queues_ok X s A" and t: "t \<in> X" "t \<in> q_tasks A" "t \<notin> set (q_sleep A)"
  defines "s2 \<equiv> upd_task t (wake_tick_update (\<lambda>_. wt)) s"
  shows "queues_ok X s2 (q_sleep_in s2 t A)" (is "queues_ok X s2 ?A")
proof (rule queues_okI)
  note D = queues_okD [OF ok]
  have st: "q_state ?A = q_state A" by (simp add: q_sleep_in_def)
  have hi: "higher s2 = higher s" by (intro ext) (simp add: higher_def s2_def kernel_simps)
  have rc: "task_record (task s2 u) = task_record (task s u)" for u by (simp add: s2_def kernel_simps)
  have Z: "set (q_sleep ?A) = insert t (set (q_sleep A))" by (simp add: q_sleep_in_def)
  show "queued ?A \<subseteq> q_tasks ?A" using D(1) t(2) by (simp add: queued_sleep_in)
  have "sooner s2 a b = sooner s a b" if "a \<in> set (q_sleep A)" "b \<in> set (q_sleep A)" for a b
    using that t(3) by (auto simp: sooner_def s2_def kernel_simps)
  then have "ordered_by (sooner s2) (q_sleep A)"
    using D(3) ordered_by_cong [of "q_sleep A" "sooner s2" "sooner s"] by simp
  then show "ordered_by (sooner s2) (q_sleep ?A)"
    by (simp add: q_sleep_in_def sooner.ordered_insert_by)
  show "can_wait u \<and> sleeps s2 ?A u" if "u \<in> set (q_sleep ?A)" "u \<notin> X" for u
  proof -
    have "u \<in> set (q_sleep A)" using that t(1) Z by auto
    then show ?thesis using that D(5,6) [of u] unfolding sleeps_def st rc by simp
  qed
  show "waits_on s2 ?A m u" if "q_wait ?A m = Some ys" "u \<in> set ys" "u \<notin> X" for m ys u
  proof -
    have "u \<noteq> t" using that t(1) by auto
    then show ?thesis using D(9) [of m ys u] that unfolding waits_on_def st rc Z by simp
  qed
  show "ordered_by (higher s2) (q_ready ?A)" using D(2) by (simp add: hi)
  show "ordered_by (higher s2) ys" if "q_wait ?A m = Some ys" for m ys
    using D(7) that by (simp add: hi)
qed (use queues_okD [OF ok] in \<open>simp_all add: q_sleep_in_def\<close>)

section \<open>Waiter counts\<close>

text \<open>Tasks have distinct addresses other than the null pointer, so the count cannot wrap.\<close>

lemma can_wait_iff: "can_wait t \<longleftrightarrow> (\<exists>p. t = Task p \<and> p \<noteq> NULL)"
  by (cases t) auto

lemma unat_all_ones: "unat (-1 :: size_t) = 2 ^ 32 - 1"
  by transfer (simp add: mask_eq_exp_minus_1)

lemma waiters_bounded:
  assumes "distinct ts" and "\<forall>t \<in> set ts. can_wait t"
  shows "length ts < 2 ^ 32"
proof -
  define addr where "addr t = (case t of Task p \<Rightarrow> p | Idle_task \<Rightarrow> 0)" for t
  have inj: "inj_on addr (set ts)"
  proof (rule inj_onI)
    fix x y assume "x \<in> set ts" "y \<in> set ts" "addr x = addr y"
    moreover from this have "can_wait x" "can_wait y" using assms(2) by auto
    ultimately show "x = y" by (auto simp: can_wait_iff addr_def)
  qed
  have "0 \<notin> addr ` set ts"
  proof
    assume "0 \<in> addr ` set ts"
    then obtain t where "t \<in> set ts" "addr t = 0" by auto
    then show False using assms(2) by (auto simp: can_wait_iff addr_def)
  qed
  then have "length (map addr ts) < 2 ^ LENGTH(32)"
    using assms(1) inj by (intro distinct_words_length) (simp_all add: distinct_map)
  then show ?thesis by simp
qed

lemma counts_wait_on:
  assumes c: "counts s A" and m: "q_wait A m = Some ys" and t: "t \<notin> set ys" "can_wait t"
    and ys: "distinct ys" "\<forall>u \<in> set ys. can_wait u"
    and s': "\<And>k. num_waiters (sem s' k) = (if k = m then num_waiters (sem s k) + 1 else num_waiters (sem s k))"
  shows "counts s' (q_wait_on s0 m t A)"
proof -
  have n: "unat (num_waiters (sem s m)) = length ys" using c m by (simp add: counts_def)
  have "length (t # ys) < 2 ^ 32" using t ys by (intro waiters_bounded) auto
  then have "unat (num_waiters (sem s m)) \<noteq> 2 ^ 32 - 1" using n by simp
  then have "num_waiters (sem s m) \<noteq> - 1" by (auto simp: unat_all_ones)
  then have "unat (num_waiters (sem s m) + 1) = Suc (length ys)"
    using n unat_inc [of "num_waiters (sem s m)"] by simp
  then show ?thesis using c m by (simp add: counts_def s' q_wait_on_wait [OF m])
qed

section \<open>Well-formed records\<close>

fun owners :: "rec_id \<Rightarrow> task_id set" where
  "owners (Task_record t) = {t}"
| "owners _ = {}"

text \<open>
  A record names its owner's call: the arguments are those of the call, the semaphores are
  initialised, and a task that submits a call runs or has just been created, so that it is in
  no queue.
\<close>

definition call_ok :: "kernel \<Rightarrow> queues \<Rightarrow> rec_id \<Rightarrow> bool" where
  "call_ok s A r \<longleftrightarrow>
     (case syscall (get_record s r) of
        RT_SYSCALL_TICK \<Rightarrow> r = Tick_record
      | RT_SYSCALL_EXIT \<Rightarrow> owners r \<noteq> {}
      | RT_SYSCALL_SLEEP \<Rightarrow>
          owners r \<noteq> {} \<and> sleep_args (args (get_record s r)) \<noteq> None
      | RT_SYSCALL_SLEEP_PERIODIC \<Rightarrow>
          owners r \<noteq> {} \<and> sleep_periodic_args (args (get_record s r)) \<noteq> None
      | RT_SYSCALL_SEM_WAIT \<Rightarrow>
          owners r \<noteq> {} \<and>
          (\<exists>m \<in> dom (q_wait A). sem_wait_args (args (get_record s r)) = Some m)
      | RT_SYSCALL_SEM_TIMEDWAIT \<Rightarrow>
          owners r \<noteq> {} \<and>
          (\<exists>m \<in> dom (q_wait A). \<exists>ticks. sem_timedwait_args (args (get_record s r)) = Some (m, ticks))
      | RT_SYSCALL_SEM_POST \<Rightarrow>
          r \<noteq> Tick_record \<and>
          (\<exists>m \<in> dom (q_wait A). (\<exists>n. sem_post_args (args (get_record s r)) = Some (m, n)) \<and>
             (\<forall>k. r = Post_record k \<longrightarrow> k = m))
      | RT_SYSCALL_TASK_READY \<Rightarrow> owners r \<noteq> {})"

lemma owners_nonempty: "owners r \<noteq> {} \<longleftrightarrow> (\<exists>t. r = Task_record t)"
  by (cases r) auto

definition rec_ok :: "kernel \<Rightarrow> queues \<Rightarrow> rec_id \<Rightarrow> bool" where
  "rec_ok s A r \<longleftrightarrow> owners r \<subseteq> {t \<in> q_tasks A. t \<notin> queued A \<and> can_wait t} \<and> call_ok s A r"

text \<open>What handling one record does, for every kind of call.\<close>

definition handled :: "rec_id \<Rightarrow> kernel \<Rightarrow> queues \<Rightarrow> kernel \<Rightarrow> queues \<Rightarrow> bool" where
  "handled r s A s' B \<longleftrightarrow>
     refines s' B \<and> queues_ok {} s' B \<and> counts s' B \<and> hframe (queued A \<union> owners r) s s' \<and>
     q_tasks B = q_tasks A \<and> dom (q_wait B) = dom (q_wait A) \<and>
     queued A \<subseteq> queued B \<and> queued B \<subseteq> queued A \<union> owners r \<and>
     (\<forall>u. u \<notin> queued A \<union> owners r \<longrightarrow> q_state B u = q_state A u) \<and>
     set (q_ready A) \<subseteq> set (q_ready B)"

lemma handledI:
  assumes "refines s' B" "queues_ok {} s' B" "counts s' B" "hframe (queued A \<union> owners r) s s'"
    "q_tasks B = q_tasks A" "dom (q_wait B) = dom (q_wait A)" "queued A \<subseteq> queued B"
    "queued B \<subseteq> queued A \<union> owners r"
    "\<And>u. u \<notin> queued A \<union> owners r \<Longrightarrow> q_state B u = q_state A u"
    "set (q_ready A) \<subseteq> set (q_ready B)"
  shows "handled r s A s' B"
  using assms by (simp add: handled_def)

lemma handledD:
  assumes "handled r s A s' B"
  shows "refines s' B" "queues_ok {} s' B" "counts s' B" "hframe (queued A \<union> owners r) s s'"
    "q_tasks B = q_tasks A" "dom (q_wait B) = dom (q_wait A)" "queued A \<subseteq> queued B"
    "queued B \<subseteq> queued A \<union> owners r"
    "u \<notin> queued A \<union> owners r \<Longrightarrow> q_state B u = q_state A u"
    "set (q_ready A) \<subseteq> set (q_ready B)"
  using assms by (simp_all add: handled_def)

lemma advances_queued:
  assumes "advances A B"
  shows "queued B = queued A"
proof
  show "queued B \<subseteq> queued A" using assms by (rule advancesD)
  show "queued A \<subseteq> queued B"
  proof
    fix t assume "t \<in> queued A"
    then show "t \<in> queued B"
    proof (cases rule: queued_cases)
      case 1
      then show ?thesis using advancesD(4) [OF assms] in_queued(1) by blast
    next
      case 2
      then show ?thesis using advancesD(6) [OF assms] in_queued(1,2) by blast
    next
      case (3 m ys)
      then have "m \<in> dom (q_wait B)" using advancesD(2) [OF assms] by blast
      then obtain zs where zs: "q_wait B m = Some zs" by blast
      then show ?thesis
        using advances_wait(2) [OF assms 3(1) zs] 3(2) in_queued(1) in_queued(3) [OF zs] by blast
    qed
  qed
qed

lemma handled_advances:
  assumes "refines s' B" "queues_ok {} s' B" "counts s' B" "hframe (queued A \<union> owners r) s s'"
    and ad: "advances A B"
  shows "handled r s A s' B"
proof (rule handledI [OF assms(1-4)])
  have B: "set (q_ready B) \<subseteq> queued A"
    using in_queued(1) [of _ B] advances_queued [OF ad] by auto
  show "q_state B u = q_state A u" if "u \<notin> queued A \<union> owners r" for u
    using that B by (intro advancesD(7) [OF ad]) blast
qed (use advancesD [OF ad] advances_queued [OF ad] in simp_all)

section \<open>Handling each kind of call\<close>

lemma unqueuedD:
  assumes "t \<notin> queued A"
  shows "t \<notin> set (q_ready A)" "t \<notin> set (q_sleep A)" "\<And>m ys. q_wait A m = Some ys \<Longrightarrow> t \<notin> set ys"
  using assms in_queued by metis+

lemma hframe_set_state: "hframe Y s (set_state t st s)"
  by (rule hframe_kframe [OF kframe_set_state])

lemma queued_set_state [simp]: "queued (q_set_state t st A) = queued A"
  by (simp add: queued_def)

lemma counts_sems: "counts s A \<Longrightarrow> sems s' = sems s \<Longrightarrow> q_wait B = q_wait A \<Longrightarrow> counts s' B"
  by (simp add: counts_def)

lemma handle_set_state:
  assumes "refines s A" "queues_ok {} s A" "counts s A" and t: "t \<notin> queued A"
  shows "handled (Task_record t) s A (set_state t st s) (q_set_state t st A)"
proof (rule handledI)
  show "queues_ok {} (set_state t st s) (q_set_state t st A)"
    using queues_ok_set_state [OF assms(2) t] queues_ok_frame [OF kframe_set_state] by simp
  show "counts (set_state t st s) (q_set_state t st A)"
    using assms(3) by (rule counts_sems) (simp_all add: set_state_def kernel_simps)
qed (use assms in \<open>auto simp: refines_set_state hframe_set_state\<close>)

lemma handle_sleep:
  fixes wt :: ulong
  assumes r: "refines s A" and ok: "queues_ok {} s A" and c: "counts s A"
    and t: "t \<in> q_tasks A" "t \<notin> queued A" "can_wait t"
    and sys: "syscall (task_record (task s t)) \<noteq> RT_SYSCALL_SEM_TIMEDWAIT"
  defines "s1 \<equiv> set_state t RT_TASK_STATE_ASLEEP s"
  defines "s2 \<equiv> upd_task t (wake_tick_update (\<lambda>_. wt)) s1"
  defines "B \<equiv> q_sleep_in s2 t (q_set_state t RT_TASK_STATE_ASLEEP A)"
  shows "\<exists>s'. sleep_until t wt s1 = Some s' \<and> handled (Task_record t) s A s' B \<and> kframe s2 s'"
proof -
  note h1 = handle_set_state [OF r ok c t(2), of RT_TASK_STATE_ASLEEP, folded s1_def]
  let ?A1 = "q_set_state t RT_TASK_STATE_ASLEEP A"
  have ns: "t \<notin> set (q_sleep ?A1)" using t(2) in_queued(2) by auto
  obtain s' where s': "sleep_until t wt s1 = Some s'" "refines s' B" "kframe s2 s'" "sems s' = sems s1"
    using sleep_until_refines [OF handledD(1) [OF h1] ns, of wt] unfolding B_def s2_def by blast
  have "queues_ok {t} s1 ?A1" using handledD(2) [OF h1] by (rule queues_ok_mono) simp
  from queues_ok_sleep_in [OF this _ _ ns, of wt]
  have "queues_ok {t} s' B" using t(1) unfolding queues_ok_frame [OF s'(3)] by (simp add: s2_def B_def)
  then have "queues_ok {} s' B"
  proof (rule queues_ok_settle)
    have "syscall (task_record (task s' t)) \<noteq> RT_SYSCALL_SEM_TIMEDWAIT"
      using sys kframeD(12) [OF s'(3)] by (simp add: s2_def s1_def set_state_def kernel_simps)
    then show "can_wait t \<and> sleeps s' B t"
      using t(3) by (simp add: sleeps_def B_def)
    show "waits_on s' B m t" if "q_wait B m = Some ys" "t \<in> set ys" for m ys
      using that unqueuedD(3) [OF t(2), of m ys] by (simp add: B_def)
  qed
  moreover have "hframe (queued A \<union> owners (Task_record t)) s s'"
    using handledD(4) [OF h1] hframe_kframe [OF s'(3)] by (simp add: hframe_def s2_def kernel_simps)
  moreover have "counts s' B" using handledD(3) [OF h1] s'(4) by (rule counts_sems) (simp add: B_def)
  ultimately have "handled (Task_record t) s A s' B"
    using s'(2) by (intro handledI) (auto simp: B_def queued_sleep_in)
  then show ?thesis using s'(1,3) by blast
qed

text \<open>
  A task enters the wait list of a semaphore: the common part of \<^verbatim>\<open>RT_SYSCALL_SEM_WAIT\<close> and
  \<^verbatim>\<open>RT_SYSCALL_SEM_TIMEDWAIT\<close>.
\<close>

definition q_block :: "kernel \<Rightarrow> sem_id \<Rightarrow> task_id \<Rightarrow> rt_task_state \<Rightarrow> queues \<Rightarrow> queues" where
  "q_block s m t st A = q_wait_on s m t (q_set_state t st A)"

lemma block_refines:
  fixes st :: rt_task_state
  assumes r: "refines s A" and ok: "queues_ok {} s A"
    and t: "t \<in> q_tasks A" "t \<notin> queued A" "can_wait t" and m: "q_wait A m = Some ys"
  defines "s1 \<equiv> set_state t st s" and "B \<equiv> q_block s m t st A"
  shows "\<exists>s'. insert_by_priority (Wait_list m) t s1 = Some s' \<and> refines s' B \<and> queues_ok {t} s' B \<and>
     kframe s s' \<and> sems s' = sems s"
proof -
  let ?A1 = "q_set_state t st A"
  have r1: "refines s1 ?A1" using r unfolding s1_def by (rule refines_set_state)
  have fr1: "kframe s s1" by (simp add: s1_def)
  have m1: "q_wait ?A1 m = Some ys" using m by simp
  have B: "q_wait_on s1 m t ?A1 = B"
    by (simp add: B_def q_block_def q_wait_on_def higher_frame [OF fr1])
  have "queues_ok {t} s1 ?A1"
    using queues_ok_mono [OF queues_ok_set_state [OF ok t(2)]] queues_ok_frame [OF fr1] by simp
  from queues_ok_wait_on [OF this m1, of t] t(1,3) have ok1: "queues_ok {t} s1 B" by (simp add: B)
  obtain s' where s': "insert_by_priority (Wait_list m) t s1 = Some s'" "refines s' B" "kframe s1 s'"
    "sems s' = sems s1"
    using insert_waiter [OF r1 m1, of t] unqueuedD(1,3) [OF t(2)] unfolding B by auto
  have "queues_ok {t} s' B" using ok1 queues_ok_frame [OF s'(3)] by simp
  moreover have "sems s' = sems s" using s'(4) by (simp add: s1_def set_state_def kernel_simps)
  ultimately show ?thesis using s'(1,2) kframe_trans [OF fr1 s'(3)] by blast
qed

lemma count_block:
  assumes r: "refines s A" and ok: "queues_ok {} s A" and c: "counts s A" and m: "q_wait A m = Some ys"
    and t: "t \<notin> queued A" "can_wait t" and s': "sems s' = sems s"
    and B: "q_wait B = q_wait (q_block s m t st A)"
  shows "counts (upd_sem m (\<lambda>q. q\<lparr>num_waiters := num_waiters q + 1\<rparr>) s') B"
proof -
  have "counts (upd_sem m (\<lambda>q. q\<lparr>num_waiters := num_waiters q + 1\<rparr>) s') (q_wait_on s m t (q_set_state t st A))"
  proof (rule counts_wait_on [OF counts_sems [OF c refl]])
    show "q_wait (q_set_state t st A) m = Some ys" using m by simp
    show "t \<notin> set ys" using unqueuedD(3) [OF t(1) m] .
    show "distinct ys" using r m by (rule refines_distinct)
    show "\<forall>u \<in> set ys. can_wait u" using queues_okD(8) [OF ok m] by blast
  qed (simp_all add: t s' kernel_simps)
  then show ?thesis using B by (simp add: counts_def q_block_def)
qed

text \<open>Waking waiters after the queues changed to \<open>B\<close>.\<close>

lemma handled_wake:
  assumes r: "refines s' B" and ok: "queues_ok {} s' B" and c: "counts s' B" and m: "q_wait B m = Some ys"
    and fr: "hframe (queued A \<union> owners r) s s'"
    and B: "q_tasks B = q_tasks A" "dom (q_wait B) = dom (q_wait A)" "queued A \<subseteq> queued B"
      "queued B \<subseteq> queued A \<union> owners r"
      "\<And>u. u \<notin> queued A \<union> owners r \<Longrightarrow> q_state B u = q_state A u" "q_ready B = q_ready A"
  defines "C \<equiv> q_wake (length ys - sem_waiters (sem_value (sem s' m))) s' m B"
  shows "\<exists>s''. wake_sem_waiters m s' = Some s'' \<and> handled r s A s'' C \<and> kframe s' s'' \<and> queued C = queued B"
proof -
  obtain s'' where s'': "wake_sem_waiters m s' = Some s''" "refines s'' C" "queues_ok {} s'' C"
    "counts s'' C" "kframe s' s''"
    using wake_sem_waiters_refines [OF r ok c m] unfolding C_def by auto
  have ad: "advances B C" unfolding C_def using r m by (rule q_wake_advances) simp
  have "handled r s' B s'' C"
    using s''(2-4) hframe_kframe [OF s''(5)] ad by (rule handled_advances)
  note h = handledD [OF this]
  have "hframe (queued A \<union> owners r) s s''" using fr hframe_kframe [OF s''(5)] by (rule hframe_trans)
  moreover have "q_state C u = q_state A u" if "u \<notin> queued A \<union> owners r" for u
  proof -
    have "u \<notin> queued B \<union> owners r" using that B(4) by auto
    then show ?thesis using h(9) B(5) [OF that] by simp
  qed
  ultimately have "handled r s A s'' C"
    using h(5-8,10) B(1-4,6) by (intro handledI [OF s''(2-4)]) auto
  then show ?thesis using s''(1,5) advances_queued [OF ad] by blast
qed

lemma handle_sem_wait:
  assumes r: "refines s A" and ok: "queues_ok {} s A" and c: "counts s A"
    and t: "t \<in> q_tasks A" "t \<notin> queued A" "can_wait t" and m: "q_wait A m = Some ys"
    and rec: "syscall (task_record (task s t)) = RT_SYSCALL_SEM_WAIT"
      "args (task_record (task s t)) = Sem_wait m"
  defines "B \<equiv> q_block s m t RT_TASK_STATE_BLOCKED A"
  defines "C \<equiv> q_wake (Suc (length ys) - sem_waiters (sem_value (sem s m))) s m B"
  shows "\<exists>s'. handle_record (Task_record t) s = Some s' \<and> handled (Task_record t) s A s' C \<and>
     kframe s s' \<and> queued C = insert t (queued A)"
proof -
  obtain s1 where s1: "insert_by_priority (Wait_list m) t (set_state t RT_TASK_STATE_BLOCKED s) = Some s1"
    "refines s1 B" "queues_ok {t} s1 B" "kframe s s1" "sems s1 = sems s"
    using block_refines [OF r ok t m] unfolding B_def by blast
  let ?s2 = "upd_sem m (\<lambda>q. q\<lparr>num_waiters := num_waiters q + 1\<rparr>) s1"
  have fr: "kframe s ?s2" using s1(4) kframe_num_waiters by (rule kframe_trans)
  have r2: "refines ?s2 B" using s1(2) by (rule refines_cong) (simp_all add: kernel_simps)
  have "queues_ok {} s1 B"
    using s1(3) by (rule queues_ok_settle) (use unqueuedD(2) [OF t(2)] in \<open>simp_all add: B_def q_block_def waits_on_def\<close>)
  then have ok2: "queues_ok {} ?s2 B" by (rule queues_ok_cong) (simp_all add: kernel_simps)
  have c2: "counts ?s2 B" using r ok c m t(2,3) s1(5) by (rule count_block) (simp add: B_def)
  have m2: "q_wait B m = Some (insert_by (higher s) t ys)" by (simp add: B_def q_block_def q_wait_on_def m)
  have qB: "queued B = insert t (queued A)" by (simp add: B_def q_block_def queued_wait_on [of _ _ ys] m)
  have "dom (q_wait B) = dom (q_wait A)" using m by (auto simp: B_def q_block_def q_wait_on_def)
  then have "\<exists>s'. wake_sem_waiters m ?s2 = Some s' \<and> handled (Task_record t) s A s'
      (q_wake (length (insert_by (higher s) t ys) - sem_waiters (sem_value (sem ?s2 m))) ?s2 m B) \<and> kframe ?s2 s' \<and>
      queued (q_wake (length (insert_by (higher s) t ys) - sem_waiters (sem_value (sem ?s2 m))) ?s2 m B) = queued B"
    using hframe_kframe [OF fr] qB
    by (intro handled_wake [OF r2 ok2 c2 m2]) (auto simp: B_def q_block_def)
  moreover have "handle_record (Task_record t) s = wake_sem_waiters m ?s2"
    using rec s1(1) by (simp add: handle_record_def)
  ultimately show ?thesis
    using kframe_trans [OF fr] qB by (auto simp: C_def q_wake_frame [OF fr] kframeD [OF fr])
qed

lemma kframe_wake_tick:
  assumes "kframe s s'"
  shows "kframe (upd_task t (wake_tick_update (\<lambda>_. wt)) s) (upd_task t (wake_tick_update (\<lambda>_. wt)) s')"
    (is "kframe ?s ?s'")
proof -
  have "(task ?s' u)\<lparr>task_state := task_state (task ?s u)\<rparr> = task ?s u" for u
    by (rule rt_task.equality) (auto simp: kernel_simps kframeD [OF assms])
  then show ?thesis using assms unfolding kframe_def upd_task_def by (cases s, cases s') simp
qed

text \<open>A task with a timeout is in a wait list and in the sleep list.\<close>

definition q_timed_block :: "kernel \<Rightarrow> sem_id \<Rightarrow> task_id \<Rightarrow> ulong \<Rightarrow> queues \<Rightarrow> queues" where
  "q_timed_block s m t ticks A =
     q_sleep_in (upd_task t (wake_tick_update (\<lambda>_. woken_tick s + ticks)) s) t
       (q_block s m t RT_TASK_STATE_BLOCKED_TIMEOUT A)"

lemma timed_block_refines:
  assumes r: "refines s A" and ok: "queues_ok {} s A"
    and t: "t \<in> q_tasks A" "t \<notin> queued A" "can_wait t" and m: "q_wait A m = Some ys"
    and rec: "syscall (task_record (task s t)) = RT_SYSCALL_SEM_TIMEDWAIT"
      "args (task_record (task s t)) = Sem_timedwait m ticks"
  defines "s0 \<equiv> upd_task t (wake_tick_update (\<lambda>_. woken_tick s + ticks)) s"
  defines "B \<equiv> q_timed_block s m t ticks A"
  shows "\<exists>s1 s2. insert_by_priority (Wait_list m) t (set_state t RT_TASK_STATE_BLOCKED_TIMEOUT s) = Some s1 \<and>
    sleep_until t (woken_tick s1 + ticks) s1 = Some s2 \<and> refines s2 B \<and> queues_ok {} s2 B \<and>
    kframe s0 s2 \<and> sems s2 = sems s"
proof -
  let ?A1 = "q_block s m t RT_TASK_STATE_BLOCKED_TIMEOUT A"
  obtain s1 where s1: "insert_by_priority (Wait_list m) t (set_state t RT_TASK_STATE_BLOCKED_TIMEOUT s) = Some s1"
    "refines s1 ?A1" "queues_ok {t} s1 ?A1" "kframe s s1" "sems s1 = sems s"
    using block_refines [OF r ok t m] by blast
  have ns: "t \<notin> set (q_sleep ?A1)" using unqueuedD(2) [OF t(2)] by (simp add: q_block_def)
  let ?s1' = "upd_task t (wake_tick_update (\<lambda>_. woken_tick s1 + ticks)) s1"
  have fr1: "kframe s0 ?s1'" unfolding s0_def kframeD(5) [OF s1(4)] using s1(4) by (rule kframe_wake_tick)
  have so: "q_sleep_in ?s1' t ?A1 = B"
    by (simp add: B_def q_timed_block_def q_sleep_in_def sooner_frame [OF fr1] s0_def)
  obtain s2 where s2: "sleep_until t (woken_tick s1 + ticks) s1 = Some s2" "refines s2 B"
    "kframe ?s1' s2" "sems s2 = sems s1"
    using sleep_until_refines [OF s1(2) ns, of "woken_tick s1 + ticks"] unfolding so by blast
  have fr2: "kframe s0 s2" using fr1 s2(3) by (rule kframe_trans)
  have B: "q_wait B = (q_wait A)(m \<mapsto> insert_by (higher s) t ys)" "t \<in> set (q_sleep B)"
    "q_state B t = RT_TASK_STATE_BLOCKED_TIMEOUT"
    by (simp_all add: B_def q_timed_block_def q_block_def q_wait_on_wait [of _ _ ys] m)
  have rec2: "task_record (task s2 t) = task_record (task s t)"
    by (simp add: kframeD [OF fr2]) (simp add: s0_def kernel_simps)
  have "queues_ok {t} s2 B"
    using queues_ok_sleep_in [OF s1(3) _ _ ns, of "woken_tick s1 + ticks"] t(1)
    unfolding queues_ok_frame [OF s2(3)] so by (simp add: q_block_def)
  then have "queues_ok {} s2 B"
  proof (rule queues_ok_settle)
    show "can_wait t \<and> sleeps s2 B t"
      using t(3) B ranI [of "q_wait B" m] 
      by (auto simp: sleeps_def intro!: bexI [of _ "insert_by (higher s) t ys"])
    show "waits_on s2 B k t" if "q_wait B k = Some zs" "t \<in> set zs" for k zs
      using that B rec unqueuedD(3) [OF t(2), of k zs]
      by (cases "k = m") (auto simp: waits_on_def rec2)
  qed
  then show ?thesis using s1(1,5) s2(1,2,4) fr2 by auto
qed

lemma handle_sem_timedwait:
  assumes r: "refines s A" and ok: "queues_ok {} s A" and c: "counts s A"
    and t: "t \<in> q_tasks A" "t \<notin> queued A" "can_wait t" and m: "q_wait A m = Some ys"
    and rec: "syscall (task_record (task s t)) = RT_SYSCALL_SEM_TIMEDWAIT"
      "args (task_record (task s t)) = Sem_timedwait m ticks"
  defines "s0 \<equiv> upd_task t (wake_tick_update (\<lambda>_. woken_tick s + ticks)) s"
  defines "B \<equiv> q_timed_block s m t ticks A"
  defines "C \<equiv> q_wake (Suc (length ys) - sem_waiters (sem_value (sem s m))) s m B"
  shows "\<exists>s'. handle_record (Task_record t) s = Some s' \<and> handled (Task_record t) s A s' C \<and>
     kframe s0 s' \<and> queued C = insert t (queued A)"
proof -
  obtain s1 s2 where s2:
    "insert_by_priority (Wait_list m) t (set_state t RT_TASK_STATE_BLOCKED_TIMEOUT s) = Some s1"
    "sleep_until t (woken_tick s1 + ticks) s1 = Some s2" "refines s2 B" "queues_ok {} s2 B"
    "kframe s0 s2" "sems s2 = sems s"
    using timed_block_refines [OF r ok t m rec] unfolding B_def s0_def by blast
  let ?s3 = "upd_sem m (\<lambda>q. q\<lparr>num_waiters := num_waiters q + 1\<rparr>) s2"
  have fr: "kframe s0 ?s3" using s2(5) kframe_num_waiters by (rule kframe_trans)
  have r3: "refines ?s3 B" using s2(3) by (rule refines_cong) (simp_all add: kernel_simps)
  have ok3: "queues_ok {} ?s3 B" using s2(4) by (rule queues_ok_cong) (simp_all add: kernel_simps)
  have B: "q_wait B = (q_wait A)(m \<mapsto> insert_by (higher s) t ys)" "queued B = insert t (queued A)"
    "q_tasks B = q_tasks A" "q_ready B = q_ready A"
    "q_state B = (q_state A)(t := RT_TASK_STATE_BLOCKED_TIMEOUT)"
    by (simp_all add: B_def q_timed_block_def q_block_def q_wait_on_wait [of _ _ ys] m queued_sleep_in
        queued_wait_on [of _ _ ys])
  have c3: "counts ?s3 B"
    using r ok c m t(2,3) s2(6) by (rule count_block) (simp add: B_def q_timed_block_def)
  have m3: "q_wait B m = Some (insert_by (higher s) t ys)" by (simp add: B)
  have "hframe (queued A \<union> owners (Task_record t)) s s0" by (simp add: hframe_def s0_def kernel_simps)
  then have "hframe (queued A \<union> owners (Task_record t)) s ?s3"
    using hframe_kframe [OF fr] by (rule hframe_trans)
  then have "\<exists>s'. wake_sem_waiters m ?s3 = Some s' \<and> handled (Task_record t) s A s'
      (q_wake (length (insert_by (higher s) t ys) - sem_waiters (sem_value (sem ?s3 m))) ?s3 m B) \<and> kframe ?s3 s' \<and>
      queued (q_wake (length (insert_by (higher s) t ys) - sem_waiters (sem_value (sem ?s3 m))) ?s3 m B) = queued B"
    by (rule handled_wake [OF r3 ok3 c3 m3]) (use m in \<open>auto simp: B\<close>)
  moreover have "handle_record (Task_record t) s = wake_sem_waiters m ?s3"
    using rec s2(1,2) by (simp add: handle_record_def)
  moreover have "higher ?s3 = higher s" "sem_value (sem ?s3 m) = sem_value (sem s m)"
    using higher_frame [OF fr] kframeD(16) [OF fr, of m] by (auto simp: s0_def higher_def kernel_simps fun_eq_iff)
  ultimately show ?thesis
    using kframe_trans [OF fr] B(2) by (auto simp: C_def q_wake_higher [of ?s3 s])
qed

text \<open>A post: the flag of the semaphore's own record is cleared, the value rises, waiters go.\<close>

definition posted :: "rec_id \<Rightarrow> sem_id \<Rightarrow> int \<Rightarrow> kernel \<Rightarrow> kernel" where
  "posted r m n s = rt_sem_add_n m n
     (if r = Post_record m then upd_sem m (post_pending_update (\<lambda>_. False)) s else s)"

lemma posted_sel [kernel_simps]:
  "nodes (posted r m n s) = nodes s" "tasks (posted r m n s) = tasks s"
  "woken_tick (posted r m n s) = woken_tick s" "tick (posted r m n s) = tick s"
  "active_task (posted r m n s) = active_task s"
  "num_waiters (sem (posted r m n s) k) = num_waiters (sem s k)"
  "sem_value (sem (posted r m n s) k) =
     (if k = m then new_value (sem_value (sem s m)) n (max_value (sem s m)) else sem_value (sem s k))"
  by (simp_all add: posted_def rt_sem_add_n_def kernel_simps)

lemma hframe_posted: "hframe Y s (posted r m n s)"
  by (simp add: hframe_def posted_def rt_sem_add_n_def kernel_simps)

lemma handle_sem_post:
  assumes r: "refines s A" and ok: "queues_ok {} s A" and c: "counts s A" and m: "q_wait A m = Some ys"
    and rec: "syscall (get_record s rc) = RT_SYSCALL_SEM_POST" "args (get_record s rc) = Sem_post m n"
  defines "v \<equiv> new_value (sem_value (sem s m)) n (max_value (sem s m))"
  defines "C \<equiv> q_wake (length ys - sem_waiters v) s m A"
  shows "\<exists>s'. handle_record rc s = Some s' \<and> handled rc s A s' C \<and>
     kframe (posted rc m n s) s' \<and> queued C = queued A"
proof -
  let ?s1 = "posted rc m n s"
  have "refines ?s1 A" using r by (rule refines_cong) (simp_all add: kernel_simps)
  moreover have "queues_ok {} ?s1 A" using ok by (rule queues_ok_cong) (simp_all add: kernel_simps)
  moreover have "counts ?s1 A" using c by (simp add: counts_def kernel_simps)
  ultimately have "\<exists>s'. wake_sem_waiters m ?s1 = Some s' \<and> handled rc s A s'
      (q_wake (length ys - sem_waiters (sem_value (sem ?s1 m))) ?s1 m A) \<and> kframe ?s1 s' \<and>
      queued (q_wake (length ys - sem_waiters (sem_value (sem ?s1 m))) ?s1 m A) = queued A"
    using m hframe_posted by (rule handled_wake) auto
  moreover have "handle_record rc s = wake_sem_waiters m ?s1"
    using rec by (simp add: handle_record_def posted_def)
  moreover have "higher ?s1 = higher s" by (intro ext) (simp add: higher_def kernel_simps)
  ultimately show ?thesis
    by (simp add: C_def v_def kernel_simps q_wake_higher [of ?s1 s])
qed

lemma handle_tick:
  assumes r: "refines s A" and ok: "queues_ok {} s A" and c: "counts s A"
    and rec: "syscall (get_record s rc) = RT_SYSCALL_TICK"
  shows "\<exists>s' B. handle_record rc s = Some s' \<and> handled rc s A s' B \<and> advances A B \<and>
     woken_tick s' = tick s \<and> tick_pending s' = False \<and>
     (\<forall>t. wake_tick (task s' t) = wake_tick (task s t)) \<and>
     asleep B = {t \<in> asleep A. tick s - woken_tick s < remaining s t} \<and>
     (\<forall>t \<in> set (q_sleep B). tick s - woken_tick s < remaining s t)"
proof -
  let ?s1 = "s\<lparr>tick_pending := False\<rparr>"
  have 1: "refines ?s1 A" using r by (rule refines_cong) simp_all
  have 2: "queues_ok {} ?s1 A" using ok by (rule queues_ok_cong) simp_all
  have 3: "counts ?s1 A" using c by (simp add: counts_def)
  from tick_syscall_refines [OF 1 2 3] obtain s' B where s': "tick_syscall ?s1 = Some s'" "refines s' B"
    "queues_ok {} s' B" "counts s' B" "hframe (set (q_sleep A)) ?s1 s'"
    "\<forall>t. wake_tick (task s' t) = wake_tick (task s t)" "woken_tick s' = tick s"
    "tick_pending s' = False" "advances A B"
    "asleep B = {t \<in> asleep A. tick s - woken_tick s < remaining s t}"
    "\<forall>t \<in> set (q_sleep B). tick s - woken_tick s < remaining s t"
    by (auto simp: remaining_def)
  have "hframe (queued A \<union> owners rc) ?s1 s'" using s'(5) in_queued(2) by (auto intro: hframe_mono)
  then have "hframe (queued A \<union> owners rc) s s'" by (simp add: hframe_def)
  with s'(2-4) have "handled rc s A s' B" using s'(9) by (rule handled_advances)
  then show ?thesis using s' rec by (auto simp: handle_record_def)
qed

lemma handle_task_ready:
  assumes r: "refines s A" and ok: "queues_ok {} s A" and c: "counts s A"
    and t: "t \<in> q_tasks A" "t \<notin> queued A"
  defines "B \<equiv> q_make_ready s t A"
  shows "\<exists>s'. task_ready t s = Some s' \<and> handled (Task_record t) s A s' B \<and> kframe s s'"
proof -
  obtain s' where s': "task_ready t s = Some s'" "refines s' B" "kframe s s'" "sems s' = sems s"
    using task_ready_refines [OF r, of t] unqueuedD(1,3) [OF t(2)] unfolding B_def by auto
  have "queues_ok {} s' B"
    using queues_ok_make_ready [OF ok t] queues_ok_frame [OF s'(3)] unfolding B_def by simp
  moreover have "counts s' B" using c s'(4) by (rule counts_sems) (simp add: B_def)
  ultimately have "handled (Task_record t) s A s' B"
    using s'(2) hframe_kframe [OF s'(3)] by (intro handledI) (auto simp: B_def)
  then show ?thesis using s'(1,3) by blast
qed

section \<open>Handling any record\<close>

text \<open>
  What became of the owner of a handled record: it is in a queue, or it exited, or its state is
  what it was and it goes on running; a task made ready is in a queue.
\<close>

definition fate :: "kernel \<Rightarrow> rec_id \<Rightarrow> queues \<Rightarrow> queues \<Rightarrow> bool" where
  "fate s r A B \<longleftrightarrow>
     (\<forall>t \<in> owners r. t \<in> queued B \<or> syscall (get_record s r) \<noteq> RT_SYSCALL_TASK_READY \<and>
        (q_state B t = RT_TASK_STATE_EXITED \<or> q_state B t = q_state A t))"

lemma fate_queued: "queued B = insert t (queued A') \<Longrightarrow> fate s (Task_record t) A B"
  by (simp add: fate_def)

lemma advances_fate:
  assumes ad: "advances A B" and r: "owners r \<inter> queued A = {}"
    and sys: "syscall (get_record s r) \<noteq> RT_SYSCALL_TASK_READY"
  shows "fate s r A B"
proof -
  have "q_state B t = q_state A t" if "t \<in> owners r" for t
    using that r in_queued(1) [of t B] advances_queued [OF ad] by (intro advancesD(7) [OF ad]) auto
  then show ?thesis using sys by (simp add: fate_def)
qed

lemma handle_wait_call:
  assumes "refines s A" "queues_ok {} s A" "counts s A" "rec_ok s A r"
    and sys: "syscall (get_record s r) \<in> {RT_SYSCALL_SEM_WAIT, RT_SYSCALL_SEM_TIMEDWAIT}"
  shows "\<exists>s' B. handle_record r s = Some s' \<and> handled r s A s' B \<and> fate s r A B"
proof -
  obtain t where t: "r = Task_record t" "can_wait t" "t \<in> q_tasks A" "t \<notin> queued A"
    using assms(4) sys by (auto simp: rec_ok_def call_ok_def owners_nonempty)
  consider m ys where "syscall (task_record (task s t)) = RT_SYSCALL_SEM_WAIT"
      "args (task_record (task s t)) = Sem_wait m" "q_wait A m = Some ys"
    | m ys ticks where "syscall (task_record (task s t)) = RT_SYSCALL_SEM_TIMEDWAIT"
      "args (task_record (task s t)) = Sem_timedwait m ticks" "q_wait A m = Some ys"
    using assms(4) sys t(1)
    by (cases "args (task_record (task s t))") (auto simp: rec_ok_def call_ok_def owners_nonempty)
  then show ?thesis
  proof cases
    case 1
    from handle_sem_wait [OF assms(1-3) t(3,4,2) 1(3,1,2)] show ?thesis
      unfolding t(1) by (auto simp: fate_def)
  next
    case 2
    from handle_sem_timedwait [OF assms(1-3) t(3,4,2) 2(3,1,2)] show ?thesis
      unfolding t(1) by (auto simp: fate_def)
  qed
qed

lemma handle_sleep_call:
  assumes "refines s A" "queues_ok {} s A" "counts s A" "rec_ok s A r"
    and sys: "syscall (get_record s r) \<in> {RT_SYSCALL_SLEEP, RT_SYSCALL_SLEEP_PERIODIC}"
  shows "\<exists>s' B. handle_record r s = Some s' \<and> handled r s A s' B \<and> fate s r A B"
proof -
  obtain t where t: "r = Task_record t" "can_wait t" "t \<in> q_tasks A" "t \<notin> queued A"
    using assms(4) sys by (auto simp: rec_ok_def call_ok_def owners_nonempty)
  have ns: "syscall (task_record (task s t)) \<noteq> RT_SYSCALL_SEM_TIMEDWAIT" using sys t(1) by auto
  have sl: "\<exists>s' B. sleep_until t wt (set_state t RT_TASK_STATE_ASLEEP s) = Some s' \<and>
      handled (Task_record t) s A s' B \<and> fate s (Task_record t) A B" for wt
    using handle_sleep [OF assms(1-3) t(3,4,2) ns, of wt] by (metis fate_queued queued_sleep_in)
  consider ticks where "syscall (task_record (task s t)) = RT_SYSCALL_SLEEP"
      "args (task_record (task s t)) = Sleep ticks"
    | l p where "syscall (task_record (task s t)) = RT_SYSCALL_SLEEP_PERIODIC"
      "args (task_record (task s t)) = Sleep_periodic l p"
    using assms(4) sys t(1)
    by (cases "args (task_record (task s t))") (auto simp: rec_ok_def call_ok_def owners_nonempty)
  then show ?thesis
  proof cases
    case 1
    have "woken_tick (set_state t RT_TASK_STATE_ASLEEP s) = woken_tick s"
      by (simp add: set_state_def kernel_simps)
    then show ?thesis using sl 1 by (simp add: t(1) handle_record_def)
  next
    case 2
    have "handled (Task_record t) s A s A \<and> fate s (Task_record t) A A"
      using handled_advances [OF assms(1-3) hframe_kframe [OF kframe_refl] advances_refl]
      using 2(1) by (simp add: fate_def)
    then show ?thesis using sl 2 unfolding t(1) by (auto simp: handle_record_def)
  qed
qed

lemma handle_record_ok:
  assumes "refines s A" "queues_ok {} s A" "counts s A" "rec_ok s A r"
  shows "\<exists>s' B. handle_record r s = Some s' \<and> handled r s A s' B \<and> fate s r A B"
proof -
  have un: "owners r \<inter> queued A = {}" using assms(4) by (auto simp: rec_ok_def)
  show ?thesis
  proof (cases "syscall (get_record s r)")
    case RT_SYSCALL_TICK
    then have "syscall (get_record s r) \<noteq> RT_SYSCALL_TASK_READY" by simp
    with handle_tick [OF assms(1-3) RT_SYSCALL_TICK] show ?thesis using advances_fate un by blast
  next
    case RT_SYSCALL_EXIT
    then obtain t where t: "r = Task_record t" "t \<notin> queued A"
      using assms(4) by (auto simp: rec_ok_def call_ok_def owners_nonempty)
    with RT_SYSCALL_EXIT show ?thesis
      using handle_set_state [OF assms(1-3) t(2), of RT_TASK_STATE_EXITED]
      by (auto simp: handle_record_def fate_def)
  next
    case RT_SYSCALL_SEM_POST
    then obtain m n ys where p: "args (get_record s r) = Sem_post m n" "q_wait A m = Some ys"
      using assms(4) by (cases "args (get_record s r)") (auto simp: rec_ok_def call_ok_def owners_nonempty)
    have "advances A (q_wake k s m A)" if "k \<le> length ys" for k
      using assms(1) p(2) that by (rule q_wake_advances)
    then show ?thesis
      using handle_sem_post [OF assms(1-3) p(2) RT_SYSCALL_SEM_POST p(1)] un RT_SYSCALL_SEM_POST
      by (metis advances_fate diff_le_self rt_syscall.distinct(55))
  next
    case RT_SYSCALL_TASK_READY
    then obtain t where t: "r = Task_record t" "t \<in> q_tasks A" "t \<notin> queued A"
      using assms(4) by (auto simp: rec_ok_def call_ok_def owners_nonempty)
    then have "handle_record r s = task_ready t s"
      using RT_SYSCALL_TASK_READY by (simp add: handle_record_def)
    then show ?thesis
      using handle_task_ready [OF assms(1-3) t(2,3)] fate_queued [OF queued_make_ready] t(1) by metis
  qed (use handle_wait_call [OF assms] handle_sleep_call [OF assms] in simp_all)
qed

section \<open>The stack of pending records\<close>

fun chain :: "kernel \<Rightarrow> rec_id option \<Rightarrow> rec_id list \<Rightarrow> bool" where
  "chain s r [] \<longleftrightarrow> r = None"
| "chain s r (x # xs) \<longleftrightarrow> r = Some x \<and> chain s (next_record (get_record s x)) xs"

definition records_ok :: "kernel \<Rightarrow> queues \<Rightarrow> rec_id list \<Rightarrow> bool" where
  "records_ok s A rs \<longleftrightarrow> distinct rs \<and> (\<forall>r \<in> set rs. rec_ok s A r)"

lemma chain_frame: "hframe Y s s' \<Longrightarrow> chain s' r rs = chain s r rs"
  by (induction rs arbitrary: r) (simp_all add: hframe_get_record)

text \<open>Handling a record leaves the others as they were.\<close>

lemma handled_get_record:
  assumes "handled r s A s' B" and "r' \<noteq> r" and "owners r' \<inter> queued A = {}"
  shows "get_record s' r' = get_record s r'"
  using handledD(4) [OF assms(1)] assms(2,3) by (cases r'; cases r) (auto simp: hframe_def)

lemma handled_rec_ok:
  assumes h: "handled r s A s' B" and r': "r' \<noteq> r" "rec_ok s A r'"
  shows "rec_ok s' B r'"
proof -
  have own: "owners r' \<subseteq> {t \<in> q_tasks A. t \<notin> queued A \<and> can_wait t}" using r'(2) by (simp add: rec_ok_def)
  have eq: "get_record s' r' = get_record s r'" using own by (intro handled_get_record [OF h r'(1)]) auto
  have "call_ok s' B r' = call_ok s A r'" unfolding call_ok_def handledD(6) [OF h] eq ..
  moreover have "owners r' \<inter> owners r = {}" using r'(1) by (cases r'; cases r) auto
  then have "owners r' \<subseteq> {t \<in> q_tasks B. t \<notin> queued B \<and> can_wait t}"
    using own handledD(5,8) [OF h] by auto
  ultimately show ?thesis using r'(2) by (simp add: rec_ok_def)
qed

text \<open>The flags after a list of records was handled.\<close>

definition all_cleared :: "rec_id list \<Rightarrow> bool \<times> (sem_id \<Rightarrow> bool) \<Rightarrow> bool \<times> (sem_id \<Rightarrow> bool)" where
  "all_cleared rs f = (fst f \<and> Tick_record \<notin> set rs, \<lambda>m. snd f m \<and> Post_record m \<notin> set rs)"

lemma all_cleared_Cons: "all_cleared (r # rs) f = all_cleared rs (all_cleared [r] f)"
  by (auto simp: all_cleared_def)

lemma cleared_rec_ok:
  assumes "rec_ok s A r"
  shows "cleared r s = all_cleared [r] (flags s)"
  using assms unfolding cleared_def all_cleared_def flags_def rec_ok_def call_ok_def
  by (cases r; cases "syscall (get_record s r)")
    (auto simp: sem_post_args_eq fun_eq_iff simp del: get_record.simps)

text \<open>What handling a list of records does to the queues.\<close>

definition ran_all :: "rec_id list \<Rightarrow> kernel \<Rightarrow> queues \<Rightarrow> kernel \<Rightarrow> queues \<Rightarrow> bool" where
  "ran_all rs s A s' B \<longleftrightarrow>
     refines s' B \<and> queues_ok {} s' B \<and> counts s' B \<and>
     hframe (queued A \<union> \<Union>(owners ` set rs)) s s' \<and>
     q_tasks B = q_tasks A \<and> dom (q_wait B) = dom (q_wait A) \<and>
     queued A \<subseteq> queued B \<and> queued B \<subseteq> queued A \<union> \<Union>(owners ` set rs) \<and>
     set (q_ready A) \<subseteq> set (q_ready B) \<and>
     (\<forall>u. u \<notin> queued B \<longrightarrow> q_state B u = q_state A u \<or>
        u \<in> \<Union>(owners ` set rs) \<and> q_state B u = RT_TASK_STATE_EXITED) \<and>
     (\<forall>r \<in> set rs. syscall (get_record s r) = RT_SYSCALL_TASK_READY \<longrightarrow> owners r \<subseteq> queued B)"

lemma hframe_syscall:
  "hframe Y s s' \<Longrightarrow> syscall (get_record s' r) = syscall (get_record s r)"
  by (cases r) (simp_all add: hframe_def)

lemma ran_all_Cons:
  assumes h: "handled r s A s1 A1" "fate s r A A1" and rest: "ran_all rs s1 A1 s' B"
    and un: "\<forall>r' \<in> set rs. owners r \<inter> owners r' = {}"
  shows "ran_all (r # rs) s A s' B"
proof -
  note h1 = handledD [OF h(1)]
  have R: "hframe (queued A1 \<union> \<Union>(owners ` set rs)) s1 s'" "queued A1 \<subseteq> queued B"
    "queued B \<subseteq> queued A1 \<union> \<Union>(owners ` set rs)" "set (q_ready A1) \<subseteq> set (q_ready B)"
    "\<And>u. u \<notin> queued B \<Longrightarrow> q_state B u = q_state A1 u \<or>
        u \<in> \<Union>(owners ` set rs) \<and> q_state B u = RT_TASK_STATE_EXITED"
    using rest by (simp_all add: ran_all_def)
  let ?Y = "queued A \<union> \<Union>(owners ` set (r # rs))"
  have "hframe ?Y s s1" using h1(4) by (rule hframe_mono) auto
  moreover have "hframe ?Y s1 s'" using R(1) by (rule hframe_mono) (use h1(8) in auto)
  ultimately have "hframe ?Y s s'" by (rule hframe_trans)
  moreover have "q_state B u = q_state A u \<or>
      u \<in> \<Union>(owners ` set (r # rs)) \<and> q_state B u = RT_TASK_STATE_EXITED" if "u \<notin> queued B" for u
  proof -
    have "q_state A1 u = q_state A u \<or> u \<in> owners r \<and> q_state A1 u = RT_TASK_STATE_EXITED"
      using that R(2) h1(7) h1(9) [of u] h(2) by (auto simp: fate_def)
    then show ?thesis using R(5) [OF that] by auto
  qed
  moreover have "owners r' \<subseteq> queued B"
    if "r' \<in> set (r # rs)" "syscall (get_record s r') = RT_SYSCALL_TASK_READY" for r'
    using that h(2) R(2) rest hframe_syscall [OF h1(4), of r']
    by (cases "r' = r") (auto simp: fate_def ran_all_def)
  ultimately show ?thesis
    using rest h1(5-8,10) R(2-4) by (auto simp: ran_all_def)
qed

lemma run_records_ok:
  assumes "refines s A" "queues_ok {} s A" "counts s A" "records_ok s A rs" "chain s r rs"
  shows "\<exists>s' B. run_records r s = Some s' \<and> ran_all rs s A s' B \<and> flags s' = all_cleared rs (flags s)"
  using assms
proof (induction rs arbitrary: s A r)
  case Nil
  have "ran_all [] s A s A"
    using Nil.prems(1-3) hframe_kframe [OF kframe_refl] by (simp add: ran_all_def)
  then show ?case using Nil.prems(5) by (auto simp: run_records.simps all_cleared_def)
next
  case (Cons x rs)
  have x: "rec_ok s A x" "x \<notin> set rs" "records_ok s A rs" and r: "r = Some x"
    using Cons.prems(4,5) by (auto simp: records_ok_def)
  obtain s1 A1 where s1: "handle_record x s = Some s1" "handled x s A s1 A1" "fate s x A A1"
    using handle_record_ok [OF Cons.prems(1-3) x(1)] by blast
  have "rec_ok s1 A1 r'" if "r' \<in> set rs" for r'
    using x that by (intro handled_rec_ok [OF s1(2)]) (auto simp: records_ok_def)
  then have "records_ok s1 A1 rs" using x(3) by (simp add: records_ok_def)
  moreover have "chain s1 (next_record (get_record s x)) rs"
    using Cons.prems(5) chain_frame [OF handledD(4) [OF s1(2)]] by simp
  ultimately obtain s' B where s': "run_records (next_record (get_record s x)) s1 = Some s'"
    "ran_all rs s1 A1 s' B" "flags s' = all_cleared rs (flags s1)"
    using Cons.IH handledD(1-3) [OF s1(2)] by blast
  have "\<forall>r' \<in> set rs. owners x \<inter> owners r' = {}"
  proof
    fix r' assume "r' \<in> set rs"
    then have "r' \<noteq> x" using x(2) by auto
    then show "owners x \<inter> owners r' = {}" by (cases x; cases r') auto
  qed
  with s1(2,3) s'(2) have "ran_all (x # rs) s A s' B" by (rule ran_all_Cons)
  moreover have "run_records r s = Some s'"
    using s1(1) s'(1) by (simp add: r run_records.simps [of "Some x"])
  moreover have "flags s' = all_cleared (x # rs) (flags s)"
    unfolding s'(3) handle_record_flags [OF s1(1)] cleared_rec_ok [OF x(1)] all_cleared_Cons [of x rs] ..
  ultimately show ?case by blast
qed

section \<open>The invariant inside the handler\<close>

definition handler_ok :: "kernel \<Rightarrow> queues \<Rightarrow> bool" where
  "handler_ok s A \<longleftrightarrow> refines s A \<and> queues_ok {} s A \<and> counts s A"

lemma handler_okD:
  assumes "handler_ok s A"
  shows "refines s A" "queues_ok {} s A" "counts s A"
  using assms by (simp_all add: handler_ok_def)

end
