(* ===== verification/Rt_Sched.thy ===== *)
theory Rt_Sched
  imports Rt_Syscall
begin

text \<open>
  The scheduler and the invariant of the kernel between two system calls. \<open>sched\<close> implements
  an abstract choice of the next task, the choice has the highest priority of all tasks that can
  run, tasks of one priority take turns, and \<open>rt_syscall_run\<close> returns and keeps the invariant.
\<close>

section \<open>The abstract scheduler\<close>

definition q_sched :: "kernel \<Rightarrow> task_id \<Rightarrow> queues \<Rightarrow> queues \<times> task_id" where
  "q_sched s a A =
     (case q_ready A of
        [] \<Rightarrow> (A, a)
      | n # rest \<Rightarrow>
          let running = (q_state A a = RT_TASK_STATE_RUNNING);
              A1 = A\<lparr>q_ready := rest\<rparr>
          in if running \<and> higher s a n then (A, a)
             else if a = n then (A1, a)
             else (q_set_state n RT_TASK_STATE_RUNNING (if running then q_make_ready s a A1 else A1), n))"

lemma queued_state:
  assumes ok: "queues_ok {} s A" and t: "t \<in> queued A"
  shows "q_state A t \<in> {RT_TASK_STATE_READY, RT_TASK_STATE_ASLEEP, RT_TASK_STATE_BLOCKED,
     RT_TASK_STATE_BLOCKED_TIMEOUT}"
  using t
proof (cases rule: queued_cases)
  case 1
  then show ?thesis using queues_okD(4) [OF ok] by simp
next
  case 2
  then show ?thesis using queues_okD(6) [OF ok] by (auto simp: sleeps_def)
next
  case (3 m ys)
  then show ?thesis using queues_okD(9) [OF ok 3] by (auto simp: waits_on_def)
qed

lemma ready_only_ready:
  assumes ok: "queues_ok {} s A" and t: "t \<in> set (q_ready A)"
  shows "t \<notin> set (q_sleep A)" and "q_wait A m = Some ys \<Longrightarrow> t \<notin> set ys"
  using queues_okD(4) [OF ok t] queues_okD(6) [OF ok, of t] queues_okD(9) [OF ok, of m ys t]
  by (auto simp: sleeps_def waits_on_def)

lemma ready_front:
  assumes "refines s A"
  shows "rt_list_is_empty Ready_list (nodes s) \<longleftrightarrow> q_ready A = []"
    and "q_ready A = t # zs \<Longrightarrow> rt_list_front Ready_list (nodes s) = Task_list t"
proof -
  have d: "dlist (nodes s) Ready_list (map Task_list (q_ready A))"
    using assms lists_at_holds [of dlist "nodes s" "heads A" Ready_list] by (simp add: refines_def)
  show "rt_list_is_empty Ready_list (nodes s) \<longleftrightarrow> q_ready A = []"
    using rt_list_is_empty_spec [OF d] by simp
  show "q_ready A = t # zs \<Longrightarrow> rt_list_front Ready_list (nodes s) = Task_list t"
    using rt_list_front_spec [OF d] by simp
qed

text \<open>The front of the ready list leaves it and is then in no queue.\<close>

lemma queues_ok_unready:
  assumes r: "refines s A" and ok: "queues_ok {} s A" and n: "q_ready A = n # rest"
  defines "A1 \<equiv> A\<lparr>q_ready := rest\<rparr>"
  shows "queues_ok {} s A1" and "queued A1 = queued A - {n}"
proof -
  note D = queues_okD [OF ok]
  have d: "n \<notin> set rest" using refines_distinct(1) [OF r] n by simp
  have nq: "n \<notin> set (q_sleep A)" "\<And>m ys. q_wait A m = Some ys \<Longrightarrow> n \<notin> set ys"
    using ready_only_ready [OF ok, of n] n by auto
  show q: "queued A1 = queued A - {n}"
    using n d nq unfolding queued_def by (auto simp: A1_def ran_def)
  show "queues_ok {} s A1"
  proof (rule queues_okI)
    show "queued A1 \<subseteq> q_tasks A1" using D(1) q by (auto simp: A1_def)
    show "ordered_by (higher s) (q_ready A1)" using D(2) n by (simp add: A1_def ordered_by_def)
    show "can_wait u \<and> sleeps s A1 u" if "u \<in> set (q_sleep A1)" for u
      using that D(5,6) [of u] by (simp add: A1_def sleeps_def)
    show "waits_on s A1 m u" if "q_wait A1 m = Some ys" "u \<in> set ys" for m ys u
      using that D(9) [of m ys u] by (simp add: A1_def waits_on_def)
  qed (use D n in \<open>auto simp: A1_def\<close>)
qed

text \<open>
  What a call of \<open>sched\<close> does: the queues and the active task are as the abstract scheduler says,
  the context to restore is the new task's when there is a switch and null otherwise, and
  nothing else changes but the pointer to the context to save.
\<close>

definition scheduled :: "kernel \<Rightarrow> queues \<Rightarrow> kernel \<Rightarrow> queues \<Rightarrow> u32 \<Rightarrow> bool" where
  "scheduled s A s' B c \<longleftrightarrow>
     q_sched s (active_task s) A = (B, active_task s') \<and>
     refines s' B \<and> queues_ok {} s' B \<and> counts s' B \<and>
     kframe (s\<lparr>active_task := active_task s', rt_context_prev := rt_context_prev s'\<rparr>) s' \<and>
     (if active_task s' = active_task s then c = NULL \<and> rt_context_prev s' = rt_context_prev s
      else c = ctx (task s (active_task s')) \<and> rt_context_prev s' = Some (active_task s))"

lemma sched_stay:
  assumes "refines s A" "queues_ok {} s A" "counts s A"
    and "q_sched s (active_task s) A = (A, active_task s)"
  shows "scheduled s A s A NULL"
  using assms by (simp add: scheduled_def)

lemma sched_remove:
  assumes r: "refines s A" and ok: "queues_ok {} s A" and c: "counts s A" and n: "q_ready A = n # rest"
  defines "s1 \<equiv> upd_nodes (rt_list_remove (Task_list n)) s" and "A1 \<equiv> A\<lparr>q_ready := rest\<rparr>"
  shows "refines s1 A1" "queues_ok {} s1 A1" "counts s1 A1" "kframe s s1" "n \<notin> queued A1"
proof -
  show "refines s1 A1" using unready_refines [OF r, of n] n by (simp add: s1_def A1_def)
  show fr: "kframe s s1" by (simp add: s1_def)
  show "queues_ok {} s1 A1"
    using queues_ok_unready(1) [OF r ok n] queues_ok_frame [OF fr] by (simp add: A1_def)
  show "counts s1 A1" using c by (rule counts_sems) (simp_all add: s1_def A1_def kernel_simps)
  show "n \<notin> queued A1" using queues_ok_unready(2) [OF r ok n] by (simp add: A1_def)
qed

text \<open>A switch from the active task to \<open>n\<close>, which is in no queue any more.\<close>

lemma sched_switch:
  assumes r: "refines s1 A1" and ok: "queues_ok {} s1 A1" and c: "counts s1 A1"
    and n: "n \<notin> queued A1" "n \<noteq> active_task s1" and a: "active_task s1 \<in> q_tasks A1"
    and running: "running \<longleftrightarrow> q_state A1 (active_task s1) = RT_TASK_STATE_RUNNING"
  defines "A2 \<equiv> if running then q_make_ready s1 (active_task s1) A1 else A1"
  shows "\<exists>s2. (if running then task_ready (active_task s1) s1 else Some s1) = Some s2 \<and> kframe s1 s2 \<and>
     (let s3 = set_state n RT_TASK_STATE_RUNNING
        (s2\<lparr>rt_context_prev := Some (active_task s1), active_task := n\<rparr>)
      in refines s3 (q_set_state n RT_TASK_STATE_RUNNING A2) \<and>
         queues_ok {} s3 (q_set_state n RT_TASK_STATE_RUNNING A2) \<and>
         counts s3 (q_set_state n RT_TASK_STATE_RUNNING A2) \<and>
         kframe (s1\<lparr>active_task := n, rt_context_prev := Some (active_task s1)\<rparr>) s3)"
proof -
  let ?a = "active_task s1" and ?B = "q_set_state n RT_TASK_STATE_RUNNING A2"
  have "\<exists>s2. (if running then task_ready ?a s1 else Some s1) = Some s2 \<and> refines s2 A2 \<and>
      queues_ok {} s2 A2 \<and> counts s2 A2 \<and> kframe s1 s2 \<and> n \<notin> queued A2"
  proof (cases running)
    case True
    then have "?a \<notin> queued A1" using running queued_state [OF ok, of ?a] by auto
    from handle_task_ready [OF r ok c a this] show ?thesis
      using True n by (auto simp: A2_def dest: handledD(1-3))
  next
    case False
    then show ?thesis using r ok c n by (simp add: A2_def)
  qed
  then obtain s2 where s2: "(if running then task_ready ?a s1 else Some s1) = Some s2" "refines s2 A2"
    "queues_ok {} s2 A2" "counts s2 A2" "kframe s1 s2" "n \<notin> queued A2" by blast
  let ?s2 = "s2\<lparr>rt_context_prev := Some ?a, active_task := n\<rparr>"
  have "refines ?s2 A2" "queues_ok {} ?s2 A2" "counts ?s2 A2"
    using refines_cong [OF s2(2)] queues_ok_cong [OF s2(3)] s2(4) by (simp_all add: counts_def)
  note h = handledD(1-3) [OF handle_set_state [OF this s2(6)]]
  have "kframe (s1\<lparr>active_task := n, rt_context_prev := Some ?a\<rparr>) ?s2"
    using s2(5) unfolding kframe_def by (cases s1, cases s2) simp
  then have "kframe (s1\<lparr>active_task := n, rt_context_prev := Some ?a\<rparr>)
      (set_state n RT_TASK_STATE_RUNNING ?s2)"
    by (rule kframe_trans) simp
  then show ?thesis using s2(1,5) h by (auto simp: Let_def)
qed

lemma sched_refines:
  assumes r: "refines s A" and ok: "queues_ok {} s A" and c: "counts s A"
    and a: "active_task s \<in> q_tasks A"
  shows "\<exists>s' c B. sched s = Some (s', c) \<and> scheduled s A s' B c"
proof (cases "q_ready A")
  case Nil
  then have "sched s = Some (s, NULL)" using ready_front(1) [OF r] by (simp add: sched_def)
  then show ?thesis using sched_stay [OF r ok c] Nil by (auto simp: q_sched_def)
next
  case (Cons n rest)
  let ?a = "active_task s" and ?run = "q_state A (active_task s) = RT_TASK_STATE_RUNNING"
  let ?s1 = "upd_nodes (rt_list_remove (Task_list n)) s" and ?A1 = "A\<lparr>q_ready := rest\<rparr>"
  have st: "task_state (task s ?a) = q_state A ?a" using r by (simp add: refines_def)
  have fr: "rt_list_front Ready_list (nodes s) = Task_list n" using ready_front(2) [OF r Cons] .
  have ne: "\<not> rt_list_is_empty Ready_list (nodes s)" using ready_front(1) [OF r] Cons by simp
  note rem = sched_remove [OF r ok c Cons]
  consider (stay) "?run \<and> higher s ?a n" | (same) "\<not> (?run \<and> higher s ?a n)" "?a = n"
    | (switch) "\<not> (?run \<and> higher s ?a n)" "?a \<noteq> n" by blast
  then show ?thesis
  proof cases
    case stay
    then have "sched s = Some (s, NULL)" using fr ne st by (simp add: sched_def higher_def)
    then show ?thesis using sched_stay [OF r ok c] stay Cons by (auto simp: q_sched_def)
  next
    case same
    then have "sched s = Some (?s1, NULL)"
      using fr ne st by (auto simp: sched_def higher_def kernel_simps)
    moreover have "scheduled s A ?s1 ?A1 NULL"
      using rem same Cons by (auto simp: scheduled_def q_sched_def kernel_simps Let_def)
    ultimately show ?thesis by blast
  next
    case switch
    have a1: "active_task ?s1 = ?a" by (simp add: kernel_simps)
    have hi: "higher ?s1 = higher s" using rem(4) by (rule higher_frame)
    obtain s2 where s2: "(if ?run then task_ready ?a ?s1 else Some ?s1) = Some s2" "kframe ?s1 s2"
      and s3: "let s3 = set_state n RT_TASK_STATE_RUNNING (s2\<lparr>rt_context_prev := Some ?a, active_task := n\<rparr>);
          B = q_set_state n RT_TASK_STATE_RUNNING (if ?run then q_make_ready s ?a ?A1 else ?A1)
        in refines s3 B \<and> queues_ok {} s3 B \<and> counts s3 B \<and>
           kframe (?s1\<lparr>active_task := n, rt_context_prev := Some ?a\<rparr>) s3"
      using sched_switch [OF rem(1-3,5), of ?run] a switch(2) unfolding a1 q_make_ready_frame [OF rem(4)]
      by (auto simp: Let_def)
    let ?s3 = "set_state n RT_TASK_STATE_RUNNING (s2\<lparr>rt_context_prev := Some ?a, active_task := n\<rparr>)"
    let ?B = "q_set_state n RT_TASK_STATE_RUNNING (if ?run then q_make_ready s ?a ?A1 else ?A1)"
    have a2: "active_task s2 = ?a" using kframeD(3) [OF s2(2)] a1 by simp
    have "kframe (s\<lparr>active_task := n, rt_context_prev := Some ?a\<rparr>)
        (?s1\<lparr>active_task := n, rt_context_prev := Some ?a\<rparr>)"
      by (simp add: kframe_def upd_nodes_def)
    with s3 have fr3: "kframe (s\<lparr>active_task := n, rt_context_prev := Some ?a\<rparr>) ?s3"
      by (auto simp: Let_def intro: kframe_trans)
    have sel: "active_task ?s3 = n" "rt_context_prev ?s3 = Some ?a" "ctx (task ?s3 n) = ctx (task s n)"
      using kframeD(3,4,10) [OF fr3] by simp_all
    have "sched s = Some (?s3, ctx (task ?s3 n))"
      using switch fr ne st s2(1) a1 a2 by (auto simp: sched_def higher_def Let_def kernel_simps)
    moreover have "scheduled s A ?s3 ?B (ctx (task s n))"
      using s3 fr3 sel switch Cons by (auto simp: scheduled_def q_sched_def Let_def)
    ultimately show ?thesis using sel(3) by auto
  qed
qed

section \<open>The choice of the next task\<close>

text \<open>No ready task has a higher priority than the one chosen, on every branch.\<close>

lemma q_sched_highest:
  assumes ok: "queues_ok X s A" and B: "q_sched s a A = (B, b)" and t: "t \<in> set (q_ready B)"
  shows "\<not> higher s t b"
proof (cases "q_ready A")
  case Nil
  then show ?thesis using B t by (auto simp: q_sched_def)
next
  case (Cons n rest)
  have n: "\<not> higher s u n" if "u \<in> set (q_ready A)" for u
    using higher.hd_ordered_first [OF queues_okD(2) [OF ok] that] Cons by simp
  have "\<not> higher s u b" if "higher s b n" "u \<in> set (q_ready A)" for u
    using n [OF that(2)] that(1) by (auto simp: higher_def)
  then show ?thesis
    using B t n Cons
    by (auto simp: q_sched_def Let_def higher_def q_set_state_def split: if_splits)
qed

lemma q_sched_chosen:
  assumes "q_sched s a A = (B, b)"
  shows "b = a \<or> b \<in> set (q_ready A)"
  using assms by (auto simp: q_sched_def Let_def split: list.splits if_splits)

text \<open>No task is lost: a ready task stays ready or is chosen, a running task that is not is ready.\<close>

lemma q_sched_keeps:
  assumes r: "refines s A" and ok: "queues_ok {} s A" and B: "q_sched s a A = (B, b)"
    and a: "q_ready A = [] \<Longrightarrow> a \<notin> queued A"
  shows "queued B = queued A \<union> (if q_state A a = RT_TASK_STATE_RUNNING then {a} else {}) - {b}"
proof (cases "q_ready A")
  case Nil
  show ?thesis using B Nil a by (auto simp: q_sched_def)
next
  case (Cons n rest)
  let ?A1 = "A\<lparr>q_ready := rest\<rparr>" and ?run = "q_state A a = RT_TASK_STATE_RUNNING"
  have u: "queued ?A1 = queued A - {n}" using queues_ok_unready(2) [OF r ok Cons] .
  have run: "a \<notin> queued A" if ?run using that queued_state [OF ok, of a] by auto
  have n: "n \<in> queued A" using in_queued(1) [of n A] Cons by simp
  consider (stay) "?run" "higher s a n" "B = A" "b = a"
    | (same) "a = n" "B = ?A1" "b = a"
    | (switch) "a \<noteq> n" "b = n" "B = q_set_state n RT_TASK_STATE_RUNNING (if ?run then q_make_ready s a ?A1 else ?A1)"
    using B Cons by (auto simp: q_sched_def Let_def split: if_splits)
  then show ?thesis
  proof cases
    case stay
    then show ?thesis using run by auto
  next
    case same
    then show ?thesis using u by auto
  next
    case switch
    then show ?thesis using u run n by (cases ?run) auto
  qed
qed

lemma q_sched_frame:
  assumes B: "q_sched s a A = (B, b)"
  shows "q_tasks B = q_tasks A" "q_wait B = q_wait A" "q_sleep B = q_sleep A"
    "u \<noteq> a \<Longrightarrow> u \<noteq> b \<Longrightarrow> q_state B u = q_state A u"
    "b \<noteq> a \<Longrightarrow> q_state B b = RT_TASK_STATE_RUNNING"
    "b = a \<Longrightarrow> q_state B a = q_state A a"
    "a \<noteq> b \<Longrightarrow> q_state B a =
       (if q_state A a = RT_TASK_STATE_RUNNING then RT_TASK_STATE_READY else q_state A a)"
  using B by (auto simp: q_sched_def Let_def split: list.splits if_splits)

section \<open>The invariant between system calls\<close>

text \<open>
  The idle task runs or is ready, which is what the comment in \<^verbatim>\<open>sched\<close> relies on.
\<close>

definition idle_ok :: "kernel \<Rightarrow> queues \<Rightarrow> bool" where
  "idle_ok s A \<longleftrightarrow> Idle_task \<in> q_tasks A \<and>
     (if active_task s = Idle_task then q_state A Idle_task = RT_TASK_STATE_RUNNING
      else Idle_task \<in> set (q_ready A))"

text \<open>
  The pending records are a stack of distinct well-formed records; a task that has one is the
  active task or is yet to start.
\<close>

definition pending_ok :: "kernel \<Rightarrow> queues \<Rightarrow> rec_id list \<Rightarrow> bool" where
  "pending_ok s A rs \<longleftrightarrow>
     chain s (pending_syscalls s) rs \<and> records_ok s A rs \<and>
     (\<forall>r \<in> set rs. owners r \<subseteq> {active_task s} \<or> syscall (get_record s r) = RT_SYSCALL_TASK_READY)"

definition kernel_ok :: "kernel \<Rightarrow> queues \<Rightarrow> rec_id list \<Rightarrow> bool" where
  "kernel_ok s A rs \<longleftrightarrow>
     refines s A \<and> queues_ok {} s A \<and> counts s A \<and> idle_ok s A \<and>
     active_task s \<in> q_tasks A \<and> active_task s \<notin> queued A \<and> pending_ok s A rs"

text \<open>Every task is in a queue, active, finished, or about to be handled.\<close>

definition accounted :: "kernel \<Rightarrow> queues \<Rightarrow> rec_id list \<Rightarrow> bool" where
  "accounted s A rs \<longleftrightarrow>
     (\<forall>t \<in> q_tasks A. t \<in> queued A \<or> t = active_task s \<or> q_state A t = RT_TASK_STATE_EXITED \<or>
        Task_record t \<in> set rs)"

lemma idle_unqueued:
  assumes "idle_ok s A" and "queues_ok {} s A" and "q_ready A = []"
  shows "active_task s = Idle_task" and "Idle_task \<notin> queued A"
  using assms queued_state [OF assms(2), of Idle_task] by (auto simp: idle_ok_def split: if_splits)

text \<open>Handling the pending records keeps the idle task where it is.\<close>

lemma ran_all_idle:
  assumes ran: "ran_all rs s A s' B" and idle: "idle_ok s A" and ok: "queues_ok {} s A"
    and rs: "records_ok s A rs"
  shows "idle_ok s' B"
proof -
  have a: "active_task s' = active_task s" using ran by (simp add: ran_all_def hframe_def)
  have "Idle_task \<notin> owners r" if "r \<in> set rs" for r
    using rs that by (force simp: records_ok_def rec_ok_def)
  then have no: "Idle_task \<notin> \<Union>(owners ` set rs)" by blast
  show ?thesis
  proof (cases "active_task s = Idle_task")
    case False
    then show ?thesis using ran idle a by (auto simp: ran_all_def idle_ok_def)
  next
    case True
    then have st: "active_task s = Idle_task" "q_state A Idle_task = RT_TASK_STATE_RUNNING"
      using idle by (auto simp: idle_ok_def)
    then have "Idle_task \<notin> queued A" using queued_state [OF ok, of Idle_task] by auto
    then have "Idle_task \<notin> queued B" using ran no by (auto simp: ran_all_def)
    then have "q_state B Idle_task = RT_TASK_STATE_RUNNING" using ran no st by (auto simp: ran_all_def)
    then show ?thesis using ran idle st a by (auto simp: ran_all_def idle_ok_def)
  qed
qed

lemma q_sched_idle:
  assumes ok: "queues_ok {} s A" and idle: "idle_ok s A"
    and B: "q_sched s (active_task s) A = (B, active_task s')"
  shows "idle_ok s' B"
proof -
  let ?a = "active_task s"
  have tk: "Idle_task \<in> q_tasks B" using idle q_sched_frame(1) [OF B] by (simp add: idle_ok_def)
  show ?thesis
  proof (cases "q_ready A")
    case Nil
    then show ?thesis using B idle by (auto simp: q_sched_def idle_ok_def split: if_splits)
  next
    case (Cons n rest)
    consider (stay) "q_state A ?a = RT_TASK_STATE_RUNNING" "B = A" "active_task s' = ?a"
      | (same) "?a = n" "q_state A ?a = RT_TASK_STATE_READY" "B = A\<lparr>q_ready := rest\<rparr>" "active_task s' = ?a"
      | (switch) "?a \<noteq> n" "active_task s' = n" "q_state B n = RT_TASK_STATE_RUNNING"
        "set (q_ready B) = set rest \<union> (if q_state A ?a = RT_TASK_STATE_RUNNING then {?a} else {})"
      using B Cons queues_okD(4) [OF ok, of n]
      by (auto simp: q_sched_def Let_def split: if_splits)
    then show ?thesis
    proof cases
      case same
      then have "?a \<noteq> Idle_task" using idle by (auto simp: idle_ok_def)
      then show ?thesis using same idle tk Cons by (auto simp: idle_ok_def)
    next
      case switch
      show ?thesis
      proof (cases "n = Idle_task")
        case True
        then show ?thesis using switch(2,3) tk by (simp add: idle_ok_def)
      next
        case False
        then have "Idle_task \<in> set (q_ready B)"
          using idle Cons unfolding switch(4) by (cases "?a = Idle_task") (simp_all add: idle_ok_def)
        then show ?thesis using False switch(2) tk by (simp add: idle_ok_def)
      qed
    qed (use idle tk in \<open>auto simp: idle_ok_def\<close>)
  qed
qed

section \<open>The system call handler keeps the invariant\<close>

text \<open>The two halves of \<open>rt_syscall_run\<close>: the state \<open>s1\<close> with queues \<open>A1\<close> is between them.\<close>

definition run_through :: "rec_id list \<Rightarrow> kernel \<Rightarrow> queues \<Rightarrow> kernel \<Rightarrow> queues \<Rightarrow> kernel \<Rightarrow> queues \<Rightarrow> u32 \<Rightarrow> bool" where
  "run_through rs s A s1 A1 s' B c \<longleftrightarrow>
     ran_all rs (s\<lparr>pending_syscalls := None\<rparr>) A s1 A1 \<and> scheduled s1 A1 s' B c"

lemma get_record_pending [simp]: "get_record (s\<lparr>pending_syscalls := p\<rparr>) r = get_record s r"
  by (cases r) simp_all

lemma chain_pending [simp]: "chain (s\<lparr>pending_syscalls := p\<rparr>) r rs = chain s r rs"
  by (induction rs arbitrary: r) simp_all

lemma kernel_okD:
  assumes "kernel_ok s A rs"
  shows "refines s A" "queues_ok {} s A" "counts s A" "idle_ok s A" "active_task s \<in> q_tasks A"
    "active_task s \<notin> queued A" "pending_ok s A rs"
  using assms by (simp_all add: kernel_ok_def)

lemma kernel_ok_start:
  assumes "kernel_ok s A rs"
  defines "s0 \<equiv> s\<lparr>pending_syscalls := None\<rparr>"
  shows "refines s0 A" "queues_ok {} s0 A" "counts s0 A" "idle_ok s0 A" "records_ok s0 A rs"
    "chain s0 (pending_syscalls s) rs"
proof -
  note k = kernel_okD [OF assms(1)]
  show "refines s0 A" using k(1) by (rule refines_cong) (simp_all add: s0_def)
  show "queues_ok {} s0 A" using k(2) by (rule queues_ok_cong) (simp_all add: s0_def)
  show "counts s0 A" using k(3) by (simp add: counts_def s0_def)
  show "idle_ok s0 A" using k(4) by (simp add: idle_ok_def s0_def)
  have "call_ok s0 A r = call_ok s A r" for r unfolding call_ok_def s0_def get_record_pending ..
  then show "records_ok s0 A rs" using k(7) by (simp add: pending_ok_def records_ok_def rec_ok_def)
  show "chain s0 (pending_syscalls s) rs" using k(7) by (simp add: pending_ok_def s0_def)
qed

lemma scheduled_flags:
  assumes "scheduled s A s' B c"
  shows "flags s' = flags s"
proof -
  have k: "kframe (s\<lparr>active_task := active_task s', rt_context_prev := rt_context_prev s'\<rparr>) s'"
    using assms by (simp add: scheduled_def)
  show ?thesis using kframe_fields(7) [OF k] kframe_sem(4) [OF k] by (simp add: flags_def)
qed

lemma rt_syscall_run_through:
  assumes k: "kernel_ok s A rs"
  shows "\<exists>s1 A1 s' B c. rt_syscall_run s = Some (s', c) \<and> run_through rs s A s1 A1 s' B c \<and>
     idle_ok s1 A1 \<and> queues_ok {} s1 A1 \<and> refines s1 A1 \<and>
     active_task s1 = active_task s \<and> pending_syscalls s1 = None \<and> flags s' = all_cleared rs (flags s)"
proof -
  let ?s0 = "s\<lparr>pending_syscalls := None\<rparr>"
  note k0 = kernel_ok_start [OF k]
  obtain s1 A1 where s1: "run_records (pending_syscalls s) ?s0 = Some s1" "ran_all rs ?s0 A s1 A1"
    "flags s1 = all_cleared rs (flags ?s0)"
    using run_records_ok [OF k0(1-3,5,6)] by blast
  have id1: "idle_ok s1 A1" using s1(2) k0(4,2,5) by (rule ran_all_idle)
  have a1: "active_task s1 = active_task s" "pending_syscalls s1 = None"
    using s1(2) by (simp_all add: ran_all_def hframe_def)
  have 1: "refines s1 A1" "queues_ok {} s1 A1" "counts s1 A1" "active_task s1 \<in> q_tasks A1"
    using s1(2) kernel_okD(5) [OF k] a1 by (simp_all add: ran_all_def)
  obtain s' c B where "sched s1 = Some (s', c)" "scheduled s1 A1 s' B c"
    using sched_refines [OF 1] by blast
  moreover from this(1) have "rt_syscall_run s = Some (s', c)" using s1(1) by (simp add: rt_syscall_run_def)
  moreover have "flags s' = all_cleared rs (flags s)"
    using scheduled_flags [OF \<open>scheduled s1 A1 s' B c\<close>] s1(3) by (simp add: flags_def)
  ultimately show ?thesis using s1(2) id1 1(1,2) a1 unfolding run_through_def by blast
qed

lemma scheduled_ok:
  assumes "scheduled s1 A1 s' B c" and r: "refines s1 A1" and ok: "queues_ok {} s1 A1"
    and id: "idle_ok s1 A1" and a: "active_task s1 \<in> q_tasks A1" and p: "pending_syscalls s1 = None"
  shows "kernel_ok s' B []"
    and "queued B = queued A1 \<union>
      (if q_state A1 (active_task s1) = RT_TASK_STATE_RUNNING then {active_task s1} else {}) - {active_task s'}"
proof -
  have B: "q_sched s1 (active_task s1) A1 = (B, active_task s')" and
    h: "refines s' B" "queues_ok {} s' B" "counts s' B" and
    fr: "kframe (s1\<lparr>active_task := active_task s', rt_context_prev := rt_context_prev s'\<rparr>) s'"
    using assms(1) by (simp_all add: scheduled_def)
  show q: "queued B = queued A1 \<union>
      (if q_state A1 (active_task s1) = RT_TASK_STATE_RUNNING then {active_task s1} else {}) - {active_task s'}"
    using r ok B idle_unqueued [OF id ok] by (intro q_sched_keeps) simp_all
  have "active_task s' \<in> q_tasks A1"
    using q_sched_chosen [OF B] a queues_okD(1) [OF ok] in_queued(1) [of "active_task s'" A1] by auto
  moreover have "idle_ok s' B" using ok id B by (rule q_sched_idle)
  moreover have "pending_ok s' B []" using kframeD(2) [OF fr] p by (simp add: pending_ok_def records_ok_def)
  ultimately show "kernel_ok s' B []"
    using h q q_sched_frame(1) [OF B] by (simp add: kernel_ok_def)
qed

text \<open>
  No task is lost: when the active task is in state running as the handler starts, every task is
  accounted for afterwards.
\<close>

lemma run_through_accounted:
  assumes k: "kernel_ok s A rs" and acc: "accounted s A rs"
    and run: "q_state A (active_task s) = RT_TASK_STATE_RUNNING"
    and th: "run_through rs s A s1 A1 s' B c" and q: "queued B = queued A1 \<union>
      (if q_state A1 (active_task s1) = RT_TASK_STATE_RUNNING then {active_task s1} else {}) - {active_task s'}"
    and ok1: "queues_ok {} s1 A1" and a1: "active_task s1 = active_task s"
  shows "accounted s' B []"
proof -
  let ?a = "active_task s" and ?b = "active_task s'"
  have ran: "queued A \<subseteq> queued A1" "q_tasks A1 = q_tasks A"
    "\<And>u. u \<notin> queued A1 \<Longrightarrow> q_state A1 u = q_state A u \<or> q_state A1 u = RT_TASK_STATE_EXITED"
    "\<And>r. r \<in> set rs \<Longrightarrow> syscall (get_record s r) = RT_SYSCALL_TASK_READY \<Longrightarrow> owners r \<subseteq> queued A1"
    using th by (auto simp: run_through_def ran_all_def)
  have B: "q_sched s1 ?a A1 = (B, ?b)" using th a1 by (simp add: run_through_def scheduled_def)
  have acc1: "t \<in> queued A1 \<or> q_state A1 t = RT_TASK_STATE_EXITED \<or>
      t = ?a \<and> q_state A1 t = RT_TASK_STATE_RUNNING" if t: "t \<in> q_tasks A" "t \<notin> queued A1" for t
  proof -
    have "t \<notin> queued A" using t(2) ran(1) by auto
    then consider "t = ?a" | "q_state A t = RT_TASK_STATE_EXITED" | "Task_record t \<in> set rs" "t \<noteq> ?a"
      using acc t(1) by (auto simp: accounted_def)
    then show ?thesis
    proof cases
      case 3
      then have "syscall (get_record s (Task_record t)) = RT_SYSCALL_TASK_READY"
        using kernel_okD(7) [OF k] unfolding pending_ok_def by force
      then show ?thesis using ran(4) [OF 3(1)] by simp
    qed (use ran(3) [OF t(2)] run in auto)
  qed
  have "t \<in> queued B \<or> t = ?b \<or> q_state B t = RT_TASK_STATE_EXITED" if "t \<in> q_tasks B" for t
  proof (cases "t \<in> queued A1 \<or> t = ?b")
    case True
    then show ?thesis using q by auto
  next
    case False
    have "t \<in> q_tasks A" using that q_sched_frame(1) [OF B] ran(2) by simp
    from acc1 [OF this] False consider "q_state A1 t = RT_TASK_STATE_EXITED"
      | "t = ?a" "q_state A1 t = RT_TASK_STATE_RUNNING" by auto
    then show ?thesis
    proof cases
      case 1
      then show ?thesis using False q_sched_frame(4,7) [OF B] by (cases "t = ?a") auto
    next
      case 2
      then show ?thesis using q a1 False by auto
    qed
  qed
  then show ?thesis by (auto simp: accounted_def)
qed

text \<open>A handler run with no record pending: the active task is dropped unless its state is running.\<close>

lemma not_running_dropped:
  assumes k: "kernel_ok s A []" and st: "q_state A (active_task s) \<noteq> RT_TASK_STATE_RUNNING"
  shows "\<exists>s' c B. rt_syscall_run s = Some (s', c) \<and> kernel_ok s' B [] \<and>
     active_task s' \<noteq> active_task s \<and> active_task s \<notin> queued B \<and>
     q_state B (active_task s) = q_state A (active_task s)"
proof -
  let ?a = "active_task s"
  obtain s1 A1 s' B c where run: "rt_syscall_run s = Some (s', c)" "run_through [] s A s1 A1 s' B c"
    "idle_ok s1 A1" "queues_ok {} s1 A1" "refines s1 A1" "active_task s1 = ?a" "pending_syscalls s1 = None"
    using rt_syscall_run_through [OF k] by blast
  have sc: "scheduled s1 A1 s' B c" and ran: "ran_all [] (s\<lparr>pending_syscalls := None\<rparr>) A s1 A1"
    using run(2) by (simp_all add: run_through_def)
  have na: "?a \<notin> queued A1" using ran kernel_okD(6) [OF k] by (auto simp: ran_all_def)
  then have st1: "q_state A1 ?a = q_state A ?a" using ran by (auto simp: ran_all_def)
  have "?a \<in> q_tasks A1" using ran kernel_okD(5) [OF k] by (simp add: ran_all_def)
  then have ok': "kernel_ok s' B []" and q: "queued B = queued A1 - {active_task s'}"
    using scheduled_ok [OF sc run(5,4,3) _ run(7)] st st1 run(6) by simp_all
  have B: "q_sched s1 ?a A1 = (B, active_task s')" using sc run(6) by (simp add: scheduled_def)
  have "q_ready A1 \<noteq> []"
    using idle_unqueued(1) [OF run(3,4)] run(3,6) st st1 by (auto simp: idle_ok_def)
  then obtain n rest where n: "q_ready A1 = n # rest" by (cases "q_ready A1") auto
  then have "?a \<noteq> n" using na in_queued(1) [of n A1] by auto
  then have "active_task s' \<noteq> ?a" using B n st st1 by (auto simp: q_sched_def Let_def)
  then show ?thesis
    using run(1) ok' q na q_sched_frame(7) [OF B] st st1 by auto
qed

section \<open>Submitting a system call keeps the invariant\<close>

lemma rt_syscall_sel [kernel_simps]:
  "nodes (rt_syscall r s) = nodes s" "active_task (rt_syscall r s) = active_task s"
  "pending_syscalls (rt_syscall r s) = Some r" "syscall_pended (rt_syscall r s) = True"
  "woken_tick (rt_syscall r s) = woken_tick s" "tick (rt_syscall r s) = tick s"
  by (cases r; simp add: rt_syscall_def rt_syscall_pend_def Let_def kernel_simps)+

lemma rt_syscall_record:
  "get_record (rt_syscall r s) r' =
     (if r' = r then (get_record s r)\<lparr>next_record := pending_syscalls s\<rparr> else get_record s r')"
  by (cases r; cases r'; simp add: rt_syscall_def rt_syscall_pend_def Let_def kernel_simps)

lemma rt_syscall_task:
  "task_state (task (rt_syscall r s) t) = task_state (task s t)"
  "wake_tick (task (rt_syscall r s) t) = wake_tick (task s t)"
  "priority (task (rt_syscall r s) t) = priority (task s t)"
  "num_waiters (sem (rt_syscall r s) m) = num_waiters (sem s m)"
  "sem_value (sem (rt_syscall r s) m) = sem_value (sem s m)"
  "args (task_record (task (rt_syscall r s) t)) = args (task_record (task s t))"
  "syscall (task_record (task (rt_syscall r s) t)) = syscall (task_record (task s t))"
  by (cases r; simp add: rt_syscall_def rt_syscall_pend_def Let_def kernel_simps)+

lemma queues_ok_same:
  assumes "queues_ok X s A" and "woken_tick s' = woken_tick s"
    and "\<And>t. t \<in> queued A \<Longrightarrow> wake_tick (task s' t) = wake_tick (task s t)"
    and "\<And>t. t \<in> queued A \<Longrightarrow> priority (task s' t) = priority (task s t)"
    and "\<And>t. t \<in> queued A \<Longrightarrow> args (task_record (task s' t)) = args (task_record (task s t)) \<and>
      syscall (task_record (task s' t)) = syscall (task_record (task s t))"
  shows "queues_ok X s' A"
proof (rule queues_okI)
  note D = queues_okD [OF assms(1)]
  have hi: "ordered_by (higher s') xs" if "ordered_by (higher s) xs" "\<And>u. u \<in> set xs \<Longrightarrow> u \<in> queued A" for xs
    using that(1) ordered_by_cong [of xs "higher s'" "higher s"] assms(4) [OF that(2)]
    by (simp add: higher_def)
  show "ordered_by (higher s') (q_ready A)" using D(2) in_queued(1) by (rule hi)
  show "ordered_by (higher s') ys" if "q_wait A m = Some ys" for m ys
    using D(7) [OF that] in_queued(3) [OF that] by (rule hi)
  show "ordered_by (sooner s') (q_sleep A)"
    using D(3) ordered_by_cong [of "q_sleep A" "sooner s'" "sooner s"] assms(3) [OF in_queued(2)] assms(2)
    by (simp add: sooner_def)
  show "can_wait u \<and> sleeps s' A u" if "u \<in> set (q_sleep A)" "u \<notin> X" for u
    using that D(5,6) [of u] assms(5) [OF in_queued(2)] by (simp add: sleeps_def)
  show "waits_on s' A m u" if "q_wait A m = Some ys" "u \<in> set ys" "u \<notin> X" for m ys u
    using D(9) [OF that] assms(5) [OF in_queued(3) [OF that(1,2)]] by (simp add: waits_on_def)
qed (use queues_okD [OF assms(1)] in simp_all)

lemma rt_syscall_ok:
  assumes k: "kernel_ok s A rs" and r: "r \<notin> set rs" "rec_ok s A r"
    and own: "owners r \<subseteq> {active_task s} \<or> syscall (get_record s r) = RT_SYSCALL_TASK_READY"
  shows "kernel_ok (rt_syscall r s) A (r # rs)"
proof -
  let ?s = "rt_syscall r s"
  note k = kernel_okD [OF k]
  have eq: "args (get_record ?s x) = args (get_record s x)" "syscall (get_record ?s x) = syscall (get_record s x)"
    for x by (simp_all add: rt_syscall_record)
  have "call_ok ?s A x = call_ok s A x" for x unfolding call_ok_def eq ..
  then have rok: "rec_ok ?s A x = rec_ok s A x" for x by (simp add: rec_ok_def)
  have ch: "chain ?s p rs = chain s p rs" for p using r(1)
    by (induction rs arbitrary: p) (auto simp: rt_syscall_record)
  have "refines ?s A" using k(1) by (simp add: refines_def kernel_simps rt_syscall_task)
  moreover have "queues_ok {} ?s A"
    using k(2) by (rule queues_ok_same) (simp_all add: kernel_simps rt_syscall_task)
  moreover have "counts ?s A" using k(3) by (simp add: counts_def rt_syscall_task)
  moreover have "idle_ok ?s A" using k(4) by (simp add: idle_ok_def kernel_simps)
  moreover have "pending_ok ?s A (r # rs)"
    using k(7) r own by (simp add: pending_ok_def records_ok_def rok ch kernel_simps rt_syscall_record eq)
  ultimately show ?thesis using k(5,6) by (simp add: kernel_ok_def kernel_simps)
qed

lemma accounted_syscall: "accounted s A rs \<Longrightarrow> accounted (rt_syscall r s) A (r # rs)"
  by (auto simp: accounted_def kernel_simps)

end
