(* ===== verification/Rt_Sem.thy ===== *)
theory Rt_Sem
  imports Rt_Sched
begin

text \<open>
  The semaphore interface of \<^verbatim>\<open>src/sem.c\<close>. A function that ends in a system call returns the
  state in which the call is pending: the handler runs before the function returns to its caller.
  Each compare-exchange loop on the value is one atomic update (theory \<open>Rt_Atomic\<close>).
\<close>

section \<open>The code\<close>

definition rt_sem_init_max :: "sem_id \<Rightarrow> int \<Rightarrow> int \<Rightarrow> kernel \<Rightarrow> kernel" where
  "rt_sem_init_max m cnt maximum s =
     (let s = upd_sem m (\<lambda>q. q\<lparr>max_value := maximum\<rparr>) s;
          s = upd_nodes (rt_list_init (Wait_list m)) s;
          s = upd_record (Post_record m)
                (args_update (\<lambda>a. Sem_post m (case sem_post_args a of Some (_, n) \<Rightarrow> n | None \<Rightarrow> 0))) s;
          s = upd_record (Post_record m) (syscall_update (\<lambda>_. RT_SYSCALL_SEM_POST)) s;
          s = upd_sem m (\<lambda>q. q\<lparr>sem_value := cnt\<rparr>) s;
          s = upd_sem m (\<lambda>q. q\<lparr>num_waiters := 0\<rparr>) s
      in upd_sem m (\<lambda>q. q\<lparr>post_pending := False\<rparr>) s)"

text \<open>The static initialiser of an object at \<open>m\<close>; members it does not name are zero.\<close>

definition RT_SEM_INIT_MAX :: "sem_id \<Rightarrow> int \<Rightarrow> int \<Rightarrow> kernel \<Rightarrow> kernel" where
  "RT_SEM_INIT_MAX m cnt maximum s =
     upd_sem m (\<lambda>_. \<lparr>post_record = \<lparr>next_record = None, args = Sem_post m 0, syscall = RT_SYSCALL_SEM_POST\<rparr>,
         sem_value = cnt, max_value = maximum, num_waiters = 0, post_pending = False\<rparr>)
       (upd_nodes (rt_list_init (Wait_list m)) s)"

definition RT_SEM_INIT :: "sem_id \<Rightarrow> int \<Rightarrow> kernel \<Rightarrow> kernel" where
  "RT_SEM_INIT m cnt s = RT_SEM_INIT_MAX m cnt INT_MAX s"

definition RT_SEM_INIT_BINARY :: "sem_id \<Rightarrow> int \<Rightarrow> kernel \<Rightarrow> kernel" where
  "RT_SEM_INIT_BINARY m cnt s = RT_SEM_INIT_MAX m cnt 1 s"

definition rt_sem_init :: "sem_id \<Rightarrow> int \<Rightarrow> kernel \<Rightarrow> kernel" where
  "rt_sem_init m cnt s = rt_sem_init_max m cnt INT_MAX s"

definition rt_sem_init_binary :: "sem_id \<Rightarrow> int \<Rightarrow> kernel \<Rightarrow> kernel" where
  "rt_sem_init_binary m cnt s = rt_sem_init_max m cnt 1 s"

definition sem_post_syscall :: "sem_id \<Rightarrow> int \<Rightarrow> kernel \<Rightarrow> kernel" where
  "sem_post_syscall m n s =
     (if interrupt_active s
      then let was_pending = post_pending (sem s m);
               s = upd_sem m (\<lambda>q. q\<lparr>post_pending := True\<rparr>) s
           in if \<not> was_pending
              then let s = upd_record (Post_record m) (args_update (\<lambda>_. Sem_post m n)) s
                   in rt_syscall (Post_record m) s
              else rt_sem_add_n m n s
      else let r = Task_record (rt_task_self s);
               s = upd_record r (args_update (\<lambda>_. Sem_post m n)) s;
               s = upd_record r (syscall_update (\<lambda>_. RT_SYSCALL_SEM_POST)) s
           in rt_syscall r s)"

definition rt_sem_post_n :: "sem_id \<Rightarrow> int \<Rightarrow> kernel \<Rightarrow> kernel" where
  "rt_sem_post_n m n s =
     (if sem_value (sem s m) < 0 then sem_post_syscall m n s
      else upd_sem m (\<lambda>q. q\<lparr>sem_value := new_value (sem_value q) n (max_value q)\<rparr>) s)"

definition rt_sem_post :: "sem_id \<Rightarrow> kernel \<Rightarrow> kernel" where
  "rt_sem_post m s = rt_sem_post_n m 1 s"

definition rt_sem_trywait :: "sem_id \<Rightarrow> kernel \<Rightarrow> kernel \<times> bool" where
  "rt_sem_trywait m s =
     (if sem_value (sem s m) \<le> 0 then (s, False)
      else (upd_sem m (\<lambda>q. q\<lparr>sem_value := sem_value q - 1\<rparr>) s, True))"

text \<open>\<^verbatim>\<open>rt_atomic_fetch_sub\<close> on an \<^verbatim>\<open>int\<close> wraps around silently.\<close>

definition sem_fetch_sub :: "sem_id \<Rightarrow> kernel \<Rightarrow> kernel \<times> int" where
  "sem_fetch_sub m s =
     (upd_sem m (\<lambda>q. q\<lparr>sem_value := int_wrap (sem_value q - 1)\<rparr>) s, sem_value (sem s m))"

definition rt_sem_wait :: "sem_id \<Rightarrow> kernel \<Rightarrow> kernel" where
  "rt_sem_wait m s =
     (let (s, value) = sem_fetch_sub m s
      in if value > 0 then s
         else let r = Task_record (rt_task_self s);
                  s = upd_record r (args_update (\<lambda>_. Sem_wait m)) s;
                  s = upd_record r (syscall_update (\<lambda>_. RT_SYSCALL_SEM_WAIT)) s
              in rt_syscall r s)"

text \<open>
  The result is given when the function returns at once; when it submits a system call, the
  result is what \<open>rt_sem_timedwait_result\<close> reads once the task runs again.
\<close>

definition rt_sem_timedwait :: "sem_id \<Rightarrow> ulong \<Rightarrow> kernel \<Rightarrow> kernel \<times> bool option" where
  "rt_sem_timedwait m ticks s =
     (let (s, value) = sem_fetch_sub m s
      in if value > 0 then (s, Some True)
         else if ticks = 0 then (s, Some False)
         else let r = Task_record (rt_task_self s);
                  s = upd_record r (args_update (\<lambda>_. Sem_timedwait m ticks)) s;
                  s = upd_record r (syscall_update (\<lambda>_. RT_SYSCALL_SEM_TIMEDWAIT)) s
              in (rt_syscall r s, None))"

definition rt_sem_timedwait_result :: "task_id \<Rightarrow> kernel \<Rightarrow> bool option" where
  "rt_sem_timedwait_result t s =
     map_option (\<lambda>(m, ticks). m \<noteq> NULL) (sem_timedwait_args (args (task_record (task s t))))"

section \<open>Values\<close>

lemma new_value_le: "n \<ge> 0 \<Longrightarrow> v \<le> mx \<Longrightarrow> new_value v n mx \<le> mx"
  by (simp add: new_value_def)

lemma new_value_ge: "n \<ge> 0 \<Longrightarrow> v \<le> mx \<Longrightarrow> v \<le> new_value v n mx"
  by (simp add: new_value_def)

text \<open>No operation of \<open>new_value\<close> overflows when the maximum and the number posted are not negative.\<close>

lemma new_value_no_overflow:
  assumes "c_int v" "c_int n" "c_int mx" "0 \<le> n" "0 \<le> mx"
  shows "c_int (mx - n)" and "v \<le> mx - n \<Longrightarrow> c_int (v + n)"
  using assms by (auto simp: c_int_def)

lemma new_value_add: "0 \<le> a \<Longrightarrow> 0 \<le> b \<Longrightarrow> new_value (new_value v a mx) b mx = new_value v (a + b) mx"
  by (auto simp: new_value_def)

section \<open>Creating semaphores and tasks\<close>

text \<open>In zeroed memory the function and the static initialiser build the same object.\<close>

lemma rt_sem_init_max_static:
  "sem s m = zero_sem \<Longrightarrow> rt_sem_init_max m v mx s = RT_SEM_INIT_MAX m v mx s"
  by (simp add: rt_sem_init_max_def RT_SEM_INIT_MAX_def Let_def upd_sem_def upd_nodes_def zero_sem_def zero_record_def)

lemma rt_sem_init_max_sel [kernel_simps]:
  "nodes (rt_sem_init_max m v mx s) = rt_list_init (Wait_list m) (nodes s)"
  "tasks (rt_sem_init_max m v mx s) = tasks s"
  "woken_tick (rt_sem_init_max m v mx s) = woken_tick s"
  "active_task (rt_sem_init_max m v mx s) = active_task s"
  "pending_syscalls (rt_sem_init_max m v mx s) = pending_syscalls s"
  "k \<noteq> m \<Longrightarrow> sem (rt_sem_init_max m v mx s) k = sem s k"
  "num_waiters (sem (rt_sem_init_max m v mx s) m) = 0"
  "sem_value (sem (rt_sem_init_max m v mx s) m) = v"
  "max_value (sem (rt_sem_init_max m v mx s) m) = mx"
  "post_pending (sem (rt_sem_init_max m v mx s) m) = False"
  "syscall (post_record (sem (rt_sem_init_max m v mx s) m)) = RT_SYSCALL_SEM_POST"
  "\<exists>n. args (post_record (sem (rt_sem_init_max m v mx s) m)) = Sem_post m n"
  by (simp_all add: rt_sem_init_max_def kernel_simps Let_def)

lemma rt_sem_init_max_record:
  "r \<noteq> Post_record m \<Longrightarrow> get_record (rt_sem_init_max m v mx s) r = get_record s r"
  by (cases r) (simp_all add: rt_sem_init_max_def kernel_simps Let_def)

lemma heads_unlisted_head:
  assumes "heads A l = None" and "\<forall>t. l \<noteq> Task_list t" and "\<forall>t \<in> q_tasks A. l \<noteq> Task_sleep_list t"
    and "queued A \<subseteq> q_tasks A"
  shows "unlisted (heads A) l"
  unfolding unlisted_def
proof (intro conjI allI impI)
  have "\<forall>t \<in> set (q_sleep A). l \<noteq> Task_sleep_list t" using in_queued(2) assms(3,4) by blast
  then show "l \<notin> set xs" if "heads A k = Some xs" for k xs
    using that assms(2) by (cases k) (auto split: if_splits)
qed (simp add: assms(1))

lemma chain_cong:
  "(\<And>r. r \<in> set rs \<Longrightarrow> get_record s' r = get_record s r) \<Longrightarrow> chain s' p rs = chain s p rs"
  by (induction rs arbitrary: p) auto

lemma call_ok_cong:
  "get_record s' r = get_record s r \<Longrightarrow> dom (q_wait A) \<subseteq> dom (q_wait B) \<Longrightarrow> call_ok s A r \<Longrightarrow> call_ok s' B r"
  unfolding call_ok_def by (cases "syscall (get_record s r)") (simp_all, blast+)

text \<open>The queues grow by objects in no queue: a new semaphore, a new task.\<close>

lemma pending_ok_grow:
  assumes p: "pending_ok s A rs" and rec: "\<And>r. r \<in> set rs \<Longrightarrow> get_record s' r = get_record s r"
    and B: "q_tasks A \<subseteq> q_tasks B" "queued B = queued A" "dom (q_wait A) \<subseteq> dom (q_wait B)"
    and s': "pending_syscalls s' = pending_syscalls s" "active_task s' = active_task s"
  shows "pending_ok s' B rs"
proof -
  have "rec_ok s' B r" if "r \<in> set rs" for r
    using p that B call_ok_cong [OF rec [OF that] B(3)]
    unfolding pending_ok_def records_ok_def rec_ok_def by blast
  moreover have "chain s' (pending_syscalls s) rs"
    using p chain_cong [of rs s' s, OF rec] by (simp add: pending_ok_def)
  ultimately show ?thesis
    using p rec unfolding pending_ok_def records_ok_def s' by simp
qed

lemma rt_sem_init_max_ok:
  assumes k: "kernel_ok s A rs" and m: "q_wait A m = None" "Post_record m \<notin> set rs"
  shows "kernel_ok (rt_sem_init_max m v mx s) (A\<lparr>q_wait := (q_wait A)(m \<mapsto> [])\<rparr>) rs"
    (is "kernel_ok ?s ?A rs")
proof -
  note k = kernel_okD [OF k]
  have q: "queued ?A = queued A" using m(1) by (auto simp: queued_def)
  have "lists_at dlist (nodes ?s) ((heads A)(Wait_list m \<mapsto> []))"
    unfolding rt_sem_init_max_sel
    by (rule rt_lists.init_lists, use k(1) in \<open>simp add: refines_def\<close>, rule heads_unlisted_head)
      (use m queues_okD(1) [OF k(2)] in simp_all)
  then have "lists_at dlist (nodes ?s) (heads ?A)"
    by (rule lists_at_forget) (case_tac l; auto split: if_splits)
  then have "refines ?s ?A" using k(1) by (simp add: refines_def rt_sem_init_max_sel)
  moreover have "queues_ok {} ?s ?A"
  proof -
    note D = queues_okD [OF k(2)]
    have ran: "(\<exists>ys \<in> ran (q_wait ?A). t \<in> set ys) \<longleftrightarrow> (\<exists>ys \<in> ran (q_wait A). t \<in> set ys)" for t
      using m(1) by auto
    have "queues_ok {} s ?A"
      by (rule queues_okI) (use D q ran in \<open>auto simp: sleeps_def waits_on_def ordered_by_def split: if_splits\<close>)
    then show ?thesis by (rule queues_ok_cong) (simp_all add: rt_sem_init_max_sel)
  qed
  moreover have "counts ?s ?A" using k(3) by (auto simp: counts_def rt_sem_init_max_sel)
  moreover have "idle_ok ?s ?A" using k(4) by (simp add: idle_ok_def rt_sem_init_max_sel)
  moreover have "pending_ok ?s ?A rs"
    using k(7) by (rule pending_ok_grow)
      (use m(2) q in \<open>auto simp: rt_sem_init_max_sel intro!: rt_sem_init_max_record\<close>)
  ultimately show ?thesis using k(5,6) q by (simp add: kernel_ok_def rt_sem_init_max_sel)
qed

lemma task_init_sel [kernel_simps]:
  "nodes (task_init t nm p s) = rt_list_init (Task_sleep_list t) (nodes s)"
  "sems (task_init t nm p s) = sems s"
  "woken_tick (task_init t nm p s) = woken_tick s" "tick (task_init t nm p s) = tick s"
  "active_task (task_init t nm p s) = active_task s"
  "pending_syscalls (task_init t nm p s) = Some (Task_record t)"
  "u \<noteq> t \<Longrightarrow> task (task_init t nm p s) u = task s u"
  "task_state (task (task_init t nm p s) u) = task_state (task s u)"
  "priority (task (task_init t nm p s) t) = p"
  "task_name (task (task_init t nm p s) t) = nm"
  by (simp_all add: task_init_def rt_syscall_def rt_syscall_pend_def Let_def kernel_simps)

lemma task_init_record:
  "get_record (task_init t nm p s) (Task_record t) =
     (get_record s (Task_record t))\<lparr>next_record := pending_syscalls s, syscall := RT_SYSCALL_TASK_READY\<rparr>"
  "r \<noteq> Task_record t \<Longrightarrow> get_record (task_init t nm p s) r = get_record s r"
  by (simp_all add: task_init_def rt_syscall_def rt_syscall_pend_def Let_def kernel_simps)
    (cases r; simp add: task_init_def rt_syscall_def rt_syscall_pend_def Let_def kernel_simps)

lemma task_init_ok:
  assumes k: "kernel_ok s A rs" and t: "t \<notin> q_tasks A" "can_wait t"
  shows "kernel_ok (task_init t nm p s) (A\<lparr>q_tasks := insert t (q_tasks A)\<rparr>) (Task_record t # rs)"
    (is "kernel_ok ?s ?A _")
proof -
  note k = kernel_okD [OF k]
  have un: "t \<notin> queued A" "t \<noteq> active_task s" using t(1) queues_okD(1) [OF k(2)] k(5) by auto
  have q: "queued ?A = queued A" by (simp add: queued_def)
  have new: "Task_record t \<notin> set rs"
    using k(7) t(1) unfolding pending_ok_def records_ok_def rec_ok_def by force
  have "lists_at dlist (nodes ?s) ((heads A)(Task_sleep_list t \<mapsto> []))"
    unfolding task_init_sel
    by (rule rt_lists.init_lists, use k(1) in \<open>simp add: refines_def\<close>, rule heads_unlisted_head)
      (use t queues_okD(1) [OF k(2)] in auto)
  then have "lists_at dlist (nodes ?s) (heads ?A)"
    by (rule lists_at_forget) (case_tac l; auto split: if_splits)
  then have "refines ?s ?A" using k(1) by (simp add: refines_def task_init_sel)
  moreover have "queues_ok {} ?s ?A"
  proof -
    have "queues_ok {} ?s A"
    proof (rule queues_ok_same [OF k(2)])
      show "wake_tick (task ?s u) = wake_tick (task s u)" "priority (task ?s u) = priority (task s u)"
        "args (task_record (task ?s u)) = args (task_record (task s u)) \<and>
         syscall (task_record (task ?s u)) = syscall (task_record (task s u))" if "u \<in> queued A" for u
      proof -
        have "task ?s u = task s u" using that un by (intro task_init_sel(7)) auto
        then show "wake_tick (task ?s u) = wake_tick (task s u)" "priority (task ?s u) = priority (task s u)"
          "args (task_record (task ?s u)) = args (task_record (task s u)) \<and>
           syscall (task_record (task ?s u)) = syscall (task_record (task s u))" by simp_all
      qed
    qed (simp add: task_init_sel)
    then show ?thesis using q by (auto simp: queues_ok_def sleeps_def waits_on_def)
  qed
  moreover have "counts ?s ?A" using k(3) by (simp add: counts_def task_init_sel)
  moreover have "idle_ok ?s ?A" using k(4) by (simp add: idle_ok_def task_init_sel)
  moreover have "pending_ok ?s ?A (Task_record t # rs)"
  proof -
    have old: "get_record ?s r = get_record s r" if "r \<in> set rs" for r
      using that new by (intro task_init_record(2)) auto
    have "pending_ok (?s\<lparr>pending_syscalls := pending_syscalls s\<rparr>) ?A rs"
      using k(7) by (rule pending_ok_grow) (use old q in \<open>auto simp: task_init_sel\<close>)
    then have p: "chain ?s (pending_syscalls s) rs" "\<forall>r \<in> set rs. rec_ok (?s\<lparr>pending_syscalls := pending_syscalls s\<rparr>) ?A r"
      "distinct rs" "\<forall>r \<in> set rs. owners r \<subseteq> {active_task s} \<or> syscall (get_record ?s r) = RT_SYSCALL_TASK_READY"
      by (auto simp: pending_ok_def records_ok_def task_init_sel)
    have eq: "rec_ok (?s\<lparr>pending_syscalls := pending_syscalls s\<rparr>) ?A r = rec_ok ?s ?A r" for r
      unfolding rec_ok_def call_ok_def get_record_pending ..
    have "syscall (get_record ?s (Task_record t)) = RT_SYSCALL_TASK_READY"
      unfolding task_init_record(1) by simp
    moreover from this have "rec_ok ?s ?A (Task_record t)"
      using t(2) un q by (simp add: rec_ok_def call_ok_def del: get_record.simps)
    ultimately show ?thesis
      using p new unfolding pending_ok_def records_ok_def task_init_sel
      by (simp add: task_init_record(1) eq del: get_record.simps)
  qed
  ultimately show ?thesis using k(5,6) q by (simp add: kernel_ok_def task_init_sel)
qed

lemma rt_task_init_ok:
  assumes k: "kernel_ok s A rs" and t: "t \<notin> q_tasks A" "can_wait t"
  shows "kernel_ok (rt_task_init t c nm p s) (A\<lparr>q_tasks := insert t (q_tasks A)\<rparr>) (Task_record t # rs)"
proof -
  let ?s = "upd_task t (\<lambda>k. k\<lparr>ctx := c\<rparr>) s"
  note k' = kernel_okD [OF k]
  have rec: "get_record ?s r = get_record s r" for r by (cases r) (simp_all add: kernel_simps)
  have "refines ?s A" using k'(1) by (simp add: refines_def kernel_simps)
  moreover have "queues_ok {} ?s A"
    using k'(2) by (rule queues_ok_same) (simp_all add: kernel_simps)
  moreover have "counts ?s A" "idle_ok ?s A" using k'(3,4) by (simp_all add: counts_def idle_ok_def kernel_simps)
  moreover have "pending_ok ?s A rs"
    using k'(7) by (rule pending_ok_grow) (simp_all add: rec kernel_simps)
  ultimately have "kernel_ok ?s A rs" using k'(5,6) by (simp add: kernel_ok_def kernel_simps)
  from task_init_ok [OF this t] show ?thesis by (simp add: rt_task_init_def Let_def)
qed

lemma accounted_task_init:
  "accounted s A rs \<Longrightarrow> accounted (rt_task_init t c nm p s) (A\<lparr>q_tasks := insert t (q_tasks A)\<rparr>) (Task_record t # rs)"
  by (auto simp: accounted_def queued_def rt_task_init_def Let_def kernel_simps)

section \<open>Calls of the running task and of interrupts\<close>

text \<open>
  Which of the interrupts' records are pending is what the flags say, and these records name
  their calls.
\<close>

definition flags_ok :: "kernel \<Rightarrow> rec_id list \<Rightarrow> bool" where
  "flags_ok s rs \<longleftrightarrow> flags s = (Tick_record \<in> set rs, \<lambda>m. Post_record m \<in> set rs)"

definition posts_ok :: "kernel \<Rightarrow> queues \<Rightarrow> bool" where
  "posts_ok s A \<longleftrightarrow> syscall (tick_record s) = RT_SYSCALL_TICK \<and>
     (\<forall>m \<in> dom (q_wait A). syscall (post_record (sem s m)) = RT_SYSCALL_SEM_POST)"

definition system_ok :: "kernel \<Rightarrow> queues \<Rightarrow> rec_id list \<Rightarrow> bool" where
  "system_ok s A rs \<longleftrightarrow> kernel_ok s A rs \<and> flags_ok s rs \<and> posts_ok s A"

lemma kernel_ok_upd_sem:
  assumes k: "kernel_ok s A rs" and f: "num_waiters (f (sem s m)) = num_waiters (sem s m)"
    and p: "post_record (f (sem s m)) = post_record (sem s m) \<or> Post_record m \<notin> set rs"
  shows "kernel_ok (upd_sem m f s) A rs"
proof -
  let ?s = "upd_sem m f s"
  note k = kernel_okD [OF k]
  have rec: "get_record ?s r = get_record s r" if "r \<in> set rs" for r
    using p that by (cases r) (auto simp: kernel_simps)
  have "refines ?s A" using k(1) by (rule refines_cong) (simp_all add: kernel_simps)
  moreover have "queues_ok {} ?s A" using k(2) by (rule queues_ok_cong) (simp_all add: kernel_simps)
  moreover have "counts ?s A" "idle_ok ?s A" using k(3,4) f by (simp_all add: counts_def idle_ok_def kernel_simps)
  moreover have "pending_ok ?s A rs" using k(7) rec by (rule pending_ok_grow) (simp_all add: kernel_simps)
  ultimately show ?thesis using k(5,6) by (simp add: kernel_ok_def kernel_simps)
qed

lemma kernel_ok_upd_task_record:
  assumes k: "kernel_ok s A rs" and t: "t \<notin> queued A" "Task_record t \<notin> set rs"
  shows "kernel_ok (upd_task t (task_record_update f) s) A rs"
proof -
  let ?s = "upd_task t (task_record_update f) s"
  note k = kernel_okD [OF k]
  have rec: "get_record ?s r = get_record s r" if "r \<in> set rs" for r
    using t(2) that by (cases r) (auto simp: kernel_simps)
  have "refines ?s A" using k(1) by (simp add: refines_def kernel_simps)
  moreover have "queues_ok {} ?s A"
    using k(2) by (rule queues_ok_same) (use t(1) in \<open>auto simp: kernel_simps\<close>)
  moreover have "counts ?s A" "idle_ok ?s A" using k(3,4) by (simp_all add: counts_def idle_ok_def kernel_simps)
  moreover have "pending_ok ?s A rs" using k(7) rec by (rule pending_ok_grow) (simp_all add: kernel_simps)
  ultimately show ?thesis using k(5,6) by (simp add: kernel_ok_def kernel_simps)
qed

text \<open>The active task fills in its record and submits it.\<close>

lemma submit_ok:
  fixes c :: rt_syscall and x :: rt_syscall_args
  assumes k: "kernel_ok s A rs" and a: "Task_record (active_task s) \<notin> set rs" "can_wait (active_task s)"
  defines "r \<equiv> Task_record (active_task s)"
  defines "s1 \<equiv> upd_record r (syscall_update (\<lambda>_. c)) (upd_record r (args_update (\<lambda>_. x)) s)"
  assumes call: "call_ok s1 A r"
  shows "kernel_ok (rt_syscall r s1) A (r # rs)"
proof -
  note k' = kernel_okD [OF k]
  have act: "active_task s1 = active_task s" by (simp add: s1_def r_def kernel_simps)
  have "kernel_ok s1 A rs"
    using k'(6) a(1) k by (auto simp: s1_def r_def intro!: kernel_ok_upd_task_record)
  then show ?thesis
  proof (rule rt_syscall_ok)
    show "r \<notin> set rs" using a(1) by (simp add: r_def)
    show "rec_ok s1 A r" using call k'(5,6) a(2) by (simp add: rec_ok_def r_def)
    show "owners r \<subseteq> {active_task s1} \<or> syscall (get_record s1 r) = RT_SYSCALL_TASK_READY"
      by (simp add: r_def act)
  qed
qed

lemma flags_rt_syscall [simp]: "flags (rt_syscall r s) = flags s"
  by (cases r) (auto simp: flags_def rt_syscall_def rt_syscall_pend_def Let_def kernel_simps)

lemma flags_upd_record [simp]: "flags (upd_record r f s) = flags s"
  by (cases r) (auto simp: flags_def kernel_simps)

text \<open>A call by the active task: it is not the idle task and has no call pending.\<close>

definition caller_ok :: "kernel \<Rightarrow> rec_id list \<Rightarrow> bool" where
  "caller_ok s rs \<longleftrightarrow> can_wait (active_task s) \<and> Task_record (active_task s) \<notin> set rs"

lemma system_okD:
  assumes "system_ok s A rs"
  shows "kernel_ok s A rs" "flags_ok s rs" "posts_ok s A"
  using assms by (simp_all add: system_ok_def)

lemma submit_system_ok:
  fixes c :: rt_syscall and x :: rt_syscall_args
  assumes s: "system_ok s A rs" "caller_ok s rs"
  defines "r \<equiv> Task_record (active_task s)"
  defines "s1 \<equiv> upd_record r (syscall_update (\<lambda>_. c)) (upd_record r (args_update (\<lambda>_. x)) s)"
  assumes call: "call_ok s1 A r"
  shows "system_ok (rt_syscall r s1) A (r # rs)"
proof -
  have "kernel_ok (rt_syscall r s1) A (r # rs)"
    using submit_ok [OF system_okD(1) [OF s(1)], of c x] s(2) call
    unfolding caller_ok_def r_def s1_def by blast
  moreover have "flags_ok (rt_syscall r s1) (r # rs)"
    using system_okD(2) [OF s(1)] by (simp add: flags_ok_def s1_def r_def del: upd_record.simps)
  moreover have "posts_ok (rt_syscall r s1) A"
    using system_okD(3) [OF s(1)]
    by (simp add: posts_ok_def s1_def r_def rt_syscall_def rt_syscall_pend_def kernel_simps Let_def)
  ultimately show ?thesis by (simp add: system_ok_def)
qed

lemma system_ok_sem_value:
  assumes "system_ok s A rs"
  shows "system_ok (upd_sem m (\<lambda>q. q\<lparr>sem_value := f q\<rparr>) s) A rs"
  using assms
  by (auto simp: system_ok_def flags_ok_def posts_ok_def kernel_simps flags_upd_sem intro: kernel_ok_upd_sem)

lemma rt_sem_add_n_ok: "system_ok s A rs \<Longrightarrow> system_ok (rt_sem_add_n m n s) A rs"
  unfolding rt_sem_add_n_def by (rule system_ok_sem_value)

lemma sem_fetch_sub_ok:
  assumes "system_ok s A rs"
  shows "system_ok (fst (sem_fetch_sub m s)) A rs" "active_task (fst (sem_fetch_sub m s)) = active_task s"
  using system_ok_sem_value [OF assms] by (simp_all add: sem_fetch_sub_def kernel_simps)

lemma rt_sem_trywait_ok: "system_ok s A rs \<Longrightarrow> system_ok (fst (rt_sem_trywait m s)) A rs"
  by (simp add: rt_sem_trywait_def system_ok_sem_value)

lemma rt_sem_wait_ok:
  assumes s: "system_ok s A rs" "caller_ok s rs" and m: "m \<in> dom (q_wait A)"
  shows "\<exists>rs'. system_ok (rt_sem_wait m s) A rs'"
proof -
  let ?s = "fst (sem_fetch_sub m s)"
  note f = sem_fetch_sub_ok [OF s(1), of m]
  have "caller_ok ?s rs" using s(2) f(2) by (simp add: caller_ok_def)
  from submit_system_ok [OF f(1) this, of RT_SYSCALL_SEM_WAIT "Sem_wait m"] m
  show ?thesis using f by (auto simp: rt_sem_wait_def split_def Let_def rt_task_self_def call_ok_def kernel_simps)
qed

lemma rt_sem_timedwait_ok:
  assumes s: "system_ok s A rs" "caller_ok s rs" and m: "m \<in> dom (q_wait A)"
  shows "\<exists>rs'. system_ok (fst (rt_sem_timedwait m ticks s)) A rs'"
proof -
  let ?s = "fst (sem_fetch_sub m s)"
  note f = sem_fetch_sub_ok [OF s(1), of m]
  have "caller_ok ?s rs" using s(2) f(2) by (simp add: caller_ok_def)
  from submit_system_ok [OF f(1) this, of RT_SYSCALL_SEM_TIMEDWAIT "Sem_timedwait m ticks"] m
  show ?thesis using f by (auto simp: rt_sem_timedwait_def split_def Let_def rt_task_self_def call_ok_def kernel_simps)
qed

lemma same_args: "task_record_update (args_update (\<lambda>_. args (task_record k))) k = k"
  by (cases k; cases "task_record k") simp

lemma rt_task_exit_ok:
  assumes "system_ok s A rs" "caller_ok s rs"
  shows "system_ok (rt_task_exit s) A (Task_record (active_task s) # rs)"
proof -
  let ?a = "args (get_record s (Task_record (active_task s)))"
  have "upd_record (Task_record (active_task s)) (args_update (\<lambda>_. ?a)) s = s"
    by (simp add: upd_task_def same_args)
  then show ?thesis
    using submit_system_ok [OF assms, of RT_SYSCALL_EXIT ?a]
    by (simp add: rt_task_exit_def Let_def call_ok_def kernel_simps)
qed

text \<open>An interrupt submits the post record of a semaphore.\<close>

lemma post_record_ok:
  fixes n :: int
  assumes s: "system_ok s A rs" and m: "Post_record m \<notin> set rs" "m \<in> dom (q_wait A)"
  defines "s1 \<equiv> upd_record (Post_record m) (args_update (\<lambda>_. Sem_post m n))
    (upd_sem m (\<lambda>q. q\<lparr>post_pending := True\<rparr>) s)"
  shows "system_ok (rt_syscall (Post_record m) s1) A (Post_record m # rs)"
proof -
  note s' = system_okD [OF s]
  have sys: "syscall (post_record (sem s m)) = RT_SYSCALL_SEM_POST" using s'(3) m(2) by (simp add: posts_ok_def)
  have "kernel_ok s1 A rs"
    unfolding s1_def upd_record.simps
    by (intro kernel_ok_upd_sem) (use s'(1) m(1) in \<open>simp_all add: kernel_simps\<close>)
  then have "kernel_ok (rt_syscall (Post_record m) s1) A (Post_record m # rs)"
    by (rule rt_syscall_ok) (use m sys in \<open>auto simp: rec_ok_def call_ok_def s1_def kernel_simps\<close>)
  moreover have "flags_ok (rt_syscall (Post_record m) s1) (Post_record m # rs)"
    using s'(2) by (auto simp: flags_ok_def flags_def s1_def rt_syscall_def rt_syscall_pend_def Let_def
        kernel_simps fun_eq_iff)
  moreover have "posts_ok (rt_syscall (Post_record m) s1) A"
    using s'(3) by (simp add: posts_ok_def s1_def rt_syscall_def rt_syscall_pend_def Let_def kernel_simps)
  ultimately show ?thesis by (simp add: system_ok_def)
qed

lemma rt_sem_post_n_ok:
  assumes s: "system_ok s A rs" and c: "interrupt_active s \<or> caller_ok s rs" and m: "m \<in> dom (q_wait A)"
  shows "\<exists>rs'. system_ok (rt_sem_post_n m n s) A rs'"
proof -
  have "\<exists>rs'. system_ok (sem_post_syscall m n s) A rs'"
  proof (cases "interrupt_active s")
    case False
    then have c: "caller_ok s rs" using c by simp
    from submit_system_ok [OF s this, of RT_SYSCALL_SEM_POST "Sem_post m n"] m False
    show ?thesis by (auto simp: sem_post_syscall_def Let_def rt_task_self_def call_ok_def kernel_simps)
  next
    case True
    show ?thesis
    proof (cases "post_pending (sem s m)")
      case True
      then have "upd_sem m (\<lambda>q. q\<lparr>post_pending := True\<rparr>) s = s" by (simp add: upd_sem_def fun_upd_idem)
      then have "sem_post_syscall m n s = rt_sem_add_n m n s"
        using \<open>interrupt_active s\<close> True by (simp add: sem_post_syscall_def)
      then show ?thesis using rt_sem_add_n_ok [OF s] by auto
    next
      case False
      then have new: "Post_record m \<notin> set rs" using system_okD(2) [OF s] by (auto simp: flags_ok_def flags_def fun_eq_iff)
      with False show ?thesis
        using post_record_ok [OF s new m] \<open>interrupt_active s\<close> by (auto simp: sem_post_syscall_def Let_def)
    qed
  qed
  moreover have "rt_sem_post_n m n s = (if sem_value (sem s m) < 0 then sem_post_syscall m n s
      else rt_sem_add_n m n s)"
    by (simp add: rt_sem_post_n_def rt_sem_add_n_def)
  ultimately show ?thesis using rt_sem_add_n_ok [OF s] by auto
qed

section \<open>The initial state\<close>

definition queues_init :: queues where
  "queues_init = \<lparr>q_tasks = {Idle_task}, q_ready = [], q_sleep = [], q_wait = Map.empty,
     q_state = (\<lambda>_. RT_TASK_STATE_RUNNING)\<rparr>"

lemma queued_init [simp]: "queued queues_init = {}"
  by (simp add: queued_def queues_init_def)

lemma kernel_init_ok: "kernel_ok kernel_init queues_init []"
proof -
  let ?L = "[Task_sleep_list Idle_task \<mapsto> [], Task_list Idle_task \<mapsto> [], Sleep_list \<mapsto> [], Ready_list \<mapsto> []]"
  have "lists_at dlist (nodes kernel_init) ?L"
    unfolding kernel_init_def kernel.select_convs
    by (intro rt_lists.init_lists) (simp_all add: lists_at_def unlisted_def)
  then have "lists_at dlist (nodes kernel_init) (heads queues_init)"
    by (rule lists_at_forget) (case_tac l; auto simp: queues_init_def split: if_splits)
  then have "refines kernel_init queues_init"
    by (simp add: refines_def queues_init_def kernel_init_def zero_task_def idle_task_init_def)
  moreover have "queues_ok {} kernel_init queues_init"
    by (rule queues_okI) (simp_all add: queues_init_def ordered_by_def queued_def)
  moreover have "counts kernel_init queues_init" by (simp add: counts_def queues_init_def)
  moreover have "idle_ok kernel_init queues_init" "pending_ok kernel_init queues_init []"
    by (simp_all add: idle_ok_def kernel_init_def queues_init_def pending_ok_def records_ok_def)
  moreover have "active_task kernel_init \<in> q_tasks queues_init"
    by (simp add: kernel_init_def queues_init_def)
  ultimately show ?thesis by (simp add: kernel_ok_def)
qed

lemma accounted_init: "accounted kernel_init queues_init []"
  by (simp add: accounted_def queues_init_def kernel_init_def)

lemma system_init_ok: "system_ok kernel_init queues_init []"
  using kernel_init_ok
  by (simp add: system_ok_def flags_ok_def flags_def posts_ok_def kernel_init_def zero_sem_def queues_init_def)

end
