(* ===== verification/Rt_Sleep.thy ===== *)
theory Rt_Sleep
  imports Rt_Sem
begin

text \<open>
  Sleeping, \<^verbatim>\<open>src/sleep.c\<close>, and the tick interrupt: what they submit keeps the invariant of the
  system.
\<close>

section \<open>The code\<close>

definition rt_sleep :: "ulong \<Rightarrow> kernel \<Rightarrow> kernel" where
  "rt_sleep ticks s =
     (if ticks = 0 then s
      else let r = Task_record (rt_task_self s);
               s = upd_record r (syscall_update (\<lambda>_. RT_SYSCALL_SLEEP)) s;
               s = upd_record r (args_update (\<lambda>_. Sleep ticks)) s
           in rt_syscall r s)"

text \<open>The variable \<^verbatim>\<open>*last_wake_tick\<close> is an argument and a result.\<close>

definition rt_sleep_periodic :: "ulong \<Rightarrow> ulong \<Rightarrow> kernel \<Rightarrow> kernel \<times> ulong" where
  "rt_sleep_periodic last_wake_tick period s =
     (if period = 0 then (s, last_wake_tick)
      else let r = Task_record (rt_task_self s);
               s = upd_record r (syscall_update (\<lambda>_. RT_SYSCALL_SLEEP_PERIODIC)) s;
               s = upd_record r (args_update (\<lambda>_. Sleep_periodic last_wake_tick period)) s
           in (rt_syscall r s, last_wake_tick + period))"

section \<open>Calls keep the invariant\<close>

lemma upd_record_commute:
  "upd_record (Task_record t) (args_update f) (upd_record (Task_record t) (syscall_update g) s) =
   upd_record (Task_record t) (syscall_update g) (upd_record (Task_record t) (args_update f) s)"
proof -
  have e: "args_update f (syscall_update g x) = syscall_update g (args_update f x)" for x :: rt_syscall_record
    by (cases x) simp
  show ?thesis by (simp add: upd_task_def o_def, subst e, rule refl)
qed

lemma rt_sleep_ok:
  assumes "system_ok s A rs" "caller_ok s rs"
  shows "\<exists>rs'. system_ok (rt_sleep ticks s) A rs'"
  using submit_system_ok [OF assms, of RT_SYSCALL_SLEEP "Sleep ticks"] assms(1)
  by (auto simp: rt_sleep_def Let_def rt_task_self_def upd_record_commute call_ok_def kernel_simps
      simp del: upd_record.simps) (auto simp: kernel_simps)

lemma rt_sleep_periodic_ok:
  assumes "system_ok s A rs" "caller_ok s rs"
  shows "\<exists>rs'. system_ok (fst (rt_sleep_periodic lw period s)) A rs'"
  using submit_system_ok [OF assms, of RT_SYSCALL_SLEEP_PERIODIC "Sleep_periodic lw period"] assms(1)
  by (auto simp: rt_sleep_periodic_def Let_def rt_task_self_def upd_record_commute call_ok_def kernel_simps
      simp del: upd_record.simps) (auto simp: kernel_simps)

lemma rt_tick_advance_ok:
  assumes s: "system_ok s A rs"
  shows "\<exists>rs'. system_ok (rt_tick_advance s) A rs' \<and> set rs' \<subseteq> insert Tick_record (set rs)"
proof -
  note k = kernel_okD [OF system_okD(1) [OF s]]
  have rec: "syscall (tick_record s) = RT_SYSCALL_TICK" using system_okD(3) [OF s] by (simp add: posts_ok_def)
  let ?s = "s\<lparr>tick := tick s + 1, tick_pending := True\<rparr>"
  have gr: "get_record ?s r = get_record s r" for r by (cases r) simp_all
  have "refines ?s A" using k(1) by (rule refines_cong) simp_all
  moreover have "queues_ok {} ?s A" using k(2) by (rule queues_ok_cong) simp_all
  moreover have "counts ?s A" "idle_ok ?s A" using k(3,4) by (simp_all add: counts_def idle_ok_def)
  moreover have "pending_ok ?s A rs" using k(7) by (rule pending_ok_grow) (simp_all add: gr)
  ultimately have k1: "kernel_ok ?s A rs" using k(5,6) by (simp add: kernel_ok_def)
  have p1: "posts_ok ?s A" using system_okD(3) [OF s] by (simp add: posts_ok_def)
  have fl: "flags s = (Tick_record \<in> set rs, \<lambda>m. Post_record m \<in> set rs)"
    using system_okD(2) [OF s] by (simp add: flags_ok_def)
  show ?thesis
  proof (cases "tick_pending s")
    case True
    then have "rt_tick_advance s = ?s" by (simp add: rt_tick_advance_def Let_def)
    moreover have "flags_ok ?s rs" using fl True by (simp add: flags_ok_def flags_def)
    ultimately show ?thesis using k1 p1 by (auto simp: system_ok_def)
  next
    case False
    then have step: "rt_tick_advance s = rt_syscall Tick_record ?s" by (simp add: rt_tick_advance_def Let_def)
    have new: "Tick_record \<notin> set rs" using fl False by (simp add: flags_def)
    have "kernel_ok (rt_syscall Tick_record ?s) A (Tick_record # rs)"
      using k1 new by (rule rt_syscall_ok) (simp_all add: rec_ok_def call_ok_def rec)
    moreover have "flags_ok (rt_syscall Tick_record ?s) (Tick_record # rs)"
      using fl by (simp add: flags_ok_def) (simp add: flags_def)
    moreover have "posts_ok (rt_syscall Tick_record ?s) A"
      using p1 by (simp add: posts_ok_def rt_syscall_def rt_syscall_pend_def Let_def)
    ultimately show ?thesis unfolding step system_ok_def by fastforce
  qed
qed

end
