(* ===== verification/Rt_System.thy ===== *)
theory Rt_System
  imports Rt_Sleep
begin

text \<open>
  The kernel as a transition system. Between any two atomic steps of the running task an
  interrupt may come, so the steps of a task are the atomic ones the interface functions are made
  of: an update of a semaphore's value and the submission of a filled-in record. Interrupts
  advance the tick or post, and the handler of the system call interrupt runs when it is pended.
  A task makes no step while the handler is pended (\<^verbatim>\<open>include/muntos/syscall.h\<close>: the handler
  runs before \<^verbatim>\<open>rt_syscall_pend\<close> returns to a task). The tasks and semaphores created so far are
  part of the configuration.
\<close>

record config =
  kern :: kernel
  created :: "task_id set"
  initialised :: "sem_id set"

definition submit :: "rt_syscall \<Rightarrow> rt_syscall_args \<Rightarrow> kernel \<Rightarrow> kernel" where
  "submit c x s =
     (let r = Task_record (active_task s)
      in rt_syscall r (upd_record r (syscall_update (\<lambda>_. c)) (upd_record r (args_update (\<lambda>_. x)) s)))"

text \<open>The calls a task may submit: arguments of the right kind, semaphores that are initialised.\<close>

fun call_args :: "sem_id set \<Rightarrow> rt_syscall \<Rightarrow> rt_syscall_args \<Rightarrow> bool" where
  "call_args M RT_SYSCALL_EXIT x \<longleftrightarrow> True"
| "call_args M RT_SYSCALL_SLEEP x \<longleftrightarrow> (\<exists>n. x = Sleep n)"
| "call_args M RT_SYSCALL_SLEEP_PERIODIC x \<longleftrightarrow> (\<exists>l p. x = Sleep_periodic l p)"
| "call_args M RT_SYSCALL_SEM_WAIT x \<longleftrightarrow> (\<exists>m \<in> M. x = Sem_wait m)"
| "call_args M RT_SYSCALL_SEM_TIMEDWAIT x \<longleftrightarrow> (\<exists>m \<in> M. \<exists>n. x = Sem_timedwait m n)"
| "call_args M RT_SYSCALL_SEM_POST x \<longleftrightarrow> (\<exists>m \<in> M. \<exists>n. x = Sem_post m n)"
| "call_args M _ x \<longleftrightarrow> False"

inductive kstep :: "config \<Rightarrow> config \<Rightarrow> bool" where
  create_task: "t \<notin> created g \<Longrightarrow> can_wait t \<Longrightarrow>
    kstep g (g\<lparr>kern := rt_task_init t c nm p (kern g), created := insert t (created g)\<rparr>)"
| create_sem: "m \<notin> initialised g \<Longrightarrow> m \<noteq> NULL \<Longrightarrow>
    kstep g (g\<lparr>kern := rt_sem_init_max m v mx (kern g), initialised := insert m (initialised g)\<rparr>)"
| wait_value: "m \<in> initialised g \<Longrightarrow> \<not> syscall_pended (kern g) \<Longrightarrow>
    kstep g (g\<lparr>kern := fst (sem_fetch_sub m (kern g))\<rparr>)"
| trywait_value: "m \<in> initialised g \<Longrightarrow> \<not> syscall_pended (kern g) \<Longrightarrow>
    kstep g (g\<lparr>kern := fst (rt_sem_trywait m (kern g))\<rparr>)"
| post_value: "m \<in> initialised g \<Longrightarrow> \<not> syscall_pended (kern g) \<Longrightarrow> sem_value (sem (kern g) m) \<ge> 0 \<Longrightarrow>
    kstep g (g\<lparr>kern := rt_sem_add_n m n (kern g)\<rparr>)"
| task_call: "\<not> syscall_pended (kern g) \<Longrightarrow> can_wait (active_task (kern g)) \<Longrightarrow>
    call_args (initialised g) c x \<Longrightarrow> kstep g (g\<lparr>kern := submit c x (kern g)\<rparr>)"
| task_yield: "kstep g (g\<lparr>kern := rt_task_yield (kern g)\<rparr>)"
| irq_tick: "kstep g (g\<lparr>kern := rt_tick_advance (kern g)\<rparr>)"
| irq_post: "m \<in> initialised g \<Longrightarrow>
    kstep g (g\<lparr>kern := (rt_sem_post_n m n ((kern g)\<lparr>interrupt_active := True\<rparr>))\<lparr>interrupt_active := False\<rparr>\<rparr>)"
| handler: "syscall_pended (kern g) \<Longrightarrow>
    rt_syscall_run ((kern g)\<lparr>syscall_pended := False\<rparr>) = Some (s', c) \<Longrightarrow> kstep g (g\<lparr>kern := s'\<rparr>)"

definition config_init :: config where
  "config_init = \<lparr>kern = kernel_init, created = {Idle_task}, initialised = {}\<rparr>"

definition reachable :: "config \<Rightarrow> bool" where
  "reachable g \<longleftrightarrow> kstep\<^sup>*\<^sup>* config_init g"

definition config_ok :: "config \<Rightarrow> queues \<Rightarrow> rec_id list \<Rightarrow> bool" where
  "config_ok g A rs \<longleftrightarrow>
     system_ok (kern g) A rs \<and> q_tasks A = created g \<and> dom (q_wait A) = initialised g \<and>
     NULL \<notin> initialised g \<and> (\<not> syscall_pended (kern g) \<longrightarrow> pending_syscalls (kern g) = None)"

section \<open>Every step keeps the invariant\<close>

text \<open>Whether the handler is pended and whether an interrupt is active is not part of it.\<close>

lemma system_ok_processor:
  "system_ok (s\<lparr>syscall_pended := b\<rparr>) A rs = system_ok s A rs"
  "system_ok (s\<lparr>interrupt_active := b\<rparr>) A rs = system_ok s A rs"
proof -
  have r: "get_record (s\<lparr>syscall_pended := b\<rparr>) = get_record s" "get_record (s\<lparr>interrupt_active := b\<rparr>) = get_record s"
    by (rule ext, case_tac x; simp)+
  have ch: "chain (s\<lparr>syscall_pended := b\<rparr>) p rs = chain s p rs" "chain (s\<lparr>interrupt_active := b\<rparr>) p rs = chain s p rs"
    for p by (rule chain_cong; simp add: r)+
  have ro: "rec_ok (s\<lparr>syscall_pended := b\<rparr>) A x = rec_ok s A x" "rec_ok (s\<lparr>interrupt_active := b\<rparr>) A x = rec_ok s A x"
    for x unfolding rec_ok_def call_ok_def r by simp_all
  have q: "queues_ok {} (s\<lparr>syscall_pended := b\<rparr>) A = queues_ok {} s A"
    "queues_ok {} (s\<lparr>interrupt_active := b\<rparr>) A = queues_ok {} s A"
    by (auto intro: queues_ok_cong)
  show "system_ok (s\<lparr>syscall_pended := b\<rparr>) A rs = system_ok s A rs"
    "system_ok (s\<lparr>interrupt_active := b\<rparr>) A rs = system_ok s A rs"
    unfolding system_ok_def kernel_ok_def pending_ok_def records_ok_def r ch ro q
    by (simp_all add: refines_def counts_def idle_ok_def flags_ok_def flags_def posts_ok_def)
qed

lemma submit_keeps:
  assumes s: "system_ok s A []" and t: "can_wait (active_task s)" and x: "call_args (dom (q_wait A)) c x"
  shows "system_ok (submit c x s) A [Task_record (active_task s)]"
proof -
  let ?r = "Task_record (active_task s)"
  have "call_ok (upd_record ?r (syscall_update (\<lambda>_. c)) (upd_record ?r (args_update (\<lambda>_. x)) s)) A ?r"
    using x by (cases c) (auto simp: call_ok_def kernel_simps)
  moreover have "caller_ok s []" using t by (simp add: caller_ok_def)
  ultimately show ?thesis using submit_system_ok [OF s] unfolding submit_def Let_def by blast
qed

lemma run_keeps:
  assumes s: "system_ok s A rs"
  shows "\<exists>s' c B. rt_syscall_run s = Some (s', c) \<and> system_ok s' B [] \<and>
     q_tasks B = q_tasks A \<and> dom (q_wait B) = dom (q_wait A)"
proof -
  note k = system_okD [OF s]
  obtain s1 A1 s' B c where run: "rt_syscall_run s = Some (s', c)" "run_through rs s A s1 A1 s' B c"
    "idle_ok s1 A1" "queues_ok {} s1 A1" "refines s1 A1" "active_task s1 = active_task s"
    "pending_syscalls s1 = None" "flags s' = all_cleared rs (flags s)"
    using rt_syscall_run_through [OF k(1)] by blast
  have ran: "ran_all rs (s\<lparr>pending_syscalls := None\<rparr>) A s1 A1" and sc: "scheduled s1 A1 s' B c"
    using run(2) by (simp_all add: run_through_def)
  have tk: "q_tasks A1 = q_tasks A" "dom (q_wait A1) = dom (q_wait A)" using ran by (simp_all add: ran_all_def)
  have B: "q_sched s1 (active_task s1) A1 = (B, active_task s')" using sc by (simp add: scheduled_def)
  have "active_task s1 \<in> q_tasks A1" using kernel_okD(5) [OF k(1)] run(6) tk by simp
  then have "kernel_ok s' B []" by (rule scheduled_ok [OF sc run(5,4,3) _ run(7)])
  moreover have "flags_ok s' []" using run(8) k(2) by (auto simp: flags_ok_def all_cleared_def)
  moreover have "posts_ok s' B"
  proof -
    have fr: "kframe (s1\<lparr>active_task := active_task s', rt_context_prev := rt_context_prev s'\<rparr>) s'"
      using sc by (simp add: scheduled_def)
    have "tick_record s' = tick_record s" "\<And>m. post_record (sem s' m) = post_record (sem s m)"
      using ran kframe_fields(1) [OF fr] kframe_sem(1) [OF fr] by (simp_all add: ran_all_def hframe_def)
    then show ?thesis using k(3) q_sched_frame(2) [OF B] tk(2) by (simp add: posts_ok_def)
  qed
  ultimately show ?thesis
    using run(1) q_sched_frame(1,2) [OF B] tk
    by (intro exI [of _ s'] exI [of _ c] exI [of _ B]) (simp add: system_ok_def)
qed

lemma create_task_keeps:
  assumes "system_ok s A rs" "t \<notin> q_tasks A" "can_wait t"
  shows "system_ok (rt_task_init t c nm p s) (A\<lparr>q_tasks := insert t (q_tasks A)\<rparr>) (Task_record t # rs)"
proof -
  note k = system_okD [OF assms(1)]
  have "flags (rt_task_init t c nm p s) = flags s"
    by (simp add: rt_task_init_def task_init_def Let_def)
  moreover have "tick_record (rt_task_init t c nm p s) = tick_record s" "sems (rt_task_init t c nm p s) = sems s"
    by (simp_all add: rt_task_init_def task_init_def rt_syscall_def rt_syscall_pend_def Let_def kernel_simps)
  ultimately show ?thesis
    using rt_task_init_ok [OF k(1) assms(2,3)] k(2,3) by (simp add: system_ok_def flags_ok_def posts_ok_def)
qed

lemma create_sem_keeps:
  assumes "system_ok s A rs" "q_wait A m = None"
  shows "system_ok (rt_sem_init_max m v mx s) (A\<lparr>q_wait := (q_wait A)(m \<mapsto> [])\<rparr>) rs"
proof -
  note k = system_okD [OF assms(1)]
  have new: "Post_record m \<notin> set rs"
  proof
    assume "Post_record m \<in> set rs"
    then have "call_ok s A (Post_record m)"
      using kernel_okD(7) [OF k(1)] by (auto simp: pending_ok_def records_ok_def rec_ok_def)
    then show False using assms(2) by (auto simp: call_ok_def split: rt_syscall.splits)
  qed
  have "flags (rt_sem_init_max m v mx s) = flags s"
    using k(2) new by (auto simp: flags_ok_def flags_def rt_sem_init_max_def Let_def kernel_simps fun_eq_iff)
  moreover have "posts_ok (rt_sem_init_max m v mx s) (A\<lparr>q_wait := (q_wait A)(m \<mapsto> [])\<rparr>)"
    using k(3) by (simp add: posts_ok_def rt_sem_init_max_def Let_def kernel_simps)
  ultimately show ?thesis
    using rt_sem_init_max_ok [OF k(1) assms(2) new] k(2) by (simp add: system_ok_def flags_ok_def)
qed

text \<open>When the handler is not pended, no record is pending.\<close>

definition pend_ok :: "kernel \<Rightarrow> bool" where
  "pend_ok s \<longleftrightarrow> (\<not> syscall_pended s \<longrightarrow> pending_syscalls s = None)"

lemma pend_ok_steps [simp]:
  "pend_ok (rt_syscall r s)" "pend_ok (rt_task_yield s)" "pend_ok (submit c x s)"
  "pend_ok (rt_task_init t cx nm p s)"
  "pend_ok s \<Longrightarrow> pend_ok (upd_sem m f s)"
  "pend_ok s \<Longrightarrow> pend_ok (rt_sem_init_max m v mx s)"
  "pend_ok s \<Longrightarrow> pend_ok (s\<lparr>interrupt_active := b\<rparr>)"
  "pend_ok s \<Longrightarrow> pend_ok (rt_tick_advance s)"
  by (simp_all add: pend_ok_def rt_task_yield_def rt_syscall_pend_def submit_def rt_task_init_def
      task_init_def rt_sem_init_max_def rt_tick_advance_def Let_def kernel_simps)

lemma pend_ok_values [simp]:
  "pend_ok s \<Longrightarrow> pend_ok (fst (sem_fetch_sub m s))"
  "pend_ok s \<Longrightarrow> pend_ok (fst (rt_sem_trywait m s))"
  "pend_ok s \<Longrightarrow> pend_ok (rt_sem_add_n m n s)"
  "pend_ok s \<Longrightarrow> pend_ok (rt_sem_post_n m n s)"
  by (simp_all add: sem_fetch_sub_def rt_sem_trywait_def rt_sem_add_n_def rt_sem_post_n_def
      sem_post_syscall_def Let_def)

lemma config_ok_pend:
  "config_ok g A rs \<longleftrightarrow> system_ok (kern g) A rs \<and> q_tasks A = created g \<and> dom (q_wait A) = initialised g \<and>
     NULL \<notin> initialised g \<and> pend_ok (kern g)"
  by (simp add: config_ok_def pend_ok_def)

lemma config_ok_idle:
  assumes "config_ok g A rs" "\<not> syscall_pended (kern g)"
  shows "rs = []"
proof -
  have "chain (kern g) None rs"
    using assms kernel_okD(7) [OF system_okD(1)] by (fastforce simp: config_ok_def pending_ok_def)
  then show ?thesis by (cases rs) auto
qed

lemma kstep_ok:
  assumes ok: "config_ok g A rs" and step: "kstep g g'"
  shows "\<exists>A' rs'. config_ok g' A' rs'"
proof -
  have s: "system_ok (kern g) A rs" and T: "q_tasks A = created g" and M: "dom (q_wait A) = initialised g"
    and N: "NULL \<notin> initialised g" and p: "pend_ok (kern g)"
    using ok by (simp_all add: config_ok_pend)
  have keep: "\<exists>A' rs'. config_ok (g\<lparr>kern := k\<rparr>) A' rs'" if "system_ok k A rs'" "pend_ok k" for k rs'
    using that T M N unfolding config_ok_pend by auto
  from step show ?thesis
  proof cases
    case (create_task t c nm p)
    then have "config_ok g' (A\<lparr>q_tasks := insert t (q_tasks A)\<rparr>) (Task_record t # rs)"
      using create_task_keeps [OF s, of t c nm p] T M N by (simp add: config_ok_pend)
    then show ?thesis by blast
  next
    case (create_sem m v mx)
    then have "q_wait A m = None" using M by blast
    then have "config_ok g' (A\<lparr>q_wait := (q_wait A)(m \<mapsto> [])\<rparr>) rs"
      using create_sem_keeps [OF s, of m v mx] create_sem T M N p by (simp add: config_ok_pend)
    then show ?thesis by blast
  next
    case (wait_value m)
    then show ?thesis using keep [OF sem_fetch_sub_ok(1) [OF s, of m]] p by simp
  next
    case (trywait_value m)
    then show ?thesis using keep [OF rt_sem_trywait_ok [OF s, of m]] p by simp
  next
    case (post_value m n)
    then show ?thesis using keep [OF rt_sem_add_n_ok [OF s, of m n]] p by simp
  next
    case (task_call c x)
    have "rs = []" using ok task_call(2) by (rule config_ok_idle)
    then have "system_ok (submit c x (kern g)) A [Task_record (active_task (kern g))]"
      using task_call s M by (intro submit_keeps) simp_all
    from keep [OF this] show ?thesis using task_call(1) by simp
  next
    case task_yield
    have "system_ok (rt_task_yield (kern g)) A rs"
      using s by (simp add: rt_task_yield_def rt_syscall_pend_def system_ok_processor)
    from keep [OF this] show ?thesis using task_yield by simp
  next
    case irq_tick
    obtain rs' where "system_ok (rt_tick_advance (kern g)) A rs'" using rt_tick_advance_ok [OF s] by blast
    from keep [OF this] show ?thesis using irq_tick p by simp
  next
    case (irq_post m n)
    have "system_ok ((kern g)\<lparr>interrupt_active := True\<rparr>) A rs" using s by (simp add: system_ok_processor)
    from rt_sem_post_n_ok [OF this, of m n] irq_post(2) M obtain rs' where
      "system_ok (rt_sem_post_n m n ((kern g)\<lparr>interrupt_active := True\<rparr>)) A rs'" by auto
    then have "system_ok ((rt_sem_post_n m n ((kern g)\<lparr>interrupt_active := True\<rparr>))\<lparr>interrupt_active := False\<rparr>) A rs'"
      by (simp add: system_ok_processor)
    from keep [OF this] show ?thesis using irq_post(1) p by simp
  next
    case (handler s' c)
    have "system_ok ((kern g)\<lparr>syscall_pended := False\<rparr>) A rs" using s by (simp add: system_ok_processor)
    from run_keeps [OF this] handler(3) obtain B where B: "system_ok s' B []" "q_tasks B = q_tasks A"
      "dom (q_wait B) = dom (q_wait A)" by auto
    have "pend_ok s'"
      using kernel_okD(7) [OF system_okD(1) [OF B(1)]] by (simp add: pend_ok_def pending_ok_def)
    then have "config_ok g' B []" using handler(1) B T M N by (simp add: config_ok_pend)
    then show ?thesis by blast
  qed
qed

lemma config_init_ok: "config_ok config_init queues_init []"
  using system_init_ok
  by (simp add: config_ok_def config_init_def) (simp add: queues_init_def kernel_init_def)

lemma reachable_ok: "reachable g \<Longrightarrow> \<exists>A rs. config_ok g A rs"
  unfolding reachable_def
proof (induction rule: rtranclp_induct)
  case base
  then show ?case using config_init_ok by blast
next
  case (step g g')
  then show ?case using kstep_ok by blast
qed

end
