(* ===== verification/Rt_Boot.thy ===== *)
theory Rt_Boot
  imports Rt_System
begin

text \<open>
  Concrete states of the kernel, from the initial one by the operations of the code: two tasks
  and a semaphore are created, the tasks become ready, one of them runs and waits on the
  semaphore with a timeout. The properties are applied to them.
\<close>

section \<open>Two tasks and a semaphore\<close>

definition boot :: kernel where
  "boot = rt_task_init (Task 2) 200 ''b'' 1
     (rt_task_init (Task 1) 100 ''a'' 2 (rt_sem_init_max 7 0 5 kernel_init))"

definition boot_queues :: queues where
  "boot_queues = queues_init\<lparr>q_wait := [7 \<mapsto> []], q_tasks := {Task 2, Task 1, Idle_task}\<rparr>"

lemma queued_boot [simp]: "queued boot_queues = {}"
  by (simp add: queued_def boot_queues_def queues_init_def)

lemma boot_system_ok: "system_ok boot boot_queues [Task_record (Task 2), Task_record (Task 1)]"
proof -
  let ?A = "queues_init\<lparr>q_wait := [7 \<mapsto> []]\<rparr>"
  have "system_ok (rt_sem_init_max 7 0 5 kernel_init) ?A []"
    using create_sem_keeps [OF system_init_ok, of 7 0 5] by (simp add: queues_init_def)
  from create_task_keeps [OF create_task_keeps [OF this, of "Task 1" 100 "''a''" 2], of "Task 2" 200 "''b''" 1]
  show ?thesis unfolding boot_def by (simp add: boot_queues_def queues_init_def)
qed

lemma boot_accounted: "accounted boot boot_queues [Task_record (Task 2), Task_record (Task 1)]"
  by (simp add: accounted_def boot_queues_def queues_init_def boot_def rt_task_init_def Let_def kernel_simps
      kernel_init_def)

definition boot_config :: config where
  "boot_config = \<lparr>kern = boot, created = {Task 2, Task 1, Idle_task}, initialised = {7}\<rparr>"

lemma boot_reachable: "reachable boot_config"
proof -
  let ?g1 = "config_init\<lparr>kern := rt_sem_init_max 7 0 5 kernel_init, initialised := {7}\<rparr>"
  let ?g2 = "?g1\<lparr>kern := rt_task_init (Task 1) 100 ''a'' 2 (kern ?g1), created := {Task 1, Idle_task}\<rparr>"
  have 1: "kstep config_init ?g1"
    using create_sem [of 7 config_init 0 5] by (simp add: config_init_def)
  have 2: "kstep ?g1 ?g2"
    using create_task [of "Task 1" ?g1 100 "''a''" 2] by (simp add: config_init_def)
  have 3: "kstep ?g2 boot_config"
    using create_task [of "Task 2" ?g2 200 "''b''" 1] by (simp add: config_init_def boot_config_def boot_def)
  show ?thesis unfolding reachable_def using 1 2 3 by (meson rtranclp.rtrancl_into_rtrancl rtranclp.rtrancl_refl)
qed

section \<open>The first task runs\<close>

text \<open>The queues of \<open>boot\<close> once its records are handled and the scheduler has chosen.\<close>

definition idle_ready :: kernel where
  "idle_ready = the (task_ready Idle_task boot)"

definition running :: kernel where
  "running = (the (task_ready (Task 2) idle_ready))\<lparr>active_task := Task 1, pending_syscalls := None\<rparr>"

definition running_queues :: queues where
  "running_queues = q_make_ready boot (Task 2) (q_make_ready boot Idle_task boot_queues)"

lemma boot_priority [simp]:
  "priority (task boot Idle_task) = 0" "priority (task boot (Task 1)) = 2" "priority (task boot (Task 2)) = 1"
  by (simp_all add: boot_def rt_task_init_def task_init_def rt_syscall_def rt_syscall_pend_def Let_def
      kernel_simps kernel_init_def idle_task_init_def rt_sem_init_max_def zero_task_def)

lemma running_queues_eq [simp]:
  "q_tasks running_queues = {Task 2, Task 1, Idle_task}"
  "q_ready running_queues = [Task 2, Idle_task]" "q_sleep running_queues = []"
  "q_wait running_queues = [7 \<mapsto> []]"
  "q_state running_queues = (\<lambda>_. RT_TASK_STATE_RUNNING)
     (Idle_task := RT_TASK_STATE_READY, Task 2 := RT_TASK_STATE_READY)"
  by (simp_all add: running_queues_def boot_queues_def queues_init_def insert_by_def higher_def)

lemma running_steps:
  shows "task_ready Idle_task boot = Some idle_ready" "kframe boot idle_ready"
    "handled (Task_record (Task 2)) idle_ready (q_make_ready boot Idle_task boot_queues)
       (the (task_ready (Task 2) idle_ready)) running_queues"
    "kframe idle_ready (the (task_ready (Task 2) idle_ready))"
proof -
  note k = kernel_okD [OF system_okD(1) [OF boot_system_ok]]
  let ?A = "q_make_ready boot Idle_task boot_queues"
  have t: "Idle_task \<in> q_tasks boot_queues" "Task 2 \<in> q_tasks ?A" "Task 2 \<notin> queued ?A"
    by (simp_all add: boot_queues_def queues_init_def) (simp add: queued_def)
  from handle_task_ready [OF k(1-3) t(1)] obtain s' where
    s': "task_ready Idle_task boot = Some s'" "handled (Task_record Idle_task) boot boot_queues s' ?A" "kframe boot s'"
    by auto
  then show 1: "task_ready Idle_task boot = Some idle_ready" "kframe boot idle_ready"
    by (simp_all add: idle_ready_def)
  have h: "handled (Task_record Idle_task) boot boot_queues idle_ready ?A" using s' by (simp add: idle_ready_def)
  from handle_task_ready [OF handledD(1-3) [OF h] t(2,3)] obtain s'' where
    "task_ready (Task 2) idle_ready = Some s''" "kframe idle_ready s''"
    "handled (Task_record (Task 2)) idle_ready ?A s'' (q_make_ready idle_ready (Task 2) ?A)" by auto
  then show "handled (Task_record (Task 2)) idle_ready ?A (the (task_ready (Task 2) idle_ready)) running_queues"
    "kframe idle_ready (the (task_ready (Task 2) idle_ready))"
    unfolding running_queues_def q_make_ready_frame [OF 1(2)] by simp_all
qed

lemma kframe_active:
  "kframe s s' \<Longrightarrow>
   kframe (s\<lparr>active_task := a, pending_syscalls := p\<rparr>) (s'\<lparr>active_task := a, pending_syscalls := p\<rparr>)"
  unfolding kframe_def by (cases s, cases s') simp

lemma running_kframe: "kframe (boot\<lparr>active_task := Task 1, pending_syscalls := None\<rparr>) running"
proof -
  have "kframe boot (the (task_ready (Task 2) idle_ready))"
    using running_steps(2,4) by (rule kframe_trans)
  then show ?thesis unfolding running_def by (rule kframe_active)
qed

lemma running_system_ok: "system_ok running running_queues []"
proof -
  note h = handledD(1-3) [OF running_steps(3)]
  have r: "refines running running_queues"
    using h(1) by (rule refines_cong) (simp_all add: running_def)
  moreover have "queues_ok {} running running_queues"
    using h(2) by (rule queues_ok_cong) (simp_all add: running_def)
  moreover have "counts running running_queues" using h(3) by (simp add: counts_def running_def)
  moreover have "idle_ok running running_queues" by (simp add: idle_ok_def running_def)
  moreover have "active_task running \<notin> queued running_queues" "active_task running \<in> q_tasks running_queues"
    by (simp_all add: running_def queued_def)
  moreover have "pending_ok running running_queues []"
    by (simp add: pending_ok_def records_ok_def running_def)
  moreover have "flags_ok running []"
    using system_okD(2) [OF boot_system_ok] kframe_fields(7) [OF running_kframe] kframe_sem(4) [OF running_kframe]
    by (simp add: flags_ok_def flags_def)
  moreover have "posts_ok running running_queues"
    using system_okD(3) [OF boot_system_ok] kframe_fields(1) [OF running_kframe] kframe_sem(1) [OF running_kframe]
    by (simp add: posts_ok_def boot_queues_def)
  ultimately show ?thesis by (simp add: system_ok_def kernel_ok_def)
qed

lemma running_accounted: "accounted running running_queues []"
  by (auto simp: accounted_def queued_def running_def)

text \<open>The same with both tasks of one priority.\<close>

definition peers :: kernel where
  "peers = upd_task (Task 2) (priority_update (\<lambda>_. 2)) running"

lemma running_priority [simp]:
  "priority (task running Idle_task) = 0" "priority (task running (Task 1)) = 2"
  "priority (task running (Task 2)) = 1"
  using kframe_task(5) [OF running_kframe] by simp_all

lemma peers_kernel_ok: "kernel_ok peers running_queues []"
proof -
  note k = kernel_okD [OF system_okD(1) [OF running_system_ok]]
  have "refines peers running_queues" using k(1) by (simp add: refines_def peers_def kernel_simps)
  moreover have "queues_ok {} peers running_queues"
    by (rule queues_okI) (auto simp: queued_def ordered_by_def higher_def peers_def kernel_simps
        split: if_splits)
  moreover have "counts peers running_queues" "idle_ok peers running_queues"
    using k(3,4) by (simp_all add: counts_def idle_ok_def peers_def kernel_simps)
  moreover have "pending_ok peers running_queues []"
    using k(7) by (simp add: pending_ok_def records_ok_def peers_def kernel_simps)
  ultimately show ?thesis using k(5,6) by (simp add: kernel_ok_def peers_def kernel_simps)
qed

lemma peers_sel [simp]:
  "active_task peers = active_task running" "priority (task peers (Task 2)) = 2"
  "priority (task peers (Task 1)) = 2" "task_state (task peers t) = task_state (task running t)"
  by (simp_all add: peers_def kernel_simps)

lemma running_state [simp]: "task_state (task running t) = q_state running_queues t"
  using kernel_okD(1) [OF system_okD(1) [OF running_system_ok]] by (simp add: refines_def)

section \<open>The running task waits with a timeout\<close>

definition waiting :: kernel where
  "waiting = fst (rt_sem_timedwait 7 3 running)"

definition blocked :: kernel where
  "blocked = the (handle_record (Task_record (Task 1)) waiting)"

definition blocked_queues :: queues where
  "blocked_queues = q_timed_block waiting 7 (Task 1) 3 running_queues"

lemma boot_sel [simp]:
  "sem_value (sem boot 7) = 0" "max_value (sem boot 7) = 5" "woken_tick boot = 0" "tick boot = 0"
  by (simp_all add: boot_def rt_task_init_def Let_def kernel_simps)
    (simp_all add: rt_sem_init_max_def Let_def kernel_simps kernel_init_def)

lemma running_sel [simp]:
  "active_task running = Task 1" "pending_syscalls running = None"
  "sem_value (sem running 7) = 0" "max_value (sem running 7) = 5" "woken_tick running = 0" "tick running = 0"
  using kframe_fields(2,3,5,6) [OF running_kframe] kframe_sem(2,3) [OF running_kframe, of 7] by simp_all

lemma waiting_eq:
  "waiting = submit RT_SYSCALL_SEM_TIMEDWAIT (Sem_timedwait 7 3) (fst (sem_fetch_sub 7 running))"
  by (simp add: waiting_def rt_sem_timedwait_def sem_fetch_sub_def submit_def rt_task_self_def Let_def kernel_simps)

lemma waiting_system_ok: "system_ok waiting running_queues [Task_record (Task 1)]"
  using submit_keeps [OF sem_fetch_sub_ok(1) [OF running_system_ok, of 7], of RT_SYSCALL_SEM_TIMEDWAIT "Sem_timedwait 7 3"]
  by (simp add: waiting_eq sem_fetch_sub_ok(2) [OF running_system_ok])

lemma waiting_sel [simp]:
  "syscall (task_record (task waiting (Task 1))) = RT_SYSCALL_SEM_TIMEDWAIT"
  "args (task_record (task waiting (Task 1))) = Sem_timedwait 7 3"
  "sem_value (sem waiting 7) = -1" "max_value (sem waiting 7) = 5"
  "woken_tick waiting = 0" "tick waiting = 0" "active_task waiting = Task 1"
  by (simp_all add: waiting_eq submit_def rt_syscall_def rt_syscall_pend_def Let_def sem_fetch_sub_def kernel_simps int_wrap_def)

lemma blocked_step:
  "handle_record (Task_record (Task 1)) waiting = Some blocked"
  "handled (Task_record (Task 1)) waiting running_queues blocked blocked_queues"
  "kframe (upd_task (Task 1) (wake_tick_update (\<lambda>_. 3)) waiting) blocked"
proof -
  note k = kernel_okD [OF system_okD(1) [OF waiting_system_ok]]
  have t: "Task 1 \<in> q_tasks running_queues" "Task 1 \<notin> queued running_queues" "can_wait (Task 1)"
    by (simp_all add: queued_def)
  have "sem_waiters (-1) = 1" by (simp add: sem_waiters_eq c_int_def)
  with handle_sem_timedwait [OF k(1-3) t, of 7 "[]" 3]
  have "\<exists>s'. handle_record (Task_record (Task 1)) waiting = Some s' \<and>
      handled (Task_record (Task 1)) waiting running_queues s' blocked_queues \<and>
      kframe (upd_task (Task 1) (wake_tick_update (\<lambda>_. 3)) waiting) s'"
    by (auto simp: blocked_queues_def)
  then show "handle_record (Task_record (Task 1)) waiting = Some blocked"
    "handled (Task_record (Task 1)) waiting running_queues blocked blocked_queues"
    "kframe (upd_task (Task 1) (wake_tick_update (\<lambda>_. 3)) waiting) blocked"
    by (auto simp: blocked_def)
qed

lemma blocked_queues_eq [simp]:
  "q_tasks blocked_queues = {Task 2, Task 1, Idle_task}"
  "q_ready blocked_queues = [Task 2, Idle_task]" "q_sleep blocked_queues = [Task 1]"
  "q_wait blocked_queues = [7 \<mapsto> [Task 1]]" "q_state blocked_queues (Task 1) = RT_TASK_STATE_BLOCKED_TIMEOUT"
  by (simp_all add: blocked_queues_def q_timed_block_def q_block_def q_wait_on_def insert_by_def)

lemma blocked_sel [simp]:
  "syscall (task_record (task blocked (Task 1))) = RT_SYSCALL_SEM_TIMEDWAIT"
  "args (task_record (task blocked (Task 1))) = Sem_timedwait 7 3"
  "wake_tick (task blocked (Task 1)) = 3"
  "sem_value (sem blocked 7) = -1" "max_value (sem blocked 7) = 5"
  "woken_tick blocked = 0" "tick blocked = 0" "active_task blocked = Task 1"
  using kframeD [OF blocked_step(3)] by (simp_all add: kernel_simps)

lemma blocked_ok: "handler_ok blocked blocked_queues"
  using handledD(1-3) [OF blocked_step(2)] by (simp add: handler_ok_def)

lemma waiting_ok: "handler_ok waiting running_queues"
  using kernel_okD(1-3) [OF system_okD(1) [OF waiting_system_ok]] by (simp add: handler_ok_def)

text \<open>Four ticks later the timeout has passed.\<close>

definition later :: kernel where
  "later = blocked\<lparr>tick := 4\<rparr>"

lemma later_ok: "handler_ok later blocked_queues"
  using handler_okD [OF blocked_ok]
  by (auto simp: handler_ok_def later_def counts_def intro: refines_cong queues_ok_cong)

text \<open>An interrupt posts two units.\<close>

definition posting :: kernel where
  "posting = upd_record (Post_record 7) (\<lambda>_. \<lparr>next_record = None, args = Sem_post 7 2,
     syscall = RT_SYSCALL_SEM_POST\<rparr>) blocked"

lemma posting_ok: "handler_ok posting blocked_queues"
  using handler_okD [OF blocked_ok]
  by (auto simp: handler_ok_def posting_def counts_def kernel_simps intro: refines_cong queues_ok_cong)

text \<open>The running task waits for a unit that has come already.\<close>

definition late_wait :: kernel where
  "late_wait = submit RT_SYSCALL_SEM_WAIT (Sem_wait 7) running"

lemma late_wait_system_ok: "system_ok late_wait running_queues [Task_record (Task 1)]"
  using submit_keeps [OF running_system_ok, of RT_SYSCALL_SEM_WAIT "Sem_wait 7"] by (simp add: late_wait_def)

lemma late_wait_ok: "handler_ok late_wait running_queues"
  using kernel_okD(1-3) [OF system_okD(1) [OF late_wait_system_ok]] by (simp add: handler_ok_def)

lemma late_wait_accounted: "accounted late_wait running_queues [Task_record (Task 1)]"
  using running_accounted by (auto simp: accounted_def late_wait_def submit_def Let_def kernel_simps)

lemma late_wait_sel [simp]:
  "syscall (task_record (task late_wait (Task 1))) = RT_SYSCALL_SEM_WAIT"
  "args (task_record (task late_wait (Task 1))) = Sem_wait 7"
  "sem_value (sem late_wait 7) = 0" "active_task late_wait = Task 1"
  "priority (task late_wait t) = priority (task running t)"
  "task_state (task late_wait t) = task_state (task running t)"
  by (simp_all add: late_wait_def submit_def rt_syscall_def rt_syscall_pend_def Let_def kernel_simps)

section \<open>The other task runs\<close>

text \<open>The scheduler gives the processor to the second task while the first one waits.\<close>

definition suspended :: kernel where
  "suspended = blocked\<lparr>pending_syscalls := None\<rparr>"

definition second :: kernel where
  "second = fst (the (sched suspended))"

definition second_queues :: queues where
  "second_queues = q_set_state (Task 2) RT_TASK_STATE_RUNNING (blocked_queues\<lparr>q_ready := [Idle_task]\<rparr>)"

lemma second_queues_eq [simp]:
  "q_tasks second_queues = {Task 2, Task 1, Idle_task}"
  "q_ready second_queues = [Idle_task]" "q_sleep second_queues = [Task 1]"
  "q_wait second_queues = [7 \<mapsto> [Task 1]]"
  by (simp_all add: second_queues_def)

lemma suspended_ok: "refines suspended blocked_queues" "queues_ok {} suspended blocked_queues"
  "counts suspended blocked_queues" "idle_ok suspended blocked_queues"
  "active_task suspended = Task 1" "pending_syscalls suspended = None"
  using handler_okD [OF blocked_ok]
  by (auto simp: suspended_def counts_def idle_ok_def intro: refines_cong queues_ok_cong)

lemma second_scheduled: "\<exists>c. scheduled suspended blocked_queues second second_queues c"
  "active_task second = Task 2"
proof -
  have a: "active_task suspended \<in> q_tasks blocked_queues" by (simp add: suspended_ok(5))
  obtain s' c B where s': "sched suspended = Some (s', c)" "scheduled suspended blocked_queues s' B c"
    using sched_refines [OF suspended_ok(1-3) a] by blast
  have "q_sched suspended (Task 1) blocked_queues = (second_queues, Task 2)"
    by (simp add: q_sched_def Let_def second_queues_def)
  then have "B = second_queues" "active_task s' = Task 2"
    using s'(2) by (simp_all add: scheduled_def suspended_ok(5))
  then show "\<exists>c. scheduled suspended blocked_queues second second_queues c" "active_task second = Task 2"
    using s' by (auto simp: second_def)
qed

lemma second_kframe: "kframe (suspended\<lparr>active_task := Task 2, rt_context_prev := rt_context_prev second\<rparr>) second"
  using second_scheduled by (auto simp: scheduled_def)

lemma second_kernel_ok: "kernel_ok second second_queues []"
proof -
  obtain c where "scheduled suspended blocked_queues second second_queues c" using second_scheduled by blast
  from scheduled_ok(1) [OF this suspended_ok(1,2,4)] show ?thesis by (simp add: suspended_ok(5,6))
qed

lemma blocked_flags: "flags blocked = flags running" "tick_record blocked = tick_record running"
  "post_record (sem blocked m) = post_record (sem running m)" "interrupt_active blocked = interrupt_active running"
  using kframe_fields(1,7,9) [OF blocked_step(3)] kframe_sem(1,4) [OF blocked_step(3)]
  by (auto simp: flags_def waiting_eq submit_def rt_syscall_def rt_syscall_pend_def sem_fetch_sub_def Let_def
      kernel_simps fun_eq_iff)

lemma running_no_interrupt: "interrupt_active running = False"
  using kframe_fields(9) [OF running_kframe]
  by (simp add: boot_def rt_task_init_def task_init_def rt_syscall_def rt_syscall_pend_def Let_def
      kernel_simps kernel_init_def rt_sem_init_max_def)

lemma second_sel [simp]:
  "sem_value (sem second 7) = -1" "max_value (sem second 7) = 5" "interrupt_active second = False"
  "tick_record second = tick_record running" "flags second = flags running"
  "post_record (sem second m) = post_record (sem running m)"
  using kframe_fields(1,7,9) [OF second_kframe] kframe_sem [OF second_kframe] blocked_flags running_no_interrupt
  by (simp_all add: suspended_def flags_def)

lemma second_system_ok: "system_ok second second_queues []"
  using second_kernel_ok running_system_ok
  by (simp add: system_ok_def flags_ok_def posts_ok_def)

text \<open>The same with a maximum of 0, as a condition variable has it.\<close>

definition monitored :: kernel where
  "monitored = upd_sem 7 (\<lambda>q. q\<lparr>max_value := 0\<rparr>) second"

lemma monitored_sel [simp]:
  "active_task monitored = Task 2" "sem_value (sem monitored 7) = -1" "max_value (sem monitored 7) = 0"
  "interrupt_active monitored = False"
  by (simp_all add: monitored_def kernel_simps second_scheduled)

lemma monitored_system_ok: "system_ok monitored second_queues []"
proof -
  have "kernel_ok monitored second_queues []"
    unfolding monitored_def using second_kernel_ok by (rule kernel_ok_upd_sem) simp_all
  then show ?thesis
    using second_system_ok by (simp add: system_ok_def flags_ok_def posts_ok_def monitored_def kernel_simps flags_upd_sem)
qed

end
