(* ===== verification/Rt_Queue.thy ===== *)
theory Rt_Queue
  imports Rt_Sem
begin

text \<open>
  The bounded queue of \<^verbatim>\<open>src/queue.c\<close> on a machine with a 32-bit \<^verbatim>\<open>size_t\<close>: a ring of slots,
  each with a byte that holds a state and a generation, and two positions that hold an index and
  a generation. The functions are those of the code; run without interference from other threads
  they implement a bounded first-in first-out queue across every wrap-around of the generations,
  except that a peek makes the element it reads unreachable.
\<close>

unbundle bit_operations_syntax

section \<open>The code\<close>

subsection \<open>Slots and positions\<close>

abbreviation SLOT_EMPTY :: uchar where "SLOT_EMPTY \<equiv> 0x00"
abbreviation SLOT_PUSH :: uchar where "SLOT_PUSH \<equiv> 0x05"
abbreviation SLOT_POP :: uchar where "SLOT_POP \<equiv> 0x0A"
abbreviation SLOT_SKIPPED :: uchar where "SLOT_SKIPPED \<equiv> 0x0C"
abbreviation SLOT_FULL :: uchar where "SLOT_FULL \<equiv> 0x0F"
abbreviation SLOT_STATE_MASK :: uchar where "SLOT_STATE_MASK \<equiv> 0x0F"
abbreviation SLOT_GEN_INCREMENT :: uchar where "SLOT_GEN_INCREMENT \<equiv> push_bit 4 1"
abbreviation SLOT_GEN_MASK :: uchar where "SLOT_GEN_MASK \<equiv> 0xFF AND NOT SLOT_STATE_MASK"
abbreviation Q_GEN_INCREMENT :: size_t where "Q_GEN_INCREMENT \<equiv> push_bit 28 1"
abbreviation Q_INDEX_MASK :: size_t where "Q_INDEX_MASK \<equiv> Q_GEN_INCREMENT - 1"
abbreviation Q_GEN_MASK :: size_t where "Q_GEN_MASK \<equiv> NOT Q_INDEX_MASK"
abbreviation Q_SGEN_SHIFT :: nat where "Q_SGEN_SHIFT \<equiv> 28 - 4"
abbreviation RT_QUEUE_MAX_SIZE :: size_t where "RT_QUEUE_MAX_SIZE \<equiv> push_bit 28 1 - 1"

definition slot_state :: "uchar \<Rightarrow> uchar" where
  "slot_state slot = slot AND SLOT_STATE_MASK"

definition sgen :: "uchar \<Rightarrow> uchar" where
  "sgen slot = slot AND SLOT_GEN_MASK"

definition qgen :: "size_t \<Rightarrow> size_t" where
  "qgen q = q AND Q_GEN_MASK"

definition qsgen :: "size_t \<Rightarrow> uchar" where
  "qsgen q = ucast (drop_bit Q_SGEN_SHIFT (qgen q))"

definition qindex :: "size_t \<Rightarrow> size_t" where
  "qindex q = q AND Q_INDEX_MASK"

definition state_str :: "uchar \<Rightarrow> string" where
  "state_str st =
     (if st = SLOT_EMPTY then ''empty''
      else if st = SLOT_PUSH then ''push''
      else if st = SLOT_POP then ''pop''
      else if st = SLOT_FULL then ''full''
      else ''unknown'')"

definition next_pos :: "size_t \<Rightarrow> size_t \<Rightarrow> size_t" where
  "next_pos q num_elems =
     (let q = q + 1
      in if qindex q = num_elems then qgen (q + Q_GEN_INCREMENT) else q)"

record 'e rt_queue =
  push_sem :: sem_id
  pop_sem :: sem_id
  enq :: size_t
  deq :: size_t
  slots :: "uchar list"
  qdata :: "'e list"
  num_elems :: size_t

text \<open>
  Atomic accesses to a slot. An index outside the array is undefined behaviour, the value
  \<^const>\<open>None\<close>. The compare-exchange returns whether it stored, and the value it found.
\<close>

definition slot_load :: "size_t \<Rightarrow> 'e rt_queue \<Rightarrow> uchar option" where
  "slot_load i Q = (if unat i < length (slots Q) then Some (slots Q ! unat i) else None)"

definition slot_cas :: "size_t \<Rightarrow> uchar \<Rightarrow> uchar \<Rightarrow> 'e rt_queue \<Rightarrow> ('e rt_queue \<times> bool \<times> uchar) option" where
  "slot_cas i expected desired Q =
     do {
       s \<leftarrow> slot_load i Q;
       Some (if s = expected then (Q\<lparr>slots := (slots Q)[unat i := desired]\<rparr>, True, s) else (Q, False, s))
     }"

text \<open>Copying an element to or from its place in the array.\<close>

definition data_write :: "size_t \<Rightarrow> 'e \<Rightarrow> 'e rt_queue \<Rightarrow> 'e rt_queue option" where
  "data_write i e Q =
     (if unat i < length (qdata Q) then Some (Q\<lparr>qdata := (qdata Q)[unat i := e]\<rparr>) else None)"

definition data_read :: "size_t \<Rightarrow> 'e rt_queue \<Rightarrow> 'e option" where
  "data_read i Q = (if unat i < length (qdata Q) then Some (qdata Q ! unat i) else None)"

subsection \<open>Push\<close>

partial_function (option) push_find :: "'e rt_queue \<Rightarrow> size_t \<Rightarrow> size_t \<Rightarrow> (size_t \<times> uchar) option" where
  "push_find Q q last_enq =
     do {
       s \<leftarrow> slot_load (qindex q) Q;
       if slot_state s = SLOT_EMPTY \<and> sgen s = qsgen q then Some (q, s)
       else (let new_enq = enq Q
             in if new_enq \<noteq> last_enq then push_find Q new_enq new_enq
                else push_find Q (next_pos q (num_elems Q)) last_enq)
     }"

partial_function (option) push_restore :: "size_t \<Rightarrow> uchar \<Rightarrow> 'e rt_queue \<Rightarrow> 'e rt_queue option" where
  "push_restore i s Q =
     do {
       (Q, stored, s) \<leftarrow> slot_cas i s (sgen s OR SLOT_EMPTY) Q;
       if stored then Some Q else push_restore i s Q
     }"

text \<open>
  One turn of the outer loop has two halves, between which the pusher may be preempted: it claims
  a slot and moves \<^verbatim>\<open>enq\<close> past it, then copies the element and publishes the slot, or restores
  the slot when a popper has skipped it meanwhile.
\<close>

partial_function (option) push_claim :: "'e rt_queue \<Rightarrow> ('e rt_queue \<times> size_t \<times> uchar) option" where
  "push_claim Q =
     do {
       (q, s) \<leftarrow> push_find Q (enq Q) (enq Q);
       let push_s = sgen s OR SLOT_PUSH;
       (Q, claimed, s) \<leftarrow> slot_cas (qindex q) s push_s Q;
       if claimed then Some (Q\<lparr>enq := next_pos q (num_elems Q)\<rparr>, q, push_s) else push_claim Q
     }"

definition push_publish :: "'e \<Rightarrow> size_t \<Rightarrow> uchar \<Rightarrow> 'e rt_queue \<Rightarrow> ('e rt_queue \<times> bool) option" where
  "push_publish e q push_s Q =
     do {
       Q \<leftarrow> data_write (qindex q) e Q;
       let s = push_s;
       (Q, published, s) \<leftarrow> slot_cas (qindex q) s (sgen s OR SLOT_FULL) Q;
       if published then Some (Q, True)
       else do {
         Q \<leftarrow> push_restore (qindex q) s Q;
         Some (Q, False)
       }
     }"

partial_function (option) push_loop :: "'e \<Rightarrow> 'e rt_queue \<Rightarrow> 'e rt_queue option" where
  "push_loop e Q =
     do {
       (Q, q, push_s) \<leftarrow> push_claim Q;
       (Q, published) \<leftarrow> push_publish e q push_s Q;
       if published then Some Q else push_loop e Q
     }"

definition queue_push :: "'e \<Rightarrow> 'e rt_queue \<Rightarrow> kernel \<Rightarrow> ('e rt_queue \<times> kernel) option" where
  "queue_push e Q s =
     do {
       Q \<leftarrow> push_loop e Q;
       Some (Q, rt_sem_post (pop_sem Q) s)
     }"

subsection \<open>Pop\<close>

partial_function (option) pop_find ::
  "'e rt_queue \<Rightarrow> size_t \<Rightarrow> size_t \<Rightarrow> ('e rt_queue \<times> size_t \<times> uchar) option" where
  "pop_find Q q last_deq =
     do {
       s \<leftarrow> slot_load (qindex q) Q;
       let same_gen = (sgen s = qsgen q);
       (Q, s) \<leftarrow>
         (if same_gen \<and> (slot_state s = SLOT_PUSH \<or> slot_state s = SLOT_SKIPPED)
          then do {
            (Q, stored, s) \<leftarrow> slot_cas (qindex q) s ((sgen s + SLOT_GEN_INCREMENT) OR SLOT_SKIPPED) Q;
            Some (Q, s)
          }
          else Some (Q, s));
       if same_gen \<and> (slot_state s = SLOT_FULL \<or> slot_state s = SLOT_POP) then Some (Q, q, s)
       else (let new_deq = deq Q
             in if new_deq \<noteq> last_deq then pop_find Q new_deq new_deq
                else pop_find Q (next_pos q (num_elems Q)) last_deq)
     }"

text \<open>
  The two halves of a turn of the outer loop: the popper claims a full slot (or one another popper
  has claimed), then copies the element and releases the slot, unless another popper was faster.
  The result is the element copied when the slot was released.
\<close>

partial_function (option) pop_claim :: "'e rt_queue \<Rightarrow> ('e rt_queue \<times> size_t \<times> uchar) option" where
  "pop_claim Q =
     do {
       (Q, q, s) \<leftarrow> pop_find Q (deq Q) (deq Q);
       let pop_s = sgen s OR SLOT_POP;
       (Q, claimed, s) \<leftarrow> slot_cas (qindex q) s pop_s Q;
       if claimed then Some (Q, q, s) else pop_claim Q
     }"

definition pop_release :: "size_t \<Rightarrow> uchar \<Rightarrow> 'e rt_queue \<Rightarrow> ('e rt_queue \<times> 'e option) option" where
  "pop_release q s Q =
     do {
       let pop_s = sgen s OR SLOT_POP;
       e \<leftarrow> data_read (qindex q) Q;
       let empty_s = (sgen s + SLOT_GEN_INCREMENT) OR SLOT_EMPTY;
       (Q, released, pop_s) \<leftarrow> slot_cas (qindex q) pop_s empty_s Q;
       Some (if released then (Q\<lparr>deq := next_pos q (num_elems Q)\<rparr>, Some e) else (Q, None))
     }"

partial_function (option) pop_loop :: "'e rt_queue \<Rightarrow> ('e rt_queue \<times> 'e) option" where
  "pop_loop Q =
     do {
       (Q, q, s) \<leftarrow> pop_claim Q;
       (Q, r) \<leftarrow> pop_release q s Q;
       case r of Some e \<Rightarrow> Some (Q, e) | None \<Rightarrow> pop_loop Q
     }"

definition queue_pop :: "'e rt_queue \<Rightarrow> kernel \<Rightarrow> ('e rt_queue \<times> kernel \<times> 'e) option" where
  "queue_pop Q s =
     do {
       (Q, e) \<leftarrow> pop_loop Q;
       Some (Q, rt_sem_post (push_sem Q) s, e)
     }"

subsection \<open>Peek\<close>

partial_function (option) peek_find :: "'e rt_queue \<Rightarrow> size_t \<Rightarrow> size_t \<Rightarrow> (size_t \<times> uchar) option" where
  "peek_find Q q last_deq =
     do {
       s \<leftarrow> slot_load (qindex q) Q;
       if sgen s = qsgen q \<and> (slot_state s = SLOT_FULL \<or> slot_state s = SLOT_POP) then Some (q, s)
       else (let new_deq = deq Q
             in if new_deq \<noteq> last_deq then peek_find Q new_deq new_deq
                else peek_find Q (next_pos q (num_elems Q)) last_deq)
     }"

partial_function (option) peek_loop :: "'e rt_queue \<Rightarrow> ('e rt_queue \<times> 'e) option" where
  "peek_loop Q =
     do {
       (q, s) \<leftarrow> peek_find Q (deq Q) (deq Q);
       let pop_s = sgen s OR SLOT_POP;
       (Q, claimed, s) \<leftarrow> slot_cas (qindex q) s pop_s Q;
       if claimed
       then do {
         e \<leftarrow> data_read (qindex q) Q;
         let full_s = (sgen s + SLOT_GEN_INCREMENT) OR SLOT_FULL;
         (Q, released, pop_s) \<leftarrow> slot_cas (qindex q) pop_s full_s Q;
         if released then Some (Q, e) else peek_loop Q
       }
       else peek_loop Q
     }"

definition queue_peek :: "'e rt_queue \<Rightarrow> kernel \<Rightarrow> ('e rt_queue \<times> kernel \<times> 'e) option" where
  "queue_peek Q s =
     do {
       (Q, e) \<leftarrow> peek_loop Q;
       Some (Q, rt_sem_post (pop_sem Q) s, e)
     }"

subsection \<open>The interface\<close>

text \<open>
  The blocking functions wait on a semaphore first: they are given as the part before the task can
  go on and the part after it.
\<close>

definition rt_queue_push ::
  "'e \<Rightarrow> 'e rt_queue \<Rightarrow> (kernel \<Rightarrow> kernel) \<times> ('e rt_queue \<Rightarrow> kernel \<Rightarrow> ('e rt_queue \<times> kernel) option)" where
  "rt_queue_push e Q = (rt_sem_wait (push_sem Q), queue_push e)"

definition rt_queue_pop ::
  "'e rt_queue \<Rightarrow> (kernel \<Rightarrow> kernel) \<times> ('e rt_queue \<Rightarrow> kernel \<Rightarrow> ('e rt_queue \<times> kernel \<times> 'e) option)" where
  "rt_queue_pop Q = (rt_sem_wait (pop_sem Q), queue_pop)"

definition rt_queue_peek ::
  "'e rt_queue \<Rightarrow> (kernel \<Rightarrow> kernel) \<times> ('e rt_queue \<Rightarrow> kernel \<Rightarrow> ('e rt_queue \<times> kernel \<times> 'e) option)" where
  "rt_queue_peek Q = (rt_sem_wait (pop_sem Q), queue_peek)"

definition rt_queue_trypush :: "'e \<Rightarrow> 'e rt_queue \<Rightarrow> kernel \<Rightarrow> ('e rt_queue \<times> kernel \<times> bool) option" where
  "rt_queue_trypush e Q s =
     (let (s, ok) = rt_sem_trywait (push_sem Q) s
      in if \<not> ok then Some (Q, s, False)
         else do {
           (Q, s) \<leftarrow> queue_push e Q s;
           Some (Q, s, True)
         })"

definition rt_queue_trypop :: "'e rt_queue \<Rightarrow> kernel \<Rightarrow> ('e rt_queue \<times> kernel \<times> 'e option) option" where
  "rt_queue_trypop Q s =
     (let (s, ok) = rt_sem_trywait (pop_sem Q) s
      in if \<not> ok then Some (Q, s, None)
         else do {
           (Q, s, e) \<leftarrow> queue_pop Q s;
           Some (Q, s, Some e)
         })"

definition rt_queue_trypeek :: "'e rt_queue \<Rightarrow> kernel \<Rightarrow> ('e rt_queue \<times> kernel \<times> 'e option) option" where
  "rt_queue_trypeek Q s =
     (let (s, ok) = rt_sem_trywait (pop_sem Q) s
      in if \<not> ok then Some (Q, s, None)
         else do {
           (Q, s, e) \<leftarrow> queue_peek Q s;
           Some (Q, s, Some e)
         })"

text \<open>
  The timed functions go on from the result of the timed wait. When it returns at once they give
  their result, \<open>Inr\<close>; when it submits a system call they give the state in which the call is
  pending, \<open>Inl\<close>, and go on from the result that \<open>rt_sem_timedwait_result\<close> reads later.
\<close>

definition timedpush_end :: "'e \<Rightarrow> bool \<Rightarrow> 'e rt_queue \<Rightarrow> kernel \<Rightarrow> ('e rt_queue \<times> kernel \<times> bool) option" where
  "timedpush_end e ok Q s =
     (if \<not> ok then Some (Q, s, False)
      else do {
        (Q, s) \<leftarrow> queue_push e Q s;
        Some (Q, s, True)
      })"

definition rt_queue_timedpush ::
  "'e \<Rightarrow> ulong \<Rightarrow> 'e rt_queue \<Rightarrow> kernel \<Rightarrow> (kernel + 'e rt_queue \<times> kernel \<times> bool) option" where
  "rt_queue_timedpush e ticks Q s =
     (case rt_sem_timedwait (push_sem Q) ticks s of
        (s, None) \<Rightarrow> Some (Inl s)
      | (s, Some ok) \<Rightarrow> map_option Inr (timedpush_end e ok Q s))"

definition timedpop_end :: "bool \<Rightarrow> 'e rt_queue \<Rightarrow> kernel \<Rightarrow> ('e rt_queue \<times> kernel \<times> 'e option) option" where
  "timedpop_end ok Q s =
     (if \<not> ok then Some (Q, s, None)
      else do {
        (Q, s, e) \<leftarrow> queue_pop Q s;
        Some (Q, s, Some e)
      })"

definition rt_queue_timedpop ::
  "ulong \<Rightarrow> 'e rt_queue \<Rightarrow> kernel \<Rightarrow> (kernel + 'e rt_queue \<times> kernel \<times> 'e option) option" where
  "rt_queue_timedpop ticks Q s =
     (case rt_sem_timedwait (pop_sem Q) ticks s of
        (s, None) \<Rightarrow> Some (Inl s)
      | (s, Some ok) \<Rightarrow> map_option Inr (timedpop_end ok Q s))"

definition timedpeek_end :: "bool \<Rightarrow> 'e rt_queue \<Rightarrow> kernel \<Rightarrow> ('e rt_queue \<times> kernel \<times> 'e option) option" where
  "timedpeek_end ok Q s =
     (if \<not> ok then Some (Q, s, None)
      else do {
        (Q, s, e) \<leftarrow> queue_peek Q s;
        Some (Q, s, Some e)
      })"

definition rt_queue_timedpeek ::
  "ulong \<Rightarrow> 'e rt_queue \<Rightarrow> kernel \<Rightarrow> (kernel + 'e rt_queue \<times> kernel \<times> 'e option) option" where
  "rt_queue_timedpeek ticks Q s =
     (case rt_sem_timedwait (pop_sem Q) ticks s of
        (s, None) \<Rightarrow> Some (Inl s)
      | (s, Some ok) \<Rightarrow> map_option Inr (timedpeek_end ok Q s))"

text \<open>
  The static initialiser of a queue with its two semaphores. The element array \<open>d\<close> has one place
  per slot; its values do not matter.
\<close>

definition RT_QUEUE_STATIC :: "sem_id \<Rightarrow> sem_id \<Rightarrow> 'e list \<Rightarrow> size_t \<Rightarrow> kernel \<Rightarrow> 'e rt_queue \<times> kernel" where
  "RT_QUEUE_STATIC psem osem d num s =
     (\<lparr>push_sem = psem, pop_sem = osem, enq = 0, deq = 0, slots = replicate (unat num) SLOT_EMPTY,
       qdata = d, num_elems = num\<rparr>,
      RT_SEM_INIT osem 0 (RT_SEM_INIT psem (int (unat num)) s))"

section \<open>Bytes and positions as numbers\<close>

lemma qindex_mask: "qindex q = q AND mask 28"
  by (simp add: qindex_def mask_eq_exp_minus_1 push_bit_eq_mult)

lemma qindex_unat: "unat (qindex q) = unat q mod 2 ^ 28"
  unfolding qindex_mask by (rule unat_AND_mask)

lemma qgen_plus_qindex: "qgen q + qindex q = q"
proof -
  have "qgen q = q AND NOT (mask 28)"
    by (simp add: qgen_def mask_eq_exp_minus_1 push_bit_eq_mult)
  then have "qgen q OR qindex q = q" "qgen q AND qindex q = 0"
    unfolding qindex_mask by (auto simp: bit_eq_iff bit_simps)
  then show ?thesis using disjunctive_add_eq_or [of "qgen q" "qindex q"] by simp
qed

lemma qgen_unat: "unat (qgen q) = 2 ^ 28 * (unat q div 2 ^ 28)"
proof -
  have "qgen q = q - qindex q" using qgen_plus_qindex [of q] by (metis add_diff_cancel_right')
  moreover have "qindex q \<le> q" by (simp add: word_le_nat_alt qindex_unat)
  ultimately have "unat (qgen q) = unat q - unat q mod 2 ^ 28" by (simp add: unat_sub qindex_unat)
  then show ?thesis by (simp add: minus_mod_eq_mult_div)
qed

text \<open>The byte of a slot in generation \<open>g\<close> (modulo 16) and state \<open>st\<close>.\<close>

definition slot_byte :: "nat \<Rightarrow> uchar \<Rightarrow> uchar" where
  "slot_byte g st = push_bit 4 (of_nat g) OR st"

definition is_state :: "uchar \<Rightarrow> bool" where
  "is_state st \<longleftrightarrow> st AND mask 4 = st"

lemma is_state_simps [simp]:
  "is_state SLOT_EMPTY" "is_state SLOT_PUSH" "is_state SLOT_POP" "is_state SLOT_SKIPPED" "is_state SLOT_FULL"
  by (simp_all add: is_state_def mask_eq_exp_minus_1)

lemma slot_state_mask: "slot_state s = s AND mask 4"
  by (simp add: slot_state_def mask_eq_exp_minus_1)

lemma sgen_mask: "sgen s = s AND NOT (mask 4)"
proof -
  have "SLOT_GEN_MASK = 240" "NOT (mask 4 :: uchar) = - 16" "(240 :: uchar) = - 16"
    by (simp_all add: mask_eq_exp_minus_1)
  then show ?thesis by (metis sgen_def)
qed

lemma is_state_bit: "is_state st \<Longrightarrow> bit st n \<Longrightarrow> n < 4"
  unfolding is_state_def by (metis bit_and_iff bit_mask_iff)

lemma slot_byte_state [simp]: "is_state st \<Longrightarrow> slot_state (slot_byte g st) = st"
  unfolding slot_state_mask slot_byte_def using is_state_bit [of st] by (auto simp: bit_eq_iff bit_simps)

lemma slot_byte_gen [simp]: "is_state st \<Longrightarrow> sgen (slot_byte g st) = slot_byte g 0"
  unfolding sgen_mask slot_byte_def using is_state_bit [of st] by (auto simp: bit_eq_iff bit_simps)

lemma slot_byte_OR [simp]: "slot_byte g 0 OR st = slot_byte g st"
  by (simp add: slot_byte_def)

lemma slot_byte_next [simp]: "slot_byte g 0 + 16 = slot_byte (Suc g) 0"
  by (simp add: slot_byte_def push_bit_eq_mult algebra_simps)

lemma slot_byte_0_eq: "slot_byte g 0 = slot_byte h 0 \<longleftrightarrow> g mod 16 = h mod 16"
proof -
  have b: "slot_byte g 0 = of_nat (16 * g)" for g by (simp add: slot_byte_def push_bit_eq_mult)
  have "slot_byte g 0 = slot_byte h 0 \<longleftrightarrow> (16 * g) mod 256 = (16 * h) mod 256"
    unfolding b word_of_nat_eq_iff take_bit_eq_mod by simp
  also have "\<dots> \<longleftrightarrow> g mod 16 = h mod 16"
    using mod_mult_mult1 [of 16 g 16] mod_mult_mult1 [of 16 h 16] by simp
  finally show ?thesis .
qed

lemma slot_byte_eq:
  assumes "is_state st" and "is_state st'"
  shows "slot_byte g st = slot_byte h st' \<longleftrightarrow> g mod 16 = h mod 16 \<and> st = st'"
  using assms slot_byte_0_eq slot_byte_gen slot_byte_state slot_byte_OR by metis

text \<open>
  The position of the \<open>k\<close>-th element ever pushed (or popped) in a queue of \<open>n\<close> slots: its index
  and its generation, modulo 16.
\<close>

definition pos :: "nat \<Rightarrow> nat \<Rightarrow> size_t" where
  "pos n k = of_nat (k div n mod 16 * 2 ^ 28 + k mod n)"

definition size_ok :: "nat \<Rightarrow> bool" where
  "size_ok n \<longleftrightarrow> 0 < n \<and> n < 2 ^ 28"

lemma pos_unat:
  assumes "size_ok n"
  shows "unat (pos n k) = k div n mod 16 * 2 ^ 28 + k mod n"
proof -
  have "k div n mod 16 \<le> 15" "k mod n < n" using assms by (simp_all add: size_ok_def less_Suc_eq_le [symmetric])
  then have "k div n mod 16 * 2 ^ 28 + k mod n < 2 ^ 32" using assms by (simp add: size_ok_def)
  then show ?thesis unfolding pos_def by (intro of_nat_inverse [OF refl]) simp
qed

lemma pos_index:
  assumes "size_ok n"
  shows "unat (qindex (pos n k)) = k mod n"
proof -
  have "k mod n < 2 ^ 28" using assms mod_less_divisor [of n k] by (simp add: size_ok_def del: mod_less_divisor)
  then show ?thesis unfolding qindex_unat pos_unat [OF assms] by simp
qed

lemma pos_gen:
  assumes "size_ok n"
  shows "unat (qgen (pos n k)) = k div n mod 16 * 2 ^ 28"
proof -
  have "k mod n < 2 ^ 28" using assms mod_less_divisor [of n k] by (simp add: size_ok_def del: mod_less_divisor)
  then show ?thesis unfolding qgen_unat pos_unat [OF assms] by simp
qed

lemma pos_qsgen:
  assumes "size_ok n"
  shows "qsgen (pos n k) = slot_byte (k div n) 0"
proof -
  have "unat (drop_bit 24 (qgen (pos n k))) = k div n mod 16 * 2 ^ 28 div 2 ^ 24"
    unfolding unat_drop_bit_eq pos_gen [OF assms] by (simp add: drop_bit_eq_div)
  then have "unat (drop_bit 24 (qgen (pos n k))) = 16 * (k div n mod 16)" by simp
  then have "qsgen (pos n k) = of_nat (16 * (k div n mod 16))"
    unfolding qsgen_def using of_nat_unat [of "drop_bit Q_SGEN_SHIFT (qgen (pos n k))", where ?'a = uchar] by simp
  then show ?thesis
    using slot_byte_0_eq [of "k div n mod 16" "k div n"] by (simp add: slot_byte_def push_bit_eq_mult mult.commute)
qed

lemma next_pos:
  assumes "size_ok n"
  shows "next_pos (pos n k) (of_nat n) = pos n (Suc k)"
proof -
  let ?g = "k div n" and ?i = "k mod n"
  have n: "0 < n" "n < 2 ^ 28" and i: "?i < n" using assms by (simp_all add: size_ok_def)
  have inc: "pos n k + 1 = of_nat (?g mod 16 * 2 ^ 28 + Suc ?i)" by (simp add: pos_def)
  have "?g mod 16 \<le> 15" by simp
  then have "?g mod 16 * 2 ^ 28 + Suc ?i < 2 ^ 32" using n i by simp
  then have u: "unat (pos n k + 1) = ?g mod 16 * 2 ^ 28 + Suc ?i"
    unfolding inc by (intro of_nat_inverse [OF refl]) simp
  have "unat (qindex (pos n k + 1)) = Suc ?i" unfolding qindex_unat u using n i by simp
  moreover have nu: "unat (of_nat n :: size_t) = n" using n by (intro of_nat_inverse [OF refl]) simp
  ultimately have idx: "qindex (pos n k + 1) = of_nat n \<longleftrightarrow> Suc ?i = n" by (simp add: word_unat_eq_iff)
  show ?thesis
  proof (cases "Suc ?i = n")
    case True
    then have k: "Suc k div n = Suc ?g" "Suc k mod n = 0" by (simp_all add: div_Suc mod_Suc)
    have "unat (pos n k + 1 + Q_GEN_INCREMENT) = (?g mod 16 * 2 ^ 28 + n + 2 ^ 28) mod 2 ^ 32"
      using unat_word_ariths(1) [of "pos n k + 1" Q_GEN_INCREMENT] unfolding u True by simp
    moreover have "(?g mod 16 * 2 ^ 28 + n + 2 ^ 28) div 2 ^ 28 = Suc (?g mod 16)"
      using n by (intro div_nat_eqI) simp_all
    ultimately have "unat (qgen (pos n k + 1 + Q_GEN_INCREMENT)) = Suc ?g mod 16 * 2 ^ 28"
      unfolding qgen_unat using n by (cases "?g mod 16 = 15") (auto simp: mod_Suc)
    moreover have "unat (pos n (Suc k)) = Suc ?g mod 16 * 2 ^ 28" using pos_unat [OF assms] k by simp
    ultimately show ?thesis using idx True by (simp add: next_pos_def Let_def word_unat_eq_iff)
  next
    case False
    then have "Suc k div n = ?g" "Suc k mod n = Suc ?i" by (simp_all add: div_Suc mod_Suc)
    then show ?thesis using idx False inc by (simp add: next_pos_def Let_def pos_def)
  qed
qed

section \<open>The ring\<close>

text \<open>
  A queue of \<open>n\<close> slots from which \<open>d\<close> elements have been taken, of \<open>e\<close> positions ever filled: the
  slots of the positions from \<open>d\<close> to \<open>e\<close> are full, the others are empty and already have the
  generation of their next use. Its contents, in order of arrival, are the elements at the
  positions from \<open>d\<close> to \<open>e\<close>.
\<close>

definition queue_ring :: "nat \<Rightarrow> nat \<Rightarrow> nat \<Rightarrow> 'e rt_queue \<Rightarrow> bool" where
  "queue_ring n d e Q \<longleftrightarrow> size_ok n \<and> num_elems Q = of_nat n \<and> length (slots Q) = n \<and> length (qdata Q) = n \<and>
     d \<le> e \<and> e \<le> d + n \<and> enq Q = pos n e \<and> deq Q = pos n d \<and>
     (\<forall>k \<in> {d..<e}. slots Q ! (k mod n) = slot_byte (k div n) SLOT_FULL) \<and>
     (\<forall>k \<in> {e..<d + n}. slots Q ! (k mod n) = slot_byte (k div n) SLOT_EMPTY)"

definition contents :: "nat \<Rightarrow> nat \<Rightarrow> nat \<Rightarrow> 'e rt_queue \<Rightarrow> 'e list" where
  "contents n d e Q = map (\<lambda>k. qdata Q ! (k mod n)) [d..<e]"

lemma ringD:
  assumes "queue_ring n d e Q"
  shows "size_ok n" "num_elems Q = of_nat n" "length (slots Q) = n" "length (qdata Q) = n" "d \<le> e"
    "e \<le> d + n" "enq Q = pos n e" "deq Q = pos n d"
    "k \<in> {d..<e} \<Longrightarrow> slots Q ! (k mod n) = slot_byte (k div n) SLOT_FULL"
    "k \<in> {e..<d + n} \<Longrightarrow> slots Q ! (k mod n) = slot_byte (k div n) SLOT_EMPTY"
  using assms by (simp_all add: queue_ring_def)

lemma mod_inj_window:
  fixes n d j k :: nat
  assumes "j \<in> {d..<d + n}" and "k \<in> {d..<d + n}" and "j mod n = k mod n"
  shows "j = k"
proof -
  have "j = k" if "j \<le> k" "k < j + n" "j mod n = k mod n" for j k
    using that by (metis add_diff_inverse_nat less_diff_conv2 mod_eq_dvd_iff_nat nat_dvd_not_less
        add.commute add_0_right not_less0 linorder_not_le neq0_conv le_add_diff_inverse)
  then show ?thesis using assms by (metis atLeastLessThan_iff linear add.commute
      add_le_cancel_right le_less_trans less_le_trans)
qed

lemma size_ok_index: "size_ok n \<Longrightarrow> k mod n < n"
  by (simp add: size_ok_def)

text \<open>Atomic accesses at the index of a position.\<close>

lemma slot_load_pos:
  "size_ok n \<Longrightarrow> length (slots Q) = n \<Longrightarrow> slot_load (qindex (pos n k)) Q = Some (slots Q ! (k mod n))"
  by (simp add: slot_load_def pos_index size_ok_index)

lemma slot_cas_pos:
  "size_ok n \<Longrightarrow> length (slots Q) = n \<Longrightarrow> slot_cas (qindex (pos n k)) x y Q =
     Some (if slots Q ! (k mod n) = x then (Q\<lparr>slots := (slots Q)[k mod n := y]\<rparr>, True, x)
           else (Q, False, slots Q ! (k mod n)))"
  by (simp add: slot_cas_def slot_load_pos pos_index)

lemma data_write_pos:
  "size_ok n \<Longrightarrow> length (qdata Q) = n \<Longrightarrow>
     data_write (qindex (pos n k)) x Q = Some (Q\<lparr>qdata := (qdata Q)[k mod n := x]\<rparr>)"
  by (simp add: data_write_def pos_index size_ok_index)

lemma data_read_pos:
  "size_ok n \<Longrightarrow> length (qdata Q) = n \<Longrightarrow> data_read (qindex (pos n k)) Q = Some (qdata Q ! (k mod n))"
  by (simp add: data_read_def pos_index size_ok_index)

lemmas pos_access = slot_load_pos slot_cas_pos data_write_pos data_read_pos pos_qsgen

lemma push_find_empty:
  assumes "size_ok n" and "length (slots Q) = n" and "slots Q ! (k mod n) = slot_byte (k div n) SLOT_EMPTY"
  shows "push_find Q (pos n k) l = Some (pos n k, slot_byte (k div n) SLOT_EMPTY)"
  using assms by (subst push_find.simps) (simp add: pos_access)

lemma push_claim_empty:
  assumes "size_ok n" and "num_elems Q = of_nat n" and "length (slots Q) = n"
    and "slots Q ! (k mod n) = slot_byte (k div n) SLOT_EMPTY" and "enq Q = pos n k"
  shows "push_claim Q =
     Some (Q\<lparr>slots := (slots Q)[k mod n := slot_byte (k div n) SLOT_PUSH], enq := pos n (Suc k)\<rparr>,
           pos n k, slot_byte (k div n) SLOT_PUSH)"
  using assms by (subst push_claim.simps) (simp add: push_find_empty slot_cas_pos next_pos Let_def)

text \<open>Publishing a slot claimed for position \<open>k\<close> that nobody has touched.\<close>

lemma push_publish_claimed:
  assumes "size_ok n" and "length (slots Q) = n" and "length (qdata Q) = n"
    and "slots Q ! (k mod n) = slot_byte (k div n) SLOT_PUSH"
  shows "push_publish x (pos n k) (slot_byte (k div n) SLOT_PUSH) Q =
     Some (Q\<lparr>slots := (slots Q)[k mod n := slot_byte (k div n) SLOT_FULL],
             qdata := (qdata Q)[k mod n := x]\<rparr>, True)"
  using assms by (simp add: push_publish_def pos_access Let_def)

text \<open>The queue after a push at position \<open>e\<close>, and after a pop at position \<open>d\<close>.\<close>

definition pushed :: "nat \<Rightarrow> nat \<Rightarrow> 'e \<Rightarrow> 'e rt_queue \<Rightarrow> 'e rt_queue" where
  "pushed n e x Q =
     Q\<lparr>slots := (slots Q)[e mod n := slot_byte (e div n) SLOT_FULL],
           enq := pos n (Suc e), qdata := (qdata Q)[e mod n := x]\<rparr>"

definition popped :: "nat \<Rightarrow> nat \<Rightarrow> 'e rt_queue \<Rightarrow> 'e rt_queue" where
  "popped n d Q =
     Q\<lparr>slots := (slots Q)[d mod n := slot_byte (Suc (d div n)) SLOT_EMPTY],
           deq := pos n (Suc d)\<rparr>"

lemma ring_push:
  assumes r: "queue_ring n d e Q" and e: "e < d + n"
  shows "queue_ring n d (Suc e) (pushed n e x Q)"
    and "contents n d (Suc e) (pushed n e x Q) = contents n d e Q @ [x]"
proof -
  note D = ringD [OF r] and pushed_def [simp]
  have i: "e mod n < n" using D(1) by (rule size_ok_index)
  have ne: "k mod n \<noteq> e mod n" if "k \<in> {d..<d + n}" "k \<noteq> e" for k
    using mod_inj_window [of k d n e] that e D(5) by auto
  have "slots (pushed n e x Q) ! (k mod n) = slot_byte (k div n) SLOT_FULL" if "k \<in> {d..<Suc e}" for k
    using that ne [of k] e D(3) D(9) [of k] i by (cases "k = e") auto
  moreover have "slots (pushed n e x Q) ! (k mod n) = slot_byte (k div n) SLOT_EMPTY" if "k \<in> {Suc e..<d + n}" for k
    using that ne [of k] D(5) D(10) [of k] by auto
  ultimately show "queue_ring n d (Suc e) (pushed n e x Q)" using D e by (simp add: queue_ring_def)
  have "qdata (pushed n e x Q) ! (k mod n) = qdata Q ! (k mod n)" if "k \<in> set [d..<e]" for k
    using that ne [of k] e by simp
  then have "map (\<lambda>k. qdata (pushed n e x Q) ! (k mod n)) [d..<e] = map (\<lambda>k. qdata Q ! (k mod n)) [d..<e]"
    by (rule map_cong [OF refl])
  then show "contents n d (Suc e) (pushed n e x Q) = contents n d e Q @ [x]" using D(4,5) i by (simp add: contents_def)
qed

lemma push_loop_empty:
  assumes "size_ok n" and "num_elems Q = of_nat n" and "length (slots Q) = n" and "length (qdata Q) = n"
    and "slots Q ! (k mod n) = slot_byte (k div n) SLOT_EMPTY" and "enq Q = pos n k"
  shows "push_loop x Q = Some (pushed n k x Q)"
  using assms size_ok_index [OF assms(1), of k]
  by (subst push_loop.simps) (simp add: push_claim_empty push_publish_claimed pushed_def)

lemma push_loop_ring: "queue_ring n d e Q \<Longrightarrow> e < d + n \<Longrightarrow> push_loop x Q = Some (pushed n e x Q)"
  by (rule push_loop_empty) (simp_all add: queue_ring_def)

text \<open>Finding the first element.\<close>

lemma pop_find_full:
  assumes "size_ok n" and "length (slots Q) = n" and "slots Q ! (k mod n) = slot_byte (k div n) st"
    and "st = SLOT_FULL \<or> st = SLOT_POP"
  shows "pop_find Q (pos n k) l = Some (Q, pos n k, slot_byte (k div n) st)"
  using assms by (subst pop_find.simps) (auto simp: pos_access Let_def)

lemma pop_claim_found:
  assumes "pop_find Q (deq Q) (deq Q) = Some (Q', pos n k, slot_byte (k div n) st)"
    and "size_ok n" and "length (slots Q') = n" and "slots Q' ! (k mod n) = slot_byte (k div n) st" and "is_state st"
  shows "pop_claim Q = Some (Q'\<lparr>slots := (slots Q')[k mod n := slot_byte (k div n) SLOT_POP]\<rparr>,
     pos n k, slot_byte (k div n) st)"
  using assms by (subst pop_claim.simps) (simp add: slot_cas_pos Let_def)

lemma pop_release_claimed:
  assumes "size_ok n" and "num_elems Q = of_nat n" and "length (slots Q) = n" and "length (qdata Q) = n"
    and "slots Q ! (k mod n) = slot_byte (k div n) SLOT_POP" and "is_state st"
  shows "pop_release (pos n k) (slot_byte (k div n) st) Q =
     Some (Q\<lparr>slots := (slots Q)[k mod n := slot_byte (Suc (k div n)) SLOT_EMPTY], deq := pos n (Suc k)\<rparr>,
           Some (qdata Q ! (k mod n)))"
  using assms by (simp add: pop_release_def pos_access next_pos Let_def)

lemma ring_pop:
  assumes r: "queue_ring n d e Q" and e: "d < e"
  shows "queue_ring n (Suc d) e (popped n d Q)"
    and "contents n d e Q = qdata Q ! (d mod n) # contents n (Suc d) e (popped n d Q)"
proof -
  note D = ringD [OF r] and popped_def [simp]
  have i: "d mod n < n" using D(1) by (rule size_ok_index)
  have n: "0 < n" using D(1) by (simp add: size_ok_def)
  have ne: "k mod n \<noteq> d mod n" if "k \<in> {Suc d..<d + n}" for k
    using mod_inj_window [of k d n d] that by auto
  have "slots (popped n d Q) ! (k mod n) = slot_byte (k div n) SLOT_FULL" if "k \<in> {Suc d..<e}" for k
    using that ne [of k] D(6) D(9) [of k] by auto
  moreover have "slots (popped n d Q) ! (k mod n) = slot_byte (k div n) SLOT_EMPTY" if "k \<in> {e..<Suc d + n}" for k
    using that ne [of k] D(3) D(10) [of k] i n e by (cases "k = d + n") (auto simp: div_add_self2)
  ultimately show "queue_ring n (Suc d) e (popped n d Q)" using D e by (simp add: queue_ring_def)
  show "contents n d e Q = qdata Q ! (d mod n) # contents n (Suc d) e (popped n d Q)"
    using e by (simp add: contents_def upt_conv_Cons)
qed

lemma pop_loop_found:
  assumes "pop_find Q (deq Q) (deq Q) = Some (Q', pos n k, slot_byte (k div n) st)" and "size_ok n"
    and "num_elems Q' = of_nat n" and "length (slots Q') = n" and "length (qdata Q') = n"
    and "slots Q' ! (k mod n) = slot_byte (k div n) st" and "is_state st"
  shows "pop_loop Q = Some (popped n k Q', qdata Q' ! (k mod n))"
  using assms(2-) size_ok_index [OF assms(2), of k]
  by (subst pop_loop.simps) (simp add: pop_claim_found [OF assms(1)] pop_release_claimed popped_def)

lemma pop_loop_ring: "queue_ring n d e Q \<Longrightarrow> d < e \<Longrightarrow> pop_loop Q = Some (popped n d Q, qdata Q ! (d mod n))"
  by (rule pop_loop_found [where st = SLOT_FULL]) (simp_all add: queue_ring_def pop_find_full)

section \<open>Preempted pushers and poppers\<close>

text \<open>A popper that meets a push in progress skips its slot and goes on to the next position.\<close>

lemma pop_find_skip:
  assumes "size_ok n" and "num_elems Q = of_nat n" and "length (slots Q) = n"
    and "slots Q ! (k mod n) = slot_byte (k div n) SLOT_PUSH" and "deq Q = l"
  shows "pop_find Q (pos n k) l =
     pop_find (Q\<lparr>slots := (slots Q)[k mod n := slot_byte (Suc (k div n)) SLOT_SKIPPED]\<rparr>) (pos n (Suc k)) l"
  using assms by (subst pop_find.simps) (simp add: pos_access next_pos Let_def)

text \<open>A popper or a peeker passes over a slot of another generation.\<close>

lemma pop_find_other_gen:
  assumes "size_ok n" and "num_elems Q = of_nat n" and "length (slots Q) = n"
    and "slots Q ! (k mod n) = slot_byte g st" and "is_state st" and "g mod 16 \<noteq> k div n mod 16" and "deq Q = l"
  shows "pop_find Q (pos n k) l = pop_find Q (pos n (Suc k)) l"
  using assms by (subst pop_find.simps) (simp add: pos_access next_pos Let_def slot_byte_0_eq)

lemma push_publish_skipped:
  assumes "size_ok n" and "length (slots Q) = n" and "length (qdata Q) = n"
    and "slots Q ! (k mod n) = slot_byte (Suc (k div n)) SLOT_SKIPPED"
  shows "push_publish x (pos n k) (slot_byte (k div n) SLOT_PUSH) Q =
     Some (Q\<lparr>slots := (slots Q)[k mod n := slot_byte (Suc (k div n)) SLOT_EMPTY],
             qdata := (qdata Q)[k mod n := x]\<rparr>, False)"
  using assms
  by (simp add: push_publish_def pos_access Let_def slot_byte_eq)
    (subst push_restore.simps, simp add: pos_access)

lemma pop_release_lost:
  assumes "size_ok n" and "length (slots Q) = n" and "length (qdata Q) = n"
    and "slots Q ! (k mod n) \<noteq> slot_byte (k div n) SLOT_POP" and "is_state st"
  shows "pop_release (pos n k) (slot_byte (k div n) st) Q = Some (Q, None)"
  using assms by (simp add: pop_release_def pos_access Let_def)

section \<open>Peek\<close>

text \<open>
  Peek reads the first element, but stores the slot back as full in the next generation, so that
  the following pop does not find the element at its position and takes the second one.
\<close>

lemma peek_loop_ring:
  assumes r: "queue_ring n d e Q" and e: "d < e"
  shows "peek_loop Q = Some (Q\<lparr>slots := (slots Q)[d mod n := slot_byte (Suc (d div n)) SLOT_FULL]\<rparr>,
     qdata Q ! (d mod n))"
proof -
  note D = ringD [OF r]
  have full: "slots Q ! (d mod n) = slot_byte (d div n) SLOT_FULL" using D(9) e by simp
  then have "peek_find Q (deq Q) (deq Q) = Some (pos n d, slot_byte (d div n) SLOT_FULL)"
    using D(1,3,8) by (subst peek_find.simps) (simp add: pos_access)
  then show ?thesis
    using D(1,3,4) full size_ok_index [OF D(1), of d]
    by (subst peek_loop.simps) (simp add: pos_access Let_def)
qed

section \<open>A bounded queue\<close>

text \<open>
  What a client of a bounded queue relies on: a push appends when there is room and reports
  failure otherwise, a pop takes the oldest element and reports failure when there is none, and
  both always return.
\<close>

datatype 'e queue_op = Push 'e | Pop

datatype 'e queue_out = Pushed bool | Popped "'e option"

fun fifo_op :: "nat \<Rightarrow> 'e queue_op \<Rightarrow> 'e list \<Rightarrow> 'e list \<times> 'e queue_out" where
  "fifo_op cap (Push x) xs = (if length xs < cap then (xs @ [x], Pushed True) else (xs, Pushed False))"
| "fifo_op cap Pop [] = ([], Popped None)"
| "fifo_op cap Pop (x # xs) = (xs, Popped (Some x))"

fun fifo_run :: "nat \<Rightarrow> 'e queue_op list \<Rightarrow> 'e list \<Rightarrow> 'e list \<times> 'e queue_out list" where
  "fifo_run cap [] xs = (xs, [])"
| "fifo_run cap (oper # ops) xs =
     (let (xs, out) = fifo_op cap oper xs; (xs, outs) = fifo_run cap ops xs in (xs, out # outs))"

fun queue_run :: "('e \<Rightarrow> 'q \<Rightarrow> ('q \<times> bool) option) \<Rightarrow> ('q \<Rightarrow> ('q \<times> 'e option) option) \<Rightarrow>
    'e queue_op list \<Rightarrow> 'q \<Rightarrow> ('q \<times> 'e queue_out list) option" where
  "queue_run push pop [] q = Some (q, [])"
| "queue_run push pop (Push x # ops) q =
     do { (q, ok) \<leftarrow> push x q; (q, outs) \<leftarrow> queue_run push pop ops q; Some (q, Pushed ok # outs) }"
| "queue_run push pop (Pop # ops) q =
     do { (q, r) \<leftarrow> pop q; (q, outs) \<leftarrow> queue_run push pop ops q; Some (q, Popped r # outs) }"

locale bounded_fifo =
  fixes rep :: "'q \<Rightarrow> 'e list \<Rightarrow> bool"
    and cap :: nat
    and push :: "'e \<Rightarrow> 'q \<Rightarrow> ('q \<times> bool) option"
    and pop :: "'q \<Rightarrow> ('q \<times> 'e option) option"
  assumes push_room: "rep q xs \<Longrightarrow> length xs < cap \<Longrightarrow> \<exists>q'. push x q = Some (q', True) \<and> rep q' (xs @ [x])"
    and push_full: "rep q xs \<Longrightarrow> length xs \<ge> cap \<Longrightarrow> push x q = Some (q, False)"
    and pop_first: "rep q (x # xs) \<Longrightarrow> \<exists>q'. pop q = Some (q', Some x) \<and> rep q' xs"
    and pop_none: "rep q [] \<Longrightarrow> pop q = Some (q, None)"
begin

lemma run_refines:
  "rep q xs \<Longrightarrow> \<exists>q'. queue_run push pop ops q = Some (q', snd (fifo_run cap ops xs)) \<and>
     rep q' (fst (fifo_run cap ops xs))"
proof (induction ops arbitrary: q xs)
  case (Cons oper ops)
  show ?case
  proof (cases oper)
    case (Push x)
    show ?thesis
    proof (cases "length xs < cap")
      case True
      then obtain q' where "push x q = Some (q', True)" "rep q' (xs @ [x])"
        using push_room [OF Cons.prems] by blast
      then show ?thesis using Cons.IH [of q' "xs @ [x]"] True Push by (auto simp: split_def Let_def)
    next
      case False
      then show ?thesis using Cons.IH [OF Cons.prems] push_full [OF Cons.prems, of x] Push by (auto simp: split_def Let_def)
    qed
  next
    case Pop
    then show ?thesis
      using Cons.IH pop_first pop_none Cons.prems by (cases xs) (fastforce simp: split_def Let_def)+
  qed
qed simp

lemma fill_and_drain:
  assumes "rep q []" and "length xs \<le> cap"
  shows "\<exists>q'. queue_run push pop (map Push xs @ replicate (length xs) Pop) q =
     Some (q', replicate (length xs) (Pushed True) @ map (Popped \<circ> Some) xs) \<and> rep q' []"
proof -
  have push: "fifo_run cap (map Push ys @ ops) zs =
      (let (vs, outs) = fifo_run cap ops (zs @ ys) in (vs, replicate (length ys) (Pushed True) @ outs))"
    if "length zs + length ys \<le> cap" for ys ops and zs :: "'b list"
    using that by (induction ys arbitrary: zs) (auto simp: Let_def split_def)
  have pop: "fifo_run cap (replicate (length ys) Pop) ys = ([], map (Popped \<circ> Some) ys)" for ys :: "'b list"
    by (induction ys) auto
  show ?thesis using run_refines [OF assms(1), of "map Push xs @ replicate (length xs) Pop"] assms(2)
    by (simp add: push pop)
qed

end

text \<open>
  The two non-blocking functions implement it. The semaphores count the room and the elements:
  their maximum is \<open>INT_MAX\<close>, as the initialiser sets it.
\<close>

definition queue_rep :: "nat \<Rightarrow> 'e rt_queue \<times> kernel \<Rightarrow> 'e list \<Rightarrow> bool" where
  "queue_rep n q xs \<longleftrightarrow> (\<exists>d e. queue_ring n d e (fst q) \<and> xs = contents n d e (fst q)) \<and>
     push_sem (fst q) \<noteq> pop_sem (fst q) \<and>
     sem_value (sem (snd q) (push_sem (fst q))) = int n - int (length xs) \<and>
     sem_value (sem (snd q) (pop_sem (fst q))) = int (length xs) \<and>
     max_value (sem (snd q) (push_sem (fst q))) = INT_MAX \<and> max_value (sem (snd q) (pop_sem (fst q))) = INT_MAX"

definition trypush :: "'e \<Rightarrow> 'e rt_queue \<times> kernel \<Rightarrow> (('e rt_queue \<times> kernel) \<times> bool) option" where
  "trypush x q = map_option (\<lambda>(Q, s, ok). ((Q, s), ok)) (rt_queue_trypush x (fst q) (snd q))"

definition trypop :: "'e rt_queue \<times> kernel \<Rightarrow> (('e rt_queue \<times> kernel) \<times> 'e option) option" where
  "trypop q = map_option (\<lambda>(Q, s, r). ((Q, s), r)) (rt_queue_trypop (fst q) (snd q))"

lemma pushed_sems [simp]: "push_sem (pushed n e x Q) = push_sem Q" "pop_sem (pushed n e x Q) = pop_sem Q"
  by (simp_all add: pushed_def)

lemma popped_sems [simp]: "push_sem (popped n d Q) = push_sem Q" "pop_sem (popped n d Q) = pop_sem Q"
  by (simp_all add: popped_def)

lemma length_contents [simp]: "length (contents n d e Q) = e - d"
  by (simp add: contents_def)

lemma rt_sem_post_room:
  "0 \<le> sem_value (sem s m) \<Longrightarrow> sem_value (sem s m) < INT_MAX \<Longrightarrow> max_value (sem s m) = INT_MAX \<Longrightarrow>
   rt_sem_post m s = upd_sem m (\<lambda>q. q\<lparr>sem_value := sem_value q + 1\<rparr>) s"
  by (simp add: rt_sem_post_def rt_sem_post_n_def new_value_def upd_sem_def)

lemma rt_queue_trypush_room:
  assumes "queue_rep n (Q, s) xs" and len: "length xs < n"
  shows "\<exists>Q' s'. rt_queue_trypush x Q s = Some (Q', s', True) \<and> queue_rep n (Q', s') (xs @ [x])"
proof -
  obtain d e where r: "queue_ring n d e Q" and xs: "xs = contents n d e Q"
    and sems: "push_sem Q \<noteq> pop_sem Q" "sem_value (sem s (push_sem Q)) = int n - int (length xs)"
      "sem_value (sem s (pop_sem Q)) = int (length xs)"
      "max_value (sem s (push_sem Q)) = INT_MAX" "max_value (sem s (pop_sem Q)) = INT_MAX"
    using assms(1) unfolding queue_rep_def by auto
  note D = ringD [OF r]
  have n: "int n < 2 ^ 28" using D(1) unfolding size_ok_def by (metis of_nat_less_iff of_nat_numeral of_nat_power)
  have e: "e < d + n" using len xs D(5,6) by simp
  define s1 where "s1 = upd_sem (push_sem Q) (\<lambda>q. q\<lparr>sem_value := sem_value q - 1\<rparr>) s"
  define s2 where "s2 = upd_sem (pop_sem Q) (\<lambda>q. q\<lparr>sem_value := sem_value q + 1\<rparr>) s1"
  have "rt_sem_trywait (push_sem Q) s = (s1, True)" using len sems(2) by (simp add: rt_sem_trywait_def s1_def)
  moreover have "rt_sem_post (pop_sem Q) s1 = s2"
    unfolding s2_def by (rule rt_sem_post_room) (use sems len n in \<open>simp_all add: s1_def kernel_simps\<close>)
  ultimately have "rt_queue_trypush x Q s = Some (pushed n e x Q, s2, True)"
    by (simp add: rt_queue_trypush_def queue_push_def push_loop_ring [OF r e])
  moreover have "queue_rep n (pushed n e x Q, s2) (xs @ [x])"
    unfolding queue_rep_def fst_conv snd_conv
    by (intro conjI exI [of _ d] exI [of _ "Suc e"])
      (use ring_push [OF r e, of x] sems xs in \<open>simp_all add: s2_def s1_def kernel_simps\<close>)
  ultimately show ?thesis by blast
qed

lemma rt_queue_trypop_first:
  assumes "queue_rep n (Q, s) (x # xs)"
  shows "\<exists>Q' s'. rt_queue_trypop Q s = Some (Q', s', Some x) \<and> queue_rep n (Q', s') xs"
proof -
  obtain d e where r: "queue_ring n d e Q" and xs: "x # xs = contents n d e Q"
    and sems: "push_sem Q \<noteq> pop_sem Q" "sem_value (sem s (push_sem Q)) = int n - int (Suc (length xs))"
      "sem_value (sem s (pop_sem Q)) = int (Suc (length xs))"
      "max_value (sem s (push_sem Q)) = INT_MAX" "max_value (sem s (pop_sem Q)) = INT_MAX"
    using assms(1) unfolding queue_rep_def by auto
  note D = ringD [OF r]
  have n: "int n < 2 ^ 28" using D(1) unfolding size_ok_def by (metis of_nat_less_iff of_nat_numeral of_nat_power)
  have len: "Suc (length xs) = e - d" using arg_cong [OF xs, of length] by simp
  then have e: "d < e" by simp
  define s1 where "s1 = upd_sem (pop_sem Q) (\<lambda>q. q\<lparr>sem_value := sem_value q - 1\<rparr>) s"
  define s2 where "s2 = upd_sem (push_sem Q) (\<lambda>q. q\<lparr>sem_value := sem_value q + 1\<rparr>) s1"
  have "rt_sem_trywait (pop_sem Q) s = (s1, True)" using sems(3) by (simp add: rt_sem_trywait_def s1_def)
  moreover have "rt_sem_post (push_sem Q) s1 = s2"
    unfolding s2_def by (rule rt_sem_post_room) (use sems len n D(6) in \<open>simp_all add: s1_def kernel_simps\<close>)
  moreover have c: "qdata Q ! (d mod n) = x" "contents n (Suc d) e (popped n d Q) = xs"
    using ring_pop(2) [OF r e] xs by simp_all
  ultimately have "rt_queue_trypop Q s = Some (popped n d Q, s2, Some x)"
    by (simp add: rt_queue_trypop_def queue_pop_def pop_loop_ring [OF r e])
  moreover have "queue_rep n (popped n d Q, s2) xs"
    using ring_pop(1) [OF r e] sems c(2)
    by (auto simp: queue_rep_def s2_def s1_def kernel_simps simp del: length_contents)
  ultimately show ?thesis by blast
qed

interpretation rt_fifo: bounded_fifo "queue_rep n" n trypush trypop for n
proof
  show "\<exists>q'. trypush x q = Some (q', True) \<and> queue_rep n q' (xs @ [x])"
    if "queue_rep n q xs" "length xs < n" for q :: "'a rt_queue \<times> kernel" and xs x
    using rt_queue_trypush_room [of n "fst q" "snd q" xs x] that by (auto simp: trypush_def)
  show "trypush x q = Some (q, False)"
    if "queue_rep n q xs" "length xs \<ge> n" for q :: "'a rt_queue \<times> kernel" and xs x
    using that by (auto simp: trypush_def queue_rep_def rt_queue_trypush_def rt_sem_trywait_def)
  show "\<exists>q'. trypop q = Some (q', Some x) \<and> queue_rep n q' xs"
    if "queue_rep n q (x # xs)" for q :: "'a rt_queue \<times> kernel" and xs x
    using rt_queue_trypop_first [of n "fst q" "snd q" x xs] that by (auto simp: trypop_def)
  show "trypop q = Some (q, None)" if "queue_rep n q []" for q :: "'a rt_queue \<times> kernel"
    using that by (auto simp: trypop_def queue_rep_def rt_queue_trypop_def rt_sem_trywait_def)
qed

lemma RT_QUEUE_STATIC_rep:
  assumes "0 < num" and "num \<le> RT_QUEUE_MAX_SIZE" and "length d = unat num" and "psem \<noteq> osem"
  shows "queue_rep (unat num) (RT_QUEUE_STATIC psem osem d num s) []"
proof -
  have n: "size_ok (unat num)" using assms(1,2) by (simp add: size_ok_def word_less_nat_alt word_le_nat_alt)
  then have "queue_ring (unat num) 0 0 (fst (RT_QUEUE_STATIC psem osem d num s))"
    using assms(3) by (simp add: RT_QUEUE_STATIC_def queue_ring_def pos_def slot_byte_def)
  moreover have "contents (unat num) 0 0 (fst (RT_QUEUE_STATIC psem osem d num s)) = []" by (simp add: contents_def)
  ultimately show ?thesis
    using assms(4) unfolding queue_rep_def
    by (simp add: exI [of _ 0]) (auto simp: RT_QUEUE_STATIC_def RT_SEM_INIT_def RT_SEM_INIT_MAX_def kernel_simps)
qed

lemma position_is_pos:
  assumes "size_ok n" and "unat (qindex q) < n"
  obtains k where "q = pos n k"
proof
  let ?g = "unat q div 2 ^ 28" and ?i = "unat q mod 2 ^ 28"
  have i: "?i < n" using assms(2) by (simp add: qindex_unat)
  have "unat q < 2 ^ 32" using unsigned_less [of q, where ?'a = nat] by simp
  then have g: "?g < 16" by (simp add: less_mult_imp_div_less)
  have "pos n (?g * n + ?i) = of_nat (?g * 2 ^ 28 + ?i)" using i g by (simp add: pos_def)
  also have "?g * 2 ^ 28 + ?i = unat q" by simp
  finally show "q = pos n (?g * n + ?i)" by simp
qed

lemma queue_rep_ring:
  "queue_rep n q xs \<Longrightarrow> \<exists>d e. queue_ring n d e (fst q) \<and> contents n d e (fst q) = xs"
  by (auto simp: queue_rep_def)

text \<open>Queues with room for two numbers, for examples: an empty one and a full one.\<close>

definition empty_queue :: "nat rt_queue" where
  "empty_queue = fst (RT_QUEUE_STATIC 1 2 [0, 0] 2 kernel_init)"

definition full_queue :: "nat rt_queue" where
  "full_queue = pushed 2 1 8 (pushed 2 0 7 empty_queue)"

lemma empty_queue_ring: "queue_ring 2 0 0 empty_queue"
  by (simp add: empty_queue_def RT_QUEUE_STATIC_def queue_ring_def pos_def slot_byte_def size_ok_def)

lemma full_queue_ring: "queue_ring 2 0 2 full_queue" "contents 2 0 2 full_queue = [7, 8]"
proof -
  have r: "queue_ring 2 0 1 (pushed 2 0 7 empty_queue)" "contents 2 0 1 (pushed 2 0 7 empty_queue) = [7]"
    using ring_push [OF empty_queue_ring, of 7] by (simp_all add: contents_def)
  show "queue_ring 2 0 2 full_queue" "contents 2 0 2 full_queue = [7, 8]"
    using ring_push [OF r(1), of 8] r(2) unfolding full_queue_def numeral_2_eq_2 by simp_all
qed

section \<open>Properties\<close>

text \<open>
  C11. The queue is a bounded first-in first-out queue: from its initialiser on, every sequence of
  non-blocking pushes and pops returns and gives the results of a list of at most \<open>num\<close> elements,
  however often positions and generations wrap around. A push is refused exactly when the queue is
  full and a pop exactly when it is empty.
\<close>

theorem queue_refines_fifo:
  assumes "0 < num" and "num \<le> RT_QUEUE_MAX_SIZE" and "length d = unat num" and "psem \<noteq> osem"
  shows "\<exists>q. queue_run trypush trypop ops (RT_QUEUE_STATIC psem osem d num s) =
       Some (q, snd (fifo_run (unat num) ops [])) \<and>
     queue_rep (unat num) q (fst (fifo_run (unat num) ops []))"
  by (rule rt_fifo.run_refines [OF RT_QUEUE_STATIC_rep [OF assms]])

theorem queue_refines_fifo_witness:
  "\<exists>q. queue_run trypush trypop [Push 7, Push 8, Push 9, Pop, Pop, Pop] (RT_QUEUE_STATIC 1 2 [0 :: nat, 0] 2 kernel_init) =
       Some (q, [Pushed True, Pushed True, Pushed False, Popped (Some 7), Popped (Some 8), Popped None])"
  using queue_refines_fifo [of 2 "[0 :: nat, 0]" 1 2 "[Push 7, Push 8, Push 9, Pop, Pop, Pop]" kernel_init]
  by auto

text \<open>
  Round trip: an empty queue that is filled with elements, as many as it has room for, gives
  back these elements in the same order, and is empty again.
\<close>

theorem queue_round_trip:
  assumes "queue_rep n q []" and "length xs \<le> n"
  shows "\<exists>q'. queue_run trypush trypop (map Push xs @ replicate (length xs) Pop) q =
     Some (q', replicate (length xs) (Pushed True) @ map (Popped \<circ> Some) xs) \<and> queue_rep n q' []"
  by (rule rt_fifo.fill_and_drain [OF assms])

theorem queue_round_trip_witness:
  "\<exists>q'. queue_run trypush trypop [Push 7, Push 8, Pop, Pop] (RT_QUEUE_STATIC 1 2 [0 :: nat, 0] 2 kernel_init) =
     Some (q', [Pushed True, Pushed True, Popped (Some 7), Popped (Some 8)]) \<and> queue_rep 2 q' []"
proof -
  have "queue_rep 2 (RT_QUEUE_STATIC 1 2 [0 :: nat, 0] 2 kernel_init) []"
    using RT_QUEUE_STATIC_rep [of 2 "[0 :: nat, 0]" 1 2 kernel_init] by simp
  from queue_round_trip [OF this, of "[7, 8]"] show ?thesis by (simp del: queue_run.simps)
qed

text \<open>
  C13. A pusher that is preempted after it has claimed its slot neither blocks others nor loses its
  element: another task pushes \<open>y\<close>, a popper skips the slot in progress and takes \<open>y\<close>, and the
  first pusher, finding its slot skipped, gives it back and pushes its element anew.
\<close>

theorem preempted_push_is_retried:
  assumes r: "queue_ring n e e Q" and n: "2 \<le> n"
  shows "\<exists>Q1 q c Q2 Q3 Q4 Q5. push_claim Q = Some (Q1, q, c) \<and> push_loop y Q1 = Some Q2 \<and>
     pop_loop Q2 = Some (Q3, y) \<and> push_publish x q c Q3 = Some (Q4, False) \<and> push_loop x Q4 = Some Q5 \<and>
     queue_ring n (e + 2) (e + 3) Q5 \<and> contents n (e + 2) (e + 3) Q5 = [x]"
proof -
  note D = ringD [OF r]
  have ne: "e mod n \<noteq> Suc e mod n" using mod_inj_window [of e e n "Suc e"] n by auto
  have i: "e mod n < n" "Suc e mod n < n" using D(1) by (simp_all add: size_ok_index)
  define b where "b = slot_byte (e div n)"
  define c where "c = slot_byte (Suc e div n)"
  define Q1 where "Q1 = Q\<lparr>slots := (slots Q)[e mod n := b SLOT_PUSH], enq := pos n (Suc e)\<rparr>"
  define Q2 where "Q2 = pushed n (Suc e) y Q1"
  define Q2' where "Q2' = Q2\<lparr>slots := (slots Q2)[e mod n := slot_byte (Suc (e div n)) SLOT_SKIPPED]\<rparr>"
  define Q3 where "Q3 = popped n (Suc e) Q2'"
  define Q4 where "Q4 = Q3\<lparr>slots := (slots Q3)[e mod n := slot_byte (Suc (e div n)) SLOT_EMPTY],
      qdata := (qdata Q3)[e mod n := x]\<rparr>"
  note defs = Q1_def Q2_def Q2'_def Q3_def Q4_def pushed_def popped_def b_def c_def
  have s1: "push_claim Q = Some (Q1, pos n e, b SLOT_PUSH)"
    using push_claim_empty [of n Q e] D n by (simp add: Q1_def b_def)
  have "slots Q ! (Suc e mod n) = c SLOT_EMPTY" using D(10) [of "Suc e"] n by (simp add: c_def)
  then have s2: "push_loop y Q1 = Some Q2"
    using D(1-4) ne unfolding Q2_def by (intro push_loop_empty) (simp_all add: Q1_def c_def)
  have "slots Q2 ! (e mod n) = b SLOT_PUSH" "slots Q2 ! (Suc e mod n) = c SLOT_FULL" 
    using D(3) i ne by (simp_all add: Q2_def Q1_def pushed_def c_def)
  then have f: "pop_find Q2 (deq Q2) (deq Q2) = Some (Q2', pos n (Suc e), c SLOT_FULL)"
    using D(1-4,8) ne i pop_find_skip [of n Q2 e] pop_find_full [of n Q2' "Suc e" SLOT_FULL] by (simp add: defs)
  then have s3: "pop_loop Q2 = Some (Q3, y)"
    using pop_loop_found [OF f [unfolded c_def]] D(1-4) ne i by (simp add: defs)
  have s4: "push_publish x (pos n e) (b SLOT_PUSH) Q3 = Some (Q4, False)"
    using push_publish_skipped [of n Q3 e] D(1-4) ne i by (simp add: defs)
  have r4: "queue_ring n (e + 2) (e + 2) Q4"
  proof -
    have "slots Q4 ! (k mod n) = slot_byte (k div n) SLOT_EMPTY" if k: "k \<in> {e + 2..<e + 2 + n}" for k
    proof -
      consider "k = e + n" | "k = Suc e + n" | "k \<in> {e + 2..<e + n}" using k by fastforce
      then show ?thesis
      proof cases
        case 3
        then have "k mod n \<noteq> e mod n" "k mod n \<noteq> Suc e mod n"
          using mod_inj_window [of k e n e] mod_inj_window [of k e n "Suc e"] n by auto
        then show ?thesis using D(10) [of k] 3 by (simp add: defs)
      next
        case 2
        then have "k mod n = Suc e mod n" "k div n = Suc (Suc e div n)"
          using n mod_add_self2 [of "Suc e" n] div_add_self2 [of n "Suc e"] by simp_all
        then show ?thesis using D(3) ne i by (simp add: defs)
      qed (use D(3) ne i n in \<open>simp add: defs div_add_self2\<close>)
    qed
    then show ?thesis using D(1-4) by (simp add: queue_ring_def defs)
  qed
  have s5: "push_loop x Q4 = Some (pushed n (e + 2) x Q4)" using push_loop_ring [OF r4] n by simp
  have "queue_ring n (e + 2) (e + 3) (pushed n (e + 2) x Q4)" "contents n (e + 2) (e + 3) (pushed n (e + 2) x Q4) = [x]"
    using ring_push [OF r4] n by (simp_all add: contents_def numeral_3_eq_3)
  with s1 s2 s3 s4 s5 show ?thesis by blast
qed

theorem preempted_push_is_retried_witness:
  "\<exists>Q1 q c Q2 Q3. push_claim empty_queue = Some (Q1, q, c) \<and>
     push_loop 8 Q1 = Some Q2 \<and> pop_loop Q2 = Some (Q3, 8)"
  using preempted_push_is_retried [OF empty_queue_ring, of 8 7] by auto



text \<open>
  C15. Peek does not leave the queue as it was: it reads the first element \<open>x\<close>, but the next pop
  takes the second element \<open>y\<close>, because peek marks the slot with the next generation.
\<close>

theorem peek_breaks_order:
  assumes r: "queue_ring n d e Q" and xs: "contents n d e Q = x # y # zs"
  shows "\<exists>Q1 Q2. peek_loop Q = Some (Q1, x) \<and> pop_loop Q1 = Some (Q2, y)"
proof -
  note D = ringD [OF r]
  have de: "Suc d < e" using arg_cong [OF xs, of length] by (simp add: contents_def)
  have i: "d mod n < n" using D(1) by (simp add: size_ok_index)
  have n: "2 \<le> n" using de D(6) by simp
  have ne: "d mod n \<noteq> Suc d mod n" using mod_inj_window [of d d n "Suc d"] n by auto
  define Q1 where "Q1 = Q\<lparr>slots := (slots Q)[d mod n := slot_byte (Suc (d div n)) SLOT_FULL]\<rparr>"
  have xy: "qdata Q ! (d mod n) = x" "qdata Q ! (Suc d mod n) = y"
    using xs de by (simp_all add: contents_def upt_conv_Cons)
  have "slots Q1 ! (Suc d mod n) = slot_byte (Suc d div n) SLOT_FULL"
    using D(9) [of "Suc d"] de ne by (simp add: Q1_def)
  moreover have "Suc (d div n) mod 16 \<noteq> d div n mod 16" by (simp add: mod_Suc)
  ultimately have "pop_find Q1 (deq Q1) (deq Q1) = Some (Q1, pos n (Suc d), slot_byte (Suc d div n) SLOT_FULL)"
    using D i pop_find_other_gen [of n Q1 d "Suc (d div n)" SLOT_FULL] pop_find_full [of n Q1 "Suc d" SLOT_FULL]
    by (simp add: Q1_def)
  from pop_loop_found [OF this] have "pop_loop Q1 = Some (popped n (Suc d) Q1, y)"
    using D(1-4) D(9) [of "Suc d"] de ne xy by (simp add: Q1_def)
  moreover have "peek_loop Q = Some (Q1, x)" using peek_loop_ring [OF r] de xy by (simp add: Q1_def)
  ultimately show ?thesis by blast
qed

theorem peek_breaks_order_witness:
  "\<exists>Q1 Q2.
     peek_loop full_queue = Some (Q1, 7) \<and>
     pop_loop Q1 = Some (Q2, 8)"
  by (rule peek_breaks_order [OF full_queue_ring])

text \<open>
  Positions stay in range: the position after one with an index below the number of slots has
  such an index too. It is the next index of the same generation or, past the last slot, index 0
  of the next generation, whose four bits wrap around.
\<close>

theorem next_stays_in_range:
  assumes "num \<le> RT_QUEUE_MAX_SIZE" and "qindex q < num"
  shows "qindex (next_pos q num) < num \<and>
     (if qindex q + 1 < num then qindex (next_pos q num) = qindex q + 1 \<and> qsgen (next_pos q num) = qsgen q
      else qindex (next_pos q num) = 0 \<and> qsgen (next_pos q num) = qsgen q + SLOT_GEN_INCREMENT)"
proof -
  let ?n = "unat num"
  have n: "size_ok ?n" using assms by (auto simp: size_ok_def word_less_nat_alt word_le_nat_alt)
  obtain k where q: "q = pos ?n k" using position_is_pos [OF n] assms(2) by (auto simp: word_less_nat_alt)
  have nx: "next_pos q num = pos ?n (Suc k)" using next_pos [OF n, of k] q by simp
  have i: "k mod ?n < ?n" using n by (simp add: size_ok_def)
  have inc: "unat (qindex q + 1) = Suc (k mod ?n)"
  proof -
    have "qindex q \<noteq> -1" using assms by auto
    then have "unat (qindex q + 1) = Suc (unat (qindex q))" by (rule unat_inc)
    then show ?thesis unfolding q pos_index [OF n] .
  qed
  have idx: "unat (qindex (next_pos q num)) = Suc k mod ?n" unfolding nx pos_index [OF n] ..
  have gen: "qsgen (next_pos q num) = slot_byte (Suc k div ?n) 0" "qsgen q = slot_byte (k div ?n) 0"
    unfolding nx by (simp_all add: q pos_qsgen [OF n])
  show ?thesis
  proof (cases "Suc (k mod ?n) < ?n")
    case True
    then have "Suc k mod ?n = Suc (k mod ?n)" "Suc k div ?n = k div ?n" by (simp_all add: mod_Suc div_Suc)
    then show ?thesis using True idx inc gen by (simp add: word_less_nat_alt word_unat_eq_iff)
  next
    case False
    then have "Suc k mod ?n = 0" "Suc k div ?n = Suc (k div ?n)" using i by (simp_all add: mod_Suc div_Suc)
    moreover have "qindex (next_pos q num) = 0" using idx calculation(1) by (simp add: unat_eq_0)
    ultimately show ?thesis using False inc gen i by (simp add: word_less_nat_alt)
  qed
qed

end
