(* ===== verification/Rt_Mutex.thy ===== *)
theory Rt_Mutex
  imports Rt_Sem
begin

text \<open>
  The mutex of \<^verbatim>\<open>src/mutex.c\<close>: a binary semaphore that starts at 1. As in \<open>Rt_Sem\<close>, a function
  that submits a system call returns the state in which the call is pending.
\<close>

record rt_mutex =
  mutex_sem :: sem_id

definition rt_mutex_init :: "rt_mutex \<Rightarrow> kernel \<Rightarrow> kernel" where
  "rt_mutex_init mutex s = rt_sem_init_binary (mutex_sem mutex) 1 s"

definition rt_mutex_lock :: "rt_mutex \<Rightarrow> kernel \<Rightarrow> kernel" where
  "rt_mutex_lock mutex s = rt_sem_wait (mutex_sem mutex) s"

definition rt_mutex_trylock :: "rt_mutex \<Rightarrow> kernel \<Rightarrow> kernel \<times> bool" where
  "rt_mutex_trylock mutex s = rt_sem_trywait (mutex_sem mutex) s"

definition rt_mutex_timedlock :: "rt_mutex \<Rightarrow> ulong \<Rightarrow> kernel \<Rightarrow> kernel \<times> bool option" where
  "rt_mutex_timedlock mutex ticks s = rt_sem_timedwait (mutex_sem mutex) ticks s"

definition rt_mutex_unlock :: "rt_mutex \<Rightarrow> kernel \<Rightarrow> kernel" where
  "rt_mutex_unlock mutex s = rt_sem_post (mutex_sem mutex) s"

text \<open>The static initialiser.\<close>

definition RT_MUTEX_INIT :: "rt_mutex \<Rightarrow> kernel \<Rightarrow> kernel" where
  "RT_MUTEX_INIT mutex s = RT_SEM_INIT_BINARY (mutex_sem mutex) 1 s"

section \<open>Locking without contention\<close>

definition mutex_ok :: "rt_mutex \<Rightarrow> kernel \<Rightarrow> bool" where
  "mutex_ok mutex s \<longleftrightarrow> max_value (sem s (mutex_sem mutex)) = 1 \<and> sem_value (sem s (mutex_sem mutex)) \<le> 1"

lemma rt_mutex_init_free:
  "mutex_ok mutex (rt_mutex_init mutex s)" "sem_value (sem (rt_mutex_init mutex s) (mutex_sem mutex)) = 1"
  by (simp_all add: mutex_ok_def rt_mutex_init_def rt_sem_init_binary_def rt_sem_init_max_sel)

lemma rt_mutex_unlock_held:
  assumes "mutex_ok mutex s" and "sem_value (sem s (mutex_sem mutex)) = 0"
  shows "rt_mutex_unlock mutex s = upd_sem (mutex_sem mutex) (\<lambda>q. q\<lparr>sem_value := 1\<rparr>) s"
  using assms
  by (simp add: rt_mutex_unlock_def rt_sem_post_def rt_sem_post_n_def mutex_ok_def new_value_def upd_sem_def)

lemma mutex_ok_upd_value:
  "mutex_ok mutex s \<Longrightarrow> v \<le> 1 \<Longrightarrow> mutex_ok mutex (upd_sem (mutex_sem mutex) (\<lambda>q. q\<lparr>sem_value := v\<rparr>) s)"
  by (simp add: mutex_ok_def kernel_simps)

end
