(* ===== verification/Rt_Cond.thy ===== *)
theory Rt_Cond
  imports Rt_Mutex Rt_Boot
begin

text \<open>
  The condition variable of \<^verbatim>\<open>src/cond.c\<close>: a semaphore whose maximum is 0, so that its value
  counts the waiters and a signal to nobody is forgotten. A function that blocks more than once
  is given as its parts, between which the system call handler and other tasks run.
\<close>

section \<open>The code\<close>

record rt_cond =
  cond_sem :: sem_id

definition rt_cond_init :: "rt_cond \<Rightarrow> kernel \<Rightarrow> kernel" where
  "rt_cond_init cond s = rt_sem_init_max (cond_sem cond) 0 0 s"

definition rt_cond_signal :: "rt_cond \<Rightarrow> kernel \<Rightarrow> kernel" where
  "rt_cond_signal cond s = rt_sem_post (cond_sem cond) s"

definition rt_cond_broadcast :: "rt_cond \<Rightarrow> kernel \<Rightarrow> kernel" where
  "rt_cond_broadcast cond s = rt_sem_post_n (cond_sem cond) INT_MAX s"

definition RT_COND_INIT :: "rt_cond \<Rightarrow> kernel \<Rightarrow> kernel" where
  "RT_COND_INIT cond s = RT_SEM_INIT_MAX (cond_sem cond) 0 0 s"

text \<open>
  The parts of \<^verbatim>\<open>rt_cond_wait\<close>: count the waiter while the mutex is still held and release the
  mutex; wait; take the mutex again.
\<close>

definition cond_wait_release :: "rt_cond \<Rightarrow> rt_mutex \<Rightarrow> kernel \<Rightarrow> kernel" where
  "cond_wait_release cond mutex s =
     (let (s, value) = sem_fetch_sub (cond_sem cond) s
      in rt_mutex_unlock mutex s)"

definition cond_wait_block :: "rt_cond \<Rightarrow> kernel \<Rightarrow> kernel" where
  "cond_wait_block cond s =
     (let r = Task_record (rt_task_self s);
          s = upd_record r (args_update (\<lambda>_. Sem_wait (cond_sem cond))) s;
          s = upd_record r (syscall_update (\<lambda>_. RT_SYSCALL_SEM_WAIT)) s
      in rt_syscall r s)"

definition rt_cond_wait :: "rt_cond \<Rightarrow> rt_mutex \<Rightarrow> (kernel \<Rightarrow> kernel) list" where
  "rt_cond_wait cond mutex =
     [cond_wait_release cond mutex, cond_wait_block cond, rt_mutex_lock mutex]"

text \<open>
  The parts of \<^verbatim>\<open>rt_cond_timedwait\<close>. The first returns the tick at which the wait started; the
  second returns at once when there is no time to wait (\<open>Some False\<close>); the third returns false
  when the wait timed out, and otherwise takes the mutex within the time that is left.
\<close>

definition cond_timedwait_release :: "rt_cond \<Rightarrow> rt_mutex \<Rightarrow> kernel \<Rightarrow> kernel \<times> ulong" where
  "cond_timedwait_release cond mutex s =
     (let start_tick = rt_tick s;
          (s, value) = sem_fetch_sub (cond_sem cond) s
      in (rt_mutex_unlock mutex s, start_tick))"

definition cond_timedwait_block :: "rt_cond \<Rightarrow> ulong \<Rightarrow> kernel \<Rightarrow> kernel \<times> bool option" where
  "cond_timedwait_block cond ticks s =
     (if ticks = 0 then (s, Some False)
      else let r = Task_record (rt_task_self s);
               s = upd_record r (args_update (\<lambda>_. Sem_timedwait (cond_sem cond) ticks)) s;
               s = upd_record r (syscall_update (\<lambda>_. RT_SYSCALL_SEM_TIMEDWAIT)) s
           in (rt_syscall r s, None))"

definition ticks_left :: "ulong \<Rightarrow> ulong \<Rightarrow> kernel \<Rightarrow> ulong" where
  "ticks_left ticks start_tick s =
     (let ticks_waited = rt_tick s - start_tick
      in if ticks_waited \<ge> ticks then 0 else ticks - ticks_waited)"

definition cond_timedwait_relock :: "rt_mutex \<Rightarrow> ulong \<Rightarrow> ulong \<Rightarrow> kernel \<Rightarrow> (kernel \<times> bool option) option" where
  "cond_timedwait_relock mutex ticks start_tick s =
     do {
       (sem, _) \<leftarrow> sem_timedwait_args (args (get_record s (Task_record (rt_task_self s))));
       Some (if sem = NULL then (s, Some False)
             else rt_mutex_timedlock mutex (ticks_left ticks start_tick s) s)
     }"

section \<open>Lemmas\<close>

definition cond_ok :: "rt_cond \<Rightarrow> queues \<Rightarrow> kernel \<Rightarrow> bool" where
  "cond_ok cond A s \<longleftrightarrow> max_value (sem s (cond_sem cond)) = 0 \<and>
     (\<exists>ys. q_wait A (cond_sem cond) = Some ys \<and> sem_value (sem s (cond_sem cond)) = - int (length ys) \<and>
       length ys < nat INT_MAX)"

lemma post_without_waiters:
  assumes "sem_value (sem s m) = 0" and "max_value (sem s m) = 0" and "0 < n"
  shows "rt_sem_post_n m n s = s"
  using assms by (simp add: rt_sem_post_n_def new_value_def upd_sem_def fun_upd_idem)

text \<open>A post by a task when there are waiters: the state in which the handler handles its record.\<close>

lemma task_post_pending:
  fixes n :: int
  assumes "system_ok s A []" "caller_ok s []" and "\<not> interrupt_active s" and m: "m \<in> dom (q_wait A)"
    and "sem_value (sem s m) < 0"
  defines "s0 \<equiv> (rt_sem_post_n m n s)\<lparr>pending_syscalls := None\<rparr>"
  shows "kernel_ok (rt_sem_post_n m n s) A [Task_record (active_task s)]"
    and "refines s0 A" "queues_ok {} s0 A" "counts s0 A"
    and "syscall (get_record s0 (Task_record (active_task s))) = RT_SYSCALL_SEM_POST"
    and "args (get_record s0 (Task_record (active_task s))) = Sem_post m n"
    and "sems s0 = sems s"
proof -
  from submit_system_ok [OF assms(1,2), of RT_SYSCALL_SEM_POST "Sem_post m n"]
  have "system_ok (rt_sem_post_n m n s) A [Task_record (active_task s)]"
    using assms(3,5) m
    by (auto simp: rt_sem_post_n_def sem_post_syscall_def Let_def rt_task_self_def call_ok_def kernel_simps)
  then show k: "kernel_ok (rt_sem_post_n m n s) A [Task_record (active_task s)]" by (rule system_okD(1))
  show "refines s0 A" "queues_ok {} s0 A" "counts s0 A" unfolding s0_def by (rule kernel_ok_start [OF k])+
  show "syscall (get_record s0 (Task_record (active_task s))) = RT_SYSCALL_SEM_POST"
    "args (get_record s0 (Task_record (active_task s))) = Sem_post m n" "sems s0 = sems s"
    using assms(3,5)
    by (simp_all add: s0_def rt_sem_post_n_def sem_post_syscall_def Let_def rt_task_self_def kernel_simps
        rt_syscall_def rt_syscall_pend_def)
qed

section \<open>Properties\<close>

text \<open>
  A broadcast by a task wakes every waiter: when the handler has handled the record that the
  broadcast submits, nobody waits on the condition variable, all former waiters are ready, and the
  value is 0 again.
\<close>

theorem broadcast_wakes_all:
  assumes "system_ok s A []" "caller_ok s []" and "\<not> interrupt_active s" and c: "cond_ok cond A s"
    and ys: "q_wait A (cond_sem cond) = Some ys" "ys \<noteq> []"
  shows "\<exists>s' B. pending_syscalls (rt_cond_broadcast cond s) = Some (Task_record (active_task s)) \<and>
     handle_record (Task_record (active_task s)) ((rt_cond_broadcast cond s)\<lparr>pending_syscalls := None\<rparr>) = Some s' \<and>
     handler_ok s' B \<and> q_wait B = (q_wait A)(cond_sem cond \<mapsto> []) \<and>
     set (q_ready B) = set ys \<union> set (q_ready A) \<and> sem_value (sem s' (cond_sem cond)) = 0"
proof -
  let ?m = "cond_sem cond" and ?r = "Task_record (active_task s)"
  let ?s0 = "(rt_sem_post_n ?m INT_MAX s)\<lparr>pending_syscalls := None\<rparr>"
  have mx: "max_value (sem s ?m) = 0" and v: "sem_value (sem s ?m) = - int (length ys)" "length ys < nat INT_MAX"
    using c ys(1) by (auto simp: cond_ok_def)
  have neg: "sem_value (sem s ?m) < 0" using v(1) ys(2) by simp
  note p = task_post_pending [OF assms(1-3) _ neg, of INT_MAX]
  have m: "?m \<in> dom (q_wait A)" using ys(1) by auto
  have nv: "new_value (sem_value (sem ?s0 ?m)) INT_MAX (max_value (sem ?s0 ?m)) = 0"
    using v mx unfolding p(7) [OF m] by (simp add: new_value_def)
  let ?B = "q_wake (length ys) ?s0 ?m A"
  have "sem_waiters 0 = 0" using sem_waiters_eq [of 0] by (simp add: c_int_def)
  then obtain s' where s': "handle_record ?r ?s0 = Some s'" "handled ?r ?s0 A s' ?B" "kframe (posted ?r ?m INT_MAX ?s0) s'"
    using handle_sem_post [OF p(2-4) [OF m] ys(1) p(5,6) [OF m]] unfolding nv by auto
  have "pending_syscalls (rt_sem_post_n ?m INT_MAX s) = Some ?r"
    using kernel_okD(7) [OF p(1) [OF m]] by (simp add: pending_ok_def)
  moreover have "handler_ok s' ?B" using handledD(1-3) [OF s'(2)] by (simp add: handler_ok_def)
  moreover have "q_wait ?B = (q_wait A)(?m \<mapsto> [])" using q_wake_wait [OF ys(1), of "length ys"] by simp
  moreover have "set (q_ready ?B) = set ys \<union> set (q_ready A)" using q_wake_ready [OF ys(1), of "length ys"] by simp
  moreover have "sem_value (sem s' ?m) = 0" using kframe_sem(2) [OF s'(3), of ?m] nv by (simp add: kernel_simps)
  ultimately show ?thesis using s'(1) unfolding rt_cond_broadcast_def by blast
qed

theorem broadcast_wakes_all_witness:
  "\<exists>s' B. handle_record (Task_record (Task 2))
       ((rt_cond_broadcast \<lparr>cond_sem = 7\<rparr> monitored)\<lparr>pending_syscalls := None\<rparr>) = Some s' \<and>
     handler_ok s' B \<and> q_wait B = [7 \<mapsto> []] \<and> set (q_ready B) = {Task 1, Idle_task} \<and>
     sem_value (sem s' 7) = 0"
  using broadcast_wakes_all [OF monitored_system_ok, of "\<lparr>cond_sem = 7\<rparr>" "[Task 1]"]
  by (auto simp: cond_ok_def caller_ok_def)

text \<open>
  A signal or a broadcast to a condition variable on which nobody waits changes nothing: a
  later wait does not see it.
\<close>

theorem signal_is_not_kept:
  assumes "cond_ok cond A s" and "q_wait A (cond_sem cond) = Some []"
  shows "rt_cond_signal cond s = s \<and> rt_cond_broadcast cond s = s"
  using assms post_without_waiters [of s "cond_sem cond"]
  by (simp add: cond_ok_def rt_cond_signal_def rt_cond_broadcast_def rt_sem_post_def)

theorem signal_is_not_kept_witness:
  "rt_cond_signal \<lparr>cond_sem = 9\<rparr> (rt_sem_init_max 9 0 0 running) = rt_sem_init_max 9 0 0 running"
  using signal_is_not_kept [of "\<lparr>cond_sem = 9\<rparr>" "queues_init\<lparr>q_wait := [9 \<mapsto> []]\<rparr>" "rt_sem_init_max 9 0 0 running"]
  by (simp add: cond_ok_def rt_sem_init_max_sel)

text \<open>
  C19. A timed wait on a condition variable with no time to wait leaves a waiter behind that does
  not exist: it returns false having released the mutex, but the value still counts it
  (\<^verbatim>\<open>src/cond.c\<close>, the branch \<^verbatim>\<open>ticks == 0\<close>), and the next signal is spent on it. The tasks \<open>ys\<close>
  that do wait go on waiting.
\<close>

theorem timedwait_zero_swallows_signal:
  assumes s: "system_ok s A []" "caller_ok s []" "\<not> interrupt_active s"
    and c: "cond_ok cond A s" "q_wait A (cond_sem cond) = Some ys"
    and mu: "mutex_ok mutex s" "sem_value (sem s (mutex_sem mutex)) = 0" "mutex_sem mutex \<noteq> cond_sem cond"
  defines "s1 \<equiv> fst (cond_timedwait_release cond mutex s)"
  shows "cond_timedwait_block cond 0 s1 = (s1, Some False) \<and> sem_value (sem s1 (mutex_sem mutex)) = 1 \<and>
     (\<exists>s' B. handle_record (Task_record (active_task s)) ((rt_cond_signal cond s1)\<lparr>pending_syscalls := None\<rparr>) = Some s' \<and>
       handler_ok s' B \<and> q_wait B = q_wait A \<and> q_ready B = q_ready A)"
proof -
  let ?m = "cond_sem cond" and ?n = "mutex_sem mutex" and ?r = "Task_record (active_task s)"
  have mx: "max_value (sem s ?m) = 0" and v: "sem_value (sem s ?m) = - int (length ys)" "length ys < nat INT_MAX"
    using c by (auto simp: cond_ok_def)
  let ?t = "upd_sem ?m (\<lambda>q. q\<lparr>sem_value := int_wrap (sem_value q - 1)\<rparr>) s"
  have "mutex_ok mutex ?t" "sem_value (sem ?t ?n) = 0" using mu by (simp_all add: mutex_ok_def kernel_simps)
  from rt_mutex_unlock_held [OF this] have s1: "s1 = upd_sem ?n (\<lambda>q. q\<lparr>sem_value := 1\<rparr>) ?t"
    by (simp add: s1_def cond_timedwait_release_def sem_fetch_sub_def)
  have ok: "system_ok s1 A []" unfolding s1 by (intro system_ok_sem_value s(1))
  have sel: "active_task s1 = active_task s" "interrupt_active s1 = interrupt_active s"
    "max_value (sem s1 ?m) = 0" "sem_value (sem s1 ?n) = 1"
    using mu(3) mx by (simp_all add: s1 kernel_simps)
  have v1: "sem_value (sem s1 ?m) = - int (length ys) - 1"
    using v mu(3) by (simp add: s1 kernel_simps c_int_def)
  have m: "?m \<in> dom (q_wait A)" using c(2) by auto
  have pre: "caller_ok s1 []" "\<not> interrupt_active s1" "sem_value (sem s1 ?m) < 0"
    using s(2,3) sel(1,2) v1 by (simp_all add: caller_ok_def)
  note p = task_post_pending [OF ok pre(1,2) m pre(3), of 1, unfolded sel(1)]
  let ?s0 = "(rt_sem_post_n ?m 1 s1)\<lparr>pending_syscalls := None\<rparr>"
  have nv: "new_value (sem_value (sem ?s0 ?m)) 1 (max_value (sem ?s0 ?m)) = - int (length ys)"
    unfolding p(7) v1 sel(3) by (simp add: new_value_def)
  have "sem_waiters (- int (length ys)) = length ys" using v(2) sem_waiters_eq [of "- int (length ys)"] by (simp add: c_int_def)
  then obtain s' where s': "handle_record ?r ?s0 = Some s'" "handled ?r ?s0 A s' A"
    using handle_sem_post [OF p(2-4) c(2) p(5,6)] unfolding nv by auto
  then have "handler_ok s' A" using handledD(1-3) [OF s'(2)] by (simp add: handler_ok_def)
  then show ?thesis
    using s'(1) sel(4) by (auto simp: cond_timedwait_block_def rt_cond_signal_def rt_sem_post_def)
qed

theorem timedwait_zero_swallows_signal_witness:
  "\<exists>s' B. handle_record (Task_record (Task 2)) ((rt_cond_signal \<lparr>cond_sem = 7\<rparr>
         (fst (cond_timedwait_release \<lparr>cond_sem = 7\<rparr> \<lparr>mutex_sem = 9\<rparr>
           (upd_sem 9 (\<lambda>q. q\<lparr>max_value := 1, sem_value := 0\<rparr>) monitored))))\<lparr>pending_syscalls := None\<rparr>) = Some s' \<and>
     handler_ok s' B \<and> q_wait B = [7 \<mapsto> [Task 1]]"
proof -
  let ?s = "upd_sem 9 (\<lambda>q. q\<lparr>max_value := 1, sem_value := 0\<rparr>) monitored"
  have "kernel_ok ?s second_queues []"
    using system_okD(1) [OF monitored_system_ok] by (rule kernel_ok_upd_sem) simp_all
  then have ok: "system_ok ?s second_queues []"
    using monitored_system_ok by (simp add: system_ok_def flags_ok_def posts_ok_def kernel_simps flags_upd_sem)
  show ?thesis
    using timedwait_zero_swallows_signal [OF ok, of "\<lparr>cond_sem = 7\<rparr>" "[Task 1]" "\<lparr>mutex_sem = 9\<rparr>"]
    by (auto simp: caller_ok_def cond_ok_def mutex_ok_def kernel_simps)
qed

text \<open>
  The time left for taking the mutex after a timed wait: whatever the tick counter's value
  when the wait started, it is what is left of \<open>ticks\<close> after the ticks that have passed since, and
  0 when they have all passed; it is never more than \<open>ticks\<close>.
\<close>

theorem ticks_left_bounds:
  assumes "rt_tick s = start_tick + of_nat waited" and "waited < 2 ^ 32"
  shows "unat (ticks_left ticks start_tick s) = unat ticks - waited"
proof -
  have "unat (rt_tick s - start_tick) = waited"
    using assms by (simp add: of_nat_inverse [OF refl])
  then show ?thesis by (auto simp: ticks_left_def Let_def word_le_nat_alt unat_sub not_le)
qed

theorem ticks_left_bounds_witness:
  "unat (ticks_left 10 0xFFFFFFFE (kernel_init\<lparr>tick := 3\<rparr>)) = 5"
  using ticks_left_bounds [of "kernel_init\<lparr>tick := 3\<rparr>" "0xFFFFFFFE" 5 10] by (simp add: rt_tick_def)

end
