(* ===== verification/Rt_Notify.thy ===== *)
theory Rt_Notify
  imports Rt_Sem
begin

text \<open>
  The notification of \<^verbatim>\<open>src/notify.c\<close>: a binary semaphore beside a 32-bit value that senders
  combine into and the receiver reads or clears. As in \<open>Rt_Sem\<close>, a function that waits is given as
  the part up to the wait and the part after it.
\<close>

unbundle bit_operations_syntax

section \<open>The code\<close>

record rt_notify =
  note_sem :: sem_id
  note_value :: u32

definition RT_NOTIFY :: "sem_id \<Rightarrow> u32 \<Rightarrow> kernel \<Rightarrow> rt_notify \<times> kernel" where
  "RT_NOTIFY m v s = (\<lparr>note_sem = m, note_value = v\<rparr>, RT_SEM_INIT_BINARY m 0 s)"

definition rt_notify_post :: "rt_notify \<Rightarrow> kernel \<Rightarrow> kernel" where
  "rt_notify_post note s = rt_sem_post (note_sem note) s"

definition rt_notify_or :: "u32 \<Rightarrow> rt_notify \<Rightarrow> kernel \<Rightarrow> rt_notify \<times> kernel" where
  "rt_notify_or v note s =
     (let note = note\<lparr>note_value := note_value note OR v\<rparr> in (note, rt_notify_post note s))"

definition rt_notify_add :: "u32 \<Rightarrow> rt_notify \<Rightarrow> kernel \<Rightarrow> rt_notify \<times> kernel" where
  "rt_notify_add v note s =
     (let note = note\<lparr>note_value := note_value note + v\<rparr> in (note, rt_notify_post note s))"

definition rt_notify_set :: "u32 \<Rightarrow> rt_notify \<Rightarrow> kernel \<Rightarrow> rt_notify \<times> kernel" where
  "rt_notify_set v note s =
     (let note = note\<lparr>note_value := v\<rparr> in (note, rt_notify_post note s))"

text \<open>
  The atomic fetch-and that clears bits and gives the value before; the blocking functions, each as
  the wait and what the task does once it goes on.
\<close>

definition notify_clear :: "u32 \<Rightarrow> rt_notify \<Rightarrow> rt_notify \<times> u32" where
  "notify_clear clear note =
     (note\<lparr>note_value := note_value note AND NOT clear\<rparr>, note_value note)"

definition rt_notify_wait :: "rt_notify \<Rightarrow> (kernel \<Rightarrow> kernel) \<times> (rt_notify \<Rightarrow> u32)" where
  "rt_notify_wait note = (rt_sem_wait (note_sem note), note_value)"

definition rt_notify_wait_clear :: "u32 \<Rightarrow> rt_notify \<Rightarrow> (kernel \<Rightarrow> kernel) \<times> (rt_notify \<Rightarrow> rt_notify \<times> u32)" where
  "rt_notify_wait_clear clear note = (rt_sem_wait (note_sem note), notify_clear clear)"

definition rt_notify_trywait :: "rt_notify \<Rightarrow> kernel \<Rightarrow> kernel \<times> u32 option" where
  "rt_notify_trywait note s =
     (let (s, ok) = rt_sem_trywait (note_sem note) s
      in if \<not> ok then (s, None) else (s, Some (note_value note)))"

definition rt_notify_trywait_clear :: "u32 \<Rightarrow> rt_notify \<Rightarrow> kernel \<Rightarrow> rt_notify \<times> kernel \<times> u32 option" where
  "rt_notify_trywait_clear clear note s =
     (let (s, ok) = rt_sem_trywait (note_sem note) s
      in if \<not> ok then (note, s, None)
         else let (note, v) = notify_clear clear note in (note, s, Some v))"

text \<open>
  The timed functions go on from the result of the timed wait, which is known at once (\<open>Inr\<close>) or,
  when the wait submits a system call, once the task runs again (\<open>Inl\<close> the state with the call
  pending).
\<close>

definition notify_timedwait_end :: "bool \<Rightarrow> rt_notify \<Rightarrow> u32 option" where
  "notify_timedwait_end ok note = (if \<not> ok then None else Some (note_value note))"

definition rt_notify_timedwait :: "ulong \<Rightarrow> rt_notify \<Rightarrow> kernel \<Rightarrow> kernel + kernel \<times> u32 option" where
  "rt_notify_timedwait ticks note s =
     (case rt_sem_timedwait (note_sem note) ticks s of
        (s, None) \<Rightarrow> Inl s
      | (s, Some ok) \<Rightarrow> Inr (s, notify_timedwait_end ok note))"

definition notify_timedwait_clear_end :: "u32 \<Rightarrow> bool \<Rightarrow> rt_notify \<Rightarrow> rt_notify \<times> u32 option" where
  "notify_timedwait_clear_end clear ok note =
     (if \<not> ok then (note, None) else let (note, v) = notify_clear clear note in (note, Some v))"

definition rt_notify_timedwait_clear ::
  "u32 \<Rightarrow> ulong \<Rightarrow> rt_notify \<Rightarrow> kernel \<Rightarrow> kernel + kernel \<times> rt_notify \<times> u32 option" where
  "rt_notify_timedwait_clear clear ticks note s =
     (case rt_sem_timedwait (note_sem note) ticks s of
        (s, None) \<Rightarrow> Inl s
      | (s, Some ok) \<Rightarrow> Inr (s, notify_timedwait_clear_end clear ok note))"

section \<open>Sequences of notifications\<close>

datatype notification = Notify | Notify_or u32 | Notify_add u32 | Notify_set u32

fun combine :: "notification \<Rightarrow> u32 \<Rightarrow> u32" where
  "combine Notify v = v"
| "combine (Notify_or x) v = v OR x"
| "combine (Notify_add x) v = v + x"
| "combine (Notify_set x) v = x"

fun notify_step :: "notification \<Rightarrow> rt_notify \<times> kernel \<Rightarrow> rt_notify \<times> kernel" where
  "notify_step Notify (note, s) = (note, rt_notify_post note s)"
| "notify_step (Notify_or x) (note, s) = rt_notify_or x note s"
| "notify_step (Notify_add x) (note, s) = rt_notify_add x note s"
| "notify_step (Notify_set x) (note, s) = rt_notify_set x note s"

text \<open>Nobody waits: whether a notification is pending, and its value.\<close>

definition note_is :: "bool \<Rightarrow> u32 \<Rightarrow> sem_id \<Rightarrow> rt_notify \<times> kernel \<Rightarrow> bool" where
  "note_is p v m ns \<longleftrightarrow> note_sem (fst ns) = m \<and> note_value (fst ns) = v \<and>
     max_value (sem (snd ns) m) = 1 \<and> sem_value (sem (snd ns) m) = of_bool p"

lemma RT_NOTIFY_is: "note_is False v m (RT_NOTIFY m v s)"
  by (simp add: note_is_def RT_NOTIFY_def RT_SEM_INIT_BINARY_def RT_SEM_INIT_MAX_def kernel_simps)

lemma rt_sem_post_binary:
  assumes "max_value (sem s m) = 1" and "sem_value (sem s m) = of_bool p"
  shows "max_value (sem (rt_sem_post m s) m) = 1 \<and> sem_value (sem (rt_sem_post m s) m) = 1"
  using assms by (cases p) (simp_all add: rt_sem_post_def rt_sem_post_n_def new_value_def kernel_simps)

lemma notify_step_is:
  assumes "note_is p v m ns"
  shows "note_is True (combine x v) m (notify_step x ns)"
proof -
  obtain nt s where ns: "ns = (nt, s)" by (cases ns)
  show ?thesis
    using assms rt_sem_post_binary [of s m p] unfolding ns
    by (cases x) (simp_all add: note_is_def rt_notify_post_def rt_notify_or_def rt_notify_add_def
        rt_notify_set_def Let_def)
qed

lemma notify_steps_is:
  "note_is p v m ns \<Longrightarrow> xs \<noteq> [] \<Longrightarrow> note_is True (fold combine xs v) m (fold notify_step xs ns)"
proof (induction xs arbitrary: p v ns)
  case (Cons x xs)
  then have "note_is True (combine x v) m (notify_step x ns)" by (blast intro: notify_step_is)
  then show ?case using Cons.IH by (cases "xs = []") simp_all
qed simp

section \<open>Properties\<close>

text \<open>
  C21. Notifications before the receiver looks are combined, none is lost and they count as one:
  the receiver gets the value that all of them made, in order, with the bits in \<open>clear\<close> cleared
  afterwards, and a second look finds nothing.
\<close>

theorem notifications_combine:
  assumes "xs \<noteq> []"
  shows "\<exists>note s. fold notify_step xs (RT_NOTIFY m v k) = (note, s) \<and>
     (\<exists>note' s'. rt_notify_trywait_clear clear note s = (note', s', Some (fold combine xs v)) \<and>
        note_value note' = fold combine xs v AND NOT clear \<and> snd (rt_notify_trywait note' s') = None)"
proof -
  obtain nt s where ns: "fold notify_step xs (RT_NOTIFY m v k) = (nt, s)" by fastforce
  have "note_is True (fold combine xs v) m (nt, s)"
    using notify_steps_is [OF RT_NOTIFY_is assms] ns by metis
  then show ?thesis
    using ns by (simp add: note_is_def rt_notify_trywait_clear_def rt_notify_trywait_def rt_sem_trywait_def
        notify_clear_def kernel_simps)
qed

theorem notifications_combine_witness:
  "\<exists>note s note' s'. fold notify_step [Notify_set 4, Notify_or 3, Notify] (RT_NOTIFY 7 0 kernel_init) = (note, s) \<and>
     rt_notify_trywait_clear 1 note s = (note', s', Some 7) \<and> note_value note' = 6"
  using notifications_combine [of "[Notify_set 4, Notify_or 3, Notify]" 7 0 kernel_init 1]
  by (auto simp del: notify_step.simps)

end
