(* ===== verification/Rt_Atomic.thy ===== *)
theory Rt_Atomic
  imports Rt_Sem
begin

text \<open>
  Atomic operations. The first part models \<^verbatim>\<open>arch/arm/m/atomic-v6.c\<close>, which gives Armv6-M the
  atomic operations it has no instructions for by masking interrupts: an interrupt may change the
  memory before every instruction unless the mask is set. The second part models the
  compare-exchange loops of \<^verbatim>\<open>src/sem.c\<close> under interference: between a load and a
  compare-exchange others may change the value, and a weak compare-exchange may fail for no reason.
\<close>

unbundle bit_operations_syntax

section \<open>Armv6-M\<close>

subsection \<open>The processor\<close>

text \<open>
  Memory by width, the interrupt mask register \<^verbatim>\<open>PRIMASK\<close>, of which bit 0 counts, the barriers and
  memory accesses made so far, and the number of instructions executed, by which the interrupts
  are numbered. What the interrupt before the instruction number \<open>k\<close> does to the memory is \<open>irq k\<close>.
\<close>

datatype event = Dmb | Load u32 | Store u32

record cpu =
  mem1 :: "u32 \<Rightarrow> uchar"
  mem4 :: "u32 \<Rightarrow> u32"
  primask :: u32
  trace :: "event list"
  executed :: nat

type_synonym interrupts = "nat \<Rightarrow> (u32 \<Rightarrow> uchar) \<times> (u32 \<Rightarrow> u32) \<Rightarrow> (u32 \<Rightarrow> uchar) \<times> (u32 \<Rightarrow> u32)"

definition instr :: "interrupts \<Rightarrow> cpu \<Rightarrow> cpu" where
  "instr irq s =
     (let s' = s\<lparr>executed := executed s + 1\<rparr>
      in if bit (primask s) 0 then s'
         else let (m1, m4) = irq (executed s) (mem1 s, mem4 s) in s'\<lparr>mem1 := m1, mem4 := m4\<rparr>)"

definition log_event :: "event \<Rightarrow> cpu \<Rightarrow> cpu" where
  "log_event e s = s\<lparr>trace := trace s @ [e]\<rparr>"

definition load1 :: "interrupts \<Rightarrow> u32 \<Rightarrow> cpu \<Rightarrow> cpu \<times> uchar" where
  "load1 irq p s = (let s = instr irq s in (log_event (Load p) s, mem1 s p))"

definition store1 :: "interrupts \<Rightarrow> u32 \<Rightarrow> uchar \<Rightarrow> cpu \<Rightarrow> cpu" where
  "store1 irq p v s = (let s = instr irq s in log_event (Store p) (s\<lparr>mem1 := (mem1 s)(p := v)\<rparr>))"

definition load4 :: "interrupts \<Rightarrow> u32 \<Rightarrow> cpu \<Rightarrow> cpu \<times> u32" where
  "load4 irq p s = (let s = instr irq s in (log_event (Load p) s, mem4 s p))"

definition store4 :: "interrupts \<Rightarrow> u32 \<Rightarrow> u32 \<Rightarrow> cpu \<Rightarrow> cpu" where
  "store4 irq p v s = (let s = instr irq s in log_event (Store p) (s\<lparr>mem4 := (mem4 s)(p := v)\<rparr>))"

subsection \<open>The code\<close>

datatype memorder = RELAXED | CONSUME | ACQUIRE | RELEASE | ACQ_REL | SEQ_CST

definition disable_interrupts :: "interrupts \<Rightarrow> cpu \<Rightarrow> cpu \<times> u32" where
  "disable_interrupts irq s =
     (let s = instr irq s; pm = primask s;
          s = instr irq s
      in (s\<lparr>primask := 1\<rparr>, pm))"

definition restore :: "interrupts \<Rightarrow> u32 \<Rightarrow> cpu \<Rightarrow> cpu" where
  "restore irq pm s = (let s = instr irq s in s\<lparr>primask := pm\<rparr>)"

definition dmb :: "interrupts \<Rightarrow> cpu \<Rightarrow> cpu" where
  "dmb irq s = log_event Dmb (instr irq s)"

definition barrier_start :: "interrupts \<Rightarrow> memorder \<Rightarrow> cpu \<Rightarrow> cpu" where
  "barrier_start irq memorder s =
     (if memorder = RELEASE \<or> memorder = ACQ_REL \<or> memorder = SEQ_CST then dmb irq s else s)"

definition barrier_end :: "interrupts \<Rightarrow> memorder \<Rightarrow> cpu \<Rightarrow> cpu" where
  "barrier_end irq memorder s =
     (if memorder = CONSUME \<or> memorder = ACQUIRE \<or> memorder = ACQ_REL \<or> memorder = SEQ_CST
      then dmb irq s else s)"

definition atomic_exchange_1 :: "interrupts \<Rightarrow> u32 \<Rightarrow> uchar \<Rightarrow> memorder \<Rightarrow> cpu \<Rightarrow> cpu \<times> uchar" where
  "atomic_exchange_1 irq p val memorder s =
     (let (s, pm) = disable_interrupts irq s;
          s = barrier_start irq memorder s;
          (s, old) = load1 irq p s;
          s = store1 irq p val s;
          s = barrier_end irq memorder s;
          s = restore irq pm s
      in (s, old))"

definition atomic_exchange_4 :: "interrupts \<Rightarrow> u32 \<Rightarrow> u32 \<Rightarrow> memorder \<Rightarrow> cpu \<Rightarrow> cpu \<times> u32" where
  "atomic_exchange_4 irq p val memorder s =
     (let (s, pm) = disable_interrupts irq s;
          s = barrier_start irq memorder s;
          (s, old) = load4 irq p s;
          s = store4 irq p val s;
          s = barrier_end irq memorder s;
          s = restore irq pm s
      in (s, old))"

definition atomic_fetch_add_4 :: "interrupts \<Rightarrow> u32 \<Rightarrow> u32 \<Rightarrow> memorder \<Rightarrow> cpu \<Rightarrow> cpu \<times> u32" where
  "atomic_fetch_add_4 irq p val memorder s =
     (let (s, pm) = disable_interrupts irq s;
          s = barrier_start irq memorder s;
          (s, old) = load4 irq p s;
          s = store4 irq p (old + val) s;
          s = barrier_end irq memorder s;
          s = restore irq pm s
      in (s, old))"

definition atomic_fetch_sub_4 :: "interrupts \<Rightarrow> u32 \<Rightarrow> u32 \<Rightarrow> memorder \<Rightarrow> cpu \<Rightarrow> cpu \<times> u32" where
  "atomic_fetch_sub_4 irq p val memorder s =
     (let (s, pm) = disable_interrupts irq s;
          s = barrier_start irq memorder s;
          (s, old) = load4 irq p s;
          s = store4 irq p (old - val) s;
          s = barrier_end irq memorder s;
          s = restore irq pm s
      in (s, old))"

definition atomic_fetch_and_4 :: "interrupts \<Rightarrow> u32 \<Rightarrow> u32 \<Rightarrow> memorder \<Rightarrow> cpu \<Rightarrow> cpu \<times> u32" where
  "atomic_fetch_and_4 irq p val memorder s =
     (let (s, pm) = disable_interrupts irq s;
          s = barrier_start irq memorder s;
          (s, old) = load4 irq p s;
          s = store4 irq p (old AND val) s;
          s = barrier_end irq memorder s;
          s = restore irq pm s
      in (s, old))"

definition atomic_fetch_or_4 :: "interrupts \<Rightarrow> u32 \<Rightarrow> u32 \<Rightarrow> memorder \<Rightarrow> cpu \<Rightarrow> cpu \<times> u32" where
  "atomic_fetch_or_4 irq p val memorder s =
     (let (s, pm) = disable_interrupts irq s;
          s = barrier_start irq memorder s;
          (s, old) = load4 irq p s;
          s = store4 irq p (old OR val) s;
          s = barrier_end irq memorder s;
          s = restore irq pm s
      in (s, old))"

text \<open>
  The compare-exchange returns whether it stored, and the new value of the variable that holds the
  value expected, which belongs to the caller alone.
\<close>

definition atomic_compare_exchange_1 ::
  "interrupts \<Rightarrow> u32 \<Rightarrow> uchar \<Rightarrow> uchar \<Rightarrow> bool \<Rightarrow> memorder \<Rightarrow> memorder \<Rightarrow> cpu \<Rightarrow> cpu \<times> bool \<times> uchar" where
  "atomic_compare_exchange_1 irq p e val weak success_memorder fail_memorder s =
     (let (s, pm) = disable_interrupts irq s;
          s = barrier_start irq success_memorder s;
          (s, old) = load1 irq p s;
          equal = (old = e);
          (s, e) = (if equal then (barrier_end irq success_memorder (store1 irq p val s), e)
                    else (barrier_end irq fail_memorder s, old));
          s = restore irq pm s
      in (s, equal, e))"

definition atomic_compare_exchange_4 ::
  "interrupts \<Rightarrow> u32 \<Rightarrow> u32 \<Rightarrow> u32 \<Rightarrow> bool \<Rightarrow> memorder \<Rightarrow> memorder \<Rightarrow> cpu \<Rightarrow> cpu \<times> bool \<times> u32" where
  "atomic_compare_exchange_4 irq p e val weak success_memorder fail_memorder s =
     (let (s, pm) = disable_interrupts irq s;
          s = barrier_start irq success_memorder s;
          (s, old) = load4 irq p s;
          equal = (old = e);
          (s, e) = (if equal then (barrier_end irq success_memorder (store4 irq p val s), e)
                    else (barrier_end irq fail_memorder s, old));
          s = restore irq pm s
      in (s, equal, e))"

subsection \<open>Nothing comes between\<close>

text \<open>The state in which the mask has just been set, after the interrupts that came before.\<close>

definition masked_at :: "interrupts \<Rightarrow> cpu \<Rightarrow> cpu" where
  "masked_at irq s = (instr irq (instr irq s))\<lparr>primask := 1\<rparr>"

definition starts :: "memorder \<Rightarrow> event list" where
  "starts mo = (if mo \<in> {RELEASE, ACQ_REL, SEQ_CST} then [Dmb] else [])"

definition ends :: "memorder \<Rightarrow> event list" where
  "ends mo = (if mo \<in> {CONSUME, ACQUIRE, ACQ_REL, SEQ_CST} then [Dmb] else [])"

text \<open>The same state, as far as a caller sees it: memory, mask and accesses.\<close>

definition sees :: "cpu \<Rightarrow> (u32 \<Rightarrow> uchar) \<times> (u32 \<Rightarrow> u32) \<times> u32 \<times> event list" where
  "sees s = (mem1 s, mem4 s, primask s, trace s)"

lemma instr_primask [simp]: "primask (instr irq s) = primask s" "trace (instr irq s) = trace s"
  by (simp_all add: instr_def Let_def split_def)

lemma instr_masked: "bit (primask s) 0 \<Longrightarrow> sees (instr irq s) = sees s"
  by (simp add: sees_def instr_def Let_def)

lemma disable_interrupts_eq: "disable_interrupts irq s = (masked_at irq s, primask s)"
  by (simp add: disable_interrupts_def masked_at_def Let_def)

lemma masked_steps:
  assumes "sees s = (m1, m4, 1, tr)"
  shows "sees (barrier_start irq mo s) = (m1, m4, 1, tr @ starts mo)"
    and "sees (barrier_end irq mo s) = (m1, m4, 1, tr @ ends mo)"
    and "sees (fst (load4 irq p s)) = (m1, m4, 1, tr @ [Load p])" "snd (load4 irq p s) = m4 p"
    and "sees (fst (load1 irq p s)) = (m1, m4, 1, tr @ [Load p])" "snd (load1 irq p s) = m1 p"
    and "sees (store4 irq p v s) = (m1, m4(p := v), 1, tr @ [Store p])"
    and "sees (store1 irq p w s) = (m1(p := w), m4, 1, tr @ [Store p])"
    and "sees (restore irq pm s) = (m1, m4, pm, tr)"
  using assms instr_masked [of s irq]
  by (auto simp: sees_def barrier_start_def barrier_end_def starts_def ends_def dmb_def log_event_def
      load4_def store4_def load1_def store1_def restore_def Let_def)

lemma masked_at_sees: "sees (masked_at irq s) =
    (mem1 (masked_at irq s), mem4 (masked_at irq s), 1, trace s)"
  by (simp add: sees_def masked_at_def)

text \<open>Barrier, load, store, barrier, restore: the part of every operation with the mask set.\<close>

lemma masked_rmw4:
  fixes irq :: interrupts and f :: "u32 \<Rightarrow> u32" and p :: u32 and mo :: memorder
  assumes "sees s = (m1, m4, 1, tr)"
  defines "l \<equiv> load4 irq p (barrier_start irq mo s)"
  shows "sees (restore irq pm (barrier_end irq mo' (store4 irq p (f (snd l)) (fst l)))) =
     (m1, m4(p := f (m4 p)), pm, tr @ starts mo @ [Load p, Store p] @ ends mo')" "snd l = m4 p"
proof -
  note b = masked_steps(1) [OF assms(1), of irq mo]
  show v: "snd l = m4 p" unfolding l_def by (rule masked_steps(4) [OF b])
  have l: "sees (fst l) = (m1, m4, 1, (tr @ starts mo) @ [Load p])" unfolding l_def by (rule masked_steps(3) [OF b])
  show "sees (restore irq pm (barrier_end irq mo' (store4 irq p (f (snd l)) (fst l)))) =
     (m1, m4(p := f (m4 p)), pm, tr @ starts mo @ [Load p, Store p] @ ends mo')"
    unfolding v using masked_steps(9) [OF masked_steps(2) [OF masked_steps(7) [OF l]]] by simp
qed

lemma masked_rmw1:
  fixes irq :: interrupts and w :: uchar and p :: u32 and mo :: memorder
  assumes "sees s = (m1, m4, 1, tr)"
  defines "l \<equiv> load1 irq p (barrier_start irq mo s)"
  shows "sees (restore irq pm (barrier_end irq mo' (store1 irq p w (fst l)))) =
     (m1(p := w), m4, pm, tr @ starts mo @ [Load p, Store p] @ ends mo')" "snd l = m1 p"
proof -
  note b = masked_steps(1) [OF assms(1), of irq mo]
  show "snd l = m1 p" unfolding l_def by (rule masked_steps(6) [OF b])
  have l: "sees (fst l) = (m1, m4, 1, (tr @ starts mo) @ [Load p])" unfolding l_def by (rule masked_steps(5) [OF b])
  show "sees (restore irq pm (barrier_end irq mo' (store1 irq p w (fst l)))) =
     (m1(p := w), m4, pm, tr @ starts mo @ [Load p, Store p] @ ends mo')"
    using masked_steps(9) [OF masked_steps(2) [OF masked_steps(8) [OF l]]] by simp
qed

lemma masked_load4:
  fixes irq :: interrupts
  assumes "sees s = (m1, m4, 1, tr)"
  shows "sees (restore irq pm (barrier_end irq mo' (fst (load4 irq p (barrier_start irq mo s))))) =
     (m1, m4, pm, tr @ starts mo @ [Load p] @ ends mo')"
  using masked_steps(9) [OF masked_steps(2) [OF masked_steps(3) [OF masked_steps(1) [OF assms]]]] by simp

lemma masked_load1:
  fixes irq :: interrupts
  assumes "sees s = (m1, m4, 1, tr)"
  shows "sees (restore irq pm (barrier_end irq mo' (fst (load1 irq p (barrier_start irq mo s))))) =
     (m1, m4, pm, tr @ starts mo @ [Load p] @ ends mo')"
  using masked_steps(9) [OF masked_steps(2) [OF masked_steps(5) [OF masked_steps(1) [OF assms]]]] by simp

text \<open>
  C26. The read-modify-write operations of Armv6-M are atomic whatever interrupts do: the result
  and the memory are those of one update of the memory as it was when the mask was set, the mask
  is restored to what it was, and the barriers that the memory order asks for come before and
  after the accesses.
\<close>

theorem v6_read_modify_write_atomic:
  fixes irq :: interrupts
  defines "after p v mo s \<equiv> (mem1 (masked_at irq s), (mem4 (masked_at irq s))(p := v), primask s,
     trace s @ starts mo @ [Load p, Store p] @ ends mo)"
  shows "sees (fst (atomic_exchange_4 irq p val mo s)) = after p val mo s \<and>
     snd (atomic_exchange_4 irq p val mo s) = mem4 (masked_at irq s) p \<and>
     sees (fst (atomic_fetch_add_4 irq p val mo s)) = after p (mem4 (masked_at irq s) p + val) mo s \<and>
     snd (atomic_fetch_add_4 irq p val mo s) = mem4 (masked_at irq s) p \<and>
     sees (fst (atomic_fetch_sub_4 irq p val mo s)) = after p (mem4 (masked_at irq s) p - val) mo s \<and>
     snd (atomic_fetch_sub_4 irq p val mo s) = mem4 (masked_at irq s) p \<and>
     sees (fst (atomic_fetch_and_4 irq p val mo s)) = after p (mem4 (masked_at irq s) p AND val) mo s \<and>
     snd (atomic_fetch_and_4 irq p val mo s) = mem4 (masked_at irq s) p \<and>
     sees (fst (atomic_fetch_or_4 irq p val mo s)) = after p (mem4 (masked_at irq s) p OR val) mo s \<and>
     snd (atomic_fetch_or_4 irq p val mo s) = mem4 (masked_at irq s) p"
proof -
  note r = masked_rmw4 [OF masked_at_sees [of irq s], of irq]
  show ?thesis
    unfolding after_def atomic_exchange_4_def atomic_fetch_add_4_def atomic_fetch_sub_4_def
      atomic_fetch_and_4_def atomic_fetch_or_4_def disable_interrupts_eq Let_def split_def fst_conv snd_conv
    using r(1) [where f = "\<lambda>_. val"] r(1) [where f = "\<lambda>x. x + val"] r(1) [where f = "\<lambda>x. x - val"]
      r(1) [where f = "\<lambda>x. x AND val"] r(1) [where f = "\<lambda>x. x OR val"] r(2) by simp
qed

text \<open>
  C27. The compare-exchanges of Armv6-M and the exchange of a byte are atomic as well: they compare
  the value that the memory has when the mask is set, store exactly when it is the expected one,
  report that, and otherwise give the value found; they never fail for no reason.
\<close>

theorem v6_compare_exchange_atomic:
  fixes irq :: interrupts
  defines "m s \<equiv> masked_at irq s"
  shows "(let (s', equal, e') = atomic_compare_exchange_4 irq p e val weak mo fo s in
       equal = (mem4 (m s) p = e) \<and> e' = mem4 (m s) p \<and> mem1 s' = mem1 (m s) \<and> primask s' = primask s \<and>
       mem4 s' = (if equal then (mem4 (m s))(p := val) else mem4 (m s)) \<and>
       trace s' = trace s @ starts mo @ (if equal then [Load p, Store p] @ ends mo else [Load p] @ ends fo)) \<and>
     (let (s', equal, e') = atomic_compare_exchange_1 irq p e1 val1 weak mo fo s in
       equal = (mem1 (m s) p = e1) \<and> e' = mem1 (m s) p \<and> mem4 s' = mem4 (m s) \<and> primask s' = primask s \<and>
       mem1 s' = (if equal then (mem1 (m s))(p := val1) else mem1 (m s)) \<and>
       trace s' = trace s @ starts mo @ (if equal then [Load p, Store p] @ ends mo else [Load p] @ ends fo)) \<and>
     (let (s', old) = atomic_exchange_1 irq p val1 mo s in
       old = mem1 (m s) p \<and> mem1 s' = (mem1 (m s))(p := val1) \<and> mem4 s' = mem4 (m s) \<and> primask s' = primask s)"
proof -
  note a = masked_at_sees [of irq s]
  note r4 = masked_rmw4 [OF a, of irq] and r1 = masked_rmw1 [OF a, of irq]
    and l4 = masked_load4 [OF a, of irq] and l1 = masked_load1 [OF a, of irq]
  show ?thesis
    unfolding m_def atomic_compare_exchange_4_def atomic_compare_exchange_1_def atomic_exchange_1_def
      disable_interrupts_eq Let_def split_def fst_conv snd_conv
    using r4(1) [where f = "\<lambda>_. val" and p = p and mo = mo and mo' = mo and pm = "primask s"] r4(2) [where p = p and mo = mo]
      r1(1) [where w = val1 and p = p and mo = mo and mo' = mo and pm = "primask s"] r1(2) [where p = p and mo = mo]
      l4 [where p = p and mo = mo and mo' = fo and pm = "primask s"] l1 [where p = p and mo = mo and mo' = fo and pm = "primask s"]
    by (simp add: sees_def)
qed

section \<open>Compare-exchange loops\<close>

text \<open>
  A loop that loads a value once and then tries to replace it: at every turn it may stop on
  account of the value, and otherwise it tries a weak compare-exchange of the value by \<open>f value\<close>;
  when that fails it has read the value again. The schedule says for every try what others do to
  the memory before it and whether it fails for no reason. The result is the memory after the loop,
  the last value read and whether it was replaced; it is \<^const>\<open>None\<close> when the schedule ends first.
\<close>

type_synonym 'v attempts = "(('v \<Rightarrow> 'v) \<times> bool) list"

fun cas_loop :: "('v \<Rightarrow> bool) \<Rightarrow> ('v \<Rightarrow> 'v) \<Rightarrow> 'v attempts \<Rightarrow> 'v \<Rightarrow> 'v \<Rightarrow> ('v \<times> 'v \<times> bool) option" where
  "cas_loop stop f [] v m = (if stop v then Some (m, v, False) else None)"
| "cas_loop stop f ((env, spurious) # tries) v m =
     (if stop v then Some (m, v, False)
      else let m = env m
           in if m = v \<and> \<not> spurious then Some (f v, v, True) else cas_loop stop f tries m m)"

text \<open>The loops of \<^verbatim>\<open>src/sem.c\<close> on the value of a semaphore with maximum \<open>mx\<close>, and that of
  \<^verbatim>\<open>rt_syscall\<close> on the list of pending records.\<close>

definition sem_add_n_loop :: "int \<Rightarrow> int \<Rightarrow> int attempts \<Rightarrow> int \<Rightarrow> (int \<times> int \<times> bool) option" where
  "sem_add_n_loop n mx tries v = cas_loop (\<lambda>_. False) (\<lambda>x. new_value x n mx) tries v v"

definition sem_post_n_loop :: "int \<Rightarrow> int \<Rightarrow> int attempts \<Rightarrow> int \<Rightarrow> (int \<times> int \<times> bool) option" where
  "sem_post_n_loop n mx tries v = cas_loop (\<lambda>x. x < 0) (\<lambda>x. new_value x n mx) tries v v"

definition sem_trywait_loop :: "int attempts \<Rightarrow> int \<Rightarrow> (int \<times> int \<times> bool) option" where
  "sem_trywait_loop tries v = cas_loop (\<lambda>x. x \<le> 0) (\<lambda>x. x - 1) tries v v"

definition syscall_push_loop ::
  "rec_id \<Rightarrow> rec_id option attempts \<Rightarrow> rec_id option \<Rightarrow> (rec_id option \<times> rec_id option \<times> bool) option" where
  "syscall_push_loop r tries v = cas_loop (\<lambda>_. False) (\<lambda>_. Some r) tries v v"

text \<open>The memory when others have made their changes before the first \<open>k\<close> tries.\<close>

definition seen :: "'v attempts \<Rightarrow> nat \<Rightarrow> 'v \<Rightarrow> 'v" where
  "seen tries k v = fold (\<lambda>(env, _). env) (take k tries) v"

definition undisturbed :: "'v attempts \<Rightarrow> bool" where
  "undisturbed tries \<longleftrightarrow> (id, False) \<in> set tries"

lemma cas_loop_atomic:
  "undisturbed tries \<Longrightarrow> \<exists>k \<le> length tries. cas_loop stop f tries v v =
     Some (let x = seen tries k v in if stop x then (x, x, False) else (f x, x, True))"
proof (induction tries arbitrary: v)
  case (Cons a tries)
  obtain env sp where a: "a = (env, sp)" by (cases a)
  consider "stop v" | "\<not> stop v" "env v = v" "\<not> sp" | "\<not> stop v" "undisturbed tries" "\<not> (env v = v \<and> \<not> sp)"
    using Cons.prems by (cases "stop v") (auto simp: undisturbed_def a)
  then show ?case
  proof cases
    case 1
    then show ?thesis by (intro exI [of _ 0]) (simp add: a seen_def)
  next
    case 2
    then show ?thesis by (intro exI [of _ 1]) (simp add: a seen_def Let_def)
  next
    case 3
    then obtain k where "k \<le> length tries" "cas_loop stop f tries (env v) (env v) =
        Some (let x = seen tries k (env v) in if stop x then (x, x, False) else (f x, x, True))"
      using Cons.IH by blast
    then show ?thesis using 3 by (intro exI [of _ "Suc k"]) (auto simp: a seen_def Let_def)
  qed
qed (simp add: undisturbed_def)

lemmas sem_loops_defs = sem_add_n_loop_def sem_post_n_loop_def sem_trywait_loop_def syscall_push_loop_def

text \<open>
  C28. The compare-exchange loops of the semaphores return as soon as one try is left alone, and
  are atomic: each has the effect of the one-step operation of the kernel model on the value that
  the semaphore has at one moment, whatever others do before and after.
\<close>

theorem sem_loops_atomic:
  assumes "undisturbed tries"
  shows "(\<exists>k \<le> length tries. \<forall>s. sem_value (sem s m) = seen tries k v \<and> max_value (sem s m) = mx \<longrightarrow>
       map_option fst (sem_add_n_loop n mx tries v) = Some (sem_value (sem (rt_sem_add_n m n s) m))) \<and>
     (\<exists>k \<le> length tries. \<forall>s. sem_value (sem s m) = seen tries k v \<longrightarrow>
       map_option (\<lambda>(x, _, ok). (x, ok)) (sem_trywait_loop tries v) =
         Some (sem_value (sem (fst (rt_sem_trywait m s)) m), snd (rt_sem_trywait m s))) \<and>
     (\<exists>k \<le> length tries. \<forall>s. sem_value (sem s m) = seen tries k v \<and> max_value (sem s m) = mx \<longrightarrow>
       (case sem_post_n_loop n mx tries v of
          None \<Rightarrow> False
        | Some (x, _, stored) \<Rightarrow> rt_sem_post_n m n s =
            (if stored then upd_sem m (\<lambda>q. q\<lparr>sem_value := x\<rparr>) s else sem_post_syscall m n s)))"
proof -
  note a = cas_loop_atomic [OF assms, of _ _ v]
  have "\<exists>k \<le> length tries. \<forall>s. sem_value (sem s m) = seen tries k v \<and> max_value (sem s m) = mx \<longrightarrow>
       map_option fst (sem_add_n_loop n mx tries v) = Some (sem_value (sem (rt_sem_add_n m n s) m))"
    using a [of "\<lambda>_. False" "\<lambda>x. new_value x n mx"]
    by (auto simp: sem_add_n_loop_def rt_sem_add_n_def Let_def kernel_simps)
  moreover have "\<exists>k \<le> length tries. \<forall>s. sem_value (sem s m) = seen tries k v \<longrightarrow>
       map_option (\<lambda>(x, _, ok). (x, ok)) (sem_trywait_loop tries v) =
         Some (sem_value (sem (fst (rt_sem_trywait m s)) m), snd (rt_sem_trywait m s))"
    using a [of "\<lambda>x. x \<le> 0" "\<lambda>x. x - 1"]
    by (elim exE conjE) (intro exI conjI allI impI, assumption,
        simp add: sem_trywait_loop_def rt_sem_trywait_def Let_def kernel_simps)
  moreover have "\<exists>k \<le> length tries. \<forall>s. sem_value (sem s m) = seen tries k v \<and> max_value (sem s m) = mx \<longrightarrow>
       (case sem_post_n_loop n mx tries v of
          None \<Rightarrow> False
        | Some (x, _, stored) \<Rightarrow> rt_sem_post_n m n s =
            (if stored then upd_sem m (\<lambda>q. q\<lparr>sem_value := x\<rparr>) s else sem_post_syscall m n s))"
    using a [of "\<lambda>x. x < 0" "\<lambda>x. new_value x n mx"]
    by (elim exE conjE) (intro exI conjI allI impI, assumption,
        simp add: sem_post_n_loop_def rt_sem_post_n_def Let_def upd_sem_def)
  ultimately show ?thesis by blast
qed

theorem sem_loops_atomic_witness:
  "\<exists>k \<le> 3. \<forall>s. sem_value (sem s 7) = seen [(\<lambda>x. x + 1, False), (id, True), (id, False)] k 0 \<longrightarrow>
     map_option (\<lambda>(x, _, ok). (x, ok)) (sem_trywait_loop [(\<lambda>x. x + 1, False), (id, True), (id, False)] 0) =
       Some (sem_value (sem (fst (rt_sem_trywait 7 s)) 7), snd (rt_sem_trywait 7 s))"
proof -
  have "undisturbed [(\<lambda>x :: int. x + 1, False), (id, True), (id, False)]" by (simp add: undisturbed_def)
  from sem_loops_atomic [OF this, of 7 0 5 1] show ?thesis by (simp add: numeral_3_eq_3)
qed

text \<open>
  C29. Submitting a record is atomic: whatever records others push or the handler takes meanwhile,
  the loop of \<^verbatim>\<open>rt_syscall\<close> returns once a try is left alone, the record becomes the first pending
  one, and its next record is the one that was first at that moment, so that no record is lost.
\<close>

theorem syscall_push_atomic:
  assumes "undisturbed tries"
  shows "\<exists>k \<le> length tries. syscall_push_loop r tries p = Some (Some r, seen tries k p, True) \<and>
     (\<forall>s. pending_syscalls s = seen tries k p \<longrightarrow>
        pending_syscalls (rt_syscall r s) = Some r \<and> next_record (get_record (rt_syscall r s) r) = seen tries k p)"
proof -
  obtain k where k: "k \<le> length tries" "syscall_push_loop r tries p = Some (Some r, seen tries k p, True)"
    using cas_loop_atomic [OF assms, of "\<lambda>_. False" "\<lambda>_. Some r" p]
    by (auto simp: syscall_push_loop_def Let_def)
  moreover have "pending_syscalls (rt_syscall r s) = Some r \<and> next_record (get_record (rt_syscall r s) r) = pending_syscalls s" for s
    by (cases r) (simp_all add: rt_syscall_def rt_syscall_pend_def Let_def kernel_simps)
  ultimately show ?thesis by metis
qed

theorem syscall_push_atomic_witness:
  "syscall_push_loop (Task_record (Task 1)) [(\<lambda>_. Some Tick_record, False), (id, False)] None =
     Some (Some (Task_record (Task 1)), Some Tick_record, True) \<and>
   (\<exists>k \<le> 2. syscall_push_loop (Task_record (Task 1)) [(\<lambda>_. Some Tick_record, False), (id, False)] None =
     Some (Some (Task_record (Task 1)), seen [(\<lambda>_. Some Tick_record, False), (id, False)] k None, True))"
proof -
  have "undisturbed [(\<lambda>_ :: rec_id option. Some Tick_record, False), (id, False)]" by (simp add: undisturbed_def)
  from syscall_push_atomic [OF this, of "Task_record (Task 1)" None] show ?thesis
    by (auto simp: syscall_push_loop_def numeral_2_eq_2)
qed

end
