(* ===== verification/Rt_Threads.thy ===== *)
theory Rt_Threads
  imports Rt_Kernel
begin

text \<open>
  Threads that share semaphores, as the clients of \<^verbatim>\<open>src/sem.c\<close>, \<^verbatim>\<open>src/mutex.c\<close> and
  \<^verbatim>\<open>src/cond.c\<close> see them: a thread is at a point of its program or waits on a semaphore, and steps
  of threads interleave in any order. A wait takes a unit or enters the wait list, a post adds
  units up to the maximum, and a waiter may be woken whenever more threads wait than the value asks
  for, as \<^verbatim>\<open>wake_sem_waiters\<close> of \<^verbatim>\<open>src/muntos.c\<close> decides it; which one is left open, so that
  what holds here holds for every order of priorities. The number of threads is finite and
  arbitrary: it is the type of their names.
\<close>

section \<open>Counting threads\<close>

definition cnt :: "('a \<Rightarrow> bool) \<Rightarrow> ('i::finite \<Rightarrow> 'a) \<Rightarrow> int" where
  "cnt P f = (\<Sum>u \<in> UNIV. of_bool (P (f u)))"

lemma cnt_upd: "cnt P (f(i := x)) = cnt P f - of_bool (P (f i)) + of_bool (P x)"
proof -
  have "cnt P f = (\<Sum>u \<in> UNIV - {i}. of_bool (P (f u))) + of_bool (P (f i))"
    unfolding cnt_def by (subst sum.remove [of _ i]) simp_all
  moreover have "cnt P (f(i := x)) = (\<Sum>u \<in> UNIV - {i}. of_bool (P ((f(i := x)) u))) + of_bool (P x)"
    unfolding cnt_def by (subst sum.remove [of _ i]) simp_all
  moreover have "(\<Sum>u \<in> UNIV - {i}. of_bool (P ((f(i := x)) u)) :: int) = (\<Sum>u \<in> UNIV - {i}. of_bool (P (f u)))"
    by (intro sum.cong) simp_all
  ultimately show ?thesis by simp
qed

lemma cnt_nonneg: "0 \<le> cnt P f"
  unfolding cnt_def by (intro sum_nonneg) simp

lemma cnt_card: "cnt P (f :: 'i::finite \<Rightarrow> 'a) = int (card {u. P (f u)})"
  by (simp add: cnt_def of_bool_def sum.If_cases)

lemma cnt_pos: "P (f i) \<Longrightarrow> 1 \<le> cnt P f"
proof -
  assume "P (f i)"
  then have "{i} \<subseteq> {u. P (f u)}" by simp
  then have "card {i} \<le> card {u. P (f u)}" by (intro card_mono) simp_all
  then show ?thesis by (simp add: cnt_card)
qed

lemma cnt_le_card: "cnt P (f :: 'i::finite \<Rightarrow> 'a) \<le> int CARD('i)"
  unfolding cnt_card using card_mono [of UNIV "{u. P (f u)}"] by simp

lemma cnt_0: "cnt P f = 0 \<longleftrightarrow> (\<forall>u. \<not> P (f u))"
  by (simp add: cnt_card)

lemma cnt_const [simp]: "\<not> P t \<Longrightarrow> cnt P (\<lambda>_. t) = 0"
  by (simp add: cnt_0)

lemma cnt_disj:
  "(\<And>x. \<not> (P x \<and> Q x)) \<Longrightarrow> cnt (\<lambda>x. P x \<or> Q x) f = cnt P f + cnt Q f"
  unfolding cnt_def sum.distrib [symmetric] by (intro sum.cong) (auto simp: of_bool_def)

lemma cnt_False: "cnt (\<lambda>_. False) f = 0"
  by (simp add: cnt_def)

lemma cnt_mono: "(\<And>x. P x \<Longrightarrow> Q x) \<Longrightarrow> cnt P f \<le> cnt Q f"
  unfolding cnt_def by (intro sum_mono) (auto simp: of_bool_def)

lemma cnt_cong: "(\<And>u. P (f u) = Q (f u)) \<Longrightarrow> cnt P f = cnt Q f"
  by (simp add: cnt_def)

text \<open>How many threads are in one of some states.\<close>

definition at_one :: "('i::finite \<Rightarrow> 'a) \<Rightarrow> 'a list \<Rightarrow> int" where
  "at_one f ts = (\<Sum>t \<leftarrow> ts. cnt (\<lambda>x. x = t) f)"

lemma at_one_simps [simp]:
  "at_one f [] = 0" "at_one f (t # ts) = cnt (\<lambda>x. x = t) f + at_one f ts"
  by (simp_all add: at_one_def)

lemma at_one_nonneg: "0 \<le> at_one f ts"
  unfolding at_one_def by (induction ts) (simp_all add: cnt_nonneg)

lemma cnt_member: "distinct ts \<Longrightarrow> cnt (\<lambda>x. x \<in> set ts) f = at_one f ts"
proof (induction ts)
  case (Cons t ts)
  then have "cnt (\<lambda>x. x = t \<or> x \<in> set ts) f = cnt (\<lambda>x. x = t) f + cnt (\<lambda>x. x \<in> set ts) f"
    by (intro cnt_disj) auto
  then show ?case using Cons by simp
qed (simp add: cnt_False)

lemma cnt_filter:
  assumes "distinct ts" and "\<forall>u. f u \<in> set ts"
  shows "cnt P f = at_one f (filter P ts)"
proof -
  have "cnt P f = cnt (\<lambda>x. x \<in> set (filter P ts)) f" using assms(2) by (intro cnt_cong) simp
  then show ?thesis using cnt_member [of "filter P ts" f] assms(1) by simp
qed

section \<open>The steps\<close>

datatype ('m, 'p) thread = Run 'p | Waiting 'm 'p

primrec is_waiting :: "'m \<Rightarrow> ('m, 'p) thread \<Rightarrow> bool" where
  "is_waiting m (Run p) = False"
| "is_waiting m (Waiting k p) = (k = m)"

record ('i, 'm, 'p, 'd) threads =
  val :: "'m \<Rightarrow> int"
  maxv :: "'m \<Rightarrow> int"
  thr :: "'i \<Rightarrow> ('m, 'p) thread"
  dat :: 'd

definition th_goto :: "'i \<Rightarrow> ('m, 'p) thread \<Rightarrow> ('i, 'm, 'p, 'd) threads \<Rightarrow> ('i, 'm, 'p, 'd) threads" where
  "th_goto i t g = g\<lparr>thr := (thr g)(i := t)\<rparr>"

text \<open>
  The parts of the semaphore operations: the decrement, the system call that enters the wait list,
  and the post. A wait is the first and, when there was no unit, the second.
\<close>

definition th_fetch_sub :: "'i \<Rightarrow> 'm \<Rightarrow> 'p \<Rightarrow> ('i, 'm, 'p, 'd) threads \<Rightarrow> ('i, 'm, 'p, 'd) threads" where
  "th_fetch_sub i m p g = th_goto i (Run p) (g\<lparr>val := (val g)(m := val g m - 1)\<rparr>)"

definition th_block :: "'i \<Rightarrow> 'm \<Rightarrow> 'p \<Rightarrow> ('i, 'm, 'p, 'd) threads \<Rightarrow> ('i, 'm, 'p, 'd) threads" where
  "th_block i m p g = th_goto i (Waiting m p) g"

definition th_wait :: "'i \<Rightarrow> 'm \<Rightarrow> 'p \<Rightarrow> ('i, 'm, 'p, 'd) threads \<Rightarrow> ('i, 'm, 'p, 'd) threads" where
  "th_wait i m p g =
     (if val g m > 0 then th_fetch_sub i m p g else th_block i m p (th_fetch_sub i m p g))"

definition th_post :: "'i \<Rightarrow> 'm \<Rightarrow> int \<Rightarrow> 'p \<Rightarrow> ('i, 'm, 'p, 'd) threads \<Rightarrow> ('i, 'm, 'p, 'd) threads" where
  "th_post i m n p g =
     th_goto i (Run p) (g\<lparr>val := (val g)(m := new_value (val g m) n (maxv g m))\<rparr>)"

definition th_data :: "'i \<Rightarrow> ('d \<Rightarrow> 'd) \<Rightarrow> 'p \<Rightarrow> ('i, 'm, 'p, 'd) threads \<Rightarrow> ('i, 'm, 'p, 'd) threads" where
  "th_data i f p g = th_goto i (Run p) (g\<lparr>dat := f (dat g)\<rparr>)"

inductive th_wake :: "('i::finite, 'm, 'p, 'd) threads \<Rightarrow> ('i, 'm, 'p, 'd) threads \<Rightarrow> bool" where
  "thr g u = Waiting m p \<Longrightarrow> cnt (is_waiting m) (thr g) > max 0 (- val g m) \<Longrightarrow> th_wake g (th_goto u (Run p) g)"

text \<open>
  Waiting on a condition variable \<open>c\<close> with mutex \<open>m\<close>, from the point \<open>p1\<close> on, back to the point \<open>q\<close>
  with the mutex held: count the waiter, release the mutex, wait, take the mutex.
\<close>

inductive th_cond_wait ::
  "'m \<Rightarrow> 'm \<Rightarrow> 'p \<Rightarrow> 'p \<Rightarrow> 'p \<Rightarrow> 'p \<Rightarrow> 'p \<Rightarrow> 'i \<Rightarrow>
   ('i, 'm, 'p, 'd) threads \<Rightarrow> ('i, 'm, 'p, 'd) threads \<Rightarrow> bool"
  for c m p1 p2 p3 p4 q i where
  cond_count: "thr g i = Run p1 \<Longrightarrow> th_cond_wait c m p1 p2 p3 p4 q i g (th_fetch_sub i c p2 g)"
| cond_release: "thr g i = Run p2 \<Longrightarrow> th_cond_wait c m p1 p2 p3 p4 q i g (th_post i m 1 p3 g)"
| cond_block: "thr g i = Run p3 \<Longrightarrow> th_cond_wait c m p1 p2 p3 p4 q i g (th_block i c p4 g)"
| cond_relock: "thr g i = Run p4 \<Longrightarrow> th_cond_wait c m p1 p2 p3 p4 q i g (th_wait i m q g)"

inductive_cases th_wakeE: "th_wake g g'"
inductive_cases th_cond_waitE: "th_cond_wait c m p1 p2 p3 p4 q i g g'"

lemma th_sel [simp]:
  "thr (th_goto i t g) = (thr g)(i := t)" "val (th_goto i t g) = val g"
  "maxv (th_goto i t g) = maxv g" "dat (th_goto i t g) = dat g"
  "thr (th_fetch_sub i m p g) = (thr g)(i := Run p)" "val (th_fetch_sub i m p g) = (val g)(m := val g m - 1)"
  "maxv (th_fetch_sub i m p g) = maxv g" "dat (th_fetch_sub i m p g) = dat g"
  "thr (th_block i m p g) = (thr g)(i := Waiting m p)" "val (th_block i m p g) = val g"
  "maxv (th_block i m p g) = maxv g" "dat (th_block i m p g) = dat g"
  "thr (th_post i m n p g) = (thr g)(i := Run p)"
  "val (th_post i m n p g) = (val g)(m := new_value (val g m) n (maxv g m))"
  "maxv (th_post i m n p g) = maxv g" "dat (th_post i m n p g) = dat g"
  "thr (th_data i f p g) = (thr g)(i := Run p)" "val (th_data i f p g) = val g"
  "maxv (th_data i f p g) = maxv g" "dat (th_data i f p g) = f (dat g)"
  by (simp_all add: th_goto_def th_fetch_sub_def th_block_def th_post_def th_data_def)

lemma th_wait_sel [simp]:
  "thr (th_wait i m p g) = (thr g)(i := if val g m > 0 then Run p else Waiting m p)"
  "val (th_wait i m p g) = (val g)(m := val g m - 1)"
  "maxv (th_wait i m p g) = maxv g" "dat (th_wait i m p g) = dat g"
  by (simp_all add: th_wait_def)

text \<open>A broadcast lets every counted waiter go, as there are fewer threads than \<open>INT_MAX\<close>.\<close>

lemma broadcast_value:
  fixes f :: "'i::finite \<Rightarrow> 'a"
  assumes "int CARD('i) < INT_MAX" and "v \<le> 0" and "- v \<le> cnt P f"
  shows "new_value v INT_MAX 0 = 0"
  using assms cnt_le_card [of P f] by (auto simp: new_value_def)

section \<open>Mutual exclusion\<close>

text \<open>
  What a program that uses a mutex \<open>m\<close> says: the states \<open>hs\<close> in which a thread holds it and the
  states \<open>ws\<close> in which one waits for it. The semaphore's value and these threads account for the
  one unit of the mutex, which is why at most one thread holds it.
\<close>

definition mutex_inv ::
  "'m \<Rightarrow> ('m, 'p) thread list \<Rightarrow> ('m, 'p) thread list \<Rightarrow> ('i::finite, 'm, 'p, 'd) threads \<Rightarrow> bool" where
  "mutex_inv m hs ws g \<longleftrightarrow> maxv g m = 1 \<and> at_one (thr g) hs \<le> 1 \<and>
     val g m + at_one (thr g) hs + at_one (thr g) ws = 1"

locale mutex_user =
  fixes m :: 'm and hs ws :: "('m, 'p) thread list"
  assumes distinct_hs: "distinct hs" and distinct_ws: "distinct ws"
    and disjoint: "set hs \<inter> set ws = {}"
    and ws_wait: "t \<in> set ws \<Longrightarrow> \<exists>p. t = Waiting m p \<and> Run p \<in> set hs"
begin

lemma hs_upd: "at_one (f(i := x)) hs = at_one f hs - of_bool (f i \<in> set hs) + of_bool (x \<in> set hs)"
  using cnt_upd [of "\<lambda>x. x \<in> set hs" f i x] cnt_member [OF distinct_hs] by metis

lemma ws_upd: "at_one (f(i := x)) ws = at_one f ws - of_bool (f i \<in> set ws) + of_bool (x \<in> set ws)"
  using cnt_upd [of "\<lambda>x. x \<in> set ws" f i x] cnt_member [OF distinct_ws] by metis

lemma exclusive:
  assumes "mutex_inv m hs ws g" and "thr g i \<in> set hs" and "thr g j \<in> set hs"
  shows "i = j"
proof (rule ccontr)
  assume "i \<noteq> j"
  then have "card {i, j} \<le> card {u. thr g u \<in> set hs}" using assms(2,3) by (intro card_mono) auto
  then have "2 \<le> at_one (thr g) hs"
    unfolding cnt_member [OF distinct_hs, symmetric] cnt_card using \<open>i \<noteq> j\<close> by simp
  then show False using assms(1) by (simp add: mutex_inv_def)
qed

lemma lock_inv:
  assumes g: "mutex_inv m hs ws g" and "thr g i \<notin> set hs" "thr g i \<notin> set ws"
    and p: "Run p \<in> set hs" "Waiting m p \<in> set ws"
  shows "mutex_inv m hs ws (th_wait i m p g)"
proof -
  have "Run p \<notin> set ws" "Waiting m p \<notin> set hs" using p disjoint by auto
  then show ?thesis using assms at_one_nonneg [of "thr g" ws] by (auto simp: mutex_inv_def hs_upd ws_upd)
qed

lemma unlock_inv:
  assumes g: "mutex_inv m hs ws g" and i: "thr g i \<in> set hs" and p: "Run p \<notin> set hs" "Run p \<notin> set ws"
  shows "mutex_inv m hs ws (th_post i m 1 p g)"
proof -
  have "thr g i \<notin> set ws" using i disjoint by auto
  moreover have "1 \<le> at_one (thr g) hs"
    using cnt_pos [of "\<lambda>x. x \<in> set hs" "thr g" i] i cnt_member [OF distinct_hs] by metis
  ultimately show ?thesis
    using assms at_one_nonneg [of "thr g" ws] by (auto simp: mutex_inv_def hs_upd ws_upd new_value_def)
qed

lemma timeout_inv:
  assumes g: "mutex_inv m hs ws g" and i: "thr g i \<in> set ws" and p: "Run p \<notin> set hs" "Run p \<notin> set ws"
  shows "mutex_inv m hs ws (th_post i m 1 p g)"
proof -
  have "thr g i \<notin> set hs" using i disjoint by auto
  moreover have "1 \<le> at_one (thr g) ws"
    using cnt_pos [of "\<lambda>x. x \<in> set ws" "thr g" i] i cnt_member [OF distinct_ws] by metis
  ultimately show ?thesis
    using assms at_one_nonneg [of "thr g" hs] by (auto simp: mutex_inv_def hs_upd ws_upd new_value_def)
qed

lemma keep_inv:
  assumes g: "mutex_inv m hs ws g" and "thr g' = (thr g)(i := t)" "val g' m = val g m" "maxv g' m = maxv g m"
    and "t \<in> set hs \<longleftrightarrow> thr g i \<in> set hs" "t \<in> set ws \<longleftrightarrow> thr g i \<in> set ws"
  shows "mutex_inv m hs ws g'"
  using assms by (simp add: mutex_inv_def hs_upd ws_upd)

lemma wake_inv:
  assumes g: "mutex_inv m hs ws g" and w: "thr g u = Waiting k p" "k = m \<Longrightarrow> Waiting m p \<in> set ws"
    and k: "k \<noteq> m \<Longrightarrow> Run p \<notin> set hs \<and> Run p \<notin> set ws"
    and many: "cnt (is_waiting k) (thr g) > max 0 (- val g k)"
    and all: "cnt (is_waiting m) (thr g) = at_one (thr g) ws"
    and out: "\<And>k p. Waiting k p \<notin> set hs"
  shows "mutex_inv m hs ws (th_goto u (Run p) g)"
proof (cases "k = m")
  case True
  then have "Run p \<in> set hs" "Run p \<notin> set ws" using w(2) ws_wait disjoint by blast+
  moreover have "at_one (thr g) ws > - val g m" using many all True by simp
  ultimately show ?thesis using g w True out by (simp add: mutex_inv_def hs_upd ws_upd)
next
  case False
  moreover have "Waiting k p \<notin> set ws" using False ws_wait by blast
  ultimately show ?thesis using g w(1) k out by (intro keep_inv [OF g, of _ u "Run p"]) simp_all
qed

end

end
