(* ===== verification/Rt_Once.thy ===== *)
theory Rt_Once
  imports Rt_Threads
begin

text \<open>
  One-time calls, \<^verbatim>\<open>src/once.c\<close> and \<^verbatim>\<open>include/muntos/once.h\<close>: any number of threads call
  \<^verbatim>\<open>rt_once\<close> any number of times on the same object with the same function. The program points are
  those between the accesses to shared data; \<open>started\<close> and \<open>finished\<close> count the calls and the returns
  of the function.
\<close>

section \<open>The code\<close>

datatype once_sem = Once_mutex

datatype once_pc =
    Once_call    \<comment> \<open>\<^verbatim>\<open>rt_once\<close>: load \<^verbatim>\<open>done\<close>\<close>
  | Once_lock    \<comment> \<open>\<^verbatim>\<open>rt_once_slow\<close>: lock the mutex\<close>
  | Once_check   \<comment> \<open>load \<^verbatim>\<open>done\<close> again\<close>
  | Once_fn      \<comment> \<open>call the function\<close>
  | Once_in_fn   \<comment> \<open>the function runs\<close>
  | Once_store   \<comment> \<open>set \<^verbatim>\<open>done\<close>\<close>
  | Once_unlock  \<comment> \<open>unlock the mutex\<close>
  | Once_return

record rt_once =
  once_done :: int
  started :: nat
  finished :: nat

type_synonym 'i once = "('i, once_sem, once_pc, rt_once) threads"

inductive rt_once_step :: "'i \<Rightarrow> 'i once \<Rightarrow> 'i once \<Rightarrow> bool" for i where
  once_fast: "thr g i = Run Once_call \<Longrightarrow>
    rt_once_step i g (th_goto i (Run (if once_done (dat g) = 0 then Once_lock else Once_return)) g)"
| once_again: "thr g i = Run Once_return \<Longrightarrow> rt_once_step i g (th_goto i (Run Once_call) g)"

inductive rt_once_slow :: "'i \<Rightarrow> 'i once \<Rightarrow> 'i once \<Rightarrow> bool" for i where
  slow_lock: "thr g i = Run Once_lock \<Longrightarrow> rt_once_slow i g (th_wait i Once_mutex Once_check g)"
| slow_check: "thr g i = Run Once_check \<Longrightarrow>
    rt_once_slow i g (th_goto i (Run (if once_done (dat g) = 0 then Once_fn else Once_unlock)) g)"
| slow_fn: "thr g i = Run Once_fn \<Longrightarrow>
    rt_once_slow i g (th_data i (\<lambda>d. d\<lparr>started := started d + 1\<rparr>) Once_in_fn g)"
| slow_fn_returns: "thr g i = Run Once_in_fn \<Longrightarrow>
    rt_once_slow i g (th_data i (\<lambda>d. d\<lparr>finished := finished d + 1\<rparr>) Once_store g)"
| slow_store: "thr g i = Run Once_store \<Longrightarrow>
    rt_once_slow i g (th_data i (\<lambda>d. d\<lparr>once_done := 1\<rparr>) Once_unlock g)"
| slow_unlock: "thr g i = Run Once_unlock \<Longrightarrow> rt_once_slow i g (th_post i Once_mutex 1 Once_return g)"

inductive once_step :: "('i::finite) once \<Rightarrow> 'i once \<Rightarrow> bool" where
  "rt_once_step i g g' \<Longrightarrow> once_step g g'"
| "rt_once_slow i g g' \<Longrightarrow> once_step g g'"
| "th_wake g g' \<Longrightarrow> once_step g g'"

definition RT_ONCE_INIT :: "'i once" where
  "RT_ONCE_INIT = \<lparr>val = (\<lambda>_. 1), maxv = (\<lambda>_. 1), thr = (\<lambda>_. Run Once_call),
     dat = \<lparr>once_done = 0, started = 0, finished = 0\<rparr>\<rparr>"

inductive_cases rt_once_stepE: "rt_once_step i g g'"
inductive_cases rt_once_slowE: "rt_once_slow i g g'"
inductive_cases once_stepE: "once_step g g'"

section \<open>Lemmas\<close>

lemma once_sem_eq [simp]: "m = Once_mutex"
  by (cases m)

definition once_hs :: "(once_sem, once_pc) thread list" where
  "once_hs = [Run Once_check, Run Once_fn, Run Once_in_fn, Run Once_store, Run Once_unlock]"

definition once_ws :: "(once_sem, once_pc) thread list" where
  "once_ws = [Waiting Once_mutex Once_check]"

interpretation once_mutex: mutex_user Once_mutex once_hs once_ws
  by unfold_locales (auto simp: once_hs_def once_ws_def)

text \<open>What each program point says about the data while a thread is there.\<close>

fun once_at :: "rt_once \<Rightarrow> (once_sem, once_pc) thread \<Rightarrow> bool" where
  "once_at d (Run Once_fn) = (once_done d = 0 \<and> started d = 0 \<and> finished d = 0)"
| "once_at d (Run Once_in_fn) = (once_done d = 0 \<and> started d = 1 \<and> finished d = 0)"
| "once_at d (Run Once_store) = (once_done d = 0 \<and> started d = 1 \<and> finished d = 1)"
| "once_at d (Run Once_unlock) = (once_done d = 1)"
| "once_at d (Run Once_return) = (once_done d = 1)"
| "once_at d (Waiting m p) = (p = Once_check)"
| "once_at d (Run p) = True"

definition once_data_ok :: "('i::finite) once \<Rightarrow> bool" where
  "once_data_ok g \<longleftrightarrow>
     (once_done (dat g) = 1 \<and> started (dat g) = 1 \<and> finished (dat g) = 1) \<or>
     once_done (dat g) = 0 \<and>
       (started (dat g) = 0 \<and> finished (dat g) = 0 \<or> (\<exists>i. thr g i \<in> {Run Once_in_fn, Run Once_store}))"

definition once_inv :: "('i::finite) once \<Rightarrow> bool" where
  "once_inv g \<longleftrightarrow> mutex_inv Once_mutex once_hs once_ws g \<and> (\<forall>i. once_at (dat g) (thr g i)) \<and> once_data_ok g"

lemma once_init_inv: "once_inv RT_ONCE_INIT"
  by (simp add: once_inv_def RT_ONCE_INIT_def mutex_inv_def once_hs_def once_ws_def cnt_0 once_data_ok_def)

lemma once_waiting:
  assumes "\<forall>i. once_at (dat g) (thr g i)"
  shows "cnt (is_waiting Once_mutex) (thr g) = at_one (thr g) once_ws"
proof -
  have "is_waiting Once_mutex (thr g u) = (thr g u = Waiting Once_mutex Once_check)" for u
    using spec [OF assms, of u] by (cases "thr g u") simp_all
  then have "cnt (is_waiting Once_mutex) (thr g) = cnt (\<lambda>x. x = Waiting Once_mutex Once_check) (thr g)"
    by (rule cnt_cong)
  then show ?thesis by (simp add: once_ws_def)
qed

lemma once_at_other:
  "once_at d t \<Longrightarrow> t \<notin> set once_hs \<Longrightarrow> (once_done d = 1 \<Longrightarrow> once_done d' = 1) \<Longrightarrow> once_at d' t"
  by (cases "(d, t)" rule: once_at.cases) (simp_all add: once_hs_def)

text \<open>A thread that holds the mutex moves and changes the data: the others are where they were.\<close>

lemma once_others:
  assumes g: "once_inv g" and i: "thr g i \<in> set once_hs" and "once_done (dat g) = 1 \<Longrightarrow> once_done d = 1"
    and "once_at d t"
  shows "\<forall>u. once_at d (((thr g)(i := t)) u)"
proof
  fix u
  have "thr g u \<notin> set once_hs" if "u \<noteq> i"
    using once_mutex.exclusive [of g i u] g i that by (auto simp: once_inv_def)
  then show "once_at d (((thr g)(i := t)) u)"
    using g assms(3,4) once_at_other [of "dat g" "thr g u" d] by (auto simp: once_inv_def)
qed

lemma once_holder_data:
  assumes g: "once_inv g" and i: "thr g i \<in> set once_hs" "thr g i \<notin> {Run Once_in_fn, Run Once_store}"
    and "once_done (dat g) = 0"
  shows "started (dat g) = 0 \<and> finished (dat g) = 0"
proof -
  have "thr g u \<notin> {Run Once_in_fn, Run Once_store}" for u
  proof
    assume u: "thr g u \<in> {Run Once_in_fn, Run Once_store}"
    then have "thr g u \<in> set once_hs" by (auto simp: once_hs_def)
    then have "u = i" using once_mutex.exclusive [of g u i] g i(1) by (auto simp: once_inv_def)
    then show False using u i(2) by simp
  qed
  then show ?thesis using g assms(4) by (auto simp: once_inv_def once_data_ok_def)
qed

lemma once_data_keep:
  assumes "once_data_ok g" and "thr g i \<notin> {Run Once_in_fn, Run Once_store}"
    and "thr g' = (thr g)(i := t)" "dat g' = dat g"
  shows "once_data_ok g'"
proof -
  have "\<exists>u. thr g' u \<in> {Run Once_in_fn, Run Once_store}" if u: "thr g u \<in> {Run Once_in_fn, Run Once_store}" for u
    using u assms(2,3) by (intro exI [of _ u]) auto
  then show ?thesis using assms(1,4) unfolding once_data_ok_def by metis
qed

lemma once_move:
  assumes g: "once_inv g" and g': "thr g' = (thr g)(i := t)" "dat g' = dat g"
    and m: "mutex_inv Once_mutex once_hs once_ws g'" and i: "thr g i \<notin> {Run Once_in_fn, Run Once_store}"
    and t: "once_at (dat g) t"
  shows "once_inv g'"
  using g g' m t once_data_keep [OF _ i g'] by (simp add: once_inv_def)

lemma once_keep:
  assumes g: "once_inv g" and g': "thr g' = (thr g)(i := t)" "val g' = val g" "maxv g' = maxv g"
    and h: "t \<in> set once_hs \<longleftrightarrow> thr g i \<in> set once_hs" "t \<in> set once_ws \<longleftrightarrow> thr g i \<in> set once_ws"
  shows "mutex_inv Once_mutex once_hs once_ws g'"
  using g g' h once_mutex.keep_inv [of g g' i t] by (simp add: once_inv_def)

lemma rt_once_step_inv:
  assumes "rt_once_step i g g'" and g: "once_inv g"
  shows "once_inv g'"
  using assms(1)
proof (cases rule: rt_once_step.cases)
  case once_fast
  let ?t = "Run (if once_done (dat g) = 0 then Once_lock else Once_return) :: (once_sem, once_pc) thread"
  have "mutex_inv Once_mutex once_hs once_ws g'"
    using once_keep [OF g, of g' i ?t] once_fast by (simp add: once_hs_def once_ws_def)
  moreover have "once_at (dat g) ?t" using g by (auto simp: once_inv_def once_data_ok_def)
  ultimately show ?thesis using once_move [OF g, of g' i ?t] once_fast by simp
next
  case once_again
  have "mutex_inv Once_mutex once_hs once_ws g'"
    using once_keep [OF g, of g' i "Run Once_call"] once_again by (simp add: once_hs_def once_ws_def)
  then show ?thesis using once_move [OF g, of g' i "Run Once_call"] once_again by simp
qed

text \<open>A thread that holds the mutex changes the data and keeps the mutex.\<close>

lemma once_holder_step:
  assumes g: "once_inv g" and i: "thr g i \<in> set once_hs" and p: "Run p \<in> set once_hs"
    and d: "once_done (dat g) = 1 \<Longrightarrow> once_done (f (dat g)) = 1" "once_at (f (dat g)) (Run p)"
    and ok: "once_data_ok (th_data i f p g)"
  shows "once_inv (th_data i f p g)"
proof -
  have "thr g i \<notin> set once_ws" "Run p \<notin> set once_ws" using i by (auto simp: once_hs_def once_ws_def)
  then have "mutex_inv Once_mutex once_hs once_ws (th_data i f p g)"
    using once_keep [OF g, of "th_data i f p g" i "Run p"] i p by simp
  moreover have "\<forall>u. once_at (f (dat g)) (((thr g)(i := Run p)) u)" using g i d by (rule once_others)
  ultimately show ?thesis using ok by (simp add: once_inv_def)
qed

lemma rt_once_slow_inv:
  assumes "rt_once_slow i g g'" and g: "once_inv g"
  shows "once_inv g'"
  using assms(1)
proof (cases rule: rt_once_slow.cases)
  case slow_lock
  let ?t = "if val g Once_mutex > 0 then Run Once_check else Waiting Once_mutex Once_check"
  have "mutex_inv Once_mutex once_hs once_ws g'"
    unfolding slow_lock(1) by (rule once_mutex.lock_inv)
      (use g slow_lock(2) in \<open>simp_all add: once_inv_def once_hs_def once_ws_def\<close>)
  then show ?thesis using once_move [OF g, of g' i ?t] slow_lock by simp
next
  case slow_check
  let ?t = "Run (if once_done (dat g) = 0 then Once_fn else Once_unlock) :: (once_sem, once_pc) thread"
  have "mutex_inv Once_mutex once_hs once_ws g'"
    using once_keep [OF g, of g' i ?t] slow_check by (simp add: once_hs_def once_ws_def)
  moreover have "once_at (dat g) ?t"
    using g slow_check(2) once_holder_data [OF g, of i] by (auto simp: once_inv_def once_data_ok_def once_hs_def)
  ultimately show ?thesis using once_move [OF g, of g' i ?t] slow_check by simp
next
  case slow_fn
  have at: "once_at (dat g) (thr g i)" using g by (simp add: once_inv_def)
  show ?thesis unfolding slow_fn(1)
    by (rule once_holder_step [OF g]) (use at slow_fn(2) in \<open>auto simp: once_hs_def once_data_ok_def\<close>)
next
  case slow_fn_returns
  have at: "once_at (dat g) (thr g i)" using g by (simp add: once_inv_def)
  show ?thesis unfolding slow_fn_returns(1)
    by (rule once_holder_step [OF g]) (use at slow_fn_returns(2) in \<open>auto simp: once_hs_def once_data_ok_def\<close>)
next
  case slow_store
  have at: "once_at (dat g) (thr g i)" using g by (simp add: once_inv_def)
  show ?thesis unfolding slow_store(1)
    by (rule once_holder_step [OF g]) (use at slow_store(2) in \<open>auto simp: once_hs_def once_data_ok_def\<close>)
next
  case slow_unlock
  have "mutex_inv Once_mutex once_hs once_ws g'"
    unfolding slow_unlock(1) by (rule once_mutex.unlock_inv)
      (use g slow_unlock(2) in \<open>simp_all add: once_inv_def once_hs_def once_ws_def\<close>)
  moreover have "once_at (dat g) (thr g i)" using g by (simp add: once_inv_def)
  ultimately show ?thesis using once_move [OF g, of g' i "Run Once_return"] slow_unlock by simp
qed

lemma once_wake_inv:
  assumes "th_wake g g'" and g: "once_inv g"
  shows "once_inv g'"
  using assms(1)
proof (cases rule: th_wake.cases)
  case (1 u m p)
  have p: "p = Once_check" using g 1(2) unfolding once_inv_def by (metis once_at.simps(6))
  have "mutex_inv Once_mutex once_hs once_ws g'"
    unfolding 1(1) by (rule once_mutex.wake_inv [OF _ 1(2) _ _ 1(3)])
      (use g p once_waiting [of g] in \<open>simp_all add: once_inv_def once_hs_def once_ws_def\<close>)
  then show ?thesis using once_move [OF g, of g' u "Run Once_check"] 1 p by simp
qed

lemma once_reachable_inv: "once_step\<^sup>*\<^sup>* RT_ONCE_INIT g \<Longrightarrow> once_inv g"
proof (induction rule: rtranclp_induct)
  case base
  show ?case by (rule once_init_inv)
next
  case (step g g')
  from step(2) show ?case
    by (cases rule: once_step.cases) (use step(3) rt_once_step_inv rt_once_slow_inv once_wake_inv in blast)+
qed

section \<open>Properties\<close>

text \<open>
  C30. In every state that any number of threads can reach by calling \<^verbatim>\<open>rt_once\<close>, the function has
  been called at most once, and when some thread has returned from \<^verbatim>\<open>rt_once\<close>, the function has
  been called exactly once and has returned.
\<close>

theorem once_runs_once:
  assumes "once_step\<^sup>*\<^sup>* RT_ONCE_INIT g"
  shows "started (dat g) \<le> 1 \<and>
     ((\<exists>i. thr g i = Run Once_return) \<longrightarrow> started (dat g) = 1 \<and> finished (dat g) = 1)"
proof -
  have g: "once_inv g" by (rule once_reachable_inv [OF assms])
  have "once_at (dat g) (thr g i)" for i using g by (simp add: once_inv_def)
  then have ret: "once_done (dat g) = 1" if "thr g i = Run Once_return" for i using that by (metis once_at.simps(5))
  have "started (dat g) \<le> 1"
  proof (cases "\<exists>i. thr g i \<in> {Run Once_in_fn, Run Once_store}")
    case True
    then obtain i where "thr g i \<in> {Run Once_in_fn, Run Once_store}" by blast
    then show ?thesis using \<open>once_at (dat g) (thr g i)\<close> by auto
  next
    case False
    then show ?thesis using g by (auto simp: once_inv_def once_data_ok_def)
  qed
  moreover have "started (dat g) = 1 \<and> finished (dat g) = 1" if "once_done (dat g) = 1"
    using that g by (simp add: once_inv_def once_data_ok_def)
  ultimately show ?thesis using ret by blast
qed

theorem once_runs_once_witness:
  "\<exists>g :: unit once. once_step\<^sup>*\<^sup>* RT_ONCE_INIT g \<and> thr g () = Run Once_return \<and> started (dat g) = 1 \<and> finished (dat g) = 1"
proof -
  let ?g0 = "RT_ONCE_INIT :: unit once"
  let ?g1 = "th_goto () (Run Once_lock) ?g0"
  let ?g2 = "th_wait () Once_mutex Once_check ?g1"
  let ?g3 = "th_goto () (Run Once_fn) ?g2"
  let ?g4 = "th_data () (\<lambda>d. d\<lparr>started := started d + 1\<rparr>) Once_in_fn ?g3"
  let ?g5 = "th_data () (\<lambda>d. d\<lparr>finished := finished d + 1\<rparr>) Once_store ?g4"
  let ?g6 = "th_data () (\<lambda>d. d\<lparr>once_done := 1\<rparr>) Once_unlock ?g5"
  let ?g7 = "th_post () Once_mutex 1 Once_return ?g6"
  have 1: "once_step ?g0 ?g1"
    using once_step.intros(1) [OF once_fast, of ?g0 "()"] by (simp add: RT_ONCE_INIT_def)
  have 2: "once_step ?g1 ?g2" by (rule once_step.intros(2) [OF slow_lock]) simp
  have 3: "once_step ?g2 ?g3"
    using once_step.intros(2) [OF slow_check, of ?g2 "()"] by (simp add: RT_ONCE_INIT_def)
  have 4: "once_step ?g3 ?g4" by (rule once_step.intros(2) [OF slow_fn]) simp
  have 5: "once_step ?g4 ?g5" by (rule once_step.intros(2) [OF slow_fn_returns]) simp
  have 6: "once_step ?g5 ?g6" by (rule once_step.intros(2) [OF slow_store]) simp
  have 7: "once_step ?g6 ?g7" by (rule once_step.intros(2) [OF slow_unlock]) simp
  have r: "once_step\<^sup>*\<^sup>* ?g0 ?g7"
    using 1 2 3 4 5 6 7 by (meson converse_rtranclp_into_rtranclp rtranclp.rtrancl_refl)
  moreover have t: "thr ?g7 () = Run Once_return" by simp
  ultimately show ?thesis using once_runs_once [OF r] by blast
qed

end
