(* ===== verification/Rt_Rwlock.thy ===== *)
theory Rt_Rwlock
  imports Rt_Threads
begin

text \<open>
  The readers-writer lock of \<^verbatim>\<open>src/rwlock.c\<close>, used by any number of threads, each of which
  repeatedly takes the lock for reading or for writing and gives it back. The program points are
  those between the accesses to shared data; the counters are mathematical integers, as no more
  threads can be counted than there are.
\<close>

section \<open>The code\<close>

datatype rw_sem = Rw_m | Rw_rcond | Rw_wcond

datatype rw_pc =
    Rw_idle
  | Rl_lock | Rl_check | Rl_count | Rl_release | Rl_block | Rl_relock | Rl_inc | Rl_unlock
  | Reading
  | Ru_lock | Ru_dec | Ru_test | Ru_broadcast | Ru_unlock
  | Wl_lock | Wl_inc | Wl_check | Wl_count | Wl_release | Wl_block | Wl_relock
  | Writing
  | Wu_dec | Wu_test | Wu_broadcast | Wu_unlock

record rt_rwlock =
  num_readers :: int
  num_writers :: int

type_synonym 'i rw = "('i, rw_sem, rw_pc, rt_rwlock) threads"

definition rt_rwlock_init :: "'i rw" where
  "rt_rwlock_init = \<lparr>val = (\<lambda>_. 0)(Rw_m := 1), maxv = (\<lambda>_. 0)(Rw_m := 1), thr = (\<lambda>_. Run Rw_idle),
     dat = \<lparr>num_readers = 0, num_writers = 0\<rparr>\<rparr>"

inductive rt_rwlock_rlock :: "'i \<Rightarrow> 'i rw \<Rightarrow> 'i rw \<Rightarrow> bool" for i where
  rlock_lock: "thr g i = Run Rl_lock \<Longrightarrow> rt_rwlock_rlock i g (th_wait i Rw_m Rl_check g)"
| rlock_check: "thr g i = Run Rl_check \<Longrightarrow>
    rt_rwlock_rlock i g (th_data i id (if num_writers (dat g) > 0 then Rl_count else Rl_inc) g)"
| rlock_wait: "th_cond_wait Rw_rcond Rw_m Rl_count Rl_release Rl_block Rl_relock Rl_check i g g' \<Longrightarrow>
    rt_rwlock_rlock i g g'"
| rlock_inc: "thr g i = Run Rl_inc \<Longrightarrow>
    rt_rwlock_rlock i g (th_data i (\<lambda>d. d\<lparr>num_readers := num_readers d + 1\<rparr>) Rl_unlock g)"
| rlock_unlock: "thr g i = Run Rl_unlock \<Longrightarrow> rt_rwlock_rlock i g (th_post i Rw_m 1 Reading g)"

inductive rt_rwlock_runlock :: "'i \<Rightarrow> 'i rw \<Rightarrow> 'i rw \<Rightarrow> bool" for i where
  runlock_lock: "thr g i = Run Ru_lock \<Longrightarrow> rt_rwlock_runlock i g (th_wait i Rw_m Ru_dec g)"
| runlock_dec: "thr g i = Run Ru_dec \<Longrightarrow>
    rt_rwlock_runlock i g (th_data i (\<lambda>d. d\<lparr>num_readers := num_readers d - 1\<rparr>) Ru_test g)"
| runlock_test: "thr g i = Run Ru_test \<Longrightarrow>
    rt_rwlock_runlock i g (th_data i id (if num_readers (dat g) = 0 then Ru_broadcast else Ru_unlock) g)"
| runlock_broadcast: "thr g i = Run Ru_broadcast \<Longrightarrow> rt_rwlock_runlock i g (th_post i Rw_wcond INT_MAX Ru_unlock g)"
| runlock_unlock: "thr g i = Run Ru_unlock \<Longrightarrow> rt_rwlock_runlock i g (th_post i Rw_m 1 Rw_idle g)"

inductive rt_rwlock_wlock :: "'i \<Rightarrow> 'i rw \<Rightarrow> 'i rw \<Rightarrow> bool" for i where
  wlock_lock: "thr g i = Run Wl_lock \<Longrightarrow> rt_rwlock_wlock i g (th_wait i Rw_m Wl_inc g)"
| wlock_inc: "thr g i = Run Wl_inc \<Longrightarrow>
    rt_rwlock_wlock i g (th_data i (\<lambda>d. d\<lparr>num_writers := num_writers d + 1\<rparr>) Wl_check g)"
| wlock_check: "thr g i = Run Wl_check \<Longrightarrow>
    rt_rwlock_wlock i g (th_data i id (if num_readers (dat g) > 0 then Wl_count else Writing) g)"
| wlock_wait: "th_cond_wait Rw_wcond Rw_m Wl_count Wl_release Wl_block Wl_relock Wl_check i g g' \<Longrightarrow>
    rt_rwlock_wlock i g g'"

inductive rt_rwlock_wunlock :: "'i \<Rightarrow> 'i rw \<Rightarrow> 'i rw \<Rightarrow> bool" for i where
  wunlock_dec: "thr g i = Run Wu_dec \<Longrightarrow>
    rt_rwlock_wunlock i g (th_data i (\<lambda>d. d\<lparr>num_writers := num_writers d - 1\<rparr>) Wu_test g)"
| wunlock_test: "thr g i = Run Wu_test \<Longrightarrow>
    rt_rwlock_wunlock i g (th_data i id (if num_writers (dat g) = 0 then Wu_broadcast else Wu_unlock) g)"
| wunlock_broadcast: "thr g i = Run Wu_broadcast \<Longrightarrow> rt_rwlock_wunlock i g (th_post i Rw_rcond INT_MAX Wu_unlock g)"
| wunlock_unlock: "thr g i = Run Wu_unlock \<Longrightarrow> rt_rwlock_wunlock i g (th_post i Rw_m 1 Rw_idle g)"

text \<open>A thread decides to read or to write, and ends it.\<close>

inductive rw_user :: "'i \<Rightarrow> 'i rw \<Rightarrow> 'i rw \<Rightarrow> bool" for i where
  want_read: "thr g i = Run Rw_idle \<Longrightarrow> rw_user i g (th_data i id Rl_lock g)"
| end_read: "thr g i = Run Reading \<Longrightarrow> rw_user i g (th_data i id Ru_lock g)"
| want_write: "thr g i = Run Rw_idle \<Longrightarrow> rw_user i g (th_data i id Wl_lock g)"
| end_write: "thr g i = Run Writing \<Longrightarrow> rw_user i g (th_data i id Wu_dec g)"

inductive rw_step :: "('i::finite) rw \<Rightarrow> 'i rw \<Rightarrow> bool" where
  rw_rlock: "rt_rwlock_rlock i g g' \<Longrightarrow> rw_step g g'"
| rw_runlock: "rt_rwlock_runlock i g g' \<Longrightarrow> rw_step g g'"
| rw_wlock: "rt_rwlock_wlock i g g' \<Longrightarrow> rw_step g g'"
| rw_wunlock: "rt_rwlock_wunlock i g g' \<Longrightarrow> rw_step g g'"
| rw_use: "rw_user i g g' \<Longrightarrow> rw_step g g'"
| rw_wake: "th_wake g g' \<Longrightarrow> rw_step g g'"

section \<open>The invariant\<close>

definition rw_hs :: "(rw_sem, rw_pc) thread list" where
  "rw_hs = map Run [Rl_check, Rl_count, Rl_release, Rl_inc, Rl_unlock, Ru_dec, Ru_test, Ru_broadcast,
     Ru_unlock, Wl_inc, Wl_check, Wl_count, Wl_release, Writing, Wu_dec, Wu_test, Wu_broadcast, Wu_unlock]"

definition rw_ws :: "(rw_sem, rw_pc) thread list" where
  "rw_ws = map (Waiting Rw_m) [Rl_check, Ru_dec, Wl_inc, Wl_check]"

interpretation rw_mutex: mutex_user Rw_m rw_hs rw_ws
  by unfold_locales (auto simp: rw_hs_def rw_ws_def)

fun reader :: "(rw_sem, rw_pc) thread \<Rightarrow> bool" where
  "reader (Run p) = (p \<in> {Rl_unlock, Reading, Ru_lock, Ru_dec})"
| "reader (Waiting m p) = (p = Ru_dec)"

fun writer :: "(rw_sem, rw_pc) thread \<Rightarrow> bool" where
  "writer (Run p) = (p \<in> {Wl_check, Wl_count, Wl_release, Wl_block, Wl_relock, Writing, Wu_dec})"
| "writer (Waiting m p) = (p \<in> {Wl_relock, Wl_check})"

text \<open>The threads that a condition variable counts or has counted, and those about to broadcast.\<close>

fun counted_r :: "(rw_sem, rw_pc) thread \<Rightarrow> bool" where
  "counted_r (Run p) = (p \<in> {Rl_release, Rl_block})"
| "counted_r (Waiting m p) = (m = Rw_rcond)"

fun counted_w :: "(rw_sem, rw_pc) thread \<Rightarrow> bool" where
  "counted_w (Run p) = (p \<in> {Wl_release, Wl_block})"
| "counted_w (Waiting m p) = (m = Rw_wcond)"

definition about_r :: "(rw_sem, rw_pc) thread \<Rightarrow> bool" where
  "about_r t \<longleftrightarrow> t = Run Wu_test \<or> t = Run Wu_broadcast"

definition about_w :: "(rw_sem, rw_pc) thread \<Rightarrow> bool" where
  "about_w t \<longleftrightarrow> t = Run Ru_test \<or> t = Run Ru_broadcast"

text \<open>What a program point says about the counters while a thread is there.\<close>

fun rw_at :: "rt_rwlock \<Rightarrow> (rw_sem, rw_pc) thread \<Rightarrow> bool" where
  "rw_at d (Run p) =
     ((p \<in> {Wl_count, Wl_release} \<longrightarrow> num_readers d > 0) \<and>
      (p \<in> {Writing, Wu_dec, Wu_test, Wu_broadcast, Wu_unlock} \<longrightarrow> num_readers d = 0) \<and>
      (p \<in> {Rl_count, Rl_release} \<longrightarrow> num_writers d > 0) \<and>
      (p = Rl_inc \<longrightarrow> num_writers d = 0) \<and>
      (p = Ru_broadcast \<longrightarrow> num_readers d = 0) \<and> (p = Wu_broadcast \<longrightarrow> num_writers d = 0))"
| "rw_at d (Waiting m p) =
     (m = Rw_m \<and> p \<in> {Rl_check, Ru_dec, Wl_inc, Wl_check} \<or> m = Rw_rcond \<and> p = Rl_relock \<or>
      m = Rw_wcond \<and> p = Wl_relock)"

text \<open>The counters count, and a condition variable counts waiters only while they have to wait.\<close>

definition rw_counts :: "('i::finite) rw \<Rightarrow> bool" where
  "rw_counts g \<longleftrightarrow> num_readers (dat g) = cnt reader (thr g) \<and> num_writers (dat g) = cnt writer (thr g) \<and>
     maxv g Rw_rcond = 0 \<and> val g Rw_rcond \<le> 0 \<and> - val g Rw_rcond \<le> cnt counted_r (thr g) \<and>
     (val g Rw_rcond < 0 \<longrightarrow> num_writers (dat g) > 0 \<or> cnt about_r (thr g) > 0) \<and>
     maxv g Rw_wcond = 0 \<and> val g Rw_wcond \<le> 0 \<and> - val g Rw_wcond \<le> cnt counted_w (thr g) \<and>
     (val g Rw_wcond < 0 \<longrightarrow> num_readers (dat g) > 0 \<or> cnt about_w (thr g) > 0)"

definition rw_inv :: "('i::finite) rw \<Rightarrow> bool" where
  "rw_inv g \<longleftrightarrow> mutex_inv Rw_m rw_hs rw_ws g \<and> (\<forall>i. rw_at (dat g) (thr g i)) \<and> rw_counts g"

lemma rw_init_inv: "rw_inv rt_rwlock_init"
  by (simp add: rw_inv_def rt_rwlock_init_def mutex_inv_def rw_hs_def rw_ws_def rw_counts_def)

lemma rw_invD:
  assumes "rw_inv g"
  shows "mutex_inv Rw_m rw_hs rw_ws g" "rw_at (dat g) (thr g i)" "rw_counts g"
  using assms by (simp_all add: rw_inv_def)

lemma rw_at_other: "rw_at d t \<Longrightarrow> t \<notin> set rw_hs \<Longrightarrow> rw_at d' t"
  by (cases t) (auto simp: rw_hs_def)

lemma rw_others:
  assumes g: "rw_inv g" and d: "d = dat g \<or> thr g i \<in> set rw_hs" and t: "rw_at d t"
  shows "\<forall>u. rw_at d (((thr g)(i := t)) u)"
proof
  fix u
  show "rw_at d (((thr g)(i := t)) u)"
  proof (cases "u = i \<or> d = dat g")
    case False
    then have "thr g u \<notin> set rw_hs" using rw_mutex.exclusive [OF rw_invD(1) [OF g], of i u] d by auto
    then show ?thesis using rw_at_other [OF rw_invD(2) [OF g]] t by simp
  qed (use t rw_invD(2) [OF g] in auto)
qed

text \<open>A step of a thread that keeps the mutex or stays without it.\<close>

lemma rw_data_inv:
  assumes g: "rw_inv g" and i: "thr g i = Run p" and d: "f = id \<or> Run p \<in> set rw_hs"
    and h: "Run p \<in> set rw_hs \<longleftrightarrow> Run q \<in> set rw_hs" and at: "rw_at (f (dat g)) (Run q)"
    and c: "rw_counts (th_data i f q g)"
  shows "rw_inv (th_data i f q g)"
proof -
  have "mutex_inv Rw_m rw_hs rw_ws (th_data i f q g)"
    by (rule rw_mutex.keep_inv [OF rw_invD(1) [OF g], of _ i "Run q"]) (use i h in \<open>auto simp: rw_ws_def\<close>)
  moreover have "f (dat g) = dat g \<or> thr g i \<in> set rw_hs" using d i by auto
  ultimately show ?thesis using rw_others [OF g _ at] c by (simp add: rw_inv_def)
qed

lemma rw_lock_inv:
  assumes g: "rw_inv g" and i: "thr g i = Run p" "Run p \<notin> set rw_hs" and q: "Waiting Rw_m q \<in> set rw_ws"
    and at: "rw_at (dat g) (Run q)" and c: "rw_counts (th_wait i Rw_m q g)"
  shows "rw_inv (th_wait i Rw_m q g)"
proof -
  have "mutex_inv Rw_m rw_hs rw_ws (th_wait i Rw_m q g)"
    by (rule rw_mutex.lock_inv [OF rw_invD(1) [OF g]]) (use i q in \<open>auto simp: rw_hs_def rw_ws_def\<close>)
  moreover have "rw_at (dat g) (if val g Rw_m > 0 then Run q else Waiting Rw_m q)"
    using at q by (auto simp: rw_ws_def)
  ultimately show ?thesis using rw_others [OF g] c by (simp add: rw_inv_def)
qed

lemma rw_unlock_inv:
  assumes g: "rw_inv g" and i: "thr g i = Run p" "Run p \<in> set rw_hs" and q: "Run q \<notin> set rw_hs"
    and at: "rw_at (dat g) (Run q)" and c: "rw_counts (th_post i Rw_m 1 q g)"
  shows "rw_inv (th_post i Rw_m 1 q g)"
proof -
  have "mutex_inv Rw_m rw_hs rw_ws (th_post i Rw_m 1 q g)"
    by (rule rw_mutex.unlock_inv [OF rw_invD(1) [OF g]]) (use i q in \<open>auto simp: rw_ws_def\<close>)
  then show ?thesis using rw_others [OF g _ at] c by (simp add: rw_inv_def)
qed

lemma rw_cond_inv:
  assumes g: "rw_inv g" and i: "thr g i = Run p" "Run p \<in> set rw_hs \<longleftrightarrow> t \<in> set rw_hs" "t \<notin> set rw_ws"
    and g': "thr g' = (thr g)(i := t)" "val g' Rw_m = val g Rw_m" "maxv g' = maxv g" "dat g' = dat g"
    and at: "rw_at (dat g) t" and c: "rw_counts g'"
  shows "rw_inv g'"
proof -
  have "mutex_inv Rw_m rw_hs rw_ws g'"
    by (rule rw_mutex.keep_inv [OF rw_invD(1) [OF g], of _ i t]) (use i g' in \<open>auto simp: rw_ws_def\<close>)
  then show ?thesis using rw_others [OF g _ at] c g' by (simp add: rw_inv_def)
qed

lemmas rw_simps = rw_hs_def rw_ws_def rw_counts_def cnt_upd about_r_def about_w_def

lemma rt_rwlock_rlock_inv:
  assumes "rt_rwlock_rlock i g g'" and g: "rw_inv g"
  shows "rw_inv g'"
  using assms(1)
proof (cases rule: rt_rwlock_rlock.cases)
  case rlock_lock
  show ?thesis unfolding rlock_lock(1)
    by (rule rw_lock_inv [OF g rlock_lock(2)]) (use rw_invD(3) [OF g] rlock_lock(2) in \<open>auto simp: rw_simps\<close>)
next
  case rlock_check
  show ?thesis unfolding rlock_check(1)
    by (rule rw_data_inv [OF g rlock_check(2)])
      (use rw_invD(3) [OF g] rlock_check(2) cnt_nonneg [of writer "thr g"] in \<open>auto simp: rw_simps\<close>)
next
  case rlock_inc
  show ?thesis unfolding rlock_inc(1)
    by (rule rw_data_inv [OF g rlock_inc(2)]) (use rw_invD(3) [OF g] rlock_inc(2) in \<open>auto simp: rw_simps\<close>)
next
  case rlock_unlock
  show ?thesis unfolding rlock_unlock(1)
    by (rule rw_unlock_inv [OF g rlock_unlock(2)]) (use rw_invD(3) [OF g] rlock_unlock(2) in \<open>auto simp: rw_simps\<close>)
next
  case rlock_wait
  then show ?thesis
  proof (cases rule: th_cond_wait.cases)
    case cond_count
    have at: "num_writers (dat g) > 0" using rw_invD(2) [OF g, of i] cond_count(2) by simp
    show ?thesis unfolding cond_count(1)
      by (rule rw_cond_inv [OF g cond_count(2), of "Run Rl_release"])
        (use rw_invD(3) [OF g] cond_count(2) at in \<open>auto simp: rw_simps\<close>)
  next
    case cond_release
    show ?thesis unfolding cond_release(1)
      by (rule rw_unlock_inv [OF g cond_release(2)]) (use rw_invD(3) [OF g] cond_release(2) in \<open>auto simp: rw_simps\<close>)
  next
    case cond_block
    show ?thesis unfolding cond_block(1)
      by (rule rw_cond_inv [OF g cond_block(2), of "Waiting Rw_rcond Rl_relock"])
        (use rw_invD(3) [OF g] cond_block(2) in \<open>auto simp: rw_simps\<close>)
  next
    case cond_relock
    show ?thesis unfolding cond_relock(1)
      by (rule rw_lock_inv [OF g cond_relock(2)]) (use rw_invD(3) [OF g] cond_relock(2) in \<open>auto simp: rw_simps\<close>)
  qed
qed

lemma rt_rwlock_runlock_inv:
  fixes g :: "('i::finite) rw"
  assumes "rt_rwlock_runlock i g g'" and g: "rw_inv g" and n: "int CARD('i) < INT_MAX"
  shows "rw_inv g'"
  using assms(1)
proof (cases rule: rt_rwlock_runlock.cases)
  case runlock_lock
  show ?thesis unfolding runlock_lock(1)
    by (rule rw_lock_inv [OF g runlock_lock(2)]) (use rw_invD(3) [OF g] runlock_lock(2) in \<open>auto simp: rw_simps\<close>)
next
  case runlock_dec
  show ?thesis unfolding runlock_dec(1)
    by (rule rw_data_inv [OF g runlock_dec(2)])
      (use rw_invD(3) [OF g] runlock_dec(2) cnt_nonneg [of about_w "thr g"] in \<open>auto simp: rw_simps\<close>)
next
  case runlock_test
  show ?thesis unfolding runlock_test(1)
    by (rule rw_data_inv [OF g runlock_test(2)])
      (use rw_invD(3) [OF g] runlock_test(2) cnt_nonneg [of reader "thr g"] in \<open>auto simp: rw_simps\<close>)
next
  case runlock_broadcast
  have "new_value (val g Rw_wcond) INT_MAX 0 = 0"
    using rw_invD(3) [OF g] by (intro broadcast_value [OF n]) (auto simp: rw_counts_def)
  then show ?thesis unfolding runlock_broadcast(1)
    by (intro rw_cond_inv [OF g runlock_broadcast(2), of "Run Ru_unlock"])
      (use rw_invD(3) [OF g] runlock_broadcast(2) cnt_nonneg [of counted_w "thr g"] in \<open>auto simp: rw_simps\<close>)
next
  case runlock_unlock
  show ?thesis unfolding runlock_unlock(1)
    by (rule rw_unlock_inv [OF g runlock_unlock(2)]) (use rw_invD(3) [OF g] runlock_unlock(2) in \<open>auto simp: rw_simps\<close>)
qed

lemma rt_rwlock_wlock_inv:
  assumes "rt_rwlock_wlock i g g'" and g: "rw_inv g"
  shows "rw_inv g'"
  using assms(1)
proof (cases rule: rt_rwlock_wlock.cases)
  case wlock_lock
  show ?thesis unfolding wlock_lock(1)
    by (rule rw_lock_inv [OF g wlock_lock(2)]) (use rw_invD(3) [OF g] wlock_lock(2) in \<open>auto simp: rw_simps\<close>)
next
  case wlock_inc
  show ?thesis unfolding wlock_inc(1)
    by (rule rw_data_inv [OF g wlock_inc(2)]) (use rw_invD(3) [OF g] wlock_inc(2) in \<open>auto simp: rw_simps\<close>)
next
  case wlock_check
  show ?thesis unfolding wlock_check(1)
    by (rule rw_data_inv [OF g wlock_check(2)])
      (use rw_invD(3) [OF g] wlock_check(2) cnt_nonneg [of reader "thr g"] in \<open>auto simp: rw_simps\<close>)
next
  case wlock_wait
  then show ?thesis
  proof (cases rule: th_cond_wait.cases)
    case cond_count
    have at: "num_readers (dat g) > 0" using rw_invD(2) [OF g, of i] cond_count(2) by simp
    show ?thesis unfolding cond_count(1)
      by (rule rw_cond_inv [OF g cond_count(2), of "Run Wl_release"])
        (use rw_invD(3) [OF g] cond_count(2) at in \<open>auto simp: rw_simps\<close>)
  next
    case cond_release
    show ?thesis unfolding cond_release(1)
      by (rule rw_unlock_inv [OF g cond_release(2)]) (use rw_invD(3) [OF g] cond_release(2) in \<open>auto simp: rw_simps\<close>)
  next
    case cond_block
    show ?thesis unfolding cond_block(1)
      by (rule rw_cond_inv [OF g cond_block(2), of "Waiting Rw_wcond Wl_relock"])
        (use rw_invD(3) [OF g] cond_block(2) in \<open>auto simp: rw_simps\<close>)
  next
    case cond_relock
    show ?thesis unfolding cond_relock(1)
      by (rule rw_lock_inv [OF g cond_relock(2)]) (use rw_invD(3) [OF g] cond_relock(2) in \<open>auto simp: rw_simps\<close>)
  qed
qed

lemma rt_rwlock_wunlock_inv:
  fixes g :: "('i::finite) rw"
  assumes "rt_rwlock_wunlock i g g'" and g: "rw_inv g" and n: "int CARD('i) < INT_MAX"
  shows "rw_inv g'"
  using assms(1)
proof (cases rule: rt_rwlock_wunlock.cases)
  case wunlock_dec
  have "num_readers (dat g) = 0" using rw_invD(2) [OF g, of i] wunlock_dec(2) by simp
  then show ?thesis unfolding wunlock_dec(1)
    by (intro rw_data_inv [OF g wunlock_dec(2)])
      (use rw_invD(3) [OF g] wunlock_dec(2) cnt_nonneg [of about_r "thr g"] in \<open>auto simp: rw_simps\<close>)
next
  case wunlock_test
  have "num_readers (dat g) = 0" using rw_invD(2) [OF g, of i] wunlock_test(2) by simp
  then show ?thesis unfolding wunlock_test(1)
    by (intro rw_data_inv [OF g wunlock_test(2)])
      (use rw_invD(3) [OF g] wunlock_test(2) cnt_nonneg [of writer "thr g"] in \<open>auto simp: rw_simps\<close>)
next
  case wunlock_broadcast
  have "new_value (val g Rw_rcond) INT_MAX 0 = 0" "num_readers (dat g) = 0"
    using rw_invD(3) [OF g] rw_invD(2) [OF g, of i] wunlock_broadcast(2)
    by (auto simp: rw_counts_def intro: broadcast_value [OF n])
  then show ?thesis unfolding wunlock_broadcast(1)
    by (intro rw_cond_inv [OF g wunlock_broadcast(2), of "Run Wu_unlock"])
      (use rw_invD(3) [OF g] wunlock_broadcast(2) cnt_nonneg [of counted_r "thr g"] in \<open>auto simp: rw_simps\<close>)
next
  case wunlock_unlock
  show ?thesis unfolding wunlock_unlock(1)
    by (rule rw_unlock_inv [OF g wunlock_unlock(2)]) (use rw_invD(3) [OF g] wunlock_unlock(2) in \<open>auto simp: rw_simps\<close>)
qed

lemma rw_user_inv:
  assumes "rw_user i g g'" and g: "rw_inv g"
  shows "rw_inv g'"
  using assms(1)
proof (cases rule: rw_user.cases)
  case want_read
  show ?thesis unfolding want_read(1)
    by (rule rw_data_inv [OF g want_read(2)]) (use rw_invD(3) [OF g] want_read(2) in \<open>auto simp: rw_simps\<close>)
next
  case end_read
  show ?thesis unfolding end_read(1)
    by (rule rw_data_inv [OF g end_read(2)]) (use rw_invD(3) [OF g] end_read(2) in \<open>auto simp: rw_simps\<close>)
next
  case want_write
  show ?thesis unfolding want_write(1)
    by (rule rw_data_inv [OF g want_write(2)]) (use rw_invD(3) [OF g] want_write(2) in \<open>auto simp: rw_simps\<close>)
next
  case end_write
  have "rw_at (dat g) (Run Writing)" using rw_invD(2) [OF g, of i] end_write(2) by simp
  then show ?thesis unfolding end_write(1)
    by (intro rw_data_inv [OF g end_write(2)]) (use rw_invD(3) [OF g] end_write(2) in \<open>auto simp: rw_simps\<close>)
qed

lemma rw_waiting_m:
  assumes "rw_inv g"
  shows "cnt (is_waiting Rw_m) (thr g) = at_one (thr g) rw_ws"
proof -
  have "is_waiting Rw_m (thr g u) = (thr g u \<in> set rw_ws)" for u
    using rw_invD(2) [OF assms, of u] by (cases "thr g u") (auto simp: rw_ws_def)
  then have "cnt (is_waiting Rw_m) (thr g) = cnt (\<lambda>t. t \<in> set rw_ws) (thr g)" by (rule cnt_cong)
  then show ?thesis using cnt_member [OF rw_mutex.distinct_ws] by metis
qed

lemma rw_wake_inv:
  assumes "th_wake g g'" and g: "rw_inv g"
  shows "rw_inv g'"
  using assms(1)
proof (cases rule: th_wake.cases)
  case (1 u m p)
  note D = rw_invD [OF g]
  have at: "rw_at (dat g) (Waiting m p)" using D(2) [of u] 1(2) by simp
  then have "mutex_inv Rw_m rw_hs rw_ws g'"
    unfolding 1(1) by (intro rw_mutex.wake_inv [OF D(1) 1(2) _ _ 1(3) rw_waiting_m [OF g]])
      (auto simp: rw_hs_def rw_ws_def)
  moreover have "rw_at (dat g) (Run p)" using at by auto
  then have "\<forall>i. rw_at (dat g') (thr g' i)" using rw_others [OF g, of "dat g" u] 1(1) by simp
  moreover have "rw_counts g'"
    unfolding 1(1)
  proof (cases m)
    case Rw_m
    then consider "p = Rl_check" | "p = Ru_dec" | "p = Wl_inc" | "p = Wl_check" using at by auto
    then show "rw_counts (th_goto u (Run p) g)"
      using D(3) 1(2) Rw_m by cases (simp_all add: rw_simps, auto)
  next
    case Rw_rcond
    have "cnt (is_waiting Rw_rcond) (thr g) \<le> cnt counted_r (thr g)" by (rule cnt_mono) (case_tac x; simp)
    then have "- val g Rw_rcond < cnt counted_r (thr g)" using 1(3) Rw_rcond by simp
    then show "rw_counts (th_goto u (Run p) g)" using D(3) 1(2) at Rw_rcond by (simp add: rw_simps, auto)
  next
    case Rw_wcond
    have "cnt (is_waiting Rw_wcond) (thr g) \<le> cnt counted_w (thr g)" by (rule cnt_mono) (case_tac x; simp)
    then have "- val g Rw_wcond < cnt counted_w (thr g)" using 1(3) Rw_wcond by simp
    then show "rw_counts (th_goto u (Run p) g)" using D(3) 1(2) at Rw_wcond by (simp add: rw_simps, auto)
  qed
  ultimately show ?thesis by (simp add: rw_inv_def)
qed

lemma rw_reachable_inv:
  fixes g :: "('i::finite) rw"
  assumes "rw_step\<^sup>*\<^sup>* rt_rwlock_init g" and n: "int CARD('i) < INT_MAX"
  shows "rw_inv g"
  using assms(1)
proof (induction rule: rtranclp_induct)
  case base
  show ?case by (rule rw_init_inv)
next
  case (step g g')
  note inv = rt_rwlock_rlock_inv rt_rwlock_runlock_inv rt_rwlock_wlock_inv rt_rwlock_wunlock_inv rw_user_inv rw_wake_inv
  from step(2) show ?case
    by (cases rule: rw_step.cases) (use step(3) n inv in blast)+
qed

section \<open>Properties\<close>

lemma rw_inv_alone:
  assumes g: "rw_inv g" and i: "thr g i = Run Writing"
  shows "thr g j \<noteq> Run Reading" and "thr g j = Run Writing \<Longrightarrow> j = i"
proof -
  note D = rw_invD [OF g]
  have "num_readers (dat g) = 0" using D(2) [of i] i by simp
  then have "\<forall>j. \<not> reader (thr g j)" using D(3) by (simp add: rw_counts_def cnt_0)
  then show "thr g j \<noteq> Run Reading" by (intro notI) (drule spec [of _ j], simp)
  show "j = i" if "thr g j = Run Writing"
    using rw_mutex.exclusive [OF D(1), of j i] i that by (simp add: rw_hs_def)
qed

text \<open>
  C31. A writer is alone: in every state that the threads can reach, when one thread writes, no
  other thread writes and none reads.
\<close>

theorem writer_is_alone:
  fixes g :: "('i::finite) rw"
  assumes "rw_step\<^sup>*\<^sup>* rt_rwlock_init g" and "int CARD('i) < INT_MAX" and i: "thr g i = Run Writing"
  shows "\<forall>j. thr g j \<noteq> Run Reading \<and> (thr g j = Run Writing \<longrightarrow> j = i)"
  using rw_inv_alone [OF rw_reachable_inv [OF assms(1,2)] i] by blast

theorem writer_is_alone_witness:
  "\<exists>g :: bool rw. rw_step\<^sup>*\<^sup>* rt_rwlock_init g \<and> thr g True = Run Writing \<and> thr g False \<noteq> Run Reading"
proof -
  let ?g0 = "rt_rwlock_init :: bool rw"
  let ?g1 = "th_data True id Wl_lock ?g0"
  let ?g2 = "th_wait True Rw_m Wl_inc ?g1"
  let ?g3 = "th_data True (\<lambda>d. d\<lparr>num_writers := num_writers d + 1\<rparr>) Wl_check ?g2"
  let ?g4 = "th_data True id Writing ?g3"
  have init: "thr ?g0 i = Run Rw_idle" "val ?g0 Rw_m = 1" "num_readers (dat ?g0) = 0" for i
    by (simp_all add: rt_rwlock_init_def)
  have 1: "rw_step ?g0 ?g1" by (rule rw_use [OF want_write]) (simp add: init)
  have 2: "rw_step ?g1 ?g2" by (rule rw_wlock [OF wlock_lock]) simp
  have 3: "rw_step ?g2 ?g3" by (rule rw_wlock [OF wlock_inc]) (simp add: init)
  have 4: "rw_step ?g3 ?g4" using rw_wlock [OF wlock_check, of ?g3 True] by (simp add: init)
  have r: "rw_step\<^sup>*\<^sup>* ?g0 ?g4" using 1 2 3 4 by (meson converse_rtranclp_into_rtranclp rtranclp.rtrancl_refl)
  have t: "thr ?g4 True = Run Writing" by simp
  have "int CARD(bool) < INT_MAX" by simp
  from writer_is_alone [OF r this t] have "thr ?g4 False \<noteq> Run Reading" by blast
  with r t show ?thesis by blast
qed

text \<open>
  C32. No wake-up is lost: a thread that waits for reading and is not free to go on waits for a
  writer that has the lock or wants it, or one is about to wake it; a thread that waits for writing
  and is not free to go on waits for a reader that has the lock, or one is about to wake it.
\<close>

theorem no_wakeup_lost:
  fixes g :: "('i::finite) rw"
  assumes "rw_step\<^sup>*\<^sup>* rt_rwlock_init g" and "int CARD('i) < INT_MAX"
  shows "((\<exists>i. thr g i = Waiting Rw_rcond Rl_relock) \<and> cnt (is_waiting Rw_rcond) (thr g) \<le> max 0 (- val g Rw_rcond) \<longrightarrow>
       (\<exists>j. writer (thr g j) \<or> thr g j \<in> {Run Wu_test, Run Wu_broadcast})) \<and>
     ((\<exists>i. thr g i = Waiting Rw_wcond Wl_relock) \<and> cnt (is_waiting Rw_wcond) (thr g) \<le> max 0 (- val g Rw_wcond) \<longrightarrow>
       (\<exists>j. reader (thr g j) \<or> thr g j \<in> {Run Ru_test, Run Ru_broadcast}))"
proof -
  have c: "rw_counts g" using rw_invD(3) [OF rw_reachable_inv [OF assms]] .
  have pos: "\<exists>j. P (thr g j)" if "cnt P (thr g) > 0" for P :: "(rw_sem, rw_pc) thread \<Rightarrow> bool"
    using that cnt_0 [of P "thr g"] by auto
  have r: "\<exists>j. writer (thr g j) \<or> about_r (thr g j)"
    if "thr g i = Waiting Rw_rcond Rl_relock" "cnt (is_waiting Rw_rcond) (thr g) \<le> max 0 (- val g Rw_rcond)" for i
  proof -
    have "1 \<le> cnt (is_waiting Rw_rcond) (thr g)" using that(1) by (intro cnt_pos [of _ _ i]) simp
    then show ?thesis using c that(2) pos [of writer] pos [of about_r] by (auto simp: rw_counts_def)
  qed
  have w: "\<exists>j. reader (thr g j) \<or> about_w (thr g j)"
    if "thr g i = Waiting Rw_wcond Wl_relock" "cnt (is_waiting Rw_wcond) (thr g) \<le> max 0 (- val g Rw_wcond)" for i
  proof -
    have "1 \<le> cnt (is_waiting Rw_wcond) (thr g)" using that(1) by (intro cnt_pos [of _ _ i]) simp
    then show ?thesis using c that(2) pos [of reader] pos [of about_w] by (auto simp: rw_counts_def)
  qed
  show ?thesis using r w unfolding about_r_def about_w_def by blast
qed

theorem no_wakeup_lost_witness:
  "\<exists>g :: bool rw. rw_step\<^sup>*\<^sup>* rt_rwlock_init g \<and> thr g True = Waiting Rw_wcond Wl_relock \<and> (\<exists>j. reader (thr g j) \<or> thr g j \<in> {Run Ru_test, Run Ru_broadcast})"
proof -
  let ?g0 = "rt_rwlock_init :: bool rw"
  let ?a1 = "th_data False id Rl_lock ?g0"
  let ?a2 = "th_wait False Rw_m Rl_check ?a1"
  let ?a3 = "th_data False id Rl_inc ?a2"
  let ?a4 = "th_data False (\<lambda>d. d\<lparr>num_readers := num_readers d + 1\<rparr>) Rl_unlock ?a3"
  let ?a5 = "th_post False Rw_m 1 Reading ?a4"
  let ?b1 = "th_data True id Wl_lock ?a5"
  let ?b2 = "th_wait True Rw_m Wl_inc ?b1"
  let ?b3 = "th_data True (\<lambda>d. d\<lparr>num_writers := num_writers d + 1\<rparr>) Wl_check ?b2"
  let ?b4 = "th_data True id Wl_count ?b3"
  let ?b5 = "th_fetch_sub True Rw_wcond Wl_release ?b4"
  let ?b6 = "th_post True Rw_m 1 Wl_block ?b5"
  let ?b7 = "th_block True Rw_wcond Wl_relock ?b6"
  have init: "thr ?g0 i = Run Rw_idle" "val ?g0 = (\<lambda>_. 0)(Rw_m := 1)" "num_readers (dat ?g0) = 0"
    "num_writers (dat ?g0) = 0" "maxv ?g0 Rw_m = 1" for i by (simp_all add: rt_rwlock_init_def)
  have 1: "rw_step ?g0 ?a1" by (rule rw_use [OF want_read]) (simp add: init)
  have 2: "rw_step ?a1 ?a2" by (rule rw_rlock [OF rlock_lock]) simp
  have 3: "rw_step ?a2 ?a3" using rw_rlock [OF rlock_check, of ?a2 False] by (simp add: init)
  have 4: "rw_step ?a3 ?a4" by (rule rw_rlock [OF rlock_inc]) simp
  have 5: "rw_step ?a4 ?a5" by (rule rw_rlock [OF rlock_unlock]) simp
  have 6: "rw_step ?a5 ?b1" by (rule rw_use [OF want_write]) (simp add: init)
  have 7: "rw_step ?b1 ?b2" by (rule rw_wlock [OF wlock_lock]) simp
  have 8: "rw_step ?b2 ?b3" by (rule rw_wlock [OF wlock_inc]) (simp add: init new_value_def)
  have 9: "rw_step ?b3 ?b4" using rw_wlock [OF wlock_check, of ?b3 True] by (simp add: init)
  have 10: "rw_step ?b4 ?b5" by (rule rw_wlock [OF wlock_wait, OF cond_count]) simp
  have 11: "rw_step ?b5 ?b6" by (rule rw_wlock [OF wlock_wait, OF cond_release]) simp
  have 12: "rw_step ?b6 ?b7" by (rule rw_wlock [OF wlock_wait, OF cond_block]) simp
  have a: "rw_step\<^sup>*\<^sup>* ?g0 ?a5" using 1 2 3 4 5 by (meson converse_rtranclp_into_rtranclp rtranclp.rtrancl_refl)
  have b: "rw_step\<^sup>*\<^sup>* ?a5 ?b7"
    using 6 7 8 9 10 11 12 by (meson converse_rtranclp_into_rtranclp rtranclp.rtrancl_refl)
  have r: "rw_step\<^sup>*\<^sup>* ?g0 ?b7" by (rule rtranclp_trans [OF a b])
  have t: "thr ?b7 True = Waiting Rw_wcond Wl_relock" by simp
  have c: "cnt (is_waiting Rw_wcond) (thr ?b7) \<le> max 0 (- val ?b7 Rw_wcond)"
    by (simp add: cnt_def UNIV_bool init)
  have "int CARD(bool) < INT_MAX" by simp
  from no_wakeup_lost [OF r this] t c
  have "\<exists>j. reader (thr ?b7 j) \<or> thr ?b7 j \<in> {Run Ru_test, Run Ru_broadcast}" by blast
  with r t show ?thesis by blast
qed

end
