(* ===== verification/Rt_Barrier.thy ===== *)
theory Rt_Barrier
  imports Rt_Threads
begin

text \<open>
  The barrier of \<^verbatim>\<open>src/barrier.c\<close>, used by any number of threads, each of which calls
  \<^verbatim>\<open>rt_barrier_wait\<close> again and again. The program points are those between the accesses to shared
  data. Beside the fields of the structure the data hold what an observer counts: the calls begun,
  the calls returned and those that returned true.
\<close>

section \<open>The code\<close>

datatype bar_sem = Bar_sem | Bar_m | Bar_cond

datatype bar_pc =
    B_idle
  | B_sem | B_lock | B_inc | B_test | B_broadcast
  | B_count | B_release | B_block | B_relock
  | B_dec | B_check | B_post | B_unlock bool | B_return bool

record rt_barrier =
  bar_tasks :: int
  bar_count :: int
  begun :: int
  returned :: int
  trues :: int

type_synonym 'i bar = "('i, bar_sem, bar_pc, rt_barrier) threads"

definition rt_barrier_init :: "int \<Rightarrow> 'i bar" where
  "rt_barrier_init n = \<lparr>val = (\<lambda>_. 0)(Bar_sem := n, Bar_m := 1), maxv = (\<lambda>_. 0)(Bar_sem := INT_MAX, Bar_m := 1),
     thr = (\<lambda>_. Run B_idle), dat = \<lparr>bar_tasks = 0, bar_count = n, begun = 0, returned = 0, trues = 0\<rparr>\<rparr>"

inductive rt_barrier_wait :: "'i \<Rightarrow> 'i bar \<Rightarrow> 'i bar \<Rightarrow> bool" for i where
  bar_wait_sem: "thr g i = Run B_sem \<Longrightarrow> rt_barrier_wait i g (th_wait i Bar_sem B_lock g)"
| bar_wait_lock: "thr g i = Run B_lock \<Longrightarrow> rt_barrier_wait i g (th_wait i Bar_m B_inc g)"
| bar_wait_inc: "thr g i = Run B_inc \<Longrightarrow>
    rt_barrier_wait i g (th_data i (\<lambda>d. d\<lparr>bar_tasks := bar_tasks d + 1\<rparr>) B_test g)"
| bar_wait_test: "thr g i = Run B_test \<Longrightarrow>
    rt_barrier_wait i g (th_data i id (if bar_tasks (dat g) = bar_count (dat g) then B_broadcast else B_count) g)"
| bar_wait_broadcast: "thr g i = Run B_broadcast \<Longrightarrow> rt_barrier_wait i g (th_post i Bar_cond INT_MAX B_dec g)"
| bar_wait_cond: "th_cond_wait Bar_cond Bar_m B_count B_release B_block B_relock B_dec i g g' \<Longrightarrow>
    rt_barrier_wait i g g'"
| bar_wait_dec: "thr g i = Run B_dec \<Longrightarrow>
    rt_barrier_wait i g (th_data i (\<lambda>d. d\<lparr>bar_tasks := bar_tasks d - 1\<rparr>) B_check g)"
| bar_wait_check: "thr g i = Run B_check \<Longrightarrow>
    rt_barrier_wait i g (th_data i id (if bar_tasks (dat g) = 0 then B_post else B_unlock False) g)"
| bar_wait_post: "thr g i = Run B_post \<Longrightarrow>
    rt_barrier_wait i g (th_post i Bar_sem (bar_count (dat g)) (B_unlock True) g)"
| bar_wait_unlock: "thr g i = Run (B_unlock c) \<Longrightarrow> rt_barrier_wait i g (th_post i Bar_m 1 (B_return c) g)"

text \<open>A thread calls the barrier, and takes the value that the call returns.\<close>

inductive bar_user :: "'i \<Rightarrow> 'i bar \<Rightarrow> 'i bar \<Rightarrow> bool" for i where
  bar_call: "thr g i = Run B_idle \<Longrightarrow> bar_user i g (th_data i (\<lambda>d. d\<lparr>begun := begun d + 1\<rparr>) B_sem g)"
| bar_return: "thr g i = Run (B_return c) \<Longrightarrow>
    bar_user i g (th_data i (\<lambda>d. d\<lparr>returned := returned d + 1, trues := trues d + of_bool c\<rparr>) B_idle g)"

inductive bar_step :: "('i::finite) bar \<Rightarrow> 'i bar \<Rightarrow> bool" where
  bar_code: "rt_barrier_wait i g g' \<Longrightarrow> bar_step g g'"
| bar_use: "bar_user i g g' \<Longrightarrow> bar_step g g'"
| bar_wake: "th_wake g g' \<Longrightarrow> bar_step g g'"

section \<open>The invariant\<close>

definition bar_hs :: "(bar_sem, bar_pc) thread list" where
  "bar_hs = map Run [B_inc, B_test, B_broadcast, B_count, B_release, B_dec, B_check, B_post, B_unlock True,
     B_unlock False]"

definition bar_ws :: "(bar_sem, bar_pc) thread list" where
  "bar_ws = map (Waiting Bar_m) [B_inc, B_dec]"

interpretation bar_mutex: mutex_user Bar_m bar_hs bar_ws
  by unfold_locales (auto simp: bar_hs_def bar_ws_def)

text \<open>
  The stages of a call: past the semaphore and not yet counted, counted in \<open>tasks\<close>, and counted
  out again. Of the counted ones, those before the wait on the condition variable, those that it
  counts and those past it.
\<close>

fun entered :: "(bar_sem, bar_pc) thread \<Rightarrow> bool" where
  "entered (Run p) = (p \<in> {B_lock, B_inc})"
| "entered (Waiting m p) = (p = B_inc)"

fun inside :: "(bar_sem, bar_pc) thread \<Rightarrow> bool" where
  "inside (Run p) = (p \<in> {B_test, B_broadcast, B_count, B_release, B_block, B_relock, B_dec})"
| "inside (Waiting m p) = (p \<in> {B_relock, B_dec})"

definition early :: "(bar_sem, bar_pc) thread \<Rightarrow> bool" where
  "early t \<longleftrightarrow> t \<in> {Run B_test, Run B_broadcast, Run B_count, Run B_release}"

fun counted :: "(bar_sem, bar_pc) thread \<Rightarrow> bool" where
  "counted (Run p) = (p \<in> {B_release, B_block})"
| "counted (Waiting m p) = (m = Bar_cond)"

fun leaving :: "(bar_sem, bar_pc) thread \<Rightarrow> bool" where
  "leaving (Run p) = (p \<in> {B_relock, B_dec, B_check, B_post})"
| "leaving (Waiting m p) = (p = B_dec)"

fun gone :: "(bar_sem, bar_pc) thread \<Rightarrow> bool" where
  "gone (Run p) = (p \<in> {B_check, B_post, B_unlock True, B_unlock False, B_return True, B_return False})"
| "gone (Waiting m p) = False"

definition testing :: "(bar_sem, bar_pc) thread \<Rightarrow> bool" where
  "testing t \<longleftrightarrow> t \<in> {Run B_test, Run B_broadcast}"

definition finishing :: "(bar_sem, bar_pc) thread \<Rightarrow> bool" where
  "finishing t \<longleftrightarrow> t \<in> {Run B_check, Run B_post}"

definition won :: "(bar_sem, bar_pc) thread \<Rightarrow> bool" where
  "won t \<longleftrightarrow> t \<in> {Run (B_unlock True), Run (B_return True)}"

definition at_sem :: "(bar_sem, bar_pc) thread \<Rightarrow> bool" where
  "at_sem t \<longleftrightarrow> t = Run B_sem"

text \<open>How many calls were counted out, and how often the last one of a group reset the barrier.\<close>

definition out :: "('i::finite) bar \<Rightarrow> int" where
  "out g = returned (dat g) + cnt gone (thr g)"

definition resets :: "('i::finite) bar \<Rightarrow> int" where
  "resets g = trues (dat g) + cnt won (thr g)"

fun bar_at :: "int \<Rightarrow> int \<Rightarrow> (bar_sem, bar_pc) thread \<Rightarrow> bool" where
  "bar_at n k (Run p) =
     ((p = B_broadcast \<longrightarrow> k = n) \<and> (p \<in> {B_count, B_release} \<longrightarrow> k \<noteq> n) \<and> (p = B_post \<longrightarrow> k = 0))"
| "bar_at n k (Waiting m p) =
     (m = Bar_sem \<and> p = B_lock \<or> m = Bar_m \<and> p \<in> {B_inc, B_dec} \<or> m = Bar_cond \<and> p = B_relock)"

definition bar_nums :: "int \<Rightarrow> ('i::finite) bar \<Rightarrow> bool" where
  "bar_nums n g \<longleftrightarrow> bar_count (dat g) = n \<and> maxv g Bar_sem = INT_MAX \<and> maxv g Bar_cond = 0 \<and>
     bar_tasks (dat g) = cnt inside (thr g) \<and>
     begun (dat g) = cnt at_sem (thr g) + cnt (is_waiting Bar_sem) (thr g) + cnt entered (thr g) +
       cnt inside (thr g) + out g \<and>
     val g Bar_sem = n + n * resets g - (begun (dat g) - cnt at_sem (thr g)) \<and>
     0 \<le> val g Bar_sem + cnt (is_waiting Bar_sem) (thr g)"

text \<open>
  While a group gathers, the condition variable counts every thread that waits; once the last one
  came, it counts none, and the group leaves until the last one resets the barrier.
\<close>

definition gathering :: "int \<Rightarrow> ('i::finite) bar \<Rightarrow> bool" where
  "gathering n g \<longleftrightarrow> out g = n * resets g \<and> cnt leaving (thr g) = 0 \<and> val g Bar_cond = - cnt counted (thr g) \<and>
     (cnt inside (thr g) = n \<longrightarrow> cnt testing (thr g) > 0)"

definition dispersing :: "int \<Rightarrow> ('i::finite) bar \<Rightarrow> bool" where
  "dispersing n g \<longleftrightarrow> cnt inside (thr g) + out g = n * resets g + n \<and> n * resets g \<le> out g \<and> val g Bar_cond = 0 \<and>
     cnt early (thr g) = 0 \<and> (cnt inside (thr g) = 0 \<longrightarrow> cnt finishing (thr g) > 0)"

definition bar_inv :: "int \<Rightarrow> ('i::finite) bar \<Rightarrow> bool" where
  "bar_inv n g \<longleftrightarrow> mutex_inv Bar_m bar_hs bar_ws g \<and> (\<forall>i. bar_at n (bar_tasks (dat g)) (thr g i)) \<and>
     bar_nums n g \<and> (gathering n g \<or> dispersing n g)"

lemma bar_init_inv: "0 < n \<Longrightarrow> bar_inv n (rt_barrier_init n)"
  by (simp add: bar_inv_def rt_barrier_init_def mutex_inv_def bar_hs_def bar_ws_def bar_nums_def gathering_def
      out_def resets_def at_sem_def testing_def won_def)

lemma bar_invD:
  assumes "bar_inv n g"
  shows "mutex_inv Bar_m bar_hs bar_ws g" "bar_at n (bar_tasks (dat g)) (thr g i)" "bar_nums n g"
    "gathering n g \<or> dispersing n g"
  using assms by (simp_all add: bar_inv_def)

lemma bar_at_other: "bar_at n k t \<Longrightarrow> t \<notin> set bar_hs \<Longrightarrow> bar_at n k' t"
  by (cases t) (auto simp: bar_hs_def)

lemma bar_others:
  assumes g: "bar_inv n g" and d: "k = bar_tasks (dat g) \<or> thr g i \<in> set bar_hs" and t: "bar_at n k t"
  shows "\<forall>u. bar_at n k (((thr g)(i := t)) u)"
proof
  fix u
  show "bar_at n k (((thr g)(i := t)) u)"
  proof (cases "u = i \<or> k = bar_tasks (dat g)")
    case False
    then have "thr g u \<notin> set bar_hs" using bar_mutex.exclusive [OF bar_invD(1) [OF g], of i u] d by auto
    then show ?thesis using bar_at_other [OF bar_invD(2) [OF g]] t by simp
  qed (use t bar_invD(2) [OF g] in auto)
qed


lemma bar_inv_upd:
  assumes g: "bar_inv n g" and thr: "thr g' = (thr g)(i := t)" and m: "mutex_inv Bar_m bar_hs bar_ws g'"
    and d: "bar_tasks (dat g') = bar_tasks (dat g) \<or> thr g i \<in> set bar_hs"
    and at: "bar_at n (bar_tasks (dat g')) t" and c: "bar_nums n g'" "gathering n g' \<or> dispersing n g'"
  shows "bar_inv n g'"
  using bar_others [OF g d at] thr m c by (simp add: bar_inv_def)

text \<open>A step of a thread that keeps the mutex or stays without it, and one that takes or gives it.\<close>

lemma bar_keep_inv:
  assumes g: "bar_inv n g" and thr: "thr g' = (thr g)(i := t)" "thr g i = Run p"
    and d: "bar_tasks (dat g') = bar_tasks (dat g) \<or> Run p \<in> set bar_hs"
    and m: "val g' Bar_m = val g Bar_m" "maxv g' = maxv g" "Run p \<in> set bar_hs \<longleftrightarrow> t \<in> set bar_hs" "t \<notin> set bar_ws"
    and at: "bar_at n (bar_tasks (dat g')) t" and c: "bar_nums n g'" "gathering n g' \<or> dispersing n g'"
  shows "bar_inv n g'"
proof (rule bar_inv_upd [OF g thr(1) _ _ at c])
  show "mutex_inv Bar_m bar_hs bar_ws g'"
    by (rule bar_mutex.keep_inv [OF bar_invD(1) [OF g] thr(1)]) (use thr m in \<open>auto simp: bar_ws_def\<close>)
qed (use d thr in auto)

lemma bar_lock_inv:
  assumes g: "bar_inv n g" and i: "thr g i = Run p" "Run p \<notin> set bar_hs" and q: "q = B_inc \<or> q = B_dec"
    and c: "bar_nums n (th_wait i Bar_m q g)" "gathering n (th_wait i Bar_m q g) \<or> dispersing n (th_wait i Bar_m q g)"
  shows "bar_inv n (th_wait i Bar_m q g)"
proof (rule bar_inv_upd [OF g th_wait_sel(1) _ _ _ c])
  show "mutex_inv Bar_m bar_hs bar_ws (th_wait i Bar_m q g)"
    by (rule bar_mutex.lock_inv [OF bar_invD(1) [OF g]]) (use i q in \<open>auto simp: bar_hs_def bar_ws_def\<close>)
qed (use q in auto)

lemma bar_unlock_inv:
  assumes g: "bar_inv n g" and i: "thr g i = Run p" "Run p \<in> set bar_hs" and q: "Run q \<notin> set bar_hs"
    and c: "bar_nums n (th_post i Bar_m 1 q g)" "gathering n (th_post i Bar_m 1 q g) \<or> dispersing n (th_post i Bar_m 1 q g)"
  shows "bar_inv n (th_post i Bar_m 1 q g)"
proof (rule bar_inv_upd [OF g th_sel(13) _ _ _ c])
  show "mutex_inv Bar_m bar_hs bar_ws (th_post i Bar_m 1 q g)"
    by (rule bar_mutex.unlock_inv [OF bar_invD(1) [OF g]]) (use i q in \<open>auto simp: bar_ws_def\<close>)
qed (use q in \<open>auto simp: bar_hs_def\<close>)

lemma bar_only:
  assumes g: "bar_inv n g" and i: "thr g i \<in> set bar_hs" and P: "\<And>t. P t \<Longrightarrow> t \<in> set bar_hs"
  shows "cnt P (thr g) = of_bool (P (thr g i))"
proof -
  have "{u. P (thr g u)} = (if P (thr g i) then {i} else {})"
    using P bar_mutex.exclusive [OF bar_invD(1) [OF g] i] by auto
  then show ?thesis by (simp add: cnt_card)
qed

lemmas bar_nums_simps = bar_nums_def out_def resets_def cnt_upd at_sem_def won_def
lemmas bar_phase_simps = gathering_def dispersing_def out_def resets_def cnt_upd early_def testing_def finishing_def won_def

text \<open>No more than \<open>n\<close> threads are between the semaphore and the reset.\<close>

lemma bar_room:
  assumes "bar_nums n g"
  shows "cnt entered (thr g) + cnt inside (thr g) + out g \<le> n * resets g + n"
  using assms by (auto simp: bar_nums_def)

lemma bar_wait_sem_inv:
  assumes g: "bar_inv n g" and i: "thr g i = Run B_sem"
  shows "bar_inv n (th_wait i Bar_sem B_lock g)"
proof (rule bar_keep_inv [OF g th_wait_sel(1) i])
  show "bar_nums n (th_wait i Bar_sem B_lock g)"
    using bar_invD(3) [OF g] i cnt_nonneg [of "is_waiting Bar_sem" "thr g"] by (simp add: bar_nums_simps)
  show "gathering n (th_wait i Bar_sem B_lock g) \<or> dispersing n (th_wait i Bar_sem B_lock g)"
    using bar_invD(4) [OF g] i by (simp add: bar_phase_simps)
qed (auto simp: bar_hs_def bar_ws_def)

lemma bar_wait_lock_inv:
  assumes g: "bar_inv n g" and i: "thr g i = Run B_lock"
  shows "bar_inv n (th_wait i Bar_m B_inc g)"
proof (rule bar_lock_inv [OF g i])
  show "bar_nums n (th_wait i Bar_m B_inc g)" using bar_invD(3) [OF g] i by (simp add: bar_nums_simps)
  show "gathering n (th_wait i Bar_m B_inc g) \<or> dispersing n (th_wait i Bar_m B_inc g)"
    using bar_invD(4) [OF g] i by (simp add: bar_phase_simps)
qed (auto simp: bar_hs_def)

lemma bar_wait_inc_inv:
  assumes g: "bar_inv n g" and i: "thr g i = Run B_inc"
  shows "bar_inv n (th_data i (\<lambda>d. d\<lparr>bar_tasks := bar_tasks d + 1\<rparr>) B_test g)" (is "bar_inv n ?g")
proof (rule bar_keep_inv [OF g th_sel(17) i])
  note N = bar_invD(3) [OF g]
  show "bar_nums n ?g" using N i by (simp add: bar_nums_simps)
  have "1 \<le> cnt entered (thr g)" using i by (intro cnt_pos [of _ _ i]) simp
  then have "\<not> dispersing n g" using bar_room [OF N] by (simp add: dispersing_def)
  then have "gathering n g" using bar_invD(4) [OF g] by blast
  then show "gathering n ?g \<or> dispersing n ?g"
    using i cnt_nonneg [of testing "thr g"] by (simp add: bar_phase_simps)
qed (auto simp: bar_hs_def bar_ws_def)

lemma bar_early_gathers:
  assumes g: "bar_inv n g" and i: "early (thr g i)"
  shows "gathering n g"
proof -
  have "1 \<le> cnt early (thr g)" using i by (intro cnt_pos [of _ _ i])
  then show ?thesis using bar_invD(4) [OF g] by (auto simp: dispersing_def)
qed

lemma bar_leaving_disperses:
  assumes g: "bar_inv n g" and i: "leaving (thr g i)"
  shows "dispersing n g"
proof -
  have "1 \<le> cnt leaving (thr g)" using i by (intro cnt_pos [of _ _ i])
  then show ?thesis using bar_invD(4) [OF g] by (auto simp: gathering_def)
qed

lemma bar_wait_test_inv:
  assumes g: "bar_inv n g" and i: "thr g i = Run B_test"
  shows "bar_inv n (th_data i id (if bar_tasks (dat g) = bar_count (dat g) then B_broadcast else B_count) g)"
    (is "bar_inv n ?g")
proof (rule bar_keep_inv [OF g th_sel(17) i])
  note N = bar_invD(3) [OF g]
  show "bar_nums n ?g" using N i by (simp add: bar_nums_simps)
  have "gathering n g" by (rule bar_early_gathers [OF g, of i]) (simp add: i early_def)
  then show "gathering n ?g \<or> dispersing n ?g" using N i by (simp add: bar_phase_simps bar_nums_def)
  show "bar_at n (bar_tasks (dat ?g)) (Run (if bar_tasks (dat g) = bar_count (dat g) then B_broadcast else B_count))"
    using N by (simp add: bar_nums_def)
qed (auto simp: bar_hs_def bar_ws_def)

lemma bar_wait_broadcast_inv:
  fixes g :: "('i::finite) bar"
  assumes g: "bar_inv n g" and i: "thr g i = Run B_broadcast" and n: "int CARD('i) < INT_MAX" "0 < n"
  shows "bar_inv n (th_post i Bar_cond INT_MAX B_dec g)" (is "bar_inv n ?g")
proof (rule bar_keep_inv [OF g th_sel(13) i])
  note N = bar_invD(3) [OF g]
  show "bar_nums n ?g" using N i by (simp add: bar_nums_simps)
  have G: "gathering n g" by (rule bar_early_gathers [OF g, of i]) (simp add: i early_def)
  have T: "cnt inside (thr g) = n" using bar_invD(2) [OF g, of i] N i by (simp add: bar_nums_def)
  have "cnt early (thr g) = 1" using bar_only [OF g, of i early] i by (auto simp: early_def bar_hs_def)
  moreover have "new_value (val g Bar_cond) INT_MAX 0 = 0"
    by (rule broadcast_value [OF n(1), of _ counted "thr g"])
      (use G cnt_nonneg [of counted "thr g"] in \<open>simp_all add: gathering_def\<close>)
  ultimately have "dispersing n ?g"
    using G T N n(2) i by (simp add: dispersing_def gathering_def bar_nums_def out_def resets_def cnt_upd won_def early_def)
  then show "gathering n ?g \<or> dispersing n ?g" ..
qed (auto simp: bar_hs_def bar_ws_def)

lemma bar_wait_cond_inv:
  assumes "th_cond_wait Bar_cond Bar_m B_count B_release B_block B_relock B_dec i g g'" and g: "bar_inv n g"
  shows "bar_inv n g'"
  using assms(1)
proof (cases rule: th_cond_wait.cases)
  case cond_count
  note N = bar_invD(3) [OF g]
  have "gathering n g" by (rule bar_early_gathers [OF g, of i]) (simp add: cond_count(2) early_def)
  then have "gathering n g' \<or> dispersing n g'" unfolding cond_count(1) using cond_count(2) by (simp add: bar_phase_simps)
  moreover have "bar_nums n g'" unfolding cond_count(1) using N cond_count(2) by (simp add: bar_nums_simps)
  moreover have "bar_tasks (dat g) \<noteq> n" using bar_invD(2) [OF g, of i] cond_count(2) by simp
  ultimately show ?thesis unfolding cond_count(1)
    by (intro bar_keep_inv [OF g th_sel(5) cond_count(2)]) (auto simp: bar_hs_def bar_ws_def)
next
  case cond_release
  show ?thesis unfolding cond_release(1)
  proof (rule bar_unlock_inv [OF g cond_release(2)])
    show "bar_nums n (th_post i Bar_m 1 B_block g)" using bar_invD(3) [OF g] cond_release(2) by (simp add: bar_nums_simps)
    have "gathering n g" by (rule bar_early_gathers [OF g, of i]) (simp add: cond_release(2) early_def)
    then show "gathering n (th_post i Bar_m 1 B_block g) \<or> dispersing n (th_post i Bar_m 1 B_block g)"
      using cond_release(2) by (simp add: bar_phase_simps)
  qed (auto simp: bar_hs_def)
next
  case cond_block
  have "bar_nums n g'" unfolding cond_block(1) using bar_invD(3) [OF g] cond_block(2) by (simp add: bar_nums_simps)
  moreover have "gathering n g' \<or> dispersing n g'"
    unfolding cond_block(1) using bar_invD(4) [OF g] cond_block(2) by (simp add: bar_phase_simps)
  ultimately show ?thesis unfolding cond_block(1)
    by (intro bar_keep_inv [OF g th_sel(9) cond_block(2)]) (auto simp: bar_hs_def bar_ws_def)
next
  case cond_relock
  show ?thesis unfolding cond_relock(1)
  proof (rule bar_lock_inv [OF g cond_relock(2)])
    show "bar_nums n (th_wait i Bar_m B_dec g)" using bar_invD(3) [OF g] cond_relock(2) by (simp add: bar_nums_simps)
    have "dispersing n g" by (rule bar_leaving_disperses [OF g, of i]) (simp add: cond_relock(2))
    then show "gathering n (th_wait i Bar_m B_dec g) \<or> dispersing n (th_wait i Bar_m B_dec g)"
      using cond_relock(2) by (simp add: bar_phase_simps)
  qed (auto simp: bar_hs_def)
qed

lemma bar_wait_dec_inv:
  assumes g: "bar_inv n g" and i: "thr g i = Run B_dec"
  shows "bar_inv n (th_data i (\<lambda>d. d\<lparr>bar_tasks := bar_tasks d - 1\<rparr>) B_check g)" (is "bar_inv n ?g")
proof (rule bar_keep_inv [OF g th_sel(17) i])
  show "bar_nums n ?g" using bar_invD(3) [OF g] i by (simp add: bar_nums_simps)
  have "dispersing n g" by (rule bar_leaving_disperses [OF g, of i]) (simp add: i)
  then show "gathering n ?g \<or> dispersing n ?g"
    using i cnt_nonneg [of finishing "thr g"] by (simp add: bar_phase_simps)
qed (auto simp: bar_hs_def bar_ws_def)

lemma bar_wait_check_inv:
  assumes g: "bar_inv n g" and i: "thr g i = Run B_check"
  shows "bar_inv n (th_data i id (if bar_tasks (dat g) = 0 then B_post else B_unlock False) g)" (is "bar_inv n ?g")
proof (rule bar_keep_inv [OF g th_sel(17) i])
  note N = bar_invD(3) [OF g]
  show "bar_nums n ?g" using N i by (simp add: bar_nums_simps)
  have "dispersing n g" by (rule bar_leaving_disperses [OF g, of i]) (simp add: i)
  then show "gathering n ?g \<or> dispersing n ?g" using N i by (simp add: bar_phase_simps bar_nums_def)
qed (auto simp: bar_hs_def bar_ws_def)

lemma bar_none_counted:
  assumes "bar_inv n g" and "cnt inside (thr g) = 0"
  shows "cnt counted (thr g) = 0"
proof -
  have "counted (thr g u) \<Longrightarrow> inside (thr g u)" for u
    using bar_invD(2) [OF assms(1), of u] by (cases "thr g u") auto
  then show ?thesis using assms(2) by (auto simp: cnt_0)
qed

lemma bar_wait_post_inv:
  assumes g: "bar_inv n g" and i: "thr g i = Run B_post" and n: "0 < n" "n \<le> INT_MAX"
  shows "bar_inv n (th_post i Bar_sem (bar_count (dat g)) (B_unlock True) g)" (is "bar_inv n ?g")
proof (rule bar_keep_inv [OF g th_sel(13) i])
  note N = bar_invD(3) [OF g]
  have O: "dispersing n g" by (rule bar_leaving_disperses [OF g, of i]) (simp add: i)
  have T: "cnt inside (thr g) = 0" using bar_invD(2) [OF g, of i] N i by (simp add: bar_nums_def)
  have "val g Bar_sem \<le> 0"
    using N O T cnt_nonneg [of entered "thr g"] cnt_nonneg [of "is_waiting Bar_sem" "thr g"]
    by (simp add: bar_nums_def dispersing_def)
  then have v: "new_value (val g Bar_sem) n INT_MAX = val g Bar_sem + n" using n(2) by (simp add: new_value_def)
  show "bar_nums n ?g" using N i v n by (simp add: bar_nums_simps distrib_left)
  have "cnt finishing (thr g) = 1" using bar_only [OF g, of i finishing] i by (auto simp: finishing_def bar_hs_def)
  moreover have "cnt leaving (thr g) \<le> cnt (\<lambda>t. inside t \<or> finishing t) (thr g)"
    by (rule cnt_mono) (case_tac x; auto simp: finishing_def)
  moreover have "cnt (\<lambda>t. inside t \<or> finishing t) (thr g) = cnt inside (thr g) + cnt finishing (thr g)"
    by (rule cnt_disj) (auto simp: finishing_def)
  moreover have "1 \<le> cnt leaving (thr g)" using i by (intro cnt_pos [of _ _ i]) simp
  ultimately have "cnt leaving (thr g) = 1" using T by simp
  then have "gathering n ?g"
    using O T i n bar_none_counted [OF g T]
    by (simp add: gathering_def dispersing_def out_def resets_def cnt_upd won_def distrib_left)
  then show "gathering n ?g \<or> dispersing n ?g" ..
qed (auto simp: bar_hs_def bar_ws_def)

lemma bar_wait_unlock_inv:
  assumes g: "bar_inv n g" and i: "thr g i = Run (B_unlock c)"
  shows "bar_inv n (th_post i Bar_m 1 (B_return c) g)"
proof (rule bar_unlock_inv [OF g i])
  show "bar_nums n (th_post i Bar_m 1 (B_return c) g)"
    using bar_invD(3) [OF g] i by (cases c) (simp_all add: bar_nums_simps)
  show "gathering n (th_post i Bar_m 1 (B_return c) g) \<or> dispersing n (th_post i Bar_m 1 (B_return c) g)"
    using bar_invD(4) [OF g] i by (cases c) (simp_all add: bar_phase_simps)
qed (cases c; auto simp: bar_hs_def)+

lemma rt_barrier_wait_inv:
  fixes g :: "('i::finite) bar"
  assumes "rt_barrier_wait i g g'" and g: "bar_inv n g" and n: "int CARD('i) < INT_MAX" "0 < n" "n \<le> INT_MAX"
  shows "bar_inv n g'"
  using assms(1)
proof (cases rule: rt_barrier_wait.cases)
  case bar_wait_sem
  show ?thesis unfolding bar_wait_sem(1) by (rule bar_wait_sem_inv [OF g bar_wait_sem(2)])
next
  case bar_wait_lock
  show ?thesis unfolding bar_wait_lock(1) by (rule bar_wait_lock_inv [OF g bar_wait_lock(2)])
next
  case bar_wait_inc
  show ?thesis unfolding bar_wait_inc(1) by (rule bar_wait_inc_inv [OF g bar_wait_inc(2)])
next
  case bar_wait_test
  show ?thesis unfolding bar_wait_test(1) by (rule bar_wait_test_inv [OF g bar_wait_test(2)])
next
  case bar_wait_broadcast
  show ?thesis unfolding bar_wait_broadcast(1) by (rule bar_wait_broadcast_inv [OF g bar_wait_broadcast(2) n(1,2)])
next
  case bar_wait_cond
  then show ?thesis by (rule bar_wait_cond_inv [OF _ g])
next
  case bar_wait_dec
  show ?thesis unfolding bar_wait_dec(1) by (rule bar_wait_dec_inv [OF g bar_wait_dec(2)])
next
  case bar_wait_check
  show ?thesis unfolding bar_wait_check(1) by (rule bar_wait_check_inv [OF g bar_wait_check(2)])
next
  case bar_wait_post
  show ?thesis unfolding bar_wait_post(1) by (rule bar_wait_post_inv [OF g bar_wait_post(2) n(2,3)])
next
  case bar_wait_unlock
  show ?thesis unfolding bar_wait_unlock(1) by (rule bar_wait_unlock_inv [OF g bar_wait_unlock(2)])
qed

lemma bar_user_inv:
  assumes "bar_user i g g'" and g: "bar_inv n g"
  shows "bar_inv n g'"
  using assms(1)
proof (cases rule: bar_user.cases)
  case bar_call
  have "bar_nums n g'" unfolding bar_call(1) using bar_invD(3) [OF g] bar_call(2) by (simp add: bar_nums_simps)
  moreover have "gathering n g' \<or> dispersing n g'"
    unfolding bar_call(1) using bar_invD(4) [OF g] bar_call(2) by (simp add: bar_phase_simps)
  ultimately show ?thesis unfolding bar_call(1)
    by (intro bar_keep_inv [OF g th_sel(17) bar_call(2)]) (auto simp: bar_hs_def bar_ws_def)
next
  case (bar_return c)
  have "bar_nums n g'"
    unfolding bar_return(1) using bar_invD(3) [OF g] bar_return(2) by (cases c) (simp_all add: bar_nums_simps)
  moreover have "gathering n g' \<or> dispersing n g'"
    unfolding bar_return(1) using bar_invD(4) [OF g] bar_return(2) by (cases c) (simp_all add: bar_phase_simps)
  ultimately show ?thesis unfolding bar_return(1)
    by (intro bar_keep_inv [OF g th_sel(17) bar_return(2)]) (auto simp: bar_hs_def bar_ws_def)
qed

lemma bar_waiting_m:
  assumes "bar_inv n g"
  shows "cnt (is_waiting Bar_m) (thr g) = at_one (thr g) bar_ws"
proof -
  have "is_waiting Bar_m (thr g u) = (thr g u \<in> set bar_ws)" for u
    using bar_invD(2) [OF assms, of u] by (cases "thr g u") (auto simp: bar_ws_def)
  then have "cnt (is_waiting Bar_m) (thr g) = cnt (\<lambda>t. t \<in> set bar_ws) (thr g)" by (rule cnt_cong)
  then show ?thesis using cnt_member [OF bar_mutex.distinct_ws] by metis
qed

lemma bar_wake_inv:
  assumes "th_wake g g'" and g: "bar_inv n g"
  shows "bar_inv n g'"
  using assms(1)
proof (cases rule: th_wake.cases)
  case (1 u m p)
  have at: "bar_at n (bar_tasks (dat g)) (Waiting m p)" using bar_invD(2) [OF g, of u] 1(2) by simp
  have "mutex_inv Bar_m bar_hs bar_ws g'"
    unfolding 1(1) by (intro bar_mutex.wake_inv [OF bar_invD(1) [OF g] 1(2) _ _ 1(3) bar_waiting_m [OF g]])
      (use at in \<open>auto simp: bar_hs_def bar_ws_def\<close>)
  moreover have at': "bar_at n (bar_tasks (dat g')) (Run p)" using at 1(1) by auto
  consider "m = Bar_sem" "p = B_lock" | "m = Bar_m" "p = B_inc" | "m = Bar_m" "p = B_dec" | "m = Bar_cond" "p = B_relock"
    using at by auto
  then have "bar_nums n g' \<and> (gathering n g' \<or> dispersing n g')"
  proof cases
    case 4
    have "cnt (is_waiting Bar_cond) (thr g) \<le> cnt counted (thr g)" by (rule cnt_mono) (case_tac x; simp)
    then have "\<not> gathering n g" using 1(3) 4 by (simp add: gathering_def)
    then have "dispersing n g" using bar_invD(4) [OF g] by blast
    then show ?thesis unfolding 1(1) using bar_invD(3) [OF g] 1(2) 4 by (simp add: bar_nums_simps bar_phase_simps)
  qed (use bar_invD(3,4) [OF g] 1 in \<open>simp_all add: bar_nums_simps bar_phase_simps\<close>)
  ultimately show ?thesis using bar_inv_upd [OF g, of g' u "Run p"] at' 1(1) by simp
qed

lemma bar_reachable_inv:
  fixes g :: "('i::finite) bar"
  assumes "bar_step\<^sup>*\<^sup>* (rt_barrier_init n) g" and n: "int CARD('i) < INT_MAX" "0 < n" "n \<le> INT_MAX"
  shows "bar_inv n g"
  using assms(1)
proof (induction rule: rtranclp_induct)
  case base
  show ?case by (rule bar_init_inv [OF n(2)])
next
  case (step g g')
  from step(2) show ?case
    by (cases rule: bar_step.cases) (use step(3) n rt_barrier_wait_inv bar_user_inv bar_wake_inv in blast)+
qed

section \<open>Properties\<close>

text \<open>
  C33. The barrier holds calls back until a whole group is there: in every reachable state the
  number of calls that returned is at most that of the complete groups of \<open>n\<close> calls begun, no more
  calls returned true than there are complete groups, and when no call is on its way out, exactly one
  call of each group of \<open>n\<close> that returned has returned true.
\<close>

theorem barrier_holds:
  fixes g :: "('i::finite) bar"
  assumes "bar_step\<^sup>*\<^sup>* (rt_barrier_init n) g" and "int CARD('i) < INT_MAX" and "0 < n" "n \<le> INT_MAX"
  shows "returned (dat g) \<le> n * (begun (dat g) div n) \<and> trues (dat g) \<le> begun (dat g) div n \<and>
    ((\<forall>i. \<not> gone (thr g i)) \<longrightarrow> trues (dat g) = returned (dat g) div n)"
proof -
  have g: "bar_inv n g" by (rule bar_reachable_inv [OF assms])
  let ?k = "begun (dat g) div n"
  note nn = cnt_nonneg [of at_sem "thr g"] cnt_nonneg [of "is_waiting Bar_sem" "thr g"]
    cnt_nonneg [of entered "thr g"] cnt_nonneg [of inside "thr g"] cnt_nonneg [of won "thr g"] cnt_nonneg [of gone "thr g"]
  have le: "j \<le> ?k" if "n * j \<le> begun (dat g)" for j
    using zdiv_mono1 [OF that assms(3)] assms(3) by simp
  have b: "cnt inside (thr g) + out g \<le> begun (dat g)" using bar_invD(3) [OF g] nn by (simp add: bar_nums_def)
  have "out g \<le> n * ?k \<and> resets g \<le> ?k"
    using bar_invD(4) [OF g]
  proof
    assume "gathering n g"
    then have o: "out g = n * resets g" by (simp add: gathering_def)
    then have "resets g \<le> ?k" using b nn by (intro le) simp
    then show ?thesis using o assms(3) by simp
  next
    assume D: "dispersing n g"
    then have "resets g + 1 \<le> ?k" using b by (intro le) (simp add: dispersing_def distrib_left)
    then have "n * (resets g + 1) \<le> n * ?k" using assms(3) by simp
    then show ?thesis using D nn \<open>resets g + 1 \<le> ?k\<close> by (simp add: dispersing_def distrib_left)
  qed
  moreover have "trues (dat g) = returned (dat g) div n" if none: "\<forall>i. \<not> gone (thr g i)"
  proof -
    have "\<not> won (thr g i)" "\<not> finishing (thr g i)" for i
      using none [rule_format, of i] by (auto simp: won_def finishing_def)
    then have z: "cnt gone (thr g) = 0" "cnt won (thr g) = 0" "cnt finishing (thr g) = 0" using none by (simp_all add: cnt_0)
    show ?thesis using bar_invD(4) [OF g]
    proof
      assume "gathering n g"
      then show ?thesis using z assms(3) by (simp add: gathering_def out_def resets_def)
    next
      assume D: "dispersing n g"
      then have "cnt inside (thr g) > 0" using z nn by (auto simp: dispersing_def)
      then show ?thesis using D z
        by (intro int_div_pos_eq [symmetric, of _ n _ "returned (dat g) - n * trues (dat g)"])
          (auto simp: dispersing_def out_def resets_def)
    qed
  qed
  ultimately show ?thesis using nn by (simp add: out_def resets_def)
qed

theorem barrier_holds_witness:
  "\<exists>g :: unit bar. bar_step\<^sup>*\<^sup>* (rt_barrier_init 1) g \<and> begun (dat g) = 1 \<and> returned (dat g) = 1 \<and>
     trues (dat g) = returned (dat g) div 1 \<and> returned (dat g) \<le> 1 * (begun (dat g) div 1)"
proof -
  let ?g0 = "rt_barrier_init 1 :: unit bar"
  let ?a1 = "th_data () (\<lambda>d. d\<lparr>begun := begun d + 1\<rparr>) B_sem ?g0"
  let ?a2 = "th_wait () Bar_sem B_lock ?a1"
  let ?a3 = "th_wait () Bar_m B_inc ?a2"
  let ?a4 = "th_data () (\<lambda>d. d\<lparr>bar_tasks := bar_tasks d + 1\<rparr>) B_test ?a3"
  let ?a5 = "th_data () id B_broadcast ?a4"
  let ?a6 = "th_post () Bar_cond INT_MAX B_dec ?a5"
  let ?b1 = "th_data () (\<lambda>d. d\<lparr>bar_tasks := bar_tasks d - 1\<rparr>) B_check ?a6"
  let ?b2 = "th_data () id B_post ?b1"
  let ?b3 = "th_post () Bar_sem 1 (B_unlock True) ?b2"
  let ?b4 = "th_post () Bar_m 1 (B_return True) ?b3"
  let ?b5 = "th_data () (\<lambda>d. d\<lparr>returned := returned d + 1, trues := trues d + of_bool True\<rparr>) B_idle ?b4"
  have init: "thr ?g0 i = Run B_idle" "val ?g0 = (\<lambda>_. 0)(Bar_sem := 1, Bar_m := 1)"
    "dat ?g0 = \<lparr>bar_tasks = 0, bar_count = 1, begun = 0, returned = 0, trues = 0\<rparr>" for i
    by (simp_all add: rt_barrier_init_def)
  have 1: "bar_step ?g0 ?a1" by (rule bar_use [OF bar_call]) (simp add: init)
  have 2: "bar_step ?a1 ?a2" by (rule bar_code [OF bar_wait_sem]) simp
  have 3: "bar_step ?a2 ?a3" by (rule bar_code [OF bar_wait_lock]) (simp add: init)
  have 4: "bar_step ?a3 ?a4" by (rule bar_code [OF bar_wait_inc]) (simp add: init)
  have 5: "bar_step ?a4 ?a5" using bar_code [OF bar_wait_test, of ?a4 "()"] by (simp add: init)
  have 6: "bar_step ?a5 ?a6" by (rule bar_code [OF bar_wait_broadcast]) simp
  have 7: "bar_step ?a6 ?b1" by (rule bar_code [OF bar_wait_dec]) simp
  have 8: "bar_step ?b1 ?b2" using bar_code [OF bar_wait_check, of ?b1 "()"] by (simp add: init)
  have 9: "bar_step ?b2 ?b3" using bar_code [OF bar_wait_post, of ?b2 "()"] by (simp add: init)
  have 10: "bar_step ?b3 ?b4" by (rule bar_code [OF bar_wait_unlock]) simp
  have 11: "bar_step ?b4 ?b5" by (rule bar_use [OF bar_return]) simp
  have a: "bar_step\<^sup>*\<^sup>* ?g0 ?a6" using 1 2 3 4 5 6 by (meson converse_rtranclp_into_rtranclp rtranclp.rtrancl_refl)
  have b: "bar_step\<^sup>*\<^sup>* ?a6 ?b5" using 7 8 9 10 11 by (meson converse_rtranclp_into_rtranclp rtranclp.rtrancl_refl)
  have r: "bar_step\<^sup>*\<^sup>* ?g0 ?b5" by (rule rtranclp_trans [OF a b])
  have d: "begun (dat ?b5) = 1" "returned (dat ?b5) = 1" by (simp_all add: init)
  have "int CARD(unit) < INT_MAX" "0 < (1::int)" "1 \<le> INT_MAX" by simp_all
  from barrier_holds [OF r this]
  have "returned (dat ?b5) \<le> 1 * (begun (dat ?b5) div 1)" and "trues (dat ?b5) = returned (dat ?b5) div 1" by simp_all
  with r d show ?thesis by blast
qed

text \<open>
  C34. The barrier lets whole groups go: when no thread can go on, because each of them is outside
  the barrier or waits on a semaphore that wakes nobody, every call of every complete group of \<open>n\<close>
  calls has returned.
\<close>

theorem barrier_lets_groups_go:
  fixes g :: "('i::finite) bar"
  assumes "bar_step\<^sup>*\<^sup>* (rt_barrier_init n) g" and "int CARD('i) < INT_MAX" and "0 < n" "n \<le> INT_MAX"
    and stuck: "\<forall>g'. \<not> th_wake g g'" and idle: "\<forall>i p. thr g i = Run p \<longrightarrow> p = B_idle"
  shows "returned (dat g) = n * (begun (dat g) div n)"
proof -
  have g: "bar_inv n g" by (rule bar_reachable_inv [OF assms(1-4)])
  note N = bar_invD(3) [OF g]
  have w: "cnt (is_waiting m) (thr g) = 0 \<or> cnt (is_waiting m) (thr g) \<le> max 0 (- val g m)" for m
  proof (rule disjCI)
    assume *: "\<not> cnt (is_waiting m) (thr g) \<le> max 0 (- val g m)"
    then have many: "max 0 (- val g m) < cnt (is_waiting m) (thr g)" by (simp only: not_le)
    have "\<not> is_waiting m (thr g u)" for u
      using th_wake.intros [OF _ many, of u] stuck by (cases "thr g u") auto
    then show "cnt (is_waiting m) (thr g) = 0" by (simp add: cnt_0)
  qed
  have run: "thr g i = Run p \<Longrightarrow> p = B_idle" for i p using idle by blast
  have "thr g i \<notin> set bar_hs" for i using run [of i] by (auto simp: bar_hs_def)
  then have "cnt (\<lambda>t. t \<in> set bar_hs) (thr g) = 0" by (simp add: cnt_0)
  then have "at_one (thr g) bar_hs = 0" using cnt_member [OF bar_mutex.distinct_hs] by metis
  then have "cnt (is_waiting Bar_m) (thr g) = 0"
    using w [of Bar_m] bar_invD(1) [OF g] bar_waiting_m [OF g] at_one_nonneg [of "thr g" bar_ws]
    by (auto simp: mutex_inv_def max_def split: if_splits)
  then have m: "\<not> is_waiting Bar_m (thr g u)" for u by (simp add: cnt_0)
  have at: "\<not> entered (thr g u) \<and> \<not> gone (thr g u) \<and> \<not> won (thr g u) \<and> \<not> at_sem (thr g u) \<and> \<not> testing (thr g u) \<and>
      \<not> finishing (thr g u) \<and> (inside (thr g u) \<longleftrightarrow> is_waiting Bar_cond (thr g u))" for u
    using run [of u] m [of u] bar_invD(2) [OF g, of u]
    by (cases "thr g u") (auto simp: won_def at_sem_def testing_def finishing_def)
  then have z: "cnt entered (thr g) = 0" "cnt gone (thr g) = 0" "cnt won (thr g) = 0" "cnt at_sem (thr g) = 0"
    "cnt testing (thr g) = 0" "cnt finishing (thr g) = 0" by (simp_all add: cnt_0)
  have T: "cnt inside (thr g) = cnt (is_waiting Bar_cond) (thr g)" by (rule cnt_cong) (use at in blast)
  have G: "gathering n g" using bar_invD(4) [OF g] w [of Bar_cond] z T cnt_nonneg [of "is_waiting Bar_cond" "thr g"]
    by (auto simp: dispersing_def)
  have lt: "0 \<le> cnt inside (thr g)" "cnt inside (thr g) < n"
    using G z bar_room [OF N] cnt_nonneg [of inside "thr g"] by (auto simp: gathering_def)
  have "cnt (is_waiting Bar_sem) (thr g) = 0"
    using w [of Bar_sem] N G z lt cnt_nonneg [of "is_waiting Bar_sem" "thr g"]
    by (auto simp: bar_nums_def gathering_def max_def split: if_splits)
  then have "begun (dat g) = n * resets g + cnt inside (thr g)" using N G z by (simp add: bar_nums_def gathering_def)
  then have "begun (dat g) div n = resets g" using lt by (intro int_div_pos_eq) auto
  then show ?thesis using G z by (simp add: gathering_def out_def)
qed

theorem barrier_lets_groups_go_witness:
  "\<exists>g :: bool bar. bar_step\<^sup>*\<^sup>* (rt_barrier_init 2) g \<and> thr g True = Waiting Bar_cond B_relock \<and>
     returned (dat g) = 2 * (begun (dat g) div 2)"
proof -
  let ?g0 = "rt_barrier_init 2 :: bool bar"
  let ?a1 = "th_data True (\<lambda>d. d\<lparr>begun := begun d + 1\<rparr>) B_sem ?g0"
  let ?a2 = "th_wait True Bar_sem B_lock ?a1"
  let ?a3 = "th_wait True Bar_m B_inc ?a2"
  let ?a4 = "th_data True (\<lambda>d. d\<lparr>bar_tasks := bar_tasks d + 1\<rparr>) B_test ?a3"
  let ?a5 = "th_data True id B_count ?a4"
  let ?a6 = "th_fetch_sub True Bar_cond B_release ?a5"
  let ?a7 = "th_post True Bar_m 1 B_block ?a6"
  let ?a8 = "th_block True Bar_cond B_relock ?a7"
  have init: "thr ?g0 i = Run B_idle" "val ?g0 = (\<lambda>_. 0)(Bar_sem := 2, Bar_m := 1)" "maxv ?g0 Bar_m = 1"
    "dat ?g0 = \<lparr>bar_tasks = 0, bar_count = 2, begun = 0, returned = 0, trues = 0\<rparr>" for i
    by (simp_all add: rt_barrier_init_def)
  have 1: "bar_step ?g0 ?a1" by (rule bar_use [OF bar_call]) (simp add: init)
  have 2: "bar_step ?a1 ?a2" by (rule bar_code [OF bar_wait_sem]) simp
  have 3: "bar_step ?a2 ?a3" by (rule bar_code [OF bar_wait_lock]) (simp add: init)
  have 4: "bar_step ?a3 ?a4" by (rule bar_code [OF bar_wait_inc]) (simp add: init)
  have 5: "bar_step ?a4 ?a5" using bar_code [OF bar_wait_test, of ?a4 True] by (simp add: init)
  have 6: "bar_step ?a5 ?a6" by (rule bar_code [OF bar_wait_cond, OF cond_count]) simp
  have 7: "bar_step ?a6 ?a7" by (rule bar_code [OF bar_wait_cond, OF cond_release]) simp
  have 8: "bar_step ?a7 ?a8" by (rule bar_code [OF bar_wait_cond, OF cond_block]) simp
  have a: "bar_step\<^sup>*\<^sup>* ?g0 ?a5" using 1 2 3 4 5 by (meson converse_rtranclp_into_rtranclp rtranclp.rtrancl_refl)
  have b: "bar_step\<^sup>*\<^sup>* ?a5 ?a8" using 6 7 8 by (meson converse_rtranclp_into_rtranclp rtranclp.rtrancl_refl)
  have r: "bar_step\<^sup>*\<^sup>* ?g0 ?a8" by (rule rtranclp_trans [OF a b])
  have t: "thr ?a8 True = Waiting Bar_cond B_relock" "thr ?a8 False = Run B_idle" by (simp_all add: init)
  have c: "cnt (is_waiting Bar_cond) (thr ?a8) \<le> max 0 (- val ?a8 Bar_cond)"
    by (simp add: cnt_def UNIV_bool init)
  have stuck: "\<forall>g'. \<not> th_wake ?a8 g'"
  proof (intro allI notI)
    fix g' assume "th_wake ?a8 g'"
    then show False
    proof (cases rule: th_wake.cases)
      case (1 u m p)
      then have "m = Bar_cond" using t by (cases u) simp_all
      then show False using 1(3) leD [OF c] by blast
    qed
  qed
  have "thr ?a8 i = Run p \<Longrightarrow> p = B_idle" for i p using t by (cases i) simp_all
  then have idle: "\<forall>i p. thr ?a8 i = Run p \<longrightarrow> p = B_idle" by blast
  have "int CARD(bool) < INT_MAX" "0 < (2::int)" "2 \<le> INT_MAX" by simp_all
  from barrier_lets_groups_go [OF r this stuck idle] r t(1) show ?thesis by blast
qed

end
