(* ===== verification/Rt_Mpu.thy ===== *)
theory Rt_Mpu
  imports Muntos_Prelude
begin

text \<open>
  The configuration of the memory protection unit in
  \<^verbatim>\<open>arch/arm/include/muntos/arch/mpu.h\<close>: the size and subregion arithmetic and the region
  registers of Armv6-M and Armv7-M, and how the unit reads these registers (for Armv8-M see the
  theory \<open>Rt_Mpu_V8\<close>). The
  macros are functions on 32-bit words. \<^verbatim>\<open>__builtin_constant_p\<close> is an argument of the functions
  that depend on it: the subregions are used for sizes the compiler knows.
\<close>

section \<open>The code: Armv6-M and Armv7-M\<close>

abbreviation SIZE_MAX :: size_t where "SIZE_MAX \<equiv> 0xFFFFFFFF"
abbreviation RT_MPU_NUM_REGIONS :: u32 where "RT_MPU_NUM_REGIONS \<equiv> 8"
abbreviation RT_MPU_NUM_TASK_REGIONS :: u32 where "RT_MPU_NUM_TASK_REGIONS \<equiv> 4"
abbreviation RT_MPU_TASK_REGION_START_ID :: u32 where
  "RT_MPU_TASK_REGION_START_ID \<equiv> RT_MPU_NUM_REGIONS - RT_MPU_NUM_TASK_REGIONS"

text \<open>The number of bits of a number, and the leading zeros of a 32-bit word.\<close>

fun bitlen :: "nat \<Rightarrow> nat" where
  "bitlen n = (if n = 0 then 0 else Suc (bitlen (n div 2)))"

declare bitlen.simps [simp del]

definition builtin_clzl :: "u32 \<Rightarrow> u32" where
  "builtin_clzl n = of_nat (32 - bitlen (unat n))"

definition RT_MPU_SIZEBITS :: "size_t \<Rightarrow> u32" where
  "RT_MPU_SIZEBITS n =
     (if n \<le> 256 then 7
      else if n = SIZE_MAX then 31
      else 30 - builtin_clzl n)"

definition RT_MPU_REGION_SIZE :: "size_t \<Rightarrow> u32" where
  "RT_MPU_REGION_SIZE n = push_bit (unat (RT_MPU_SIZEBITS n + 1)) 1"

definition RT_MPU_SUBREGION_SIZE :: "size_t \<Rightarrow> u32" where
  "RT_MPU_SUBREGION_SIZE n = RT_MPU_REGION_SIZE n div 8"

definition RT_MPU_USE_SUBREGIONS :: "bool \<Rightarrow> size_t \<Rightarrow> bool" where
  "RT_MPU_USE_SUBREGIONS const n \<longleftrightarrow> const \<and> n > 0 \<and> n \<noteq> SIZE_MAX"

definition RT_MPU_SUBREGIONS :: "bool \<Rightarrow> size_t \<Rightarrow> u32" where
  "RT_MPU_SUBREGIONS const n =
     (if RT_MPU_USE_SUBREGIONS const n then (n - 1) div RT_MPU_SUBREGION_SIZE n + 1 else 8)"

definition RT_MPU_SUBREGION_OFFSET :: "u32 \<Rightarrow> size_t \<Rightarrow> u32" where
  "RT_MPU_SUBREGION_OFFSET a n =
     ((a AND NOT (RT_MPU_SUBREGION_SIZE n - 1)) - (a AND NOT (RT_MPU_REGION_SIZE n - 1)))
       div RT_MPU_SUBREGION_SIZE n"

definition RT_MPU_SRD_PREFIX :: "u32 \<Rightarrow> u32" where
  "RT_MPU_SRD_PREFIX off = push_bit (unat off) 1 - 1"

definition RT_MPU_SRD_SUFFIX :: "u32 \<Rightarrow> u32" where
  "RT_MPU_SRD_SUFFIX off = NOT (push_bit (unat (off + 1)) 1 - 1) AND 0xFF"

definition RT_MPU_SRD :: "bool \<Rightarrow> u32 \<Rightarrow> size_t \<Rightarrow> u32" where
  "RT_MPU_SRD const a n =
     (if RT_MPU_USE_SUBREGIONS const n
      then RT_MPU_SRD_PREFIX (RT_MPU_SUBREGION_OFFSET a n) OR
           RT_MPU_SRD_SUFFIX (RT_MPU_SUBREGION_OFFSET (a + n - 1) n)
      else 0)"

definition RT_MPU_ALIGN :: "bool \<Rightarrow> size_t \<Rightarrow> 64 word" where
  "RT_MPU_ALIGN const n =
     (if n = SIZE_MAX then 0x100000000
      else if RT_MPU_SUBREGIONS const n > 4 then ucast (RT_MPU_REGION_SIZE n)
      else if RT_MPU_SUBREGIONS const n > 2 then ucast (4 * RT_MPU_SUBREGION_SIZE n)
      else ucast (RT_MPU_SUBREGIONS const n * RT_MPU_SUBREGION_SIZE n))"

definition RT_MPU_SIZE :: "bool \<Rightarrow> size_t \<Rightarrow> 64 word" where
  "RT_MPU_SIZE const n =
     (if n = SIZE_MAX then 0x100000000 else ucast (RT_MPU_SUBREGION_SIZE n * RT_MPU_SUBREGIONS const n))"

text \<open>Regions and their attributes.\<close>

record rt_mpu_region =
  base_addr :: u32
  attr_size :: u32

type_synonym rt_mpu_config = "rt_mpu_region list"

record rt_mpu =
  mpu_type :: u32
  mpu_ctrl :: u32
  mpu_number :: u32
  mpu_regions :: "rt_mpu_region list"

definition RT_MPU_ATTR_XN :: u32 where "RT_MPU_ATTR_XN = push_bit 28 1"
definition RT_MPU_ATTR_AP :: "u32 \<Rightarrow> u32" where "RT_MPU_ATTR_AP p = push_bit 24 p"
definition RT_MPU_ATTR_RW :: u32 where "RT_MPU_ATTR_RW = RT_MPU_ATTR_AP 3"
definition RT_MPU_ATTR :: "u32 \<Rightarrow> u32" where "RT_MPU_ATTR texscb = push_bit 16 texscb"
definition RT_MPU_ATTR_CACHED_WB_RWALLOC :: u32 where "RT_MPU_ATTR_CACHED_WB_RWALLOC = RT_MPU_ATTR 11"
definition RT_MPU_ATTR_ENABLE :: u32 where "RT_MPU_ATTR_ENABLE = push_bit 0 1"

definition RT_MPU_STACK_ATTR :: u32 where
  "RT_MPU_STACK_ATTR =
     RT_MPU_ATTR_RW OR RT_MPU_ATTR_XN OR RT_MPU_ATTR_CACHED_WB_RWALLOC OR RT_MPU_ATTR_ENABLE"

abbreviation RT_MPU_VALID :: u32 where "RT_MPU_VALID \<equiv> push_bit 4 1"
abbreviation RT_MPU_REGION_MASK :: u32 where "RT_MPU_REGION_MASK \<equiv> 0xF"

definition RT_MPU_BASE_ADDR :: "u32 \<Rightarrow> u32 \<Rightarrow> u32" where
  "RT_MPU_BASE_ADDR region_id start_addr = (region_id AND RT_MPU_REGION_MASK) OR RT_MPU_VALID OR start_addr"

definition RT_MPU_ATTR_SIZE :: "bool \<Rightarrow> u32 \<Rightarrow> size_t \<Rightarrow> u32 \<Rightarrow> u32" where
  "RT_MPU_ATTR_SIZE const start_addr bytes attr =
     push_bit 1 (RT_MPU_SIZEBITS bytes) OR push_bit 8 (RT_MPU_SRD const start_addr bytes) OR
     (attr AND NOT (if bytes = 0 then RT_MPU_ATTR_ENABLE else 0))"

definition rt_mpu_config_set ::
  "bool \<Rightarrow> rt_mpu_config \<Rightarrow> u32 \<Rightarrow> u32 \<Rightarrow> size_t \<Rightarrow> u32 \<Rightarrow> rt_mpu_config option" where
  "rt_mpu_config_set const config region_id start_addr bytes attr =
     (let index = region_id - RT_MPU_TASK_REGION_START_ID
      in if unat index < length config
         then Some (config[unat index :=
           \<lparr>base_addr = RT_MPU_BASE_ADDR region_id start_addr,
            attr_size = RT_MPU_ATTR_SIZE const start_addr bytes attr\<rparr>])
         else None)"

definition rt_mpu_config_init :: "rt_mpu_config" where
  "rt_mpu_config_init =
     map (\<lambda>i. \<lparr>base_addr = RT_MPU_BASE_ADDR (RT_MPU_TASK_REGION_START_ID + of_nat i) 0,
              attr_size = RT_MPU_ATTR_SIZE True 0 0 0\<rparr>) [0..<unat RT_MPU_NUM_TASK_REGIONS]"

definition rt_mpu_region_set :: "bool \<Rightarrow> u32 \<Rightarrow> u32 \<Rightarrow> size_t \<Rightarrow> u32 \<Rightarrow> rt_mpu \<Rightarrow> rt_mpu" where
  "rt_mpu_region_set const region_id start_addr bytes attr mpu =
     mpu\<lparr>mpu_regions := (mpu_regions mpu)[0 :=
       \<lparr>base_addr = RT_MPU_BASE_ADDR region_id start_addr,
        attr_size = RT_MPU_ATTR_SIZE const start_addr bytes attr\<rparr>]\<rparr>"

abbreviation RT_MPU_CTRL_ENABLE :: u32 where "RT_MPU_CTRL_ENABLE \<equiv> push_bit 0 1"
abbreviation RT_MPU_CTRL_HFNMI_ENABLE :: u32 where "RT_MPU_CTRL_HFNMI_ENABLE \<equiv> push_bit 1 1"
abbreviation RT_MPU_CTRL_PRIVDEF_ENABLE :: u32 where "RT_MPU_CTRL_PRIVDEF_ENABLE \<equiv> push_bit 2 1"

definition rt_mpu_enable :: "rt_mpu \<Rightarrow> rt_mpu" where
  "rt_mpu_enable mpu =
     mpu\<lparr>mpu_ctrl := RT_MPU_CTRL_ENABLE OR RT_MPU_CTRL_HFNMI_ENABLE OR RT_MPU_CTRL_PRIVDEF_ENABLE\<rparr>"

section \<open>The unit\<close>

text \<open>
  How the unit reads a region: enabled by bit 0 of the attribute and size register, of
  \<open>2 ^ (SIZE + 1)\<close> bytes for the field \<open>SIZE\<close> in bits 1 to 5, at the base address with the low bits
  ignored, in eight subregions of equal size each of which a bit from 8 on disables.
\<close>

definition region_bits :: "rt_mpu_region \<Rightarrow> nat" where
  "region_bits r = unat (drop_bit 1 (attr_size r) AND mask 5) + 1"

definition region_has :: "rt_mpu_region \<Rightarrow> u32 \<Rightarrow> bool" where
  "region_has r x \<longleftrightarrow> bit (attr_size r) 0 \<and>
     unat x div 2 ^ region_bits r = unat (base_addr r) div 2 ^ region_bits r \<and>
     \<not> bit (attr_size r) (8 + unat x mod 2 ^ region_bits r div 2 ^ (region_bits r - 3))"

section \<open>Sizes\<close>

lemma bitlen_eq_Suc: "2 ^ k \<le> n \<Longrightarrow> n < 2 ^ Suc k \<Longrightarrow> bitlen n = Suc k"
proof (induction k arbitrary: n)
  case 0
  then have "n = 1" by simp
  then show ?case by (simp add: bitlen.simps)
next
  case (Suc k)
  then have "bitlen (n div 2) = Suc k" by (intro Suc.IH) auto
  then show ?case using Suc.prems by (subst bitlen.simps) auto
qed

text \<open>A region of size \<open>2 ^ k\<close> for sizes from \<open>2 ^ k\<close> on, and of 256 bytes for smaller ones.\<close>

lemma sizebits_large:
  assumes "256 < n" and "n \<noteq> SIZE_MAX" and "2 ^ k \<le> unat n" and "unat n < 2 ^ Suc k"
  shows "RT_MPU_SIZEBITS n + 1 = of_nat k" "k < 32" "8 \<le> k"
proof -
  have "(2 :: nat) ^ k < 2 ^ 32" using assms(3) unsigned_less [of n, where ?'a = nat] by simp
  then show k: "k < 32" by (rule power_less_imp_less_exp [rotated]) simp
  have "(2 :: nat) ^ 8 < 2 ^ Suc k" using assms(1,4) by (simp add: word_less_nat_alt)
  then have "8 < Suc k" by (rule power_less_imp_less_exp [rotated]) simp
  then show "8 \<le> k" by simp
  have "builtin_clzl n = of_nat (31 - k)"
    using bitlen_eq_Suc [OF assms(3,4)] by (simp add: builtin_clzl_def)
  also have "\<dots> = 31 - of_nat k" using k by (simp add: of_nat_diff)
  finally show "RT_MPU_SIZEBITS n + 1 = of_nat k" using assms(1,2) by (auto simp: RT_MPU_SIZEBITS_def)
qed

definition sizes :: "size_t \<Rightarrow> nat \<Rightarrow> bool" where
  "sizes n k \<longleftrightarrow> 8 \<le> k \<and> k < 32 \<and> RT_MPU_SIZEBITS n = of_nat (k - 1)"

lemma sizes_small: "n \<le> 256 \<Longrightarrow> sizes n 8"
  by (simp add: sizes_def RT_MPU_SIZEBITS_def)

lemma sizes_large:
  assumes "256 < n" and "n \<noteq> SIZE_MAX" and "2 ^ k \<le> unat n" and "unat n < 2 ^ Suc k"
  shows "sizes n k"
proof -
  note s = sizebits_large [OF assms]
  have "RT_MPU_SIZEBITS n = of_nat k - 1" using s(1) by (metis add_diff_cancel_right')
  then show ?thesis using s(2,3) by (simp add: sizes_def of_nat_diff)
qed

lemma sizes_region:
  assumes "sizes n k"
  shows "RT_MPU_REGION_SIZE n = push_bit k 1" "RT_MPU_SUBREGION_SIZE n = push_bit (k - 3) 1"
    "unat (RT_MPU_REGION_SIZE n) = 2 ^ k" "unat (RT_MPU_SUBREGION_SIZE n) = 2 ^ (k - 3)"
proof -
  have k: "8 \<le> k" "k < 32" using assms by (simp_all add: sizes_def)
  have "RT_MPU_SIZEBITS n + 1 = of_nat k" using assms by (simp add: sizes_def of_nat_diff)
  moreover have "unat (of_nat k :: u32) = k" by (rule of_nat_inverse [OF refl]) (use k in simp)
  ultimately show r: "RT_MPU_REGION_SIZE n = push_bit k 1" by (simp add: RT_MPU_REGION_SIZE_def)
  have "unat (2 ^ j :: u32) = 2 ^ j" if "j < 32" for j
  proof -
    have "(2 :: nat) ^ j < 2 ^ 32" using that by (rule power_strict_increasing) simp
    then show ?thesis using of_nat_inverse [of "2 ^ j" "2 ^ j :: u32"] by simp
  qed
  note p = this
  show u: "unat (RT_MPU_REGION_SIZE n) = 2 ^ k" using k p [of k] by (simp add: r push_bit_eq_mult)
  have "(2 :: nat) ^ k div 8 = 2 ^ (k - 3)" using k power_diff [of "2 :: nat" 3 k] by simp
  then show s: "unat (RT_MPU_SUBREGION_SIZE n) = 2 ^ (k - 3)"
    unfolding RT_MPU_SUBREGION_SIZE_def unat_div using u by simp
  show "RT_MPU_SUBREGION_SIZE n = push_bit (k - 3) 1"
    using s p [of "k - 3"] k by (simp add: word_unat_eq_iff push_bit_eq_mult)
qed

section \<open>Subregions\<close>

lemma offset_unat:
  assumes "sizes n k"
  shows "unat (RT_MPU_SUBREGION_OFFSET a n) = unat a mod 2 ^ k div 2 ^ (k - 3)"
proof -
  let ?S = "2 ^ (k - 3) :: nat" and ?R = "2 ^ k :: nat" and ?A = "unat a"
  have "?S dvd ?R" by (rule le_imp_power_dvd) simp
  then have mm: "?A mod ?R mod ?S = ?A mod ?S" by (rule mod_mod_cancel)
  have le: "?A mod ?S \<le> ?A mod ?R" unfolding mm [symmetric] by (rule mod_less_eq_dividend)
  have u: "unat (a AND NOT (RT_MPU_SUBREGION_SIZE n - 1)) = ?A - ?A mod ?S"
    "unat (a AND NOT (RT_MPU_REGION_SIZE n - 1)) = ?A - ?A mod ?R"
    unfolding sizes_region(1,2) [OF assms]
    using unat_AND_NOT_mask [of a "k - 3"] unat_AND_NOT_mask [of a k]
    by (simp_all add: mask_eq_exp_minus_1 push_bit_eq_mult)
  have "(?A - ?A mod ?S) - (?A - ?A mod ?R) = ?A mod ?R - ?A mod ?R mod ?S"
    unfolding mm using le mod_less_eq_dividend [of ?A ?R] by linarith
  moreover have "(?A mod ?R - ?A mod ?R mod ?S) div ?S = ?A mod ?R div ?S"
    by (simp add: minus_mod_eq_div_mult)
  moreover have "a AND NOT (RT_MPU_REGION_SIZE n - 1) \<le> a AND NOT (RT_MPU_SUBREGION_SIZE n - 1)"
    unfolding word_le_nat_alt u using le by simp
  ultimately show ?thesis
    unfolding RT_MPU_SUBREGION_OFFSET_def unat_div sizes_region(4) [OF assms] by (simp add: unat_sub u)
qed

lemma srd_prefix_bit: "bit (RT_MPU_SRD_PREFIX off) i \<longleftrightarrow> i < unat off" if "i < 32" for i
  using that by (simp add: RT_MPU_SRD_PREFIX_def push_bit_eq_mult mask_eq_exp_minus_1 [symmetric] bit_simps)

lemma srd_suffix_bit:
  assumes "unat off < 8"
  shows "bit (RT_MPU_SRD_SUFFIX off) i \<longleftrightarrow> unat off < i \<and> i < 8"
proof -
  have "off \<noteq> -1" using assms by (auto simp: unsigned_minus_1_eq_mask mask_eq_exp_minus_1)
  then have inc: "unat (off + 1) = Suc (unat off)" by (rule unat_inc)
  have "(0xFF :: u32) = mask 8" by (simp add: mask_eq_exp_minus_1)
  moreover have "push_bit (Suc (unat off)) 1 - 1 = (mask (Suc (unat off)) :: u32)"
    by (simp add: mask_eq_exp_minus_1 push_bit_eq_mult)
  ultimately have "RT_MPU_SRD_SUFFIX off = NOT (mask (Suc (unat off))) AND mask 8"
    unfolding RT_MPU_SRD_SUFFIX_def inc by (simp only:)
  then show ?thesis
    unfolding bit_and_iff bit_not_iff bit_mask_iff by (auto dest: bit_imp_le_length simp: not_less_eq_eq bit_simps)
qed

lemma srd_bit:
  assumes "sizes n k" and "RT_MPU_USE_SUBREGIONS const n" and "i < 8"
  shows "bit (RT_MPU_SRD const a n) i \<longleftrightarrow>
     i < unat a mod 2 ^ k div 2 ^ (k - 3) \<or> unat (a + n - 1) mod 2 ^ k div 2 ^ (k - 3) < i"
proof -
  have k: "3 \<le> k" using assms(1) by (simp add: sizes_def)
  have "(2 :: nat) ^ k = 2 ^ (k - 3) * 8" using k power_add [of "2 :: nat" "k - 3" 3] by simp
  then have "unat (RT_MPU_SUBREGION_OFFSET b n) < 8" for b
    unfolding offset_unat [OF assms(1)] by (simp add: less_mult_imp_div_less mult.commute)
  then show ?thesis
    using assms(2,3) by (simp add: RT_MPU_SRD_def bit_or_iff srd_prefix_bit srd_suffix_bit offset_unat [OF assms(1)])
qed

lemma srd_bit_less:
  assumes "sizes n k" and "bit (RT_MPU_SRD const a n) i"
  shows "i < 8"
proof -
  have k: "3 \<le> k" using assms(1) by (simp add: sizes_def)
  have "(2 :: nat) ^ k = 2 ^ (k - 3) * 8" using k power_add [of "2 :: nat" "k - 3" 3] by simp
  then have "unat (RT_MPU_SUBREGION_OFFSET b n) < 8" for b
    unfolding offset_unat [OF assms(1)] by (simp add: less_mult_imp_div_less mult.commute)
  moreover have "i < 32" using assms(2) bit_imp_le_length by fastforce
  ultimately show ?thesis
    using assms(2) less_trans [of i "unat (RT_MPU_SUBREGION_OFFSET a n)" 8]
    by (auto simp: RT_MPU_SRD_def bit_or_iff srd_prefix_bit srd_suffix_bit split: if_splits)
qed

text \<open>Reading back the fields of the attribute and size register.\<close>

lemma sizebits_unat: "sizes n k \<Longrightarrow> unat (RT_MPU_SIZEBITS n) = k - 1"
  by (rule of_nat_inverse) (auto simp: sizes_def)

lemma sizebits_bit:
  assumes "sizes n k" and "bit (RT_MPU_SIZEBITS n) i"
  shows "i < 5"
proof -
  have "unat (RT_MPU_SIZEBITS n) < 2 ^ 5" unfolding sizebits_unat [OF assms(1)] using assms(1) by (auto simp: sizes_def)
  then have "RT_MPU_SIZEBITS n AND mask 5 = RT_MPU_SIZEBITS n"
    unfolding word_unat_eq_iff unat_AND_mask by (rule mod_less)
  with assms(2) show "i < 5" by (metis bit_and_iff bit_mask_iff)
qed

lemma attr_bits:
  fixes attr :: u32
  assumes "attr AND 0xFFFE = 0" and "0 < j" and "j < 16"
  shows "\<not> bit attr j"
proof -
  have "(0xFFFE :: u32) = push_bit 1 (mask 15)" by (simp add: mask_eq_exp_minus_1 push_bit_eq_mult)
  moreover have "bit (push_bit 1 (mask 15) :: u32) j"
    using assms(2,3) unfolding bit_push_bit_iff bit_mask_iff by auto
  ultimately have "bit (0xFFFE :: u32) j" by (simp only:)
  then show ?thesis using assms(1) by (metis bit_and_iff bit_0_eq bot_apply bot_bool_def)
qed

lemma attr_size_bit:
  assumes "n \<noteq> 0"
  shows "bit (RT_MPU_ATTR_SIZE const a n attr) j \<longleftrightarrow> j < 32 \<and>
     (0 < j \<and> bit (RT_MPU_SIZEBITS n) (j - 1) \<or> 8 \<le> j \<and> bit (RT_MPU_SRD const a n) (j - 8) \<or> bit attr j)"
proof -
  have e: "RT_MPU_ATTR_SIZE const a n attr =
      push_bit 1 (RT_MPU_SIZEBITS n) OR push_bit 8 (RT_MPU_SRD const a n) OR attr"
    using assms unfolding RT_MPU_ATTR_SIZE_def by simp
  show ?thesis
    unfolding e bit_or_iff bit_push_bit_iff by (auto dest: bit_imp_le_length simp: Suc_le_eq)
qed

lemma attr_size_fields:
  assumes k: "sizes n k" and n: "n \<noteq> 0" and attr: "attr AND 0xFFFE = 0"
  shows "drop_bit 1 (RT_MPU_ATTR_SIZE const a n attr) AND mask 5 = RT_MPU_SIZEBITS n"
    and "bit (RT_MPU_ATTR_SIZE const a n attr) 0 = bit attr 0"
    and "i < 8 \<Longrightarrow> bit (RT_MPU_ATTR_SIZE const a n attr) (8 + i) = bit (RT_MPU_SRD const a n) i"
proof -
  show "drop_bit 1 (RT_MPU_ATTR_SIZE const a n attr) AND mask 5 = RT_MPU_SIZEBITS n"
  proof (rule bit_eqI)
    fix i
    show "bit (drop_bit 1 (RT_MPU_ATTR_SIZE const a n attr) AND mask 5) i = bit (RT_MPU_SIZEBITS n) i"
      unfolding bit_and_iff bit_drop_bit_eq bit_mask_iff comp_def attr_size_bit [OF n]
      using attr_bits [OF attr, of "1 + i"] sizebits_bit [OF k, of i] by auto
  qed
  show "bit (RT_MPU_ATTR_SIZE const a n attr) 0 = bit attr 0" unfolding attr_size_bit [OF n] by simp
  show "bit (RT_MPU_ATTR_SIZE const a n attr) (8 + i) = bit (RT_MPU_SRD const a n) i" if "i < 8"
    unfolding attr_size_bit [OF n]
    using that attr_bits [OF attr, of "8 + i"] sizebits_bit [OF k, of "8 + i - 1"] by auto
qed

lemma base_addr_div:
  assumes "5 \<le> k"
  shows "unat (RT_MPU_BASE_ADDR region_id a) div 2 ^ k = unat a div 2 ^ k"
proof -
  have m: "(0xF :: u32) = mask 4" by (simp add: mask_eq_exp_minus_1)
  have "drop_bit k (RT_MPU_BASE_ADDR region_id a) = drop_bit k a"
  proof (rule bit_eqI)
    show "bit (drop_bit k (RT_MPU_BASE_ADDR region_id a)) i = bit (drop_bit k a) i" for i
      using assms unfolding RT_MPU_BASE_ADDR_def m bit_drop_bit_eq comp_def bit_or_iff bit_and_iff
        bit_push_bit_iff bit_mask_iff bit_1_iff by auto
  qed
  then have "unat (drop_bit k (RT_MPU_BASE_ADDR region_id a)) = unat (drop_bit k a)" by simp
  then show ?thesis unfolding unat_drop_bit_eq by (simp add: drop_bit_eq_div)
qed

section \<open>What a region covers\<close>

text \<open>
  Arithmetic of subregions of size \<open>s\<close> in a region of size \<open>8 * s\<close>: the subregions from that of \<open>a\<close>
  to that of \<open>a + n - 1\<close> are the bytes from \<open>a\<close> on, rounded up to whole subregions.
\<close>

lemma subregion_window:
  fixes a n s x :: nat
  assumes s: "0 < s" and a: "a mod s = 0" and n: "0 < n" and fits: "a mod (8 * s) + n \<le> 8 * s"
  shows "x div (8 * s) = a div (8 * s) \<and> a mod (8 * s) div s \<le> x mod (8 * s) div s \<and>
       x mod (8 * s) div s \<le> (a + n - 1) mod (8 * s) div s
     \<longleftrightarrow> a \<le> x \<and> x < a + s * ((n - 1) div s + 1)"
proof -
  let ?r = "8 * s"
  define b p where "b = a div ?r * ?r" and "p = a mod ?r div s"
  have "a mod ?r mod s = 0" using a by (simp add: mod_mod_cancel)
  then have p: "a mod ?r = p * s" unfolding p_def by (metis div_mult_mod_eq add.right_neutral)
  have ab: "a = b + p * s" using p by (metis b_def div_mult_mod_eq)
  define q where "q = p + (n - 1) div s"
  have last: "(p * s + (n - 1)) div s = q" using s by (simp add: q_def div_add1_eq)
  have "(a + n - 1) mod ?r = p * s + (n - 1)"
  proof -
    have "a + n - 1 = a div ?r * ?r + (p * s + (n - 1))" using n ab by (simp add: b_def)
    moreover have "p * s + (n - 1) < ?r" using fits p n by simp
    ultimately show ?thesis by (metis mod_less mod_mult_self3)
  qed
  then have off: "(a + n - 1) mod ?r div s = q" "a mod ?r div s = p" using last p s by simp_all
  have "p * s + n \<le> 8 * s" using fits p by simp
  then have "p * s + (n - 1) < 8 * s" using n by simp
  then have q8: "q < 8" unfolding last [symmetric] by (rule less_mult_imp_div_less)
  have size: "a + s * ((n - 1) div s + 1) = b + (q + 1) * s" by (simp add: ab q_def algebra_simps)
  show ?thesis
  proof
    assume l: "x div ?r = a div ?r \<and> a mod ?r div s \<le> x mod ?r div s \<and> x mod ?r div s \<le> (a + n - 1) mod ?r div s"
    then have x: "x = b + x mod ?r" by (metis b_def div_mult_mod_eq)
    have "p * s \<le> x mod ?r" using l off(2) s by (metis div_times_less_eq_dividend le_trans mult_le_mono1)
    moreover have "x mod ?r < (q + 1) * s" using l off(1) s by (metis dividend_less_div_times le_imp_less_Suc
        less_le_trans mult_le_mono1 Suc_eq_plus1 add.commute mult_Suc Suc_leI)
    ultimately show "a \<le> x \<and> x < a + s * ((n - 1) div s + 1)" unfolding size using x ab by linarith
  next
    assume r: "a \<le> x \<and> x < a + s * ((n - 1) div s + 1)"
    define y where "y = x - b"
    have "b \<le> x" using r ab by simp
    then have x: "x = b + y" by (simp add: y_def)
    have y: "p * s \<le> y" "y < (q + 1) * s" using r size ab x by simp_all
    have "(q + 1) * s \<le> 8 * s" using q8 by (intro mult_le_mono1) simp
    then have "y < ?r" by (rule less_le_trans [OF y(2)])
    then have "x div ?r = a div ?r" "x mod ?r = y" using s by (simp_all add: x b_def)
    moreover have "p \<le> y div s" using y(1) s by (simp add: less_eq_div_iff_mult_less_eq)
    moreover have "y div s < q + 1" using y(2) s by (simp add: div_less_iff_less_mult)
    ultimately show "x div ?r = a div ?r \<and> a mod ?r div s \<le> x mod ?r div s \<and> x mod ?r div s \<le> (a + n - 1) mod ?r div s"
      using off by simp
  qed
qed

lemma no_wrap:
  fixes a n :: u32
  assumes "n > 0" and "unat a mod 2 ^ k + unat n \<le> 2 ^ k" and "k < 32"
  shows "unat (a + n - 1) = unat a + unat n - 1"
proof -
  have dv: "(2 :: nat) ^ k dvd 2 ^ 32" using assms(3) by (intro le_imp_power_dvd) simp
  have "unat a < 2 ^ 32" using unsigned_less [of a, where ?'a = nat] by simp
  then have "unat a div 2 ^ k < 2 ^ 32 div 2 ^ k" using dv by (simp add: less_mult_imp_div_less)
  then have "(unat a div 2 ^ k + 1) * 2 ^ k \<le> 2 ^ 32 div 2 ^ k * 2 ^ k" by (intro mult_le_mono1) simp
  also have "\<dots> = 2 ^ 32" using dv by (rule dvd_div_mult_self)
  finally have le: "unat a + unat n \<le> 2 ^ 32"
    using assms(2) div_mult_mod_eq [of "unat a" "2 ^ k"] by simp
  have "a + n - 1 = of_nat (unat a + unat n - 1)"
    using assms(1) by (simp add: of_nat_diff word_less_nat_alt)
  moreover have "unat a + unat n - 1 < 2 ^ 32" using le assms(1) by (simp add: word_less_nat_alt)
  ultimately show ?thesis by (intro of_nat_inverse) simp_all
qed

lemma region_has_iff:
  assumes k: "sizes n k" and n: "0 < n" "n \<noteq> SIZE_MAX" and attr: "attr AND 0xFFFE = 0" "bit attr 0"
    and a: "unat a mod 2 ^ (k - 3) = 0" and fits: "unat a mod 2 ^ k + unat n \<le> 2 ^ k"
  shows "region_has \<lparr>base_addr = RT_MPU_BASE_ADDR region_id a, attr_size = RT_MPU_ATTR_SIZE True a n attr\<rparr> x \<longleftrightarrow>
     unat a \<le> unat x \<and> unat x < unat a + 2 ^ (k - 3) * ((unat n - 1) div 2 ^ (k - 3) + 1)"
proof -
  let ?s = "2 ^ (k - 3) :: nat" and ?r = "\<lparr>base_addr = RT_MPU_BASE_ADDR region_id a, attr_size = RT_MPU_ATTR_SIZE True a n attr\<rparr>"
  have k8: "8 \<le> k" "k < 32" using k by (simp_all add: sizes_def)
  have n0: "n \<noteq> 0" "0 < unat n" using n(1) by (auto simp: word_less_nat_alt)
  note f = attr_size_fields [OF k n0(1) attr(1), where const = True and a = a]
  have bits: "region_bits ?r = k" unfolding region_bits_def using f(1) sizebits_unat [OF k] k8 by simp
  have r8: "(2 :: nat) ^ k = 8 * ?s" using k8 power_add [of "2 :: nat" "k - 3" 3] by simp
  have off: "unat x mod 2 ^ k div ?s < 8" unfolding r8 by (simp add: less_mult_imp_div_less)
  have use: "RT_MPU_USE_SUBREGIONS True n" using n by (simp add: RT_MPU_USE_SUBREGIONS_def)
  have "region_has ?r x \<longleftrightarrow> unat x div 2 ^ k = unat a div 2 ^ k \<and>
      unat a mod 2 ^ k div ?s \<le> unat x mod 2 ^ k div ?s \<and>
      unat x mod 2 ^ k div ?s \<le> unat (a + n - 1) mod 2 ^ k div ?s"
    unfolding region_has_def bits using attr(2) f(2) f(3) [OF off] base_addr_div [of k region_id a] k8
      srd_bit [OF k use off, of a] by auto
  also have "unat (a + n - 1) = unat a + unat n - 1" using n(1) fits k8(2) by (rule no_wrap)
  finally show ?thesis
    unfolding r8 using subregion_window [of ?s "unat a" "unat n" "unat x"] a n0(2) fits r8 by simp
qed

section \<open>Alignment\<close>

lemma subregions_unat:
  assumes "sizes n k" and "0 < n" and "n \<noteq> SIZE_MAX"
  shows "unat (RT_MPU_SUBREGIONS True n) = (unat n - 1) div 2 ^ (k - 3) + 1"
proof -
  have "unat ((n - 1) div RT_MPU_SUBREGION_SIZE n) = (unat n - 1) div 2 ^ (k - 3)"
    unfolding unat_div sizes_region(4) [OF assms(1)] using assms(2) by (simp add: unat_dec)
  moreover have "(unat n - 1) div 2 ^ (k - 3) < 2 ^ 32 - 1"
  proof -
    have "(unat n - 1) div 2 ^ (k - 3) \<le> unat n - 1" by (rule div_le_dividend)
    also have "\<dots> < 2 ^ 32 - 1"
      using unsigned_less [of n, where ?'a = nat] assms(2) by (simp add: word_less_nat_alt)
    finally show ?thesis .
  qed
  ultimately have u: "unat ((n - 1) div RT_MPU_SUBREGION_SIZE n) = (unat n - 1) div 2 ^ (k - 3)"
    "(n - 1) div RT_MPU_SUBREGION_SIZE n \<noteq> -1"
    by (auto simp: unsigned_minus_1_eq_mask mask_eq_exp_minus_1)
  show ?thesis
    using assms(2,3) unat_inc [OF u(2)] u(1) by (simp add: RT_MPU_SUBREGIONS_def RT_MPU_USE_SUBREGIONS_def)
qed

lemma aligned_fits:
  fixes a n l s r :: nat
  assumes "a mod l = 0" and "l dvd r" and "s dvd l" and "n \<le> l" and "0 < r"
  shows "a mod s = 0" and "a mod r + n \<le> r"
proof -
  have l: "l dvd a" using assms(1) by auto
  then show "a mod s = 0" using assms(3) by auto
  have "l dvd a mod r" using l assms(2) by (simp add: dvd_mod)
  then obtain c where c: "a mod r = l * c" by blast
  obtain d where d: "r = l * d" using assms(2) by blast
  have "c < d" using c d mod_less_divisor [OF assms(5), of a] by (metis mult_less_cancel1)
  then have "l * (c + 1) \<le> l * d" by (intro mult_le_mono2) simp
  then show "a mod r + n \<le> r" using c d assms(4) by simp
qed

text \<open>Sizes for which the region size is large enough: up to 256 bytes, and powers of two.\<close>

definition plain_size :: "size_t \<Rightarrow> bool" where
  "plain_size n \<longleftrightarrow> 0 < n \<and> (n \<le> 256 \<or> (\<exists>k. 8 \<le> k \<and> k < 32 \<and> unat n = 2 ^ k))"

lemma plain_size_small:
  assumes "0 < n" and "n \<le> 256"
  shows "\<exists>l. unat (RT_MPU_ALIGN True n) = l \<and> l dvd 256 \<and> 32 dvd l \<and> unat n \<le> l"
    and "unat (RT_MPU_SIZE True n) = 32 * ((unat n - 1) div 32 + 1)"
proof -
  have k: "sizes n 8" using assms(2) by (rule sizes_small)
  have n: "unat n \<le> 256" "0 < unat n" "n \<noteq> SIZE_MAX" using assms by (auto simp: word_le_nat_alt word_less_nat_alt)
  define m where "m = (unat n - 1) div 32 + 1"
  have "unat (RT_MPU_SUBREGIONS True n) = m" using subregions_unat [OF k assms(1) n(3)] by (simp add: m_def)
  then have w: "RT_MPU_SUBREGIONS True n = of_nat m" by (metis of_nat_unat ucast_id)
  have "(unat n - 1) div 32 < 8" by (rule less_mult_imp_div_less) (use n in simp)
  then have m8: "m = 1 \<or> m = 2 \<or> m = 3 \<or> m = 4 \<or> m = 5 \<or> m = 6 \<or> m = 7 \<or> m = 8" unfolding m_def by arith
  have nm: "unat n \<le> 32 * m" unfolding m_def using n(2) by arith
  have r: "RT_MPU_REGION_SIZE n = 256" "RT_MPU_SUBREGION_SIZE n = 32"
    using sizes_region(1,2) [OF k] by (simp_all add: push_bit_eq_mult)
  show "unat (RT_MPU_SIZE True n) = 32 * ((unat n - 1) div 32 + 1)"
    unfolding m_def [symmetric] using m8 n(3) by (elim disjE) (simp_all add: RT_MPU_SIZE_def w r)
  show "\<exists>l. unat (RT_MPU_ALIGN True n) = l \<and> l dvd 256 \<and> 32 dvd l \<and> unat n \<le> l"
    using m8 n(1,3) nm by (elim disjE) (simp_all add: RT_MPU_ALIGN_def w r)
qed

lemma unat_ucast_64: "unat (ucast (w :: u32) :: 64 word) = unat w"
proof -
  have "unat w < 2 ^ 32" using unsigned_less [of w, where ?'a = nat] by simp
  then show ?thesis by (simp add: unsigned_ucast_eq take_bit_nat_eq_self)
qed

lemma plain_size_power:
  assumes "8 \<le> k" and "k < 32" and "unat n = 2 ^ k"
  shows "sizes n k" and "unat (RT_MPU_ALIGN True n) = 2 ^ k" and "unat (RT_MPU_SIZE True n) = 2 ^ k"
proof -
  have "even (unat n)" using assms(1,3) by simp
  then have n: "n \<noteq> SIZE_MAX" by auto
  have n0: "0 < n" using assms(3) by (simp add: word_less_nat_alt)
  show k: "sizes n k"
  proof (cases "n \<le> 256")
    case True
    then have "(2 :: nat) ^ k \<le> 2 ^ 8" using assms(3) by (simp add: word_le_nat_alt)
    then have "k = 8" using assms(1) power_le_imp_le_exp [of "2 :: nat" k 8] by simp
    then show ?thesis using sizes_small [OF True] by simp
  next
    case False
    then show ?thesis using n assms(3) by (intro sizes_large) simp_all
  qed
  note r = sizes_region [OF k]
  have "(2 :: nat) ^ k = 8 * 2 ^ (k - 3)" using assms(1) power_add [of "2 :: nat" "k - 3" 3] by simp
  then have "((2 :: nat) ^ k - 1) div 2 ^ (k - 3) = 7" by (intro div_nat_eqI) (simp_all add: less_diff_conv2)
  then have w: "RT_MPU_SUBREGIONS True n = 8"
    using subregions_unat [OF k n0 n] assms(3) by (simp add: word_unat_eq_iff)
  show "unat (RT_MPU_ALIGN True n) = 2 ^ k" using n r(3) by (simp add: RT_MPU_ALIGN_def w unat_ucast_64)
  have "RT_MPU_SUBREGION_SIZE n * 8 = RT_MPU_REGION_SIZE n"
    using assms(1) power_add [of "2 :: u32" "k - 3" 3] unfolding r(1,2) by (simp add: push_bit_eq_mult)
  then show "unat (RT_MPU_SIZE True n) = 2 ^ k" using n r(3) by (simp add: RT_MPU_SIZE_def w unat_ucast_64)
qed

text \<open>A region at an aligned address has exactly the bytes that were asked for, rounded up.\<close>

lemma plain_region_has:
  assumes n: "plain_size n" and a: "unat a mod unat (RT_MPU_ALIGN True n) = 0"
    and attr: "attr AND 0xFFFE = 0" "bit attr 0"
  shows "region_has \<lparr>base_addr = RT_MPU_BASE_ADDR region_id a, attr_size = RT_MPU_ATTR_SIZE True a n attr\<rparr> x \<longleftrightarrow>
     unat a \<le> unat x \<and> unat x < unat a + unat (RT_MPU_SIZE True n)"
proof (cases "n \<le> 256")
  case True
  have n0: "0 < n" "n \<noteq> SIZE_MAX" using n True by (auto simp: plain_size_def)
  obtain l where l: "unat (RT_MPU_ALIGN True n) = l" "l dvd 256" "32 dvd l" "unat n \<le> l"
    using plain_size_small(1) [OF n0(1) True] by blast
  have "unat a mod 32 = 0" "unat a mod 256 + unat n \<le> 256"
    using aligned_fits [of "unat a" l 256 32 "unat n"] a l by simp_all
  then show ?thesis
    using region_has_iff [OF sizes_small [OF True] n0 attr, of a region_id x] plain_size_small(2) [OF n0(1) True] by simp
next
  case False
  then obtain k where k: "8 \<le> k" "k < 32" "unat n = 2 ^ k" using n by (auto simp: plain_size_def)
  have n0: "0 < n" "n \<noteq> SIZE_MAX" using n k by (auto simp: plain_size_def dest: arg_cong [of _ _ even])
  note p = plain_size_power [OF k]
  have "(2 :: nat) ^ (k - 3) dvd 2 ^ k" by (rule le_imp_power_dvd) simp
  then have f: "unat a mod 2 ^ (k - 3) = 0" "unat a mod 2 ^ k + unat n \<le> 2 ^ k"
    using aligned_fits [of "unat a" "2 ^ k" "2 ^ k" "2 ^ (k - 3)" "unat n"] a p(2) k(3) by simp_all
  have pk: "(2 :: nat) ^ k = 2 ^ (k - 3) * 8" using k(1) power_add [of "2 :: nat" "k - 3" 3] by simp
  then have "((2 :: nat) ^ k - 1) div 2 ^ (k - 3) = 7" by (intro div_nat_eqI) (simp_all add: less_diff_conv2)
  then show ?thesis
    using region_has_iff [OF p(1) n0 attr f, of region_id x] p(3) k(3) pk by simp
qed

section \<open>Properties\<close>

lemma stack_attr: "RT_MPU_STACK_ATTR AND 0xFFFE = 0" "bit RT_MPU_STACK_ATTR 0"
  by (simp_all add: RT_MPU_STACK_ATTR_def RT_MPU_ATTR_RW_def RT_MPU_ATTR_AP_def RT_MPU_ATTR_XN_def
      RT_MPU_ATTR_CACHED_WB_RWALLOC_def RT_MPU_ATTR_def RT_MPU_ATTR_ENABLE_def)



text \<open>
  C23. For other sizes the region is too small: when \<open>n\<close> lies strictly between two powers of two
  above 256, the region has the size of the smaller one, and some byte of the memory asked for is
  not in the region.
\<close>

theorem region_too_small:
  assumes "256 < n" and "n \<noteq> SIZE_MAX" and "2 ^ k < unat n" and "unat n < 2 ^ Suc k"
    and "unat a + unat n \<le> 2 ^ 32" and "attr AND 0xFFFE = 0"
  shows "unat (RT_MPU_REGION_SIZE n) = 2 ^ k \<and> unat (RT_MPU_REGION_SIZE n) < unat n \<and>
     (\<exists>x. unat a \<le> unat x \<and> unat x < unat a + unat n \<and>
        \<not> region_has \<lparr>base_addr = RT_MPU_BASE_ADDR region_id a, attr_size = RT_MPU_ATTR_SIZE const a n attr\<rparr> x)"
proof -
  let ?r = "\<lparr>base_addr = RT_MPU_BASE_ADDR region_id a, attr_size = RT_MPU_ATTR_SIZE const a n attr\<rparr>"
  have k: "sizes n k" using assms(1-4) by (intro sizes_large) simp_all
  then have k8: "8 \<le> k" by (simp add: sizes_def)
  have n0: "n \<noteq> 0" using assms(1) by auto
  have bits: "region_bits ?r = k"
    unfolding region_bits_def using attr_size_fields(1) [OF k n0 assms(6)] sizebits_unat [OF k] k8 by simp
  let ?y = "of_nat (unat a + 2 ^ k) :: u32"
  have y: "unat ?y = unat a + 2 ^ k" using assms(3,5) by (intro of_nat_inverse [OF refl]) simp
  have "unat ?y div 2 ^ k \<noteq> unat (RT_MPU_BASE_ADDR region_id a) div 2 ^ k"
    unfolding y using base_addr_div [of k region_id a] k8 by (simp add: div_add_self2)
  then have "\<not> region_has ?r ?y" unfolding region_has_def bits by simp
  then show ?thesis using sizes_region(3) [OF k] assms(3) y by (intro conjI exI [of _ ?y]) simp_all
qed

theorem region_too_small_witness:
  "unat (RT_MPU_REGION_SIZE 768) = 512 \<and>
   (\<exists>x. 0x20000000 \<le> unat x \<and> unat x < 0x20000300 \<and>
      \<not> region_has \<lparr>base_addr = RT_MPU_BASE_ADDR 4 0x20000000,
                    attr_size = RT_MPU_ATTR_SIZE True 0x20000000 768 RT_MPU_STACK_ATTR\<rparr> x)"
  using region_too_small [of 768 9 "0x20000000" RT_MPU_STACK_ATTR 4 True] stack_attr by auto

end
