(* ===== verification/Rt_Mpu_V8.thy ===== *)
theory Rt_Mpu_V8
  imports Muntos_Prelude
begin

text \<open>
  The Armv8-M part of \<^verbatim>\<open>arch/arm/include/muntos/arch/mpu.h\<close>: regions given by a base and a limit
  address in units of 32 bytes, with the access attributes in the low bits of both registers, and
  the table of memory attributes. The names have the suffix \<open>_v8\<close> where the header has the same
  name for Armv6-M and Armv7-M.
\<close>

section \<open>The code\<close>

record rt_mpu_region_v8 =
  base_addr_v8 :: u32
  limit_addr :: u32

type_synonym rt_mpu_config_v8 = "rt_mpu_region_v8 list"

record rt_mpu_v8 =
  mpu_type_v8 :: u32
  mpu_ctrl_v8 :: u32
  mpu_number_v8 :: u32
  mpu_regions_v8 :: "rt_mpu_region_v8 list"
  attr_indirect :: "u32 list"

abbreviation TASK_REGION_START_ID :: u32 where "TASK_REGION_START_ID \<equiv> 8 - 4"

definition RT_MPU_ALIGN_v8 :: "size_t \<Rightarrow> u32" where "RT_MPU_ALIGN_v8 n = 32"

definition RT_MPU_ATTR_XN_v8 :: u32 where "RT_MPU_ATTR_XN_v8 = push_bit 0 1"
definition RT_MPU_ATTR_AP_v8 :: "u32 \<Rightarrow> u32" where "RT_MPU_ATTR_AP_v8 p = push_bit 1 p"
definition RT_MPU_ATTR_RW_PRIV_v8 :: u32 where "RT_MPU_ATTR_RW_PRIV_v8 = RT_MPU_ATTR_AP_v8 0"
definition RT_MPU_ATTR_RW_v8 :: u32 where "RT_MPU_ATTR_RW_v8 = RT_MPU_ATTR_AP_v8 1"
definition RT_MPU_ATTR_RO_PRIV_v8 :: u32 where "RT_MPU_ATTR_RO_PRIV_v8 = RT_MPU_ATTR_AP_v8 2"
definition RT_MPU_ATTR_RO_v8 :: u32 where "RT_MPU_ATTR_RO_v8 = RT_MPU_ATTR_AP_v8 3"
definition RT_MPU_ATTR_SH :: "u32 \<Rightarrow> u32" where "RT_MPU_ATTR_SH sh = push_bit 3 sh"

abbreviation RT_MPU_ATTR_RLAR_SHIFT :: nat where "RT_MPU_ATTR_RLAR_SHIFT \<equiv> 5"
abbreviation RT_MPU_ATTR_MASK :: u32 where "RT_MPU_ATTR_MASK \<equiv> 0x1F"
abbreviation RT_MPU_ADDR_MASK :: u32 where "RT_MPU_ADDR_MASK \<equiv> NOT RT_MPU_ATTR_MASK"

definition RT_MPU_ATTR_ENABLE_v8 :: u32 where
  "RT_MPU_ATTR_ENABLE_v8 = push_bit (0 + RT_MPU_ATTR_RLAR_SHIFT) 1"

definition RT_MPU_ATTR_INDEX :: "u32 \<Rightarrow> u32" where
  "RT_MPU_ATTR_INDEX index = push_bit (1 + RT_MPU_ATTR_RLAR_SHIFT) index"

definition RT_MPU_ATTR_INDIRECT :: "u32 \<Rightarrow> u32 \<Rightarrow> u32" where
  "RT_MPU_ATTR_INDIRECT outer inner = push_bit 4 outer OR inner"

definition RT_MPU_ATTR_DEVICE :: "u32 \<Rightarrow> u32" where
  "RT_MPU_ATTR_DEVICE gre = RT_MPU_ATTR_INDIRECT 0 (push_bit 2 gre)"

definition RT_MPU_ATTR_NONCACHEABLE :: u32 where
  "RT_MPU_ATTR_NONCACHEABLE = RT_MPU_ATTR_INDIRECT 0x4 0x4"

definition RT_MPU_ATTR_WB_TRANSIENT :: "u32 \<Rightarrow> u32 \<Rightarrow> u32" where
  "RT_MPU_ATTR_WB_TRANSIENT r w = 0x4 OR push_bit 1 r OR w"

definition RT_MPU_ATTR_WB_RALLOC :: u32 where
  "RT_MPU_ATTR_WB_RALLOC =
     RT_MPU_ATTR_INDIRECT (RT_MPU_ATTR_WB_TRANSIENT 1 0) (RT_MPU_ATTR_WB_TRANSIENT 1 0)"

definition RT_MPU_ATTR_WB_RWALLOC :: u32 where
  "RT_MPU_ATTR_WB_RWALLOC =
     RT_MPU_ATTR_INDIRECT (RT_MPU_ATTR_WB_TRANSIENT 1 1) (RT_MPU_ATTR_WB_TRANSIENT 1 1)"

definition RT_MPU_ATTR_WT :: "u32 \<Rightarrow> u32 \<Rightarrow> u32" where
  "RT_MPU_ATTR_WT r w = 0xC OR push_bit 1 r OR w"

definition RT_MPU_ATTR_WT_RALLOC :: u32 where
  "RT_MPU_ATTR_WT_RALLOC = RT_MPU_ATTR_INDIRECT (RT_MPU_ATTR_WT 1 0) (RT_MPU_ATTR_WT 1 0)"

definition RT_MPU_ATTR_WT_RWALLOC :: u32 where
  "RT_MPU_ATTR_WT_RWALLOC = RT_MPU_ATTR_INDIRECT (RT_MPU_ATTR_WT 1 1) (RT_MPU_ATTR_WT 1 1)"

definition RT_MPU_STACK_ATTR_v8 :: u32 where
  "RT_MPU_STACK_ATTR_v8 = RT_MPU_ATTR_RW_v8 OR RT_MPU_ATTR_XN_v8 OR RT_MPU_ATTR_ENABLE_v8"

definition RT_MPU_BASE_ADDR_v8 :: "u32 \<Rightarrow> u32 \<Rightarrow> u32" where
  "RT_MPU_BASE_ADDR_v8 start_addr attr =
     (start_addr AND RT_MPU_ADDR_MASK) OR (attr AND RT_MPU_ATTR_MASK)"

definition RT_MPU_LIMIT_ADDR :: "u32 \<Rightarrow> size_t \<Rightarrow> u32 \<Rightarrow> u32" where
  "RT_MPU_LIMIT_ADDR start_addr bytes attr =
     ((start_addr + bytes - 1) AND RT_MPU_ADDR_MASK) OR
     (drop_bit RT_MPU_ATTR_RLAR_SHIFT (attr AND NOT (if bytes = 0 then RT_MPU_ATTR_ENABLE_v8 else 0))
        AND RT_MPU_ATTR_MASK)"

definition rt_mpu_config_init_v8 :: rt_mpu_config_v8 where
  "rt_mpu_config_init_v8 = replicate 4 \<lparr>base_addr_v8 = 0, limit_addr = 0\<rparr>"

definition rt_mpu_config_set_v8 ::
  "rt_mpu_config_v8 \<Rightarrow> u32 \<Rightarrow> u32 \<Rightarrow> size_t \<Rightarrow> u32 \<Rightarrow> rt_mpu_config_v8 option" where
  "rt_mpu_config_set_v8 config region_id start_addr bytes attr =
     (let index = region_id - TASK_REGION_START_ID
      in if unat index < length config
         then Some (config[unat index :=
           \<lparr>base_addr_v8 = RT_MPU_BASE_ADDR_v8 start_addr attr,
            limit_addr = RT_MPU_LIMIT_ADDR start_addr bytes attr\<rparr>])
         else None)"

definition rt_mpu_region_set_v8 :: "u32 \<Rightarrow> u32 \<Rightarrow> size_t \<Rightarrow> u32 \<Rightarrow> rt_mpu_v8 \<Rightarrow> rt_mpu_v8" where
  "rt_mpu_region_set_v8 region_id start_addr bytes attr mpu =
     mpu\<lparr>mpu_number_v8 := region_id, mpu_regions_v8 := (mpu_regions_v8 mpu)[0 :=
       \<lparr>base_addr_v8 = RT_MPU_BASE_ADDR_v8 start_addr attr,
        limit_addr = RT_MPU_LIMIT_ADDR start_addr bytes attr\<rparr>]\<rparr>"

definition rt_mpu_attr_init :: "rt_mpu_v8 \<Rightarrow> rt_mpu_v8" where
  "rt_mpu_attr_init mpu = mpu\<lparr>attr_indirect := (attr_indirect mpu)[0 := 0, 1 := 0]\<rparr>"

definition rt_mpu_attr_set :: "u32 \<Rightarrow> u32 \<Rightarrow> rt_mpu_v8 \<Rightarrow> rt_mpu_v8 option" where
  "rt_mpu_attr_set index attr mpu =
     (let i = unat (index div 4);
          shift = unat (index mod 4 * 8);
          mask = push_bit shift 0xFF
      in if i < length (attr_indirect mpu)
         then Some (mpu\<lparr>attr_indirect := (attr_indirect mpu)[i :=
           (attr_indirect mpu ! i AND NOT mask) OR push_bit shift attr]\<rparr>)
         else None)"

definition rt_mpu_enable_v8 :: "rt_mpu_v8 \<Rightarrow> rt_mpu_v8" where
  "rt_mpu_enable_v8 mpu =
     mpu\<lparr>mpu_ctrl_v8 := push_bit 0 1 OR push_bit 1 1 OR push_bit 2 1,
         mpu_number_v8 := TASK_REGION_START_ID AND NOT 0x3\<rparr>"

section \<open>The unit\<close>

text \<open>
  How the unit reads a region: enabled by bit 0 of the limit register, from the base address with
  its low five bits cleared to the limit address with its low five bits set.
\<close>

definition region_has_v8 :: "rt_mpu_region_v8 \<Rightarrow> u32 \<Rightarrow> bool" where
  "region_has_v8 r x \<longleftrightarrow> bit (limit_addr r) 0 \<and>
     (base_addr_v8 r AND NOT (mask 5)) \<le> x \<and> x \<le> (limit_addr r OR mask 5)"

text \<open>The attribute byte at an index of the table.\<close>

definition attr_byte :: "nat \<Rightarrow> rt_mpu_v8 \<Rightarrow> u32" where
  "attr_byte i mpu = drop_bit (8 * (i mod 4)) (attr_indirect mpu ! (i div 4)) AND mask 8"

section \<open>Lemmas\<close>

lemma low_mask: "(0x1F :: u32) = mask 5"
  by (simp add: mask_eq_exp_minus_1)

lemma base_high: "RT_MPU_BASE_ADDR_v8 a attr AND NOT (mask 5) = a AND NOT (mask 5)"
  unfolding RT_MPU_BASE_ADDR_v8_def low_mask by (rule bit_eqI) (auto simp: bit_simps)

lemma limit_high: "RT_MPU_LIMIT_ADDR a n attr OR mask 5 = (a + n - 1) OR mask 5"
  unfolding RT_MPU_LIMIT_ADDR_def low_mask by (rule bit_eqI) (auto simp: bit_simps)

lemma limit_enable:
  "bit (RT_MPU_LIMIT_ADDR a n attr) 0 \<longleftrightarrow> n \<noteq> 0 \<and> bit attr 5"
  unfolding RT_MPU_LIMIT_ADDR_def low_mask RT_MPU_ATTR_ENABLE_v8_def
    bit_or_iff bit_and_iff bit_not_iff bit_mask_iff bit_drop_bit_eq comp_def
  by (auto simp: bit_push_bit_iff bit_1_iff simp del: push_bit_of_1)

lemma unat_OR_mask:
  fixes w :: "'a::len word"
  shows "unat (w OR mask n) = unat w - unat w mod 2 ^ n + unat (mask n :: 'a word)"
proof -
  let ?x = "w OR mask n"
  have "?x AND NOT (mask n) = w AND NOT (mask n)" "?x AND mask n = mask n"
    by (auto simp: bit_eq_iff bit_simps)
  then have "unat ?x - unat ?x mod 2 ^ n = unat w - unat w mod 2 ^ n" "unat ?x mod 2 ^ n = unat (mask n :: 'a word)"
    using unat_AND_NOT_mask [of ?x n] unat_AND_NOT_mask [of w n] unat_AND_mask [of ?x n] by simp_all
  then show ?thesis using mod_less_eq_dividend [of "unat ?x" "2 ^ n"] by linarith
qed

text \<open>The attribute table.\<close>

lemma bit_attr_byte: "bit (attr_byte i mpu) k \<longleftrightarrow> k < 8 \<and> bit (attr_indirect mpu ! (i div 4)) (8 * (i mod 4) + k)"
  unfolding attr_byte_def bit_and_iff bit_mask_iff bit_drop_bit_eq comp_def by auto

lemma byte_windows: "(i :: nat) < 4 \<Longrightarrow> j < 4 \<Longrightarrow> i \<noteq> j \<Longrightarrow> k < 8 \<Longrightarrow> 8 * j + k < 8 * i \<or> 8 * i + 8 \<le> 8 * j + k"
  by arith

section \<open>Properties\<close>

text \<open>
  Regions on Armv8-M: an enabled region of \<open>n\<close> bytes at \<open>a\<close> allows exactly the units of 32
  bytes that these bytes touch, so that it is exact for an aligned start and size, and a region of
  0 bytes is disabled whatever its attributes.
\<close>

theorem region_v8_exact:
  assumes "bit attr 5" and "unat a + unat n \<le> 2 ^ 32"
  shows "region_has_v8 \<lparr>base_addr_v8 = RT_MPU_BASE_ADDR_v8 a attr, limit_addr = RT_MPU_LIMIT_ADDR a n attr\<rparr> x \<longleftrightarrow>
     0 < n \<and> unat a div 32 \<le> unat x div 32 \<and> unat x div 32 \<le> (unat a + unat n - 1) div 32"
proof (cases "n = 0")
  case True
  then show ?thesis by (simp add: region_has_v8_def limit_enable)
next
  case False
  then have n: "0 < unat n" by (simp add: unat_gt_0)
  have w: "unat (a + n - 1) = unat a + unat n - 1"
  proof -
    have "a + n - 1 = of_nat (unat a + unat n - 1)" using n by (simp add: of_nat_diff)
    moreover have "unat a + unat n - 1 < 2 ^ 32" using n assms(2) by simp
    ultimately show ?thesis by (intro of_nat_inverse) simp_all
  qed
  have lim: "unat ((a + n - 1) OR mask 5) = (unat a + unat n - 1) - (unat a + unat n - 1) mod 32 + 31"
    unfolding unat_OR_mask w by (simp add: mask_eq_exp_minus_1)
  have base: "unat (a AND NOT (mask 5)) = unat a - unat a mod 32" unfolding unat_AND_NOT_mask by simp
  have lo: "A - A mod 32 \<le> X \<longleftrightarrow> A div 32 \<le> X div 32" for A X :: nat
    by (simp add: minus_mod_eq_mult_div less_eq_div_iff_mult_less_eq mult.commute)
  have hi: "X \<le> A - A mod 32 + 31 \<longleftrightarrow> X div 32 \<le> A div 32" for A X :: nat
    using div_less_iff_less_mult [of 32 X "A div 32 + 1"] by (simp add: minus_mod_eq_mult_div) linarith
  show ?thesis
    using False assms(1)
    unfolding region_has_v8_def rt_mpu_region_v8.select_convs limit_enable base_high limit_high
      word_le_nat_alt lim base lo hi by (simp add: word_gt_0)
qed

theorem region_v8_exact_witness:
  "region_has_v8 \<lparr>base_addr_v8 = RT_MPU_BASE_ADDR_v8 0x20000000 RT_MPU_STACK_ATTR_v8,
     limit_addr = RT_MPU_LIMIT_ADDR 0x20000000 768 RT_MPU_STACK_ATTR_v8\<rparr> 0x200002FF"
  using region_v8_exact [of RT_MPU_STACK_ATTR_v8 "0x20000000" 768 "0x200002FF"]
  by (simp add: RT_MPU_STACK_ATTR_v8_def RT_MPU_ATTR_RW_v8_def RT_MPU_ATTR_AP_v8_def RT_MPU_ATTR_XN_v8_def
      RT_MPU_ATTR_ENABLE_v8_def)

text \<open>
  Setting an entry of the attribute table changes this entry and no other one.
\<close>

theorem attr_set_entry:
  assumes "index < 8" and "attr \<le> 0xFF" and "length (attr_indirect mpu) = 2" and "j < 8"
  shows "\<exists>mpu'. rt_mpu_attr_set index attr mpu = Some mpu' \<and>
     attr_byte j mpu' = (if j = unat index then attr else attr_byte j mpu)"
proof -
  let ?i = "unat index" and ?w = "attr_indirect mpu ! (unat index div 4)"
  have i8: "?i < 8" using assms(1) by (simp add: word_less_nat_alt)
  have m8: "(0xFF :: u32) = mask 8" by (simp add: mask_eq_exp_minus_1)
  have attr8: "k < 8" if "bit attr k" for k
  proof -
    have "unat attr < 2 ^ 8" using assms(2) by (simp add: word_le_nat_alt)
    then have "attr AND mask 8 = attr" unfolding word_unat_eq_iff unat_AND_mask by (rule mod_less)
    with that show ?thesis by (metis bit_and_iff bit_mask_iff)
  qed
  have sh: "unat (index div 4) = ?i div 4" "unat (index mod 4 * 8) = 8 * (?i mod 4)"
    using i8 by (simp_all add: unat_div unat_mod unat_word_ariths(2))
  let ?v = "(?w AND NOT (push_bit (8 * (?i mod 4)) 0xFF)) OR push_bit (8 * (?i mod 4)) attr"
  let ?mpu = "mpu\<lparr>attr_indirect := (attr_indirect mpu)[?i div 4 := ?v]\<rparr>"
  have set: "rt_mpu_attr_set index attr mpu = Some ?mpu"
    using assms(3) i8 by (simp add: rt_mpu_attr_set_def Let_def sh)
  have "bit (attr_byte j ?mpu) k = bit (if j = ?i then attr else attr_byte j mpu) k" for k
  proof (cases "k < 8 \<and> j div 4 = ?i div 4")
    case True
    have "bit ?v (8 * (j mod 4) + k) = bit (if j = ?i then attr else attr_byte j mpu) k"
    proof (cases "j mod 4 = ?i mod 4")
      case True
      then have "j = ?i" using \<open>k < 8 \<and> j div 4 = ?i div 4\<close> by (metis div_mult_mod_eq)
      then show ?thesis
        using \<open>k < 8 \<and> j div 4 = ?i div 4\<close> unfolding m8 bit_or_iff bit_and_iff bit_not_iff bit_push_bit_iff bit_mask_iff
        by auto
    next
      case False
      then show ?thesis
        using byte_windows [of "?i mod 4" "j mod 4" k] \<open>k < 8 \<and> j div 4 = ?i div 4\<close> attr8 [of "8 * (j mod 4) + k - 8 * (?i mod 4)"]
        unfolding m8 bit_or_iff bit_and_iff bit_not_iff bit_push_bit_iff bit_mask_iff
        by (auto simp: bit_attr_byte dest: bit_imp_le_length)
    qed
    then show ?thesis using True assms(3) i8 by (auto simp: bit_attr_byte)
  next
    case False
    then show ?thesis using attr8 [of k] by (auto simp: bit_attr_byte)
  qed
  then have "attr_byte j ?mpu = (if j = ?i then attr else attr_byte j mpu)" by (rule bit_eqI)
  then show ?thesis using set by blast
qed

theorem attr_set_entry_witness:
  "\<exists>mpu'. rt_mpu_attr_set 5 0xBB \<lparr>mpu_type_v8 = 0, mpu_ctrl_v8 = 0, mpu_number_v8 = 0, mpu_regions_v8 = [],
       attr_indirect = [1, 2]\<rparr> = Some mpu' \<and> attr_byte 5 mpu' = 0xBB"
  using attr_set_entry [of 5 "0xBB" "\<lparr>mpu_type_v8 = 0, mpu_ctrl_v8 = 0, mpu_number_v8 = 0, mpu_regions_v8 = [],
       attr_indirect = [1, 2]\<rparr>" 5]
  by simp

end
