(* ===== verification/Rt_Arm.thy ===== *)
theory Rt_Arm
  imports Rt_Mpu Rt_Mpu_V8
begin

text \<open>
  The Arm port, \<^verbatim>\<open>arch/arm/arm.c\<close>: contexts, the start of the scheduler and the entry points of
  system calls, for every profile and option of the source, with the context switch of the
  M-profile in \<^verbatim>\<open>arch/arm/m/syscall-v7-v8.S\<close> and \<^verbatim>\<open>arch/arm/m/syscall-v6-v8base.S\<close>. Memory is a map
  from the addresses of words to words; exception entry and return are those of the architecture.
\<close>

section \<open>The machine\<close>

datatype arch = ARMV6M | ARMV7M | ARMV8M_BASE | ARMV8M_MAIN | ARMV7R

record port =
  arch :: arch
  mpu :: bool
  fpu :: bool
  big_endian :: bool

definition PROFILE_R :: "port \<Rightarrow> bool" where "PROFILE_R P \<longleftrightarrow> arch P = ARMV7R"
definition PROFILE_M :: "port \<Rightarrow> bool" where "PROFILE_M P \<longleftrightarrow> arch P \<noteq> ARMV7R"
definition V8M :: "port \<Rightarrow> bool" where "V8M P \<longleftrightarrow> arch P = ARMV8M_BASE \<or> arch P = ARMV8M_MAIN"

type_synonym memory = "u32 \<Rightarrow> u32"

primrec store_words :: "u32 \<Rightarrow> u32 list \<Rightarrow> memory \<Rightarrow> memory" where
  "store_words a [] m = m"
| "store_words a (w # ws) m = store_words (a + 4) ws (m(a := w))"

primrec load_words :: "u32 \<Rightarrow> nat \<Rightarrow> memory \<Rightarrow> u32 list" where
  "load_words a 0 m = []"
| "load_words a (Suc n) m = m a # load_words (a + 4) n m"

text \<open>The addresses of \<open>n\<close> words from \<open>a\<close> on.\<close>

definition span :: "u32 \<Rightarrow> nat \<Rightarrow> u32 set" where
  "span a n = (\<lambda>i. a + 4 * of_nat i) ` {..< n}"

text \<open>
  A core in the mode of a task or, after exception entry, in handler mode. Floating-point registers
  and their control register are there on a core without floating point too, without being used.
\<close>

record core =
  gpr :: "nat \<Rightarrow> u32"
  lr :: u32
  pc :: u32
  psr :: u32
  psp :: u32
  control :: u32
  psplim :: u32
  fpr :: "nat \<Rightarrow> u32"
  fpscr :: u32
  mem :: memory

section \<open>Contexts\<close>

text \<open>The members of \<^verbatim>\<open>struct context\<close> in order, each a word.\<close>

datatype member = M_control | M_psplim | M_fp_enabled | M_exc_return | M_r nat | M_lr | M_pc | M_psr

definition context_struct :: "port \<Rightarrow> member list" where
  "context_struct P =
     (if PROFILE_M P \<and> mpu P then [M_control] else []) @
     (if V8M P then [M_psplim] else []) @
     (if PROFILE_R P \<and> fpu P then [M_fp_enabled] else []) @
     map M_r [4, 5, 6, 7, 8, 9, 10, 11] @
     (if PROFILE_M P \<and> fpu P then [M_exc_return] else []) @
     map M_r [0, 1, 2, 3, 12] @ [M_lr, M_pc, M_psr]"

definition sizeof_context :: "port \<Rightarrow> u32" where
  "sizeof_context P = 4 * of_nat (length (context_struct P))"

fun index_of :: "'a \<Rightarrow> 'a list \<Rightarrow> nat" where
  "index_of x [] = 0"
| "index_of x (y # ys) = (if x = y then 0 else Suc (index_of x ys))"

definition set_member :: "port \<Rightarrow> u32 \<Rightarrow> member \<Rightarrow> u32 \<Rightarrow> memory \<Rightarrow> memory" where
  "set_member P ctx f v m = m(ctx + 4 * of_nat (index_of f (context_struct P)) := v)"

definition CPSR_MODE_USR :: u32 where "CPSR_MODE_USR = 16"
definition CPSR_MODE_SYS :: u32 where "CPSR_MODE_SYS = 31"
definition CPSR_MODE_MASK :: u32 where "CPSR_MODE_MASK = 0x1F"
definition CPSR_E :: "port \<Rightarrow> u32" where "CPSR_E P = push_bit 9 (of_bool (big_endian P))"
definition CPSR_THUMB :: "u32 \<Rightarrow> u32" where "CPSR_THUMB fn_addr = push_bit 5 (fn_addr AND 1)"
definition CONTROL_NPRIV :: u32 where "CONTROL_NPRIV = push_bit 0 1"
definition CONTROL_SPSEL :: u32 where "CONTROL_SPSEL = push_bit 1 1"
definition PSR_THUMB :: u32 where "PSR_THUMB = push_bit 24 1"

definition TASK_INITIAL_EXC_RETURN :: "port \<Rightarrow> u32" where
  "TASK_INITIAL_EXC_RETURN P = (if V8M P then 0xFFFFFFBC else 0xFFFFFFFD)"

text \<open>The address of \<^verbatim>\<open>rt_task_exit\<close> is the argument \<open>exit_fn\<close>.\<close>

definition context_create :: "port \<Rightarrow> u32 \<Rightarrow> u32 \<Rightarrow> size_t \<Rightarrow> u32 \<Rightarrow> memory \<Rightarrow> u32 \<times> memory" where
  "context_create P exit_fn stack stack_size fn_addr m =
     (let stack_end = stack + stack_size;
          ctx = stack_end - sizeof_context P;
          m = (if V8M P then set_member P ctx M_psplim stack m else m);
          m = set_member P ctx M_lr exit_fn m;
          m = (if PROFILE_R P
               then let m = set_member P ctx M_psr (CPSR_MODE_SYS OR CPSR_E P OR CPSR_THUMB fn_addr) m
                    in if fpu P then set_member P ctx M_fp_enabled 0 m else m
               else let m = set_member P ctx M_psr PSR_THUMB m;
                        m = (if mpu P then set_member P ctx M_control 0 m else m)
                    in if fpu P then set_member P ctx M_exc_return (TASK_INITIAL_EXC_RETURN P) m else m)
      in (ctx, m))"

definition rt_context_create :: "port \<Rightarrow> u32 \<Rightarrow> u32 \<Rightarrow> u32 \<Rightarrow> size_t \<Rightarrow> memory \<Rightarrow> u32 \<times> memory" where
  "rt_context_create P exit_fn fn stack stack_size m =
     (let (ctx, m) = context_create P exit_fn stack stack_size fn m
      in (ctx, set_member P ctx M_pc fn m))"

definition rt_context_create_arg :: "port \<Rightarrow> u32 \<Rightarrow> u32 \<Rightarrow> u32 \<Rightarrow> u32 \<Rightarrow> size_t \<Rightarrow> memory \<Rightarrow> u32 \<times> memory" where
  "rt_context_create_arg P exit_fn fn arg stack stack_size m =
     (let (ctx, m) = context_create P exit_fn stack stack_size fn m;
          m = set_member P ctx M_pc fn m
      in (ctx, set_member P ctx (M_r 0) arg m))"

section \<open>Privilege, interrupts and system calls\<close>

definition cpsr_mode :: "u32 \<Rightarrow> u32" where
  "cpsr_mode cpsr = cpsr AND CPSR_MODE_MASK"

text \<open>The status register is \<open>cpsr\<close> in the R-profile and \<open>ipsr\<close> in the M-profile.\<close>

definition rt_interrupt_is_active :: "port \<Rightarrow> u32 \<Rightarrow> bool" where
  "rt_interrupt_is_active P status =
     (if PROFILE_R P
      then let mode = cpsr_mode status in mode \<noteq> CPSR_MODE_SYS \<and> mode \<noteq> CPSR_MODE_USR
      else status \<noteq> 0)"

text \<open>
  What \<^verbatim>\<open>rt_syscall_pend\<close> does: a supervisor call, or a write to the register that pends the system
  call interrupt, with the barriers that make it come before the function returns.
\<close>

datatype pend = Svc | Write u32 u32 "string list"

definition arm_syscall_pend :: "port \<Rightarrow> u32 \<Rightarrow> u32 \<Rightarrow> pend" where
  "arm_syscall_pend P cpsr ctrl =
     (if PROFILE_R P
      then if cpsr_mode cpsr = CPSR_MODE_USR then Svc
           else Write 0xFFFFFFB0 (push_bit 8 0x75) [''dsb'', ''isb'']
      else let CONTROL_USR = CONTROL_NPRIV OR CONTROL_SPSEL
           in if mpu P \<and> ctrl AND CONTROL_USR = CONTROL_USR then Svc
              else Write 0xE000ED04 (push_bit 28 1) [''dsb'', ''isb''])"

definition rt_task_drop_privilege :: "port \<Rightarrow> core \<Rightarrow> core" where
  "rt_task_drop_privilege P s =
     (if PROFILE_R P then s\<lparr>psr := (psr s AND NOT CPSR_MODE_MASK) OR CPSR_MODE_USR\<rparr>
      else if mpu P then s\<lparr>control := control s OR CONTROL_NPRIV\<rparr> else s)"

text \<open>The flag \<^verbatim>\<open>rt_task_fp_enabled\<close> beside the core; without one nothing happens.\<close>

definition rt_task_enable_fp :: "port \<Rightarrow> core \<times> bool \<Rightarrow> core \<times> bool" where
  "rt_task_enable_fp P =
     (\<lambda>(s, fp_enabled). if PROFILE_R P \<and> fpu P then (s\<lparr>fpscr := 0\<rparr>, True) else (s, fp_enabled))"

text \<open>
  Stacks are protected regions when there is a memory protection unit, and are aligned to 8 bytes
  otherwise. Their sizes are constants.
\<close>

definition RT_STACK_ALIGN :: "port \<Rightarrow> size_t \<Rightarrow> u32" where
  "RT_STACK_ALIGN P n = (if mpu P then if V8M P then RT_MPU_ALIGN_v8 n else ucast (RT_MPU_ALIGN True n) else 8)"

definition RT_STACK_SIZE :: "port \<Rightarrow> size_t \<Rightarrow> u32" where
  "RT_STACK_SIZE P n =
     (if mpu P \<and> \<not> V8M P then ucast (RT_MPU_SIZE True n)
      else (n + (RT_STACK_ALIGN P n - 1)) AND NOT (RT_STACK_ALIGN P n - 1))"

text \<open>
  The start of the scheduler on the M-profile: the priorities of the exceptions, then the registers
  of the idle task. A priority register keeps the upper \<open>bits\<close> bits of each field. The system
  registers that the function writes are those of the record.
\<close>

record scb =
  shpr3 :: u32
  stk_val :: u32
  stk_ctrl :: u32
  irq_enabled :: bool

definition prio_mask :: "nat \<Rightarrow> u32" where
  "prio_mask bits = push_bit (8 - bits) (mask bits)"

definition write_shpr3 :: "nat \<Rightarrow> u32 \<Rightarrow> scb \<Rightarrow> scb" where
  "write_shpr3 bits v d =
     d\<lparr>shpr3 := v AND (push_bit 24 (prio_mask bits) OR push_bit 16 (prio_mask bits))\<rparr>"

definition start_priorities :: "nat \<Rightarrow> scb \<Rightarrow> scb" where
  "start_priorities bits d =
     (let d = write_shpr3 bits (push_bit 16 0xFF) d;
          s3 = shpr3 d;
          syscall_prio = drop_bit 16 s3;
          tick_prio = syscall_prio - 1;
          d = write_shpr3 bits (push_bit 24 tick_prio OR s3) d;
          d = d\<lparr>stk_val := 0\<rparr>
      in d\<lparr>stk_ctrl := push_bit 0 1 OR push_bit 1 1\<rparr>)"

definition start_idle :: "port \<Rightarrow> u32 \<Rightarrow> core \<Rightarrow> core" where
  "start_idle P idle_task_stack s =
     (let s = (if V8M P then s\<lparr>psplim := idle_task_stack\<rparr> else s);
          s = s\<lparr>psp := idle_task_stack + RT_STACK_SIZE P (sizeof_context P)\<rparr>;
          s = s\<lparr>control := CONTROL_SPSEL\<rparr>
      in rt_task_drop_privilege P s)"

section \<open>The context switch of the M-profile\<close>

text \<open>
  Exception entry saves the registers that a call may change on the stack of the task, with the
  floating-point ones when the task has used floating point (bit 2 of \<^verbatim>\<open>control\<close>), aligns the stack
  to 8 bytes, noting that in bit 9 of the saved status, and leaves in \<^verbatim>\<open>lr\<close> how to return. In
  handler mode only bit 0 of \<^verbatim>\<open>control\<close> can be seen.
\<close>

definition frame_words :: "core \<Rightarrow> u32 list" where
  "frame_words s =
     map (gpr s) [0, 1, 2, 3, 12] @ [lr s, pc s, if bit (psp s) 2 then set_bit 9 (psr s) else psr s] @
     (if bit (control s) 2 then map (fpr s) [0..<16] @ [fpscr s, 0] else [])"

definition frame_start :: "core \<Rightarrow> u32" where
  "frame_start s = unset_bit 2 (psp s) - 4 * of_nat (length (frame_words s))"

definition exc_entry :: "port \<Rightarrow> core \<Rightarrow> core" where
  "exc_entry P s =
     s\<lparr>mem := store_words (frame_start s) (frame_words s) (mem s), psp := frame_start s,
       lr := (if bit (control s) 2 then unset_bit 4 (TASK_INITIAL_EXC_RETURN P) else TASK_INITIAL_EXC_RETURN P),
       control := control s AND 1\<rparr>"

definition exc_return :: "u32 \<Rightarrow> core \<Rightarrow> core" where
  "exc_return ret s =
     (let ws = load_words (psp s) 8 (mem s);
          fs = load_words (psp s + 32) 18 (mem s);
          fp = \<not> bit ret 4;
          top = psp s + (if fp then 104 else 32)
      in s\<lparr>gpr := (gpr s)(0 := ws ! 0, 1 := ws ! 1, 2 := ws ! 2, 3 := ws ! 3, 12 := ws ! 4),
           lr := ws ! 5, pc := ws ! 6, psr := unset_bit 9 (ws ! 7),
           psp := (if bit (ws ! 7) 9 then top + 4 else top),
           control := (control s AND 1) OR 2 OR (if fp then 4 else 0),
           fpr := (\<lambda>i. if fp \<and> i < 16 then fs ! i else fpr s i), fpscr := (if fp then fs ! 16 else fpscr s)\<rparr>)"

text \<open>The registers that the handler saves and loads, as \<^verbatim>\<open>saveregs\<close> and \<^verbatim>\<open>loadregs\<close> list them.\<close>

definition save_words :: "port \<Rightarrow> core \<Rightarrow> u32 list" where
  "save_words P s =
     (if mpu P then [control s] else []) @ (if V8M P then [psplim s] else []) @
     map (gpr s) [4..<12] @ (if fpu P then [lr s] else [])"

definition load_regs :: "port \<Rightarrow> u32 list \<Rightarrow> core \<Rightarrow> core" where
  "load_regs P ws s =
     (let (s, ws) = (if mpu P then (s\<lparr>control := hd ws AND 1\<rparr>, tl ws) else (s, ws));
          (s, ws) = (if V8M P then (s\<lparr>psplim := hd ws\<rparr>, tl ws) else (s, ws));
          s = s\<lparr>gpr := (\<lambda>i. if 4 \<le> i \<and> i < 12 then ws ! (i - 4) else gpr s i)\<rparr>
      in if fpu P then s\<lparr>lr := ws ! 8\<rparr> else s)"

definition num_saved :: "port \<Rightarrow> nat" where
  "num_saved P = of_bool (mpu P) + of_bool (V8M P) + 8 + of_bool (fpu P)"

text \<open>
  The handler after \<^verbatim>\<open>rt_syscall_run\<close> has returned the context \<open>newctx\<close>; \<open>prev\<close> is the address in
  \<^verbatim>\<open>rt_context_prev\<close>. The result is the exception return value and the core.
\<close>

definition save_fp :: "port \<Rightarrow> u32 \<times> core \<Rightarrow> u32 \<times> core" where
  "save_fp P = (\<lambda>(r1, s).
     if fpu P \<and> \<not> bit (lr s) 4
     then (r1 - 64, s\<lparr>mem := store_words (r1 - 64) (map (fpr s) [16..<32]) (mem s)\<rparr>) else (r1, s))"

definition load_fp :: "port \<Rightarrow> u32 \<times> core \<Rightarrow> u32 \<times> core" where
  "load_fp P = (\<lambda>(r0, s).
     if fpu P \<and> \<not> bit (lr s) 4
     then (r0 + 64, s\<lparr>fpr := (\<lambda>i. if 16 \<le> i \<and> i < 32 then load_words r0 16 (mem s) ! (i - 16) else fpr s i)\<rparr>)
     else (r0, s))"

definition handler_return :: "port \<Rightarrow> core \<Rightarrow> u32" where
  "handler_return P s = (if fpu P then lr s else TASK_INITIAL_EXC_RETURN P)"

definition handler_v7_v8 :: "port \<Rightarrow> u32 \<Rightarrow> u32 \<Rightarrow> core \<Rightarrow> u32 \<times> core" where
  "handler_v7_v8 P newctx prev s =
     (if newctx = 0 then (handler_return P s, s)
      else let (r1, s) = save_fp P (psp s, s);
               r1 = r1 - 4 * of_nat (num_saved P);
               s = s\<lparr>mem := store_words r1 (save_words P s) (mem s)\<rparr>;
               s = s\<lparr>mem := (mem s)(prev := r1)\<rparr>;
               s = load_regs P (load_words newctx (num_saved P) (mem s)) s;
               r0 = newctx + 4 * of_nat (num_saved P);
               (r0, s) = load_fp P (r0, s);
               s = s\<lparr>psp := r0\<rparr>
           in (handler_return P s, s))"

text \<open>
  The variant for Armv6-M and the baseline of Armv8-M stores and loads the registers in two parts,
  the upper ones through the lower ones.
\<close>

definition low_words :: "port \<Rightarrow> core \<Rightarrow> u32 list" where
  "low_words P s =
     (if mpu P then [control s] else []) @ (if V8M P then [psplim s] else []) @ map (gpr s) [4, 5, 6, 7]"

definition CONTEXT_SIZE :: "port \<Rightarrow> u32" where
  "CONTEXT_SIZE P = 32 + (if V8M P then 4 else 0) + (if mpu P then 4 else 0)"

definition load_low :: "port \<Rightarrow> u32 list \<Rightarrow> core \<Rightarrow> core" where
  "load_low P ws s =
     (let (s, ws) = (if mpu P then (s\<lparr>control := hd ws AND 1\<rparr>, tl ws) else (s, ws));
          (s, ws) = (if V8M P then (s\<lparr>psplim := hd ws\<rparr>, tl ws) else (s, ws))
      in s\<lparr>gpr := (gpr s)(4 := ws ! 0, 5 := ws ! 1, 6 := ws ! 2, 7 := ws ! 3)\<rparr>)"

definition handler_v6_v8base :: "port \<Rightarrow> u32 \<Rightarrow> u32 \<Rightarrow> core \<Rightarrow> u32 \<times> core" where
  "handler_v6_v8base P newctx prev s =
     (if newctx = 0 then (TASK_INITIAL_EXC_RETURN P, s)
      else let r1 = psp s - CONTEXT_SIZE P;
               s = s\<lparr>mem := (mem s)(prev := r1)\<rparr>;
               s = s\<lparr>mem := store_words r1 (low_words P s) (mem s)\<rparr>;
               r1 = r1 + 4 * of_nat (length (low_words P s));
               s = s\<lparr>gpr := (gpr s)(4 := gpr s 8, 5 := gpr s 9, 6 := gpr s 10, 7 := gpr s 11)\<rparr>;
               s = s\<lparr>mem := store_words r1 (map (gpr s) [4, 5, 6, 7]) (mem s)\<rparr>;
               r1 = newctx;
               r0 = newctx + (CONTEXT_SIZE P - 16);
               ws = load_words r0 4 (mem s);
               r0 = r0 + 16;
               s = s\<lparr>gpr := (gpr s)(8 := ws ! 0, 9 := ws ! 1, 10 := ws ! 2, 11 := ws ! 3)\<rparr>;
               s = load_low P (load_words r1 (length (low_words P s)) (mem s)) s;
               s = s\<lparr>psp := r0\<rparr>
           in (TASK_INITIAL_EXC_RETURN P, s))"

definition arm_handler :: "port \<Rightarrow> u32 \<Rightarrow> u32 \<Rightarrow> core \<Rightarrow> u32 \<times> core" where
  "arm_handler P newctx prev s =
     (if arch P = ARMV6M \<or> arch P = ARMV8M_BASE then handler_v6_v8base P newctx prev s
      else handler_v7_v8 P newctx prev s)"

section \<open>Words in memory\<close>

lemma span_0 [simp]: "span a 0 = {}"
  by (simp add: span_def)

lemma span_Suc: "span a (Suc n) = insert a (span (a + 4) n)"
proof -
  have "span a (Suc n) = (\<lambda>i. a + 4 * of_nat i) ` insert 0 (Suc ` {..< n})"
    by (simp add: span_def lessThan_Suc_eq_insert_0)
  then show ?thesis by (simp add: span_def image_image algebra_simps)
qed

lemma span_add: "span a (n + k) = span a n \<union> span (a + 4 * of_nat n) k"
  by (induction n arbitrary: a) (simp_all add: span_Suc algebra_simps)

lemma span_subset: "n \<le> k \<Longrightarrow> span a n \<subseteq> span a k"
  using span_add [of a n "k - n"] by simp

lemma span_no_wrap:
  assumes "n < 2 ^ 30" shows "a \<notin> span (a + 4) n"
proof
  assume "a \<in> span (a + 4) n"
  then obtain i where i: "i < n" "(4 :: u32) * of_nat (Suc i) = 0" by (auto simp: span_def algebra_simps)
  then have "(of_nat (4 * Suc i) :: u32) = 0" by simp
  moreover have "unat (of_nat (4 * Suc i) :: u32) = 4 * Suc i"
    using i(1) assms by (intro of_nat_inverse [OF refl]) simp
  ultimately show False by (metis Zero_neq_Suc mult_eq_0_iff unat_0 zero_neq_numeral)
qed

lemma store_words_other: "x \<notin> span a (length ws) \<Longrightarrow> store_words a ws m x = m x"
  by (induction ws arbitrary: a m) (simp_all add: span_Suc)

lemma length_load_words [simp]: "length (load_words a n m) = n"
  by (induction n arbitrary: a) simp_all

lemma load_words_cong: "(\<And>x. x \<in> span a n \<Longrightarrow> m x = m' x) \<Longrightarrow> load_words a n m = load_words a n m'"
  by (induction n arbitrary: a) (simp_all add: span_Suc)

lemma load_store_words:
  assumes "length ws < 2 ^ 30" shows "load_words a (length ws) (store_words a ws m) = ws"
  using assms
proof (induction ws arbitrary: a m)
  case (Cons w ws)
  have "store_words (a + 4) ws (m(a := w)) a = w"
    using span_no_wrap [of "length ws" a] Cons.prems by (simp add: store_words_other)
  then show ?case using Cons by simp
qed simp

lemma load_words_append: "load_words a (n + k) m = load_words a n m @ load_words (a + 4 * of_nat n) k m"
  by (induction n arbitrary: a) (simp_all add: algebra_simps)

lemma store_words_append: "store_words a (xs @ ys) m = store_words (a + 4 * of_nat (length xs)) ys (store_words a xs m)"
  by (induction xs arbitrary: a m) (simp_all add: algebra_simps)

lemma store_words_upd:
  "x \<notin> span a (length ws) \<Longrightarrow> (store_words a ws m)(x := v) = store_words a ws (m(x := v))"
  by (induction ws arbitrary: a m) (auto simp: span_Suc fun_upd_twist)

lemma store_words_swap:
  assumes "length xs + length ys < 2 ^ 30"
  shows "store_words a xs (store_words (a + 4 * of_nat (length xs)) ys m) =
    store_words (a + 4 * of_nat (length xs)) ys (store_words a xs m)"
  using assms
proof (induction xs arbitrary: a m)
  case (Cons x xs)
  have "a \<notin> span (a + 4 * of_nat (length (x # xs))) (length ys)"
    using span_no_wrap [of "length xs + length ys" a] Cons.prems by (auto simp: span_add algebra_simps)
  note upd = store_words_upd [OF this, of m x]
  define n where "n = m(a := x)"
  show ?case using upd Cons.IH [of "a + 4" n] Cons.prems by (simp add: algebra_simps n_def [symmetric])
qed simp

lemma span_disjoint:
  assumes "n + k < 2 ^ 30" shows "span a n \<inter> span (a + 4 * of_nat n) k = {}"
  using assms
proof (induction n arbitrary: a)
  case (Suc n)
  have "a \<notin> span (a + 4 + 4 * of_nat n) k"
    using span_no_wrap [of "n + k" a] Suc.prems by (simp add: span_add)
  then show ?case using Suc.IH [of "a + 4"] Suc.prems by (simp add: span_Suc algebra_simps)
qed simp

section \<open>Registers\<close>

lemma length_save_words [simp]: "length (save_words P s) = num_saved P"
  by (simp add: save_words_def num_saved_def)

lemma num_saved_bound: "num_saved P \<le> 11"
  by (simp add: num_saved_def)

text \<open>What a task sees of the core: the registers that a switch has to bring back.\<close>

definition same_regs :: "port \<Rightarrow> core \<Rightarrow> core \<Rightarrow> bool" where
  "same_regs P s t \<longleftrightarrow> (\<forall>i. 4 \<le> i \<and> i < 12 \<longrightarrow> gpr t i = gpr s i) \<and> (mpu P \<longrightarrow> control t = control s) \<and>
     (V8M P \<longrightarrow> psplim t = psplim s) \<and> (fpu P \<longrightarrow> lr t = lr s)"

lemma load_regs_save_words:
  assumes "control s AND 1 = control s"
  shows "same_regs P s (load_regs P (save_words P s) t)"
  using assms
  by (auto simp: same_regs_def load_regs_def save_words_def Let_def nth_append simp del: upt_rec_numeral)

lemma load_regs_sel [simp]:
  "mem (load_regs P ws s) = mem s" "psp (load_regs P ws s) = psp s" "fpr (load_regs P ws s) = fpr s"
  "fpscr (load_regs P ws s) = fpscr s"
  by (simp_all add: load_regs_def Let_def)

section \<open>Saving and loading a context\<close>

definition has_fp :: "port \<Rightarrow> core \<Rightarrow> bool" where
  "has_fp P e \<longleftrightarrow> fpu P \<and> \<not> bit (lr e) 4"

definition num_context :: "port \<Rightarrow> core \<Rightarrow> nat" where
  "num_context P e = num_saved P + (if has_fp P e then 16 else 0)"

definition context_addr :: "port \<Rightarrow> core \<Rightarrow> u32" where
  "context_addr P e = psp e - 4 * of_nat (num_context P e)"

definition context_words :: "port \<Rightarrow> core \<Rightarrow> u32 list" where
  "context_words P e = save_words P e @ (if has_fp P e then map (fpr e) [16..<32] else [])"

lemma length_context_words [simp]: "length (context_words P e) = num_context P e"
  by (simp add: context_words_def num_context_def del: upt_rec_numeral)

lemma num_context_bound: "num_context P e \<le> 27"
  using num_saved_bound [of P] by (simp add: num_context_def)

lemma context_addr_end: "context_addr P e + 4 * of_nat (num_context P e) = psp e"
  by (simp add: context_addr_def)

text \<open>What the handler leaves in memory when it suspends a task.\<close>

definition suspended :: "port \<Rightarrow> core \<Rightarrow> memory \<Rightarrow> bool" where
  "suspended P e m \<longleftrightarrow> load_words (context_addr P e) (num_context P e) m = context_words P e"

definition saved_mem :: "port \<Rightarrow> u32 \<Rightarrow> core \<Rightarrow> memory" where
  "saved_mem P prev e = (store_words (context_addr P e) (context_words P e) (mem e))(prev := context_addr P e)"

lemma store_context:
  "store_words (context_addr P e) (save_words P e)
     (if has_fp P e then store_words (psp e - 64) (map (fpr e) [16..<32]) (mem e) else mem e) =
   store_words (context_addr P e) (context_words P e) (mem e)"
proof (cases "has_fp P e")
  case True
  let ?q = "context_addr P e" and ?xs = "save_words P e" and ?ys = "map (fpr e) [16..<32]"
  have q: "psp e - 64 = ?q + 4 * of_nat (length ?xs)"
    using True by (simp add: context_addr_def num_context_def algebra_simps)
  from store_words_swap [of ?xs ?ys ?q "mem e"] show ?thesis
    using True num_saved_bound [of P] unfolding q by (simp add: context_words_def store_words_append del: upt_rec_numeral)
qed (simp add: context_words_def)

lemma saved_mem_suspended:
  assumes "prev \<notin> span (context_addr P e) (num_context P e)"
  shows "suspended P e (saved_mem P prev e)" "saved_mem P prev e prev = context_addr P e"
    "x \<notin> span (context_addr P e) (num_context P e) \<Longrightarrow> x \<noteq> prev \<Longrightarrow> saved_mem P prev e x = mem e x"
proof -
  let ?q = "context_addr P e"
  have "load_words ?q (num_context P e) (saved_mem P prev e) =
      load_words ?q (length (context_words P e)) (store_words ?q (context_words P e) (mem e))"
    using assms by (auto simp: saved_mem_def intro: load_words_cong)
  also have "\<dots> = context_words P e" using num_context_bound [of P e] by (intro load_store_words) simp
  finally show "suspended P e (saved_mem P prev e)" by (simp add: suspended_def)
qed (simp_all add: saved_mem_def store_words_other)

text \<open>Loading a context, after the suspending task's registers have been stored.\<close>

definition load_context :: "port \<Rightarrow> u32 \<Rightarrow> core \<Rightarrow> core" where
  "load_context P newctx s =
     (let s = load_regs P (load_words newctx (num_saved P) (mem s)) s;
          (r0, s) = load_fp P (newctx + 4 * of_nat (num_saved P), s)
      in s\<lparr>psp := r0\<rparr>)"

lemma handler_v7_v8_eq:
  assumes "newctx \<noteq> 0"
  shows "handler_v7_v8 P newctx prev e =
    (let s = load_context P newctx (e\<lparr>mem := saved_mem P prev e\<rparr>) in (handler_return P s, s))"
proof -
  have r1: "fst (save_fp P (psp e, e)) - 4 * of_nat (num_saved P) = context_addr P e"
    by (simp add: save_fp_def context_addr_def num_context_def has_fp_def algebra_simps)
  have s: "snd (save_fp P (psp e, e)) =
      e\<lparr>mem := if has_fp P e then store_words (psp e - 64) (map (fpr e) [16..<32]) (mem e) else mem e\<rparr>"
    by (simp add: save_fp_def has_fp_def)
  have w: "save_words P (e\<lparr>mem := m\<rparr>) = save_words P e" for m by (simp add: save_words_def)
  show ?thesis using assms
    by (simp add: handler_v7_v8_def case_prod_unfold Let_def r1 s w store_context load_context_def saved_mem_def
        del: upt_rec_numeral)
qed

lemma load_context_resumes:
  assumes s: "suspended P e (mem s)" and e: "control e AND 1 = control e"
  defines "t \<equiv> load_context P (context_addr P e) s"
  shows "same_regs P e t" "psp t = psp e" "mem t = mem s" "has_fp P e \<Longrightarrow> 16 \<le> i \<Longrightarrow> i < 32 \<Longrightarrow> fpr t i = fpr e i"
proof -
  let ?q = "context_addr P e" and ?k = "if has_fp P e then 16 else (0 :: nat)"
  have "load_words ?q (num_saved P) (mem s) @ load_words (?q + 4 * of_nat (num_saved P)) ?k (mem s) = context_words P e"
    using s by (simp only: suspended_def num_context_def load_words_append)
  then have regs: "load_words ?q (num_saved P) (mem s) = save_words P e"
    and fps: "has_fp P e \<Longrightarrow> load_words (?q + 4 * of_nat (num_saved P)) 16 (mem s) = map (fpr e) [16..<32]"
    by (simp_all add: context_words_def split: if_splits del: upt_rec_numeral)
  let ?r = "load_regs P (save_words P e) s"
  have r: "same_regs P e ?r" by (rule load_regs_save_words [OF e])
  then have fp: "fpu P \<and> \<not> bit (lr ?r) 4 \<longleftrightarrow> has_fp P e" by (auto simp: same_regs_def has_fp_def)
  have t: "t = (snd (load_fp P (?q + 4 * of_nat (num_saved P), ?r)))\<lparr>psp := fst (load_fp P (?q + 4 * of_nat (num_saved P), ?r))\<rparr>"
    by (simp add: t_def load_context_def regs Let_def case_prod_unfold)
  show "same_regs P e t" using r by (auto simp: t load_fp_def same_regs_def)
  show "psp t = psp e" by (simp add: t load_fp_def fp context_addr_def num_context_def algebra_simps)
  show "mem t = mem s" by (simp add: t load_fp_def)
  show "fpr t i = fpr e i" if "has_fp P e" "16 \<le> i" "i < 32"
    using that fps by (simp add: t load_fp_def fp del: upt_rec_numeral)
qed

lemma CONTEXT_SIZE_eq: "\<not> fpu P \<Longrightarrow> CONTEXT_SIZE P = 4 * of_nat (num_saved P)"
  by (simp add: CONTEXT_SIZE_def num_saved_def)

lemma save_words_low:
  assumes "\<not> fpu P"
  shows "save_words P s = low_words P s @ map (gpr s) [8, 9, 10, 11]" "num_saved P = length (low_words P s) + 4"
  using assms by (simp_all add: save_words_def low_words_def num_saved_def)

lemma gpr_low_high:
  assumes "length xs = 4" and "length ys = 4"
  shows "g(4 := a, 5 := b, 6 := c, 7 := d, 8 := ys ! 0, 9 := ys ! 1, 10 := ys ! 2, 11 := ys ! 3,
      4 := xs ! 0, 5 := xs ! 1, 6 := xs ! 2, 7 := xs ! 3) =
    (\<lambda>i. if 4 \<le> i \<and> i < 12 then (xs @ ys) ! (i - 4) else g i)" (is "?l = ?r")
proof
  fix i :: nat
  consider "i < 4" | "i = 4" | "i = 5" | "i = 6" | "i = 7" | "i = 8" | "i = 9" | "i = 10" | "i = 11" | "12 \<le> i" by linarith
  then show "?l i = ?r i" using assms by cases (simp_all add: nth_append)
qed

lemma load_regs_low:
  assumes "\<not> fpu P" and "length xs = length (low_words P s)" and "length ys = 4"
  shows "load_low P xs (s\<lparr>gpr := (gpr s)(4 := a, 5 := b, 6 := c, 7 := d, 8 := ys ! 0, 9 := ys ! 1, 10 := ys ! 2, 11 := ys ! 3)\<rparr>) =
    load_regs P (xs @ ys) s"
proof -
  let ?g = "(gpr s)(4 := a, 5 := b, 6 := c, 7 := d, 8 := ys ! 0, 9 := ys ! 1, 10 := ys ! 2, 11 := ys ! 3)"
  have g: "(?g)(4 := zs ! 0, 5 := zs ! 1, 6 := zs ! 2, 7 := zs ! 3) =
      (\<lambda>i. if 4 \<le> i \<and> i < 12 then (zs @ ys) ! (i - 4) else gpr s i)" if "length zs = 4" for zs
    by (rule gpr_low_high [OF that assms(3)])
  show ?thesis
  proof (cases "mpu P")
    case True
    then show ?thesis using assms(1,2) g [of "tl xs"] g [of "tl (tl xs)"]
      by (cases "V8M P"; cases xs; cases "tl xs") (simp_all add: load_low_def load_regs_def low_words_def Let_def cong: if_cong)
  next
    case False
    then show ?thesis using assms(1,2) g [of xs] g [of "tl xs"]
      by (cases "V8M P"; cases xs) (simp_all add: load_low_def load_regs_def low_words_def Let_def cong: if_cong)
  qed
qed

lemma handler_v6_v8base_eq:
  assumes nofp: "\<not> fpu P" and prev: "prev \<notin> span (context_addr P e) (num_context P e)"
  shows "handler_v6_v8base P newctx prev e = handler_v7_v8 P newctx prev e"
proof (cases "newctx = 0")
  case False
  let ?q = "context_addr P e" and ?n = "length (low_words P e)"
  have fp: "\<not> has_fp P e" using nofp by (simp add: has_fp_def)
  have n: "num_saved P = ?n + 4" "num_context P e = num_saved P"
    using save_words_low [OF nofp, of e] fp by (simp_all add: num_context_def)
  have q: "psp e - CONTEXT_SIZE P = ?q" using nofp n by (simp add: context_addr_def CONTEXT_SIZE_eq)
  have l: "low_words P (e\<lparr>mem := m\<rparr>) = low_words P e" "length (low_words P (e\<lparr>mem := m, gpr := g\<rparr>)) = ?n" for m g
    by (simp_all add: low_words_def)
  have "store_words (?q + 4 * of_nat ?n) (map (gpr e) [8, 9, 10, 11]) (store_words ?q (low_words P e) ((mem e)(prev := ?q))) =
      store_words ?q (context_words P e) ((mem e)(prev := ?q))"
    using fp save_words_low [OF nofp, of e] by (simp add: context_words_def store_words_append)
  also have "\<dots> = saved_mem P prev e" unfolding saved_mem_def using prev by (subst store_words_upd) simp_all
  finally have m: "store_words (?q + 4 * of_nat ?n) [gpr e 8, gpr e 9, gpr e 10, gpr e 11]
      (store_words ?q (low_words P e) ((mem e)(prev := ?q))) = saved_mem P prev e" by simp
  let ?m = "saved_mem P prev e" and ?h = "newctx + (CONTEXT_SIZE P - 16)"
  have h: "?h = newctx + 4 * of_nat ?n" using nofp n by (simp add: CONTEXT_SIZE_eq algebra_simps)
  have "load_words newctx (num_saved P) ?m = load_words newctx ?n ?m @ load_words ?h 4 ?m"
    unfolding n(1) h by (rule load_words_append)
  with load_regs_low [OF nofp, of "load_words newctx ?n ?m" "e\<lparr>mem := ?m\<rparr>" "load_words ?h 4 ?m"]
  have r: "load_low P (load_words newctx ?n ?m) (e\<lparr>mem := ?m, gpr := (gpr e)(4 := a, 5 := b, 6 := c, 7 := d,
        8 := load_words ?h 4 ?m ! 0, 9 := load_words ?h 4 ?m ! 1, 10 := load_words ?h 4 ?m ! 2, 11 := load_words ?h 4 ?m ! 3)\<rparr>) =
      load_regs P (load_words newctx (num_saved P) ?m) (e\<lparr>mem := ?m\<rparr>)" for a b c d
    by (simp add: l(1) del: load_words.simps)
  have z: "?h + 16 = newctx + 4 * of_nat (num_saved P)" using nofp by (simp add: CONTEXT_SIZE_eq)
  show ?thesis
    unfolding handler_v6_v8base_def Let_def handler_v7_v8_eq [OF False] load_context_def
    using False nofp
    by (simp add: q l m r z load_fp_def handler_return_def
        del: load_words.simps store_words.simps One_nat_def)
qed (simp add: handler_v6_v8base_def handler_v7_v8_def handler_return_def nofp)

section \<open>Exception entry and return\<close>

text \<open>A core that runs a task: the stack pointer is that of the task, bit 9 of the status is reserved.\<close>

definition thread_ok :: "port \<Rightarrow> core \<Rightarrow> bool" where
  "thread_ok P s \<longleftrightarrow> control s = (control s AND 1) OR 2 OR (if bit (control s) 2 then 4 else 0) \<and>
     \<not> bit (psr s) 9 \<and> (bit (control s) 2 \<longrightarrow> fpu P)"

definition port_ok :: "port \<Rightarrow> bool" where
  "port_ok P \<longleftrightarrow> PROFILE_M P \<and> (fpu P \<longrightarrow> arch P = ARMV7M \<or> arch P = ARMV8M_MAIN)"

text \<open>The task that has the state \<open>s\<close> goes on in the state \<open>u\<close>.\<close>

definition resumed :: "port \<Rightarrow> core \<Rightarrow> core \<Rightarrow> bool" where
  "resumed P s u \<longleftrightarrow> (\<forall>i. i < 13 \<longrightarrow> gpr u i = gpr s i) \<and> lr u = lr s \<and> pc u = pc s \<and> psr u = psr s \<and>
     psp u = psp s \<and> (mpu P \<longrightarrow> control u = control s) \<and> (V8M P \<longrightarrow> psplim u = psplim s) \<and>
     (bit (control s) 2 \<longrightarrow> (\<forall>i. i < 32 \<longrightarrow> fpr u i = fpr s i) \<and> fpscr u = fpscr s)"

lemma TASK_INITIAL_bit4: "bit (TASK_INITIAL_EXC_RETURN P) 4"
  by (simp add: TASK_INITIAL_EXC_RETURN_def bit_simps)

lemma exc_entry_sel [simp]:
  "gpr (exc_entry P s) = gpr s" "psp (exc_entry P s) = frame_start s" "psplim (exc_entry P s) = psplim s"
  "fpr (exc_entry P s) = fpr s" "control (exc_entry P s) = control s AND 1"
  "bit (lr (exc_entry P s)) 4 \<longleftrightarrow> \<not> bit (control s) 2"
  by (simp_all add: exc_entry_def TASK_INITIAL_bit4 bit_simps)

lemma frame_words_length: "length (frame_words s) = (if bit (control s) 2 then 26 else 8)"
  by (simp add: frame_words_def)

lemma frame_top: "frame_start s + 4 * of_nat (length (frame_words s)) = unset_bit 2 (psp s)"
  by (simp add: frame_start_def)

lemma unset_bit_2_add: "bit (x :: u32) 2 \<Longrightarrow> unset_bit 2 x + 4 = x"
proof -
  assume "bit x 2"
  then have "x = set_bit 2 (unset_bit 2 x)" by (intro bit_eqI) (auto simp: bit_simps)
  moreover have "\<not> bit (unset_bit 2 x) 2" by (simp add: bit_simps)
  ultimately show ?thesis using set_bit_eq [of 2 "unset_bit 2 x"] by simp
qed

lemma set_bit_9: "\<not> bit (x :: u32) 9 \<Longrightarrow> unset_bit 9 (set_bit 9 x) = x" "\<not> bit (x :: u32) 9 \<Longrightarrow> unset_bit 9 x = x"
  "bit (set_bit 9 (x :: u32)) 9"
  by (auto intro!: bit_eqI simp: bit_simps)

lemma exc_return_resumes:
  assumes s: "thread_ok P s" and frame: "load_words (frame_start s) (length (frame_words s)) (mem t) = frame_words s"
    and psp: "psp t = frame_start s" and regs: "same_regs P (exc_entry P s) t"
    and fps: "\<And>i. bit (control s) 2 \<Longrightarrow> 16 \<le> i \<Longrightarrow> i < 32 \<Longrightarrow> fpr t i = fpr s i"
    and ret: "bit ret 4 \<longleftrightarrow> \<not> bit (control s) 2"
  shows "resumed P s (exc_return ret t)"
proof -
  let ?fp = "bit (control s) 2" and ?xs = "map (gpr s) [0, 1, 2, 3, 12] @ [lr s, pc s, if bit (psp s) 2 then set_bit 9 (psr s) else psr s]"
  have "load_words (frame_start s) (8 + (if ?fp then 18 else 0)) (mem t) = frame_words s"
    using frame unfolding frame_words_length by (cases ?fp) simp_all
  then have "load_words (psp t) 8 (mem t) @ load_words (psp t + 32) (if ?fp then 18 else 0) (mem t) =
      ?xs @ (if ?fp then map (fpr s) [0..<16] @ [fpscr s, 0] else [])"
    unfolding load_words_append psp frame_words_def by simp
  then have "load_words (psp t) 8 (mem t) = ?xs \<and> load_words (psp t + 32) (if ?fp then 18 else 0) (mem t) =
      (if ?fp then map (fpr s) [0..<16] @ [fpscr s, 0] else [])"
    by (rule append_eq_append_conv [THEN iffD1, rotated]) (simp del: load_words.simps)
  then have ws: "load_words (psp t) 8 (mem t) = ?xs"
    and fs: "?fp \<Longrightarrow> load_words (psp t + 32) 18 (mem t) = map (fpr s) [0..<16] @ [fpscr s, 0]"
    by (simp_all del: load_words.simps upt_rec_numeral)
  have "gpr (exc_return ret t) i = gpr s i" if "i < 13" for i
  proof -
    have "i = 0 \<or> i = 1 \<or> i = 2 \<or> i = 3 \<or> 4 \<le> i \<and> i < 12 \<or> i = 12" using that by linarith
    then show ?thesis
      using regs by (elim disjE) (simp_all add: exc_return_def ws same_regs_def Let_def del: load_words.simps)
  qed
  moreover have "lr (exc_return ret t) = lr s" "pc (exc_return ret t) = pc s" "psr (exc_return ret t) = psr s"
    using s by (simp_all add: exc_return_def ws Let_def set_bit_9 thread_ok_def del: load_words.simps)
  moreover have "psp (exc_return ret t) = psp s"
  proof -
    have "psp t + (if ?fp then 104 else 32) = unset_bit 2 (psp s)"
      using frame_top [of s] by (simp add: psp frame_words_length split: if_splits)
    moreover have "\<not> bit (psp s) 2 \<Longrightarrow> unset_bit 2 (psp s) = psp s" by (intro bit_eqI) (auto simp: bit_simps)
    ultimately show ?thesis using s ret unset_bit_2_add [of "psp s"]
      by (auto simp: exc_return_def ws Let_def set_bit_9 thread_ok_def simp del: load_words.simps)
  qed
  moreover have "mpu P \<longrightarrow> control (exc_return ret t) = control s"
    using s ret regs by (simp add: exc_return_def Let_def same_regs_def thread_ok_def del: load_words.simps)
  moreover have "V8M P \<longrightarrow> psplim (exc_return ret t) = psplim s"
    using regs by (simp add: exc_return_def Let_def same_regs_def del: load_words.simps)
  moreover have "?fp \<longrightarrow> (\<forall>i. i < 32 \<longrightarrow> fpr (exc_return ret t) i = fpr s i) \<and> fpscr (exc_return ret t) = fpscr s"
    using fps ret fs by (auto simp: exc_return_def Let_def nth_append simp del: load_words.simps upt_rec_numeral)
  ultimately show ?thesis by (simp add: resumed_def)
qed

section \<open>Properties\<close>

lemma arm_handler_eq:
  assumes "port_ok P" and "newctx \<noteq> 0" and "prev \<notin> span (context_addr P e) (num_context P e)"
  shows "arm_handler P newctx prev e =
    (let s = load_context P newctx (e\<lparr>mem := saved_mem P prev e\<rparr>) in (handler_return P s, s))"
  using assms handler_v6_v8base_eq [of P prev e newctx] handler_v7_v8_eq [of newctx P prev e]
  by (auto simp: arm_handler_def port_ok_def)

lemma mem_load_context [simp]: "mem (load_context P c s) = mem s"
  by (simp add: load_context_def load_fp_def Let_def case_prod_unfold)

lemma handler_return_bit4:
  assumes "thread_ok P s" and "same_regs P (exc_entry P s) t"
  shows "bit (handler_return P t) 4 \<longleftrightarrow> \<not> bit (control s) 2"
  using assms TASK_INITIAL_bit4 [of P] exc_entry_sel(6) [of P s]
  by (auto simp: handler_return_def same_regs_def thread_ok_def)

text \<open>
  C35. The context switch of the M-profile is a round trip, for every variant of the architecture
  and every option: when a task in the state \<open>s\<close> is interrupted by the system call exception and
  the handler switches to the context \<open>c\<close>, it leaves the address of the task's context at \<open>prev\<close>;
  and when later, in any state \<open>t\<close> of another task, the handler switches to that context, the task
  goes on with all its registers as they were, provided nobody has written to its stack meanwhile.
\<close>

theorem switch_round_trip:
  assumes P: "port_ok P" and s: "thread_ok P s"
    and kern: "\<forall>x \<in> span (frame_start s) (length (frame_words s)). m x = mem (exc_entry P s) x"
    and c: "c \<noteq> 0" "context_addr P ((exc_entry P s)\<lparr>mem := m\<rparr>) \<noteq> 0"
    and prev: "prev \<notin> area" "prev' \<notin> area \<union> span (context_addr P t) (num_context P t)"
    and t: "\<forall>x \<in> area. mem t x = mem (snd (arm_handler P c prev ((exc_entry P s)\<lparr>mem := m\<rparr>))) x"
      "area \<inter> span (context_addr P t) (num_context P t) = {}"
    and area: "area = span (context_addr P ((exc_entry P s)\<lparr>mem := m\<rparr>))
      (num_context P ((exc_entry P s)\<lparr>mem := m\<rparr>) + length (frame_words s))"
  shows "\<exists>q ret u. mem (snd (arm_handler P c prev ((exc_entry P s)\<lparr>mem := m\<rparr>))) prev = q \<and>
     arm_handler P q prev' t = (ret, u) \<and> resumed P s (exc_return ret u)"
proof -
  let ?e = "(exc_entry P s)\<lparr>mem := m\<rparr>"
  let ?q = "context_addr P ?e" and ?n = "num_context P ?e" and ?k = "length (frame_words s)"
  have e: "save_words P ?e = save_words P (exc_entry P s)" "has_fp P ?e \<longleftrightarrow> has_fp P (exc_entry P s)"
    by (simp_all add: save_words_def has_fp_def)
  have top: "?q + 4 * of_nat ?n = frame_start s" using context_addr_end [of P ?e] by simp
  have nk: "?n + ?k < 2 ^ 30" using num_context_bound [of P ?e] by (simp add: frame_words_length)
  have ar: "area = span ?q ?n \<union> span (frame_start s) ?k" unfolding area span_add top ..
  have disj: "span ?q ?n \<inter> span (frame_start s) ?k = {}" using span_disjoint [OF nk, of ?q] unfolding top .
  have p: "prev \<notin> span ?q ?n" "prev' \<notin> span (context_addr P t) (num_context P t)" using prev ar by auto
  have m1: "mem (snd (arm_handler P c prev ?e)) = saved_mem P prev ?e"
    using arm_handler_eq [OF P c(1) p(1)] by (simp add: Let_def)
  have keep: "saved_mem P prev' t x = saved_mem P prev ?e x" if "x \<in> area" for x
  proof -
    have "x \<noteq> prev'" "x \<notin> span (context_addr P t) (num_context P t)" using that prev(2) t(2) by auto
    then show ?thesis using saved_mem_suspended(3) [OF p(2)] t(1) that m1 by simp
  qed
  have susp: "suspended P ?e (saved_mem P prev' t)"
    using saved_mem_suspended(1) [OF p(1)] keep unfolding suspended_def ar
    by (metis (no_types, lifting) UnCI load_words_cong)
  have "load_words (frame_start s) ?k (saved_mem P prev' t) = load_words (frame_start s) ?k (mem (exc_entry P s))"
  proof (rule load_words_cong)
    fix x assume x: "x \<in> span (frame_start s) ?k"
    then have "x \<notin> span ?q ?n" "x \<noteq> prev" using disj prev(1) ar by auto
    then show "saved_mem P prev' t x = mem (exc_entry P s) x"
      using keep [of x] saved_mem_suspended(3) [OF p(1)] kern x ar by simp
  qed
  also have "\<dots> = frame_words s"
    using load_store_words [of "frame_words s" "frame_start s" "mem s"] by (simp add: exc_entry_def frame_words_length)
  finally have frame: "load_words (frame_start s) ?k (saved_mem P prev' t) = frame_words s" .
  let ?t = "t\<lparr>mem := saved_mem P prev' t\<rparr>"
  let ?u = "load_context P ?q ?t"
  have ctl: "control ?e AND 1 = control ?e" by simp
  have "suspended P ?e (mem ?t)" using susp by simp
  note r = load_context_resumes [OF this ctl]
  have regs: "same_regs P (exc_entry P s) ?u" using r(1) by (simp add: same_regs_def)
  have "resumed P s (exc_return (handler_return P ?u) ?u)"
  proof (rule exc_return_resumes [OF s])
    show "load_words (frame_start s) ?k (mem ?u) = frame_words s" using frame by simp
    show "fpr ?u i = fpr s i" if "bit (control s) 2" "16 \<le> i" "i < 32" for i
      using r(4) [of i] that s e(2) by (simp add: has_fp_def thread_ok_def)
  qed (use r(2) regs handler_return_bit4 [OF s regs] in simp_all)
  moreover have "arm_handler P ?q prev' t = (handler_return P ?u, ?u)"
    using arm_handler_eq [OF P c(2) p(2)] by (simp add: Let_def)
  moreover have "saved_mem P prev ?e prev = ?q" by (rule saved_mem_suspended(2) [OF p(1)])
  ultimately show ?thesis using m1 by auto
qed

text \<open>A new context.\<close>

lemma word_offset_eq:
  assumes "i < 2 ^ 30" "j < 2 ^ 30"
  shows "(a :: u32) + 4 * of_nat i = a + 4 * of_nat j \<longleftrightarrow> i = j"
proof
  assume "a + 4 * of_nat i = a + 4 * of_nat j"
  then have "(of_nat (4 * i) :: u32) = of_nat (4 * j)" by simp
  moreover have "unat (of_nat (4 * k) :: u32) = 4 * k" if "k < 2 ^ 30" for k
    using that by (intro of_nat_inverse [OF refl]) simp
  ultimately show "i = j" using assms by (metis mult_cancel1 zero_neq_numeral)
qed simp

lemma load_words_nth: "i < n \<Longrightarrow> load_words a n m ! i = m (a + 4 * of_nat i)"
proof (induction n arbitrary: a i)
  case (Suc n)
  then show ?case by (cases i) (simp_all add: algebra_simps)
qed simp

definition member_of :: "port \<Rightarrow> u32 \<Rightarrow> member \<Rightarrow> memory \<Rightarrow> u32" where
  "member_of P ctx f m = m (ctx + 4 * of_nat (index_of f (context_struct P)))"

lemma index_of_less: "x \<in> set xs \<Longrightarrow> index_of x xs < length xs"
  by (induction xs) auto

lemma index_of_inj: "x \<in> set xs \<Longrightarrow> index_of x xs = index_of y xs \<longleftrightarrow> x = y"
  by (induction xs) auto

lemma context_struct_length: "length (context_struct P) \<le> 20"
  by (simp add: context_struct_def)

lemma index_of_le: "index_of x xs \<le> length xs"
  by (induction xs) auto

lemma member_of_set_member:
  assumes "f \<in> set (context_struct P)"
  shows "member_of P ctx f (set_member P ctx g v m) = (if f = g then v else member_of P ctx f m)"
proof -
  have "index_of h (context_struct P) < 2 ^ 30" for h
    using index_of_le [of h "context_struct P"] context_struct_length [of P] by simp
  from word_offset_eq [OF this this, of ctx f g] index_of_inj [OF assms, of g]
  have "ctx + 4 * of_nat (index_of f (context_struct P)) = ctx + 4 * of_nat (index_of g (context_struct P)) \<longleftrightarrow> f = g"
    by simp
  then show ?thesis unfolding member_of_def set_member_def by (simp only: fun_upd_apply)
qed

lemma context_struct_members [simp]:
  "M_lr \<in> set (context_struct P)" "M_pc \<in> set (context_struct P)" "M_psr \<in> set (context_struct P)"
  "M_r 0 \<in> set (context_struct P)"
  "M_control \<in> set (context_struct P) \<longleftrightarrow> PROFILE_M P \<and> mpu P" "M_psplim \<in> set (context_struct P) \<longleftrightarrow> V8M P"
  "M_exc_return \<in> set (context_struct P) \<longleftrightarrow> PROFILE_M P \<and> fpu P"
  by (auto simp: context_struct_def)

lemma context_create_members:
  assumes "PROFILE_M P" and "rt_context_create_arg P exit_fn fn arg stack stack_size m0 = (ctx, m)"
  shows "member_of P ctx M_lr m = exit_fn" "member_of P ctx M_pc m = fn" "member_of P ctx M_psr m = PSR_THUMB"
    "member_of P ctx (M_r 0) m = arg" "mpu P \<Longrightarrow> member_of P ctx M_control m = 0"
    "V8M P \<Longrightarrow> member_of P ctx M_psplim m = stack"
    "fpu P \<Longrightarrow> member_of P ctx M_exc_return m = TASK_INITIAL_EXC_RETURN P"
    "ctx = stack + stack_size - sizeof_context P"
proof -
  have r: "\<not> PROFILE_R P" using assms(1) by (simp add: PROFILE_M_def PROFILE_R_def)
  note defs = rt_context_create_arg_def context_create_def Let_def member_of_set_member r assms(1)
  show "ctx = stack + stack_size - sizeof_context P" using assms(2) by (simp add: defs)
  show "member_of P ctx M_lr m = exit_fn" "member_of P ctx M_pc m = fn" "member_of P ctx M_psr m = PSR_THUMB"
    "member_of P ctx (M_r 0) m = arg" "mpu P \<Longrightarrow> member_of P ctx M_control m = 0"
    "V8M P \<Longrightarrow> member_of P ctx M_psplim m = stack"
    "fpu P \<Longrightarrow> member_of P ctx M_exc_return m = TASK_INITIAL_EXC_RETURN P"
    using assms(2) by (auto simp: defs)
qed

lemma context_index:
  assumes "PROFILE_M P"
  shows "index_of (M_r 0) (context_struct P) = num_saved P" "index_of M_lr (context_struct P) = num_saved P + 5"
    "index_of M_pc (context_struct P) = num_saved P + 6" "index_of M_psr (context_struct P) = num_saved P + 7"
    "mpu P \<Longrightarrow> index_of M_control (context_struct P) = 0" "V8M P \<Longrightarrow> index_of M_psplim (context_struct P) = of_bool (mpu P)"
    "fpu P \<Longrightarrow> index_of M_exc_return (context_struct P) = num_saved P - 1"
    "sizeof_context P = 4 * of_nat (num_saved P + 8)"
  using assms by (simp_all add: context_struct_def num_saved_def PROFILE_M_def PROFILE_R_def sizeof_context_def)

lemma load_regs_nth:
  assumes "length ws = num_saved P"
  shows "control (load_regs P ws s) = (if mpu P then ws ! 0 AND 1 else control s)"
    "psplim (load_regs P ws s) = (if V8M P then ws ! of_bool (mpu P) else psplim s)"
    "lr (load_regs P ws s) = (if fpu P then ws ! (num_saved P - 1) else lr s)"
  using assms by (cases ws; cases "tl ws"; auto simp: load_regs_def Let_def num_saved_def nth_tl)+

text \<open>
  C36. A new task starts as it should, on every variant of the M-profile: when the handler switches
  to a context that \<^verbatim>\<open>rt_context_create_arg\<close> has made, the core goes on at the task's function with
  its argument in the first register, the address of \<^verbatim>\<open>rt_task_exit\<close> to return to, the whole stack
  free, privileged, with the stack limit at the start of the stack and without a floating-point
  context.
\<close>

theorem new_task_starts:
  assumes P: "port_ok P" and new: "rt_context_create_arg P exit_fn fn arg stack stack_size m0 = (ctx, m)"
    and t: "\<forall>x \<in> span ctx (length (context_struct P)). mem t x = m x" and ctx: "ctx \<noteq> 0"
    and disj: "span ctx (length (context_struct P)) \<inter> span (context_addr P t) (num_context P t) = {}"
    and prev: "prev \<notin> span ctx (length (context_struct P)) \<union> span (context_addr P t) (num_context P t)"
  shows "\<exists>ret u w. arm_handler P ctx prev t = (ret, u) \<and> w = exc_return ret u \<and> pc w = fn \<and> gpr w 0 = arg \<and>
     lr w = exit_fn \<and> psr w = PSR_THUMB \<and> psp w = stack + stack_size \<and> (mpu P \<longrightarrow> control w = CONTROL_SPSEL) \<and>
     (V8M P \<longrightarrow> psplim w = stack) \<and> \<not> bit (control w) 2"
proof -
  let ?n = "num_saved P" and ?m = "saved_mem P prev t"
  have M: "PROFILE_M P" using P by (simp add: port_ok_def)
  have len: "length (context_struct P) = ?n + 8"
    using M by (simp add: context_struct_def num_saved_def PROFILE_M_def PROFILE_R_def)
  have mem: "?m (ctx + 4 * of_nat i) = m (ctx + 4 * of_nat i)" if "i < ?n + 8" for i
  proof -
    have "ctx + 4 * of_nat i \<in> span ctx (length (context_struct P))" using that len by (auto simp: span_def)
    moreover from this have "ctx + 4 * of_nat i \<notin> span (context_addr P t) (num_context P t)" "ctx + 4 * of_nat i \<noteq> prev"
      using disj prev by auto
    ultimately show ?thesis using saved_mem_suspended(3) [of prev P t] prev t by simp
  qed
  note members = context_create_members [OF M new, unfolded member_of_def context_index [OF M]]
  have ws: "load_words ctx ?n ?m ! i = m (ctx + 4 * of_nat i)" if "i < ?n" for i using that mem load_words_nth by simp
  have n: "0 < ?n" "of_bool (mpu P) < ?n" by (simp_all add: num_saved_def)
  let ?s = "load_regs P (load_words ctx ?n ?m) (t\<lparr>mem := ?m\<rparr>)"
  have regs: "mpu P \<Longrightarrow> control ?s = 0" "V8M P \<Longrightarrow> psplim ?s = stack" "fpu P \<Longrightarrow> lr ?s = TASK_INITIAL_EXC_RETURN P"
    using members(5-7) n context_index(5-7) [OF M] by (simp_all add: load_regs_nth ws)
  then have fp: "\<not> (fpu P \<and> \<not> bit (lr ?s) 4)" using TASK_INITIAL_bit4 [of P] by auto
  let ?u = "?s\<lparr>psp := ctx + 4 * of_nat ?n\<rparr>"
  have u: "load_context P ctx (t\<lparr>mem := ?m\<rparr>) = ?u"
    using fp by (auto simp: load_context_def load_fp_def Let_def)
  have prev': "prev \<notin> span (context_addr P t) (num_context P t)" using prev by simp
  have h: "arm_handler P ctx prev t = (handler_return P ?u, ?u)"
    using arm_handler_eq [OF P ctx prev'] u by (simp add: Let_def)
  have ret: "bit (handler_return P ?u) 4" using regs(3) TASK_INITIAL_bit4 [of P] by (simp add: handler_return_def)
  have fr: "load_words (psp ?u) 8 (mem ?u) ! i = m (ctx + 4 * of_nat (?n + i))" if "i < 8" for i
    using that mem [of "?n + i"] load_words_nth [of i 8 "psp ?u" "mem ?u"] by (simp add: algebra_simps)
  have frame: "load_words (psp ?u) 8 (mem ?u) ! 0 = arg" "load_words (psp ?u) 8 (mem ?u) ! 5 = exit_fn"
    "load_words (psp ?u) 8 (mem ?u) ! 6 = fn" "load_words (psp ?u) 8 (mem ?u) ! 7 = PSR_THUMB"
    using fr [of 0] fr [of 5] fr [of 6] fr [of 7] members(1-4) by simp_all
  have thumb: "\<not> bit PSR_THUMB 9" by (simp add: PSR_THUMB_def bit_simps)
  have top: "ctx + 4 * of_nat ?n + 32 = stack + stack_size"
    using members(8) context_index(8) [OF M] by simp
  let ?w = "exc_return (handler_return P ?u) ?u"
  have "pc ?w = fn" "gpr ?w 0 = arg" "lr ?w = exit_fn" "psr ?w = PSR_THUMB"
    using frame thumb by (simp_all add: exc_return_def Let_def set_bit_9 del: load_words.simps)
  moreover have "psp ?w = stack + stack_size"
    using frame(4) thumb ret top by (simp add: exc_return_def Let_def del: load_words.simps)
  moreover have "mpu P \<longrightarrow> control ?w = CONTROL_SPSEL" "V8M P \<longrightarrow> psplim ?w = stack" "\<not> bit (control ?w) 2"
    using regs(1,2) ret by (auto simp: exc_return_def Let_def CONTROL_SPSEL_def bit_simps simp del: load_words.simps)
  ultimately show ?thesis using h by blast
qed

text \<open>The port of the witnesses and the state of a task on it.\<close>

definition cortex_m4 :: port where
  "cortex_m4 = \<lparr>arch = ARMV7M, mpu = False, fpu = False, big_endian = False\<rparr>"

definition some_core :: "u32 \<Rightarrow> memory \<Rightarrow> core" where
  "some_core sp m = \<lparr>gpr = of_nat, lr = 0x8001, pc = 0x8010, psr = PSR_THUMB, psp = sp, control = 2, psplim = 0,
     fpr = (\<lambda>_. 0), fpscr = 0, mem = m\<rparr>"

lemma some_core_simps [simp]:
  "port_ok cortex_m4" "thread_ok cortex_m4 (some_core sp m)" "num_saved cortex_m4 = 8"
  "num_context cortex_m4 e = 8" "\<not> V8M cortex_m4" "length (frame_words (some_core sp m)) = 8"
  by (simp_all add: cortex_m4_def port_ok_def PROFILE_M_def thread_ok_def some_core_def PSR_THUMB_def bit_simps
      num_saved_def V8M_def num_context_def has_fp_def frame_words_def)

theorem switch_round_trip_witness:
  "\<exists>q ret u. mem (snd (arm_handler cortex_m4 0x5000 0x4000 (exc_entry cortex_m4 (some_core 0x2000 (\<lambda>_. 0))))) 0x4000 = q \<and>
     arm_handler cortex_m4 q 0x4004
       (some_core 0x3000 (mem (snd (arm_handler cortex_m4 0x5000 0x4000 (exc_entry cortex_m4 (some_core 0x2000 (\<lambda>_. 0))))))) = (ret, u) \<and>
     resumed cortex_m4 (some_core 0x2000 (\<lambda>_. 0)) (exc_return ret u)"
proof -
  let ?P = cortex_m4 and ?s = "some_core 0x2000 (\<lambda>_. 0)"
  let ?e = "(exc_entry ?P ?s)\<lparr>mem := mem (exc_entry ?P ?s)\<rparr>"
  have f: "frame_start ?s = 0x1FE0" by (simp add: frame_start_def) (simp add: some_core_def)
  have q: "context_addr ?P ?e = 0x1FC0" using f by (simp add: context_addr_def)
  let ?t = "some_core 0x3000 (mem (snd (arm_handler ?P 0x5000 0x4000 ?e)))"
  have t: "context_addr ?P ?t = 0x2FE0" by (simp add: context_addr_def some_core_def)
  define area where "area = span (context_addr ?P ?e) (num_context ?P ?e + length (frame_words ?s))"
  have area': "area = span 0x1FC0 16" unfolding area_def q by simp
  have sets: "0x4000 \<notin> span 0x1FC0 16" "0x4004 \<notin> span 0x1FC0 16 \<union> span 0x2FE0 8" "span 0x1FC0 16 \<inter> span 0x2FE0 8 = {}"
    by (simp_all add: span_def lessThan_nat_numeral lessThan_Suc)
  have mt: "mem ?t = mem (snd (arm_handler ?P 0x5000 0x4000 ?e))" by (simp add: some_core_def)
  have "\<exists>q ret u. mem (snd (arm_handler ?P 0x5000 0x4000 ?e)) 0x4000 = q \<and> arm_handler ?P q 0x4004 ?t = (ret, u) \<and>
      resumed ?P ?s (exc_return ret u)"
    by (rule switch_round_trip [OF some_core_simps(1,2) _ _ _ _ _ _ _ area_def]) (use sets q t area' mt in simp_all)
  then show ?thesis by simp
qed

theorem new_task_starts_witness:
  "\<exists>ret u w. arm_handler cortex_m4 0x20C0 0x4000 (some_core 0x3000 (snd (rt_context_create_arg cortex_m4 0x101 0x201 7 0x2000 0x100 (\<lambda>_. 0)))) = (ret, u) \<and>
     w = exc_return ret u \<and> pc w = 0x201 \<and> gpr w 0 = 7 \<and> lr w = 0x101 \<and> psp w = 0x2100"
proof -
  let ?P = cortex_m4 and ?new = "rt_context_create_arg cortex_m4 0x101 0x201 7 0x2000 0x100 (\<lambda>_. 0)"
  let ?t = "some_core 0x3000 (snd ?new)"
  have c: "fst ?new = 0x20C0"
    by (simp add: rt_context_create_arg_def context_create_def Let_def sizeof_context_def context_struct_def
        PROFILE_M_def PROFILE_R_def cortex_m4_def V8M_def)
  have len: "length (context_struct ?P) = 16"
    by (simp add: context_struct_def PROFILE_M_def PROFILE_R_def cortex_m4_def V8M_def)
  have t: "context_addr ?P ?t = 0x2FE0" "mem ?t = snd ?new" by (simp_all add: context_addr_def some_core_def)
  have sets: "0x4000 \<notin> span 0x20C0 16 \<union> span 0x2FE0 8" "span 0x20C0 16 \<inter> span 0x2FE0 8 = {}"
    by (simp_all add: span_def lessThan_nat_numeral lessThan_Suc)
  have new: "rt_context_create_arg ?P 0x101 0x201 7 0x2000 0x100 (\<lambda>_. 0) = (0x20C0, snd ?new)"
    using c by (metis prod.collapse)
  have "(0x20C0 :: u32) \<noteq> 0" by simp
  from new_task_starts [OF _ new _ this, of ?t "0x4000"] sets t len show ?thesis by simp blast
qed

text \<open>
  Whatever number of priority bits the core implements, the start of the scheduler leaves the
  system call exception at the lowest priority there is and the tick exactly one level above it.
\<close>

theorem start_priorities_adjacent:
  assumes "0 < bits" "bits \<le> 8"
  shows "drop_bit 16 (shpr3 (start_priorities bits d)) AND 0xFF = prio_mask bits \<and>
    drop_bit 24 (shpr3 (start_priorities bits d)) + push_bit (8 - bits) 1 = prio_mask bits"
proof -
  have "bits = 1 \<or> bits = 2 \<or> bits = 3 \<or> bits = 4 \<or> bits = 5 \<or> bits = 6 \<or> bits = 7 \<or> bits = 8" using assms by linarith
  then show ?thesis
    by (elim disjE) (simp_all add: start_priorities_def write_shpr3_def prio_mask_def Let_def mask_numeral)
qed

theorem start_priorities_adjacent_witness:
  "drop_bit 16 (shpr3 (start_priorities 3 \<lparr>shpr3 = 0, stk_val = 0, stk_ctrl = 0, irq_enabled = False\<rparr>)) AND 0xFF = prio_mask 3"
  using start_priorities_adjacent [of 3 "\<lparr>shpr3 = 0, stk_val = 0, stk_ctrl = 0, irq_enabled = False\<rparr>"] by simp

end
