(* ===== verification/Rt_Arm_R.thy ===== *)
theory Rt_Arm_R
  imports Rt_Arm
begin

text \<open>
  The context switch of the R-profile, \<^verbatim>\<open>arch/arm/r/syscall.S\<close>, after \<^verbatim>\<open>rt_syscall_run\<close> has returned:
  the registers go to the stack of the suspending task and come from that of the next one. Whether a
  task has a floating-point context is a byte in memory, \<^verbatim>\<open>rt_task_fp_enabled\<close>. Which address the
  register \<^verbatim>\<open>r1\<close> holds matters: the code keeps the address of that byte in it, across the
  configuration of the memory protection unit.
\<close>

definition load_byte :: "u32 \<Rightarrow> memory \<Rightarrow> u32" where
  "load_byte a m = m a AND 0xFF"

definition store_byte :: "u32 \<Rightarrow> u32 \<Rightarrow> memory \<Rightarrow> memory" where
  "store_byte a v m = m(a := (m a AND NOT 0xFF) OR (v AND 0xFF))"

definition push :: "u32 list \<Rightarrow> core \<Rightarrow> core" where
  "push ws s = (let sp = psp s - 4 * of_nat (length ws) in s\<lparr>psp := sp, mem := store_words sp ws (mem s)\<rparr>)"

definition pop :: "nat \<Rightarrow> core \<Rightarrow> u32 list \<times> core" where
  "pop n s = (load_words (psp s) n (mem s), s\<lparr>psp := psp s + 4 * of_nat n\<rparr>)"

text \<open>
  The macro \<^verbatim>\<open>mpuconfigure\<close> reads the regions of the new task through \<^verbatim>\<open>r1\<close>, two words for each of the
  four; the result is \<^verbatim>\<open>r1\<close> after it. \<open>mpu_config\<close> is the address of the variable
  \<^verbatim>\<open>rt_mpu_config\<close>.
\<close>

definition mpuconfigure :: "port \<Rightarrow> u32 \<Rightarrow> core \<Rightarrow> u32 \<Rightarrow> u32" where
  "mpuconfigure P mpu_config s r1 = (if mpu P then mem s mpu_config + 4 * 8 else r1)"

definition handler_r :: "port \<Rightarrow> u32 \<Rightarrow> u32 \<Rightarrow> u32 \<Rightarrow> u32 \<Rightarrow> core \<Rightarrow> core" where
  "handler_r P fp_enabled mpu_config newctx prev s =
     (if newctx = 0 then s
      else if fpu P
      then let r1 = fp_enabled;
               r2 = load_byte r1 (mem s);
               s = (if r2 \<noteq> 0 then push [fpscr s] (push (map (fpr s) [0..<32]) s) else s);
               s = push (r2 # map (gpr s) [4..<12]) s;
               s = s\<lparr>mem := (mem s)(prev := psp s)\<rparr>;
               r1 = mpuconfigure P mpu_config s r1;
               s = s\<lparr>psp := newctx\<rparr>;
               (ws, s) = pop 9 s;
               r2 = hd ws;
               s = s\<lparr>gpr := (\<lambda>i. if 4 \<le> i \<and> i < 12 then tl ws ! (i - 4) else gpr s i)\<rparr>;
               s = s\<lparr>mem := store_byte r1 r2 (mem s)\<rparr>
           in if r2 \<noteq> 0
              then let (ws, s) = pop 1 s;
                       s = s\<lparr>fpscr := hd ws\<rparr>;
                       (fs, s) = pop 32 s
                   in s\<lparr>fpr := (\<lambda>i. if i < 32 then fs ! i else fpr s i)\<rparr>
              else s
      else let s = push (map (gpr s) [4..<12]) s;
               s = s\<lparr>mem := (mem s)(prev := psp s)\<rparr>;
               s = s\<lparr>psp := newctx\<rparr>;
               (ws, s) = pop 8 s
           in s\<lparr>gpr := (\<lambda>i. if 4 \<le> i \<and> i < 12 then ws ! (i - 4) else gpr s i)\<rparr>)"

lemma push_sel [simp]:
  "gpr (push ws s) = gpr s" "fpr (push ws s) = fpr s" "fpscr (push ws s) = fpscr s"
  "psp (push ws s) = psp s - 4 * of_nat (length ws)"
  "mem (push ws s) = store_words (psp s - 4 * of_nat (length ws)) ws (mem s)"
  by (simp_all add: push_def Let_def)

lemma pop_sel [simp]: "fst (pop n s) = load_words (psp s) n (mem s)" "mem (snd (pop n s)) = mem s"
  by (simp_all add: pop_def)

text \<open>
  With a memory protection unit and floating point, the flag of the next task is not restored:
  \<^verbatim>\<open>mpuconfigure\<close> has changed \<^verbatim>\<open>r1\<close>, and the byte is written behind the region configuration of the
  next task instead. The flag keeps the value of the suspended task, so that the floating-point
  context of a task that has one is not saved at the next switch.
\<close>

lemma fp_flag_not_restored:
  assumes P: "mpu P" "fpu P" and ctx: "newctx \<noteq> 0" and flag: "load_byte fp_enabled (mem s) = 0"
    and out: "fp_enabled \<notin> span (psp s - 36) 9" "fp_enabled \<noteq> prev"
      "mpu_config \<notin> span (psp s - 36) 9" "mpu_config \<noteq> prev"
    and cfg: "mem s mpu_config + 32 \<noteq> fp_enabled"
  shows "load_byte fp_enabled (mem (handler_r P fp_enabled mpu_config newctx prev s)) = 0"
proof -
  let ?ws = "0 # map (gpr s) [4..<12]"
  have l: "length ?ws = 9" by simp
  let ?m = "(store_words (psp s - 36) ?ws (mem s))(prev := psp s - 36)"
  have m: "?m fp_enabled = mem s fp_enabled" "?m mpu_config = mem s mpu_config"
    using out store_words_other [of _ "psp s - 36" ?ws] unfolding l by simp_all
  let ?v = "hd (load_words newctx 9 ?m)"
  have "mem (handler_r P fp_enabled mpu_config newctx prev s) = store_byte (mem s mpu_config + 32) ?v ?m"
    using P ctx flag m(2)
    by (simp add: handler_r_def Let_def case_prod_unfold mpuconfigure_def del: upt_rec_numeral load_words.simps store_words.simps)
      (simp add: pop_def del: upt_rec_numeral load_words.simps store_words.simps)?
  then show ?thesis using cfg flag m(1) by (simp add: load_byte_def store_byte_def)
qed

end
