(* ===== verification/Rt_Arm_Mpu.thy ===== *)
theory Rt_Arm_Mpu
  imports Rt_Arm_R
begin

text \<open>
  The configuration of the memory protection unit at a context switch: the macros \<^verbatim>\<open>mpuconfigure\<close> and
  \<^verbatim>\<open>mpuset\<close> of \<^verbatim>\<open>arch/arm/m/syscall-v7-v8.S\<close>, \<^verbatim>\<open>arch/arm/m/syscall-v6-v8base.S\<close> and
  \<^verbatim>\<open>arch/arm/r/syscall.S\<close>, which write the regions of the next task into the registers of the unit,
  and the functions of \<^verbatim>\<open>mpu.h\<close> for the R-profile. The words that a macro loads through \<^verbatim>\<open>r1\<close> are those
  of the task's \<^verbatim>\<open>struct rt_mpu_config\<close> in order.
\<close>

section \<open>The unit of the M-profile\<close>

text \<open>
  The unit has a region number and two registers for each region. A word is written at an offset
  from the base address register, counted in words; offsets from 2 on are the alias registers. On
  Armv6-M and Armv7-M a base address with the valid bit names its region, which becomes the region
  number, and the second register is that of the current region number. On Armv8-M the first pair
  of registers is that of the region number, the alias pairs are those of the following regions in
  the same group of four.
\<close>

record mpu_unit =
  rnr :: nat
  rbar :: "nat \<Rightarrow> u32"
  rasr :: "nat \<Rightarrow> u32"

definition write_reg :: "arch \<Rightarrow> nat \<Rightarrow> u32 \<Rightarrow> mpu_unit \<Rightarrow> mpu_unit" where
  "write_reg a k w U =
     (if a = ARMV8M_BASE \<or> a = ARMV8M_MAIN
      then let i = (if k < 2 then rnr U else rnr U div 4 * 4 + k div 2)
           in if even k then U\<lparr>rbar := (rbar U)(i := w)\<rparr> else U\<lparr>rasr := (rasr U)(i := w)\<rparr>
      else if odd k then U\<lparr>rasr := (rasr U)(rnr U := w)\<rparr>
      else if bit w 4 then let i = unat (w AND 0xF) in U\<lparr>rnr := i, rbar := (rbar U)(i := w)\<rparr>
      else U\<lparr>rbar := (rbar U)(rnr U := w)\<rparr>)"

primrec stm :: "arch \<Rightarrow> nat \<Rightarrow> u32 list \<Rightarrow> mpu_unit \<Rightarrow> mpu_unit" where
  "stm a k [] U = U"
| "stm a k (w # ws) U = stm a (Suc k) ws (write_reg a k w U)"

section \<open>The macros\<close>

text \<open>
  \<open>start\<close> and \<open>num\<close> are \<^verbatim>\<open>RT_MPU_TASK_REGION_START_ID\<close> and \<^verbatim>\<open>RT_MPU_NUM_TASK_REGIONS\<close>, \<open>r\<close> and
  \<open>n\<close> the arguments of the macro and \<open>ws\<close> the words not yet loaded.
\<close>

definition set_rnr :: "arch \<Rightarrow> nat \<Rightarrow> nat \<Rightarrow> nat \<Rightarrow> mpu_unit \<Rightarrow> mpu_unit" where
  "set_rnr a start num r U =
     (if a = ARMV8M_MAIN \<and> num > 4 \<and> (r = start \<or> r mod 4 = 0) then U\<lparr>rnr := r div 4 * 4\<rparr> else U)"

function mpuset_v7_v8 :: "arch \<Rightarrow> nat \<Rightarrow> nat \<Rightarrow> nat \<Rightarrow> nat \<Rightarrow> u32 list \<Rightarrow> mpu_unit \<Rightarrow> mpu_unit" where
  "mpuset_v7_v8 a start num r n ws U =
     (if n = 0 then U
      else let U = set_rnr a start num r U
           in if r mod 4 = 0 \<and> n \<ge> 4
              then mpuset_v7_v8 a start num (r + 4) (n - 4) (drop 8 ws) (stm a 0 (take 8 ws) U)
              else if r mod 4 = 1 \<and> n \<ge> 3
              then mpuset_v7_v8 a start num (r + 3) (n - 3) (drop 6 ws)
                     (stm a (if a = ARMV8M_MAIN then 1 else 0) (take 6 ws) U)
              else if r mod 4 = 2 \<and> n \<ge> 2
              then mpuset_v7_v8 a start num (r + 2) (n - 2) (drop 4 ws)
                     (stm a (if a = ARMV8M_MAIN then 2 else 0) (take 4 ws) U)
              else mpuset_v7_v8 a start num (r + 1) (n - 1) (drop 2 ws)
                     (stm a (if a = ARMV8M_MAIN then r mod 4 else 0) (take 2 ws) U))"
  by pat_completeness auto
termination by (relation "measure (\<lambda>(a, start, num, r, n, ws, U). n)") auto

declare mpuset_v7_v8.simps [simp del]

fun mpuset_v6_v8base :: "arch \<Rightarrow> nat \<Rightarrow> nat \<Rightarrow> u32 list \<Rightarrow> mpu_unit \<Rightarrow> mpu_unit" where
  "mpuset_v6_v8base a r 0 ws U = U"
| "mpuset_v6_v8base a r (Suc n) ws U =
     (let U = (if a = ARMV8M_BASE then U\<lparr>rnr := r div 4 * 4\<rparr> else U);
          U = write_reg a 0 (ws ! 0) U;
          U = write_reg a 1 (ws ! 1) U
      in mpuset_v6_v8base a (r + 1) n (drop 2 ws) U)"

definition mpuconfigure_m :: "arch \<Rightarrow> nat \<Rightarrow> nat \<Rightarrow> u32 list \<Rightarrow> mpu_unit \<Rightarrow> mpu_unit" where
  "mpuconfigure_m a start num ws U =
     (if a = ARMV6M \<or> a = ARMV8M_BASE then mpuset_v6_v8base a start num ws U
      else mpuset_v7_v8 a start num start num ws U)"

text \<open>The words of a configuration in memory.\<close>

definition config_words :: "rt_mpu_config \<Rightarrow> u32 list" where
  "config_words config = concat (map (\<lambda>g. [base_addr g, attr_size g]) config)"

definition config_words_v8 :: "rt_mpu_config_v8 \<Rightarrow> u32 list" where
  "config_words_v8 config = concat (map (\<lambda>g. [base_addr_v8 g, limit_addr g]) config)"

section \<open>The R-profile\<close>

text \<open>
  The registers of a region in the R-profile: base address, size with subregions and enable bit,
  access control. \<^verbatim>\<open>rgnr\<close> selects the region.
\<close>

record mpu_unit_r =
  rgnr :: nat
  drbar :: "nat \<Rightarrow> u32"
  drsr :: "nat \<Rightarrow> u32"
  dracr :: "nat \<Rightarrow> u32"

definition rgnr_set :: "nat \<Rightarrow> mpu_unit_r \<Rightarrow> mpu_unit_r" where "rgnr_set i U = U\<lparr>rgnr := i\<rparr>"
definition drbar_set :: "u32 \<Rightarrow> mpu_unit_r \<Rightarrow> mpu_unit_r" where "drbar_set w U = U\<lparr>drbar := (drbar U)(rgnr U := w)\<rparr>"
definition drsr_set :: "u32 \<Rightarrow> mpu_unit_r \<Rightarrow> mpu_unit_r" where "drsr_set w U = U\<lparr>drsr := (drsr U)(rgnr U := w)\<rparr>"
definition dracr_set :: "u32 \<Rightarrow> mpu_unit_r \<Rightarrow> mpu_unit_r" where "dracr_set w U = U\<lparr>dracr := (dracr U)(rgnr U := w)\<rparr>"

definition rt_mpu_region_set_r :: "bool \<Rightarrow> nat \<Rightarrow> u32 \<Rightarrow> size_t \<Rightarrow> u32 \<Rightarrow> mpu_unit_r \<Rightarrow> mpu_unit_r" where
  "rt_mpu_region_set_r const region_id start_addr bytes attr U =
     (let U = rgnr_set region_id U;
          U = drbar_set start_addr U;
          attr_size = RT_MPU_ATTR_SIZE const start_addr bytes attr;
          U = drsr_set (attr_size AND 0xFFFF) U
      in dracr_set (drop_bit 16 attr_size) U)"

fun mpusetloop :: "nat \<Rightarrow> nat \<Rightarrow> u32 list \<Rightarrow> mpu_unit_r \<Rightarrow> mpu_unit_r" where
  "mpusetloop r2 0 ws U = U"
| "mpusetloop r2 (Suc n) ws U =
     (let U = rgnr_set r2 U;
          r3 = ws ! 0; r4 = ws ! 1;
          U = drbar_set r3 U;
          U = drsr_set (r4 AND 0xFF) U;
          U = dracr_set (drop_bit 16 r4) U
      in mpusetloop (r2 + 1) n (drop 2 ws) U)"

section \<open>The idle task\<close>

text \<open>What \<^verbatim>\<open>rt_start\<close> puts into the configuration of the idle task, on Armv6-M and Armv7-M.\<close>

definition start_mpu_config :: "port \<Rightarrow> u32 \<Rightarrow> rt_mpu_config option" where
  "start_mpu_config P idle_task_stack =
     rt_mpu_config_set True rt_mpu_config_init RT_MPU_TASK_REGION_START_ID idle_task_stack
       (RT_STACK_SIZE P (sizeof_context P)) RT_MPU_STACK_ATTR"

text \<open>The idle stack has room for the context that the first switch saves on it.\<close>

lemma idle_stack_fits: "sizeof_context P \<le> RT_STACK_SIZE P (sizeof_context P)"
proof -
  have "sizeof_context P \<in> {64, 68, 72, 76}"
    by (auto simp: sizeof_context_def context_struct_def PROFILE_M_def PROFILE_R_def V8M_def)
  moreover have "n \<le> RT_STACK_SIZE P n" if "n \<in> {64, 68, 72, 76}" for n
    using that
    by (auto simp: RT_STACK_SIZE_def RT_STACK_ALIGN_def RT_MPU_ALIGN_v8_def RT_MPU_SIZE_def RT_MPU_SUBREGIONS_def
        RT_MPU_SUBREGION_SIZE_def RT_MPU_USE_SUBREGIONS_def RT_MPU_REGION_SIZE_def RT_MPU_SIZEBITS_def)
  ultimately show ?thesis by blast
qed

section \<open>Lemmas\<close>

text \<open>A configuration that names its regions, as the functions of \<^verbatim>\<open>mpu.h\<close> make it.\<close>

definition names_regions :: "nat \<Rightarrow> rt_mpu_config \<Rightarrow> bool" where
  "names_regions start config \<longleftrightarrow>
     (\<forall>i < length config. bit (base_addr (config ! i)) 4 \<and> unat (base_addr (config ! i) AND 0xF) = start + i)"

lemma config_words_Cons [simp]:
  "config_words [] = []" "config_words (g # gs) = base_addr g # attr_size g # config_words gs"
  "length (config_words gs) = 2 * length gs"
  by (simp_all add: config_words_def length_concat comp_def sum_list_triv)

lemma names_regions_Cons: "names_regions start (g # gs) \<longleftrightarrow>
    bit (base_addr g) 4 \<and> unat (base_addr g AND 0xF) = start \<and> names_regions (Suc start) gs"
  by (simp add: names_regions_def All_less_Suc2 conj_ac)

text \<open>The unit after the regions of \<open>config\<close> have been written.\<close>

primrec put_regions :: "rt_mpu_config \<Rightarrow> mpu_unit \<Rightarrow> mpu_unit" where
  "put_regions [] U = U"
| "put_regions (g # gs) U = (let i = unat (base_addr g AND 0xF)
     in put_regions gs (U\<lparr>rnr := i, rbar := (rbar U)(i := base_addr g), rasr := (rasr U)(i := attr_size g)\<rparr>))"

definition v6_v7 :: "arch \<Rightarrow> bool" where "v6_v7 a \<longleftrightarrow> a = ARMV6M \<or> a = ARMV7M"

lemma write_pair:
  assumes "v6_v7 a" and "bit (base_addr g) 4" and "even k"
  shows "write_reg a (Suc k) (attr_size g) (write_reg a k (base_addr g) U) = put_regions [g] U"
  using assms by (auto simp: write_reg_def v6_v7_def Let_def)

lemma put_regions_append: "put_regions (xs @ ys) U = put_regions ys (put_regions xs U)"
  by (induction xs arbitrary: U) (simp_all add: Let_def)

lemma stm_regions:
  assumes "v6_v7 a" and "even k" and "\<forall>g \<in> set gs. bit (base_addr g) 4"
  shows "stm a k (config_words gs) U = put_regions gs U"
  using assms(2,3)
proof (induction gs arbitrary: k U)
  case (Cons g gs)
  have "stm a k (config_words (g # gs)) U = stm a (Suc (Suc k)) (config_words gs) (put_regions [g] U)"
    using write_pair [OF assms(1), of g k U] Cons.prems by simp
  then show ?case using Cons put_regions_append [of "[g]" gs U] by simp
qed simp

lemma take_config_words: "take (2 * n) (config_words gs) = config_words (take n gs)"
  "drop (2 * n) (config_words gs) = config_words (drop n gs)"
  by (induction n arbitrary: gs; case_tac gs; simp)+

lemma put_regions_sel:
  assumes "names_regions start config"
  shows "rbar (put_regions config U) i = (if start \<le> i \<and> i < start + length config then base_addr (config ! (i - start)) else rbar U i)"
    "rasr (put_regions config U) i = (if start \<le> i \<and> i < start + length config then attr_size (config ! (i - start)) else rasr U i)"
  using assms
  by (induction config arbitrary: start U) (auto simp: names_regions_Cons Let_def nth_Cons' Suc_diff_le not_less_eq_eq)

lemma set_rnr_v7 [simp]: "set_rnr ARMV7M start num r U = U"
  by (simp add: set_rnr_def)

lemma stm_v7:
  assumes "\<forall>g \<in> set config. bit (base_addr g) 4"
  shows "stm ARMV7M 0 (take (2 * k) (config_words config)) U = put_regions (take k config) U"
  unfolding take_config_words using assms by (intro stm_regions) (auto simp: v6_v7_def dest: in_set_takeD)

lemma mpuset_v7:
  assumes "length config = n" and "\<forall>g \<in> set config. bit (base_addr g) 4"
  shows "mpuset_v7_v8 ARMV7M start num r n (config_words config) U = put_regions config U"
  using assms
proof (induction n arbitrary: r config U rule: less_induct)
  case (less n)
  let ?f = "mpuset_v7_v8 ARMV7M start num"
  have step: "?f (r + k) (n - k) (config_words (drop k config)) (put_regions (take k config) U) = put_regions config U"
    if "0 < k" "k \<le> n" for k r
  proof -
    have "\<forall>g \<in> set (drop k config). bit (base_addr g) 4" using less.prems by (auto dest: in_set_dropD)
    from less.IH [of "n - k" "drop k config", OF _ _ this] show ?thesis
      using that less.prems by (simp flip: put_regions_append)
  qed
  note stm = stm_v7 [OF less.prems(2), of 1] stm_v7 [OF less.prems(2), of 2] stm_v7 [OF less.prems(2), of 3]
    stm_v7 [OF less.prems(2), of 4]
  note drop = take_config_words(2) [of 1] take_config_words(2) [of 2] take_config_words(2) [of 3] take_config_words(2) [of 4]
  show ?case
  proof (cases "n = 0")
    case True
    then show ?thesis using less.prems by (simp add: mpuset_v7_v8.simps)
  next
    case False
    then show ?thesis
      using step [of 1 r] step [of 2 r] step [of 3 r] step [of 4 r] stm drop by (subst mpuset_v7_v8.simps) (simp add: Let_def)
  qed
qed

lemma mpuset_v6:
  assumes "length config = n" and "\<forall>g \<in> set config. bit (base_addr g) 4"
  shows "mpuset_v6_v8base ARMV6M r n (config_words config) U = put_regions config U"
  using assms
proof (induction config arbitrary: r n U)
  case (Cons g gs)
  have "write_reg ARMV6M 1 (attr_size g) (write_reg ARMV6M 0 (base_addr g) U) = put_regions [g] U"
    using write_pair [of ARMV6M g 0 U] Cons.prems by (simp add: v6_v7_def)
  then have "mpuset_v6_v8base ARMV6M r n (config_words (g # gs)) U =
      mpuset_v6_v8base ARMV6M (r + 1) (n - 1) (config_words gs) (put_regions [g] U)"
    using Cons.prems by (cases n) (simp_all add: Let_def)
  then show ?case using Cons.IH [of "n - 1" "r + 1" "put_regions [g] U"] Cons.prems
      put_regions_append [of "[g]" gs U] by simp
qed simp

lemma mpuconfigure_v6_v7:
  assumes "v6_v7 a" and "\<forall>g \<in> set config. bit (base_addr g) 4"
  shows "mpuconfigure_m a start (length config) (config_words config) U = put_regions config U"
  using assms mpuset_v6 [OF refl assms(2)] mpuset_v7 [OF refl assms(2)] by (auto simp: mpuconfigure_m_def v6_v7_def)

lemma base_addr_names:
  "bit (RT_MPU_BASE_ADDR i x) 4" "unat x mod 32 = 0 \<Longrightarrow> RT_MPU_BASE_ADDR i x AND 0xF = i AND 0xF"
proof -
  show "bit (RT_MPU_BASE_ADDR i x) 4" by (simp add: RT_MPU_BASE_ADDR_def bit_simps)
  assume "unat x mod 32 = 0"
  then have "take_bit 5 x = 0" by (simp add: take_bit_eq_mod unat_arith_simps unat_mod)
  then have low: "\<not> bit x k" if "k < 5" for k
    using bit_take_bit_iff [of 5 x k] that by simp
  have m: "(0xF :: u32) = mask 4" by (simp add: mask_eq_exp_minus_1)
  have v: "\<not> bit (16 :: u32) k" if "k < 4" for k using bit_exp_iff [of 4 k, where 'a = u32] that by simp
  show "RT_MPU_BASE_ADDR i x AND 0xF = i AND 0xF"
    unfolding RT_MPU_BASE_ADDR_def m by (rule bit_eqI) (auto simp: bit_simps low dest: v)
qed

lemma plain_align_32:
  assumes "plain_size n" and "unat a mod unat (RT_MPU_ALIGN True n) = 0"
  shows "unat a mod 32 = 0"
proof (cases "n \<le> 256")
  case True
  then have "0 < n" using assms(1) by (auto simp: plain_size_def)
  from plain_size_small(1) [OF this True] assms(2) show ?thesis by (metis dvd_trans mod_0_imp_dvd dvd_imp_mod_0)
next
  case False
  then obtain k where k: "8 \<le> k" "k < 32" "unat n = 2 ^ k" using assms(1) by (auto simp: plain_size_def)
  have "(2 :: nat) ^ 5 dvd 2 ^ k" by (rule le_imp_power_dvd) (use k in simp)
  then have "32 dvd (2 :: nat) ^ k" by simp
  then show ?thesis using assms(2) plain_size_power(2) [OF k] by (metis dvd_trans mod_0_imp_dvd dvd_imp_mod_0)
qed

definition region_of :: "mpu_unit \<Rightarrow> nat \<Rightarrow> rt_mpu_region" where
  "region_of U i = \<lparr>base_addr = rbar U i, attr_size = rasr U i\<rparr>"



section \<open>Armv8-M\<close>

text \<open>
  With the default number of regions the unit of Armv8-M with the main extension has the regions of
  the next task after a switch, when \<^verbatim>\<open>rt_mpu_enable\<close> has set the region number.
\<close>

lemma mpuconfigure_v8_main:
  assumes "rnr U = 4" and "length config = 4"
  defines "U' \<equiv> mpuconfigure_m ARMV8M_MAIN 4 4 (config_words_v8 config) U"
  shows "i < 4 \<Longrightarrow> rbar U' (4 + i) = base_addr_v8 (config ! i) \<and> rasr U' (4 + i) = limit_addr (config ! i)" "rnr U' = 4"
proof -
  obtain g0 g1 g2 g3 where c: "config = [g0, g1, g2, g3]"
    using assms(2) by (auto simp: numeral_eq_Suc length_Suc_conv)
  have U': "U' = U\<lparr>rbar := (rbar U)(4 := base_addr_v8 g0, 5 := base_addr_v8 g1, 6 := base_addr_v8 g2, 7 := base_addr_v8 g3),
      rasr := (rasr U)(4 := limit_addr g0, 5 := limit_addr g1, 6 := limit_addr g2, 7 := limit_addr g3)\<rparr>"
    using assms(1) by (simp add: U'_def mpuconfigure_m_def mpuset_v7_v8.simps set_rnr_def config_words_v8_def c write_reg_def Let_def)
  show "rnr U' = 4" using assms(1) by (simp add: U')
  show "i < 4 \<Longrightarrow> rbar U' (4 + i) = base_addr_v8 (config ! i) \<and> rasr U' (4 + i) = limit_addr (config ! i)"
    by (auto simp: U' c less_Suc_eq numeral_eq_Suc)
qed

text \<open>
  On the baseline of Armv8-M the handler selects the region number rounded down to a multiple of 4
  for every region and writes to the first pair of registers: of the four regions of the next task
  only the last one is there afterwards, as region 4, and regions 5 to 7 keep what they had. The
  region of the stack, which is the first one, is not in force.
\<close>

lemma v8_base_keeps_one_region:
  fixes U :: mpu_unit
  assumes "length config = 4"
  defines "U' \<equiv> mpuconfigure_m ARMV8M_BASE 4 4 (config_words_v8 config) U"
  shows "rbar U' = (rbar U)(4 := base_addr_v8 (config ! 3))" "rasr U' = (rasr U)(4 := limit_addr (config ! 3))"
proof -
  obtain g0 g1 g2 g3 where c: "config = [g0, g1, g2, g3]"
    using assms(1) by (auto simp: numeral_eq_Suc length_Suc_conv)
  have s: "mpuset_v6_v8base v r 4 = mpuset_v6_v8base v r (Suc (Suc (Suc (Suc 0))))" for v r by (simp add: numeral_eq_Suc)
  have "U' = U\<lparr>rnr := 4, rbar := (rbar U)(4 := base_addr_v8 g3), rasr := (rasr U)(4 := limit_addr g3)\<rparr>"
    unfolding U'_def mpuconfigure_m_def s by (simp add: config_words_v8_def c write_reg_def Let_def)
  then show "rbar U' = (rbar U)(4 := base_addr_v8 (config ! 3))" "rasr U' = (rasr U)(4 := limit_addr (config ! 3))"
    by (simp_all add: c)
qed

text \<open>
  With the main extension and task regions that do not start at a multiple of 4, the offsets into
  the registers count regions where they should count words: with three task regions out of eight,
  the base address of the first one is written to the limit register of region 4.
\<close>

lemma v8_main_shifted:
  assumes "rnr U = 4" and "length config = 3"
  defines "U' \<equiv> mpuconfigure_m ARMV8M_MAIN 5 3 (config_words_v8 config) U"
  shows "rasr U' 4 = base_addr_v8 (config ! 0)" "rbar U' 5 = limit_addr (config ! 0)" "rasr U' 7 = rasr U 7"
proof -
  obtain g0 g1 g2 where c: "config = [g0, g1, g2]"
    using assms(2) by (auto simp: numeral_eq_Suc length_Suc_conv)
  show "rasr U' 4 = base_addr_v8 (config ! 0)" "rbar U' 5 = limit_addr (config ! 0)" "rasr U' 7 = rasr U 7"
    using assms(1) by (simp_all add: U'_def mpuconfigure_m_def mpuset_v7_v8.simps set_rnr_def config_words_v8_def c write_reg_def Let_def)
qed

section \<open>The R-profile drops subregions\<close>

text \<open>
  The handler of the R-profile writes only the low byte of the size register, where
  \<^verbatim>\<open>rt_mpu_region_set\<close> writes 16 bits: the bits from 8 on, which disable subregions, are lost at a
  switch.
\<close>

lemma mpusetloop_drsr:
  "drsr (mpusetloop r (length config) (config_words config) U) i =
     (if r \<le> i \<and> i < r + length config then attr_size (config ! (i - r)) AND 0xFF else drsr U i)"
  by (induction config arbitrary: r U)
    (auto simp: Let_def rgnr_set_def drbar_set_def drsr_set_def dracr_set_def nth_Cons' Suc_diff_le not_less_eq_eq)

lemma switch_r_drops_subregions:
  assumes "k < length config" and "attr_size (config ! k) = RT_MPU_ATTR_SIZE const a n attr"
  shows "drsr (mpusetloop r (length config) (config_words config) U) (r + k) =
    drsr (rt_mpu_region_set_r const (r + k) a n attr U) (r + k) AND 0xFF"
proof -
  have "(0xFFFF :: u32) AND 0xFF = 0xFF" by simp
  then show ?thesis
    using assms by (simp add: mpusetloop_drsr rt_mpu_region_set_r_def Let_def rgnr_set_def drbar_set_def drsr_set_def
        dracr_set_def and.assoc)
qed

end
