(* ===== verification/Rt_Arm_R_Switch.thy ===== *)
theory Rt_Arm_R_Switch
  imports Rt_Arm_R
begin

text \<open>
  The whole system call handler of the R-profile, \<^verbatim>\<open>arch/arm/r/syscall.S\<close> with \<^verbatim>\<open>vim_ssi.S\<close>: entry from a
  supervisor call or an interrupt, the switch of \<open>Rt_Arm_R\<close>, and the return to a task. The stack
  pointer of system and user mode is \<^const>\<open>psp\<close>, their link register \<^const>\<open>lr\<close>; \<^verbatim>\<open>rt_syscall_run\<close> runs in
  supervisor mode on another stack.
\<close>

section \<open>The code\<close>

text \<open>
  The processor has left the address to return to in the banked \<^verbatim>\<open>lr\<close>, 4 more for an interrupt, and the
  task's status in \<^verbatim>\<open>spsr\<close>.
\<close>

definition handler_entry_r :: "bool \<Rightarrow> core \<Rightarrow> core" where
  "handler_entry_r irq s =
     (let lr_exc = pc s + (if irq then 4 else 0);
          spsr = psr s;
          lr_exc = (if irq then lr_exc - 4 else lr_exc);
          s = push [lr_exc, spsr] s;
          s = s\<lparr>psr := (psr s AND NOT CPSR_MODE_MASK) OR CPSR_MODE_SYS\<rparr>
      in push (map (gpr s) [0, 1, 2, 3, 12] @ [lr s]) s)"

definition handler_exit_r :: "core \<Rightarrow> core" where
  "handler_exit_r s =
     (let (ws, s) = pop 6 s;
          s = s\<lparr>gpr := (gpr s)(0 := ws ! 0, 1 := ws ! 1, 2 := ws ! 2, 3 := ws ! 3, 12 := ws ! 4), lr := ws ! 5\<rparr>;
          (ws, s) = pop 2 s
      in s\<lparr>pc := ws ! 0, psr := ws ! 1\<rparr>)"

text \<open>
  The interrupt manager: the registers that enable the channels, 32 channels each, and whether the
  software interrupt is pending. Writing to the set and clear registers changes the bits
  that are 1; reading \<^verbatim>\<open>SSIVEC\<close> clears the interrupt.
\<close>

record vim =
  reqena :: "nat \<Rightarrow> u32"
  ssi_pending :: bool

definition SSI_CHANNEL_BITMASK :: "nat \<Rightarrow> u32" where
  "SSI_CHANNEL_BITMASK ssi_channel = push_bit (ssi_channel mod 32) 1"

definition vic_syscall_start :: "nat \<Rightarrow> vim \<Rightarrow> vim" where
  "vic_syscall_start ssi_channel v =
     (let r = ssi_channel div 32;
          v = v\<lparr>reqena := (reqena v)(r := reqena v r AND NOT (SSI_CHANNEL_BITMASK ssi_channel))\<rparr>
      in v\<lparr>ssi_pending := False\<rparr>)"

definition vic_syscall_finish :: "nat \<Rightarrow> vim \<Rightarrow> vim" where
  "vic_syscall_finish ssi_channel v =
     (let r = ssi_channel div 32
      in v\<lparr>reqena := (reqena v)(r := reqena v r OR SSI_CHANNEL_BITMASK ssi_channel)\<rparr>)"

text \<open>The last part of \<^verbatim>\<open>rt_start\<close>: system mode and the idle task's stack.\<close>

definition start_idle_r :: "port \<Rightarrow> u32 \<Rightarrow> core \<Rightarrow> core" where
  "start_idle_r P idle_task_stack s =
     (let s = s\<lparr>psr := (psr s AND NOT CPSR_MODE_MASK) OR CPSR_MODE_SYS\<rparr>;
          s = s\<lparr>psp := idle_task_stack + RT_STACK_SIZE P (sizeof_context P)\<rparr>
      in rt_task_drop_privilege P s)"

section \<open>The interrupt of the system call\<close>

definition channel_enabled :: "nat \<Rightarrow> vim \<Rightarrow> bool" where
  "channel_enabled c v \<longleftrightarrow> bit (reqena v (c div 32)) (c mod 32)"

lemma channel_eq: "c div 32 = d div 32 \<Longrightarrow> c mod 32 = d mod 32 \<Longrightarrow> c = (d :: nat)"
  by (metis div_mult_mod_eq)

text \<open>While the handler runs its interrupt is masked, and no other one is; afterwards it is enabled again.\<close>

lemma vic_channels:
  "channel_enabled d (vic_syscall_start c v) \<longleftrightarrow> channel_enabled d v \<and> d \<noteq> c"
  "\<not> ssi_pending (vic_syscall_start c v)"
  "channel_enabled d (vic_syscall_finish c v) \<longleftrightarrow> channel_enabled d v \<or> d = c"
  "ssi_pending (vic_syscall_finish c v) = ssi_pending v"
  using channel_eq [of c d]
  by (auto simp: channel_enabled_def vic_syscall_start_def vic_syscall_finish_def SSI_CHANNEL_BITMASK_def Let_def bit_simps)

section \<open>Saving and loading a context\<close>

definition fp_on :: "port \<Rightarrow> u32 \<Rightarrow> core \<Rightarrow> bool" where
  "fp_on P fp_enabled s \<longleftrightarrow> fpu P \<and> load_byte fp_enabled (mem s) \<noteq> 0"

definition words_r :: "port \<Rightarrow> u32 \<Rightarrow> core \<Rightarrow> u32 list" where
  "words_r P fp_enabled s =
     (if fpu P then [load_byte fp_enabled (mem s)] else []) @ map (gpr s) [4..<12] @
     (if fp_on P fp_enabled s then fpscr s # map (fpr s) [0..<32] else [])"

definition num_r :: "port \<Rightarrow> u32 \<Rightarrow> core \<Rightarrow> nat" where
  "num_r P fp_enabled s = of_bool (fpu P) + 8 + (if fp_on P fp_enabled s then 33 else 0)"

definition context_r :: "port \<Rightarrow> u32 \<Rightarrow> core \<Rightarrow> u32" where
  "context_r P fp_enabled s = psp s - 4 * of_nat (num_r P fp_enabled s)"

definition saved_r :: "port \<Rightarrow> u32 \<Rightarrow> u32 \<Rightarrow> core \<Rightarrow> memory" where
  "saved_r P fp_enabled prev s =
     (store_words (context_r P fp_enabled s) (words_r P fp_enabled s) (mem s))(prev := context_r P fp_enabled s)"

definition load_r :: "port \<Rightarrow> u32 \<Rightarrow> u32 \<Rightarrow> core \<Rightarrow> core" where
  "load_r P fp_enabled q s =
     (let ws = load_words q (if fpu P then 9 else 8) (mem s);
          gs = (if fpu P then tl ws else ws);
          on = (fpu P \<and> hd ws \<noteq> 0);
          m = (if fpu P then store_byte fp_enabled (hd ws) (mem s) else mem s)
      in s\<lparr>psp := q + 4 * of_nat (of_bool (fpu P) + 8 + (if on then 33 else 0)),
           gpr := (\<lambda>i. if 4 \<le> i \<and> i < 12 then gs ! (i - 4) else gpr s i), mem := m,
           fpscr := (if on then m (q + 36) else fpscr s),
           fpr := (\<lambda>i. if on \<and> i < 32 then load_words (q + 40) 32 m ! i else fpr s i)\<rparr>)"

lemma length_words_r [simp]: "length (words_r P fp s) = num_r P fp s"
  by (simp add: words_r_def num_r_def)

lemma num_r_bound: "num_r P fp s \<le> 42"
  by (simp add: num_r_def)

lemma store_words_join:
  "length xs + length ys < 2 ^ 30 \<Longrightarrow> store_words a xs (store_words (a + 4 * of_nat (length xs)) ys m) = store_words a (xs @ ys) m"
  by (simp add: store_words_swap store_words_append)

lemma store_words_join3:
  assumes "length xs = 9" and "length ys = 32"
  shows "store_words (p - 168) xs (store_words (p - 132) [f] (store_words (p - 128) ys m)) = store_words (p - 168) (xs @ f # ys) m"
proof -
  have "store_words (p - 132) [f] (store_words (p - 128) ys m) = store_words (p - 132) (f # ys) m"
    using store_words_join [of "[f]" ys "p - 132" m] assms by (simp add: algebra_simps)
  moreover have "store_words (p - 168) xs (store_words (p - 132) (f # ys) m) = store_words (p - 168) (xs @ f # ys) m"
    using store_words_join [of xs "f # ys" "p - 168" m] assms by (simp add: algebra_simps)
  ultimately show ?thesis by simp
qed

lemma push_other [simp]:
  "lr (push ws s) = lr s" "pc (push ws s) = pc s" "psr (push ws s) = psr s" "control (push ws s) = control s"
  "psplim (push ws s) = psplim s"
  by (simp_all add: push_def Let_def)

lemma load_words_1: "load_words a (Suc 0) m = [m a]"
  by simp

lemmas handler_r_simps = load_words_1 add.commute [of 40] handler_r_def Let_def case_prod_unfold load_r_def saved_r_def words_r_def context_r_def num_r_def
  fp_on_def pop_def mpuconfigure_def

lemma handler_r_eq:
  assumes P: "\<not> (mpu P \<and> fpu P)" and c: "newctx \<noteq> 0"
  shows "handler_r P fp cfg newctx prev s = load_r P fp newctx (s\<lparr>mem := saved_r P fp prev s\<rparr>)"
proof (cases "fpu P")
  case False
  then show ?thesis using c
    by (intro core.equality; simp add: handler_r_simps cong: if_cong del: upt_rec_numeral load_words.simps store_words.simps)
next
  case True
  note n = store_words_join3 [of "load_byte fp (mem s) # map (gpr s) [4..<12]" "map (fpr s) [0..<32]" "psp s" "fpscr s" "mem s"]
  define a where "a = map (gpr s) [4..<12]"
  define b where "b = map (fpr s) [0..<32]"
  have l: "length a = 8" "length b = 32" by (simp_all add: a_def b_def)
  show ?thesis
  proof (cases "load_byte fp (mem s) = 0")
    case flag: True
    note facts = c True P flag l(1)
    show ?thesis
      by (intro core.equality; (rule ext)?; insert facts; simp add: handler_r_simps a_def [symmetric] cong: if_cong del: upt_rec_numeral load_words.simps store_words.simps)
  next
    case False
    note facts = c True P False n l
    show ?thesis
      by (intro core.equality; (rule ext)?; insert facts; simp add: handler_r_simps a_def [symmetric] b_def [symmetric] cong: if_cong
          del: upt_rec_numeral load_words.simps store_words.simps)
  qed
qed

lemma mem_load_r: "x \<noteq> fp \<Longrightarrow> mem (load_r P fp q t) x = mem t x"
  by (simp add: load_r_def Let_def store_byte_def)

text \<open>What is saved, and that nothing else changes.\<close>

lemma context_r_end: "context_r P fp s + 4 * of_nat (num_r P fp s) = psp s"
  by (simp add: context_r_def)

lemma saved_r_words:
  assumes "prev \<notin> span (context_r P fp s) (num_r P fp s)"
  shows "load_words (context_r P fp s) (num_r P fp s) (saved_r P fp prev s) = words_r P fp s"
    "saved_r P fp prev s prev = context_r P fp s"
    "x \<noteq> prev \<Longrightarrow> x \<notin> span (context_r P fp s) (num_r P fp s) \<Longrightarrow> saved_r P fp prev s x = mem s x"
proof -
  let ?a = "context_r P fp s" and ?ws = "words_r P fp s"
  have "saved_r P fp prev s x = store_words ?a ?ws (mem s) x" if "x \<in> span ?a (num_r P fp s)" for x
    using that assms by (auto simp: saved_r_def)
  then have "load_words ?a (num_r P fp s) (saved_r P fp prev s) = load_words ?a (num_r P fp s) (store_words ?a ?ws (mem s))"
    by (rule load_words_cong)
  then show "load_words ?a (num_r P fp s) (saved_r P fp prev s) = ?ws"
    using load_store_words [of ?ws ?a "mem s"] num_r_bound [of P fp s] by simp
  show "saved_r P fp prev s prev = ?a" by (simp add: saved_r_def)
  show "x \<noteq> prev \<Longrightarrow> x \<notin> span ?a (num_r P fp s) \<Longrightarrow> saved_r P fp prev s x = mem s x"
    by (simp add: saved_r_def store_words_other)
qed

lemma load_byte_store_byte: "load_byte a (store_byte a v m) = v AND 0xFF"
proof -
  have "(w AND NOT 0xFF OR v AND 0xFF) AND 0xFF = v AND 0xFF" for w :: u32
    by (rule bit_word_eqI) (auto simp: bit_simps)
  then show ?thesis by (simp add: load_byte_def store_byte_def)
qed

lemma load_byte_byte: "load_byte a m AND 0xFF = load_byte a m"
  by (simp add: load_byte_def and.assoc)

text \<open>Loading a saved context gives the registers back.\<close>

lemma load_r_resumes:
  assumes ws: "load_words (context_r P fp e) (num_r P fp e) (mem t) = words_r P fp e"
    and fp: "fp \<notin> span (context_r P fp e) (num_r P fp e)"
  shows "4 \<le> i \<Longrightarrow> i < 12 \<Longrightarrow> gpr (load_r P fp (context_r P fp e) t) i = gpr e i"
    "psp (load_r P fp (context_r P fp e) t) = psp e"
    "fp_on P fp e \<Longrightarrow> fpscr (load_r P fp (context_r P fp e) t) = fpscr e"
    "fp_on P fp e \<Longrightarrow> i < 32 \<Longrightarrow> fpr (load_r P fp (context_r P fp e) t) i = fpr e i"
    "fpu P \<Longrightarrow> load_byte fp (mem (load_r P fp (context_r P fp e) t)) = load_byte fp (mem e)"
    "x \<noteq> fp \<Longrightarrow> mem (load_r P fp (context_r P fp e) t) x = mem t x"
proof -
  define q where "q = context_r P fp e"
  define k where "k = (of_bool (fpu P) :: nat)"
  let ?u = "load_r P fp q t" and ?b = "load_byte fp (mem e)"
  define gs where "gs = map (gpr e) [4..<12]"
  define fs where "fs = map (fpr e) [0..<32]"
  have l: "length gs = 8" "length fs = 32" by (simp_all add: gs_def fs_def)
  let ?low = "(if fpu P then [?b] else []) @ gs"
  have split: "num_r P fp e = (k + 8) + (if fp_on P fp e then 33 else 0)" by (simp add: num_r_def k_def)
  have low: "load_words q (k + 8) (mem t) = ?low"
    and high: "fp_on P fp e \<Longrightarrow> load_words (q + 4 * of_nat (k + 8)) 33 (mem t) = fpscr e # fs"
    using ws l unfolding split load_words_append words_r_def gs_def [symmetric] fs_def [symmetric] q_def [symmetric]
    by (auto simp: k_def append_eq_append_conv split: if_splits)
  have on: "fp_on P fp e \<longleftrightarrow> fpu P \<and> hd ?low \<noteq> 0" by (simp add: fp_on_def)
  have n: "(if fpu P then 9 else 8) = k + 8" by (simp add: k_def)
  have u: "?u = (let m = (if fpu P then store_byte fp ?b (mem t) else mem t)
      in t\<lparr>psp := q + 4 * of_nat (k + 8 + (if fp_on P fp e then 33 else 0)),
           gpr := (\<lambda>i. if 4 \<le> i \<and> i < 12 then gs ! (i - 4) else gpr t i), mem := m,
           fpscr := (if fp_on P fp e then m (q + 36) else fpscr t),
           fpr := (\<lambda>i. if fp_on P fp e \<and> i < 32 then load_words (q + 40) 32 m ! i else fpr t i)\<rparr>)"
    unfolding load_r_def n low k_def [symmetric] on by (cases "fpu P") (simp_all add: Let_def cong: if_cong)
  show "4 \<le> i \<Longrightarrow> i < 12 \<Longrightarrow> gpr (load_r P fp (context_r P fp e) t) i = gpr e i"
    unfolding q_def [symmetric] u by (simp add: Let_def gs_def del: upt_rec_numeral)
  show "psp (load_r P fp (context_r P fp e) t) = psp e"
    unfolding q_def [symmetric] u using context_r_end [of P fp e] by (simp add: Let_def split q_def)
  show "fpu P \<Longrightarrow> load_byte fp (mem (load_r P fp (context_r P fp e) t)) = load_byte fp (mem e)"
    unfolding q_def [symmetric] u by (simp add: Let_def load_byte_store_byte load_byte_byte)
  show "x \<noteq> fp \<Longrightarrow> mem (load_r P fp (context_r P fp e) t) x = mem t x"
    unfolding q_def [symmetric] u by (simp add: Let_def store_byte_def)
  have f: "m (q + 36) = fpscr e \<and> load_words (q + 40) 32 m = fs"
    if fpe: "fp_on P fp e" and m: "m = store_byte fp ?b (mem t)" for m
  proof -
    have k: "k = 1" using fpe by (simp add: k_def fp_on_def)
    have q36: "q + 4 * of_nat (k + 8) = q + 36" by (simp add: k)
    have "span (q + 36) 33 \<subseteq> span q (num_r P fp e)"
      using span_add [of q "k + 8" 33] fpe by (simp add: split k)
    then have "load_words (q + 36) 33 m = load_words (q + 36) 33 (mem t)"
      using fp unfolding q_def [symmetric] by (intro load_words_cong) (auto simp: m store_byte_def)
    then have "load_words (q + 36) (Suc 32) m = fpscr e # fs" using high [OF fpe] unfolding q36 by simp
    then show ?thesis unfolding load_words.simps(2) by (simp add: add.assoc)
  qed
  have fpm: "fp_on P fp e \<Longrightarrow> fpu P" by (simp add: fp_on_def)
  show "fp_on P fp e \<Longrightarrow> fpscr (load_r P fp (context_r P fp e) t) = fpscr e"
    unfolding q_def [symmetric] u using f [OF _ refl] fpm by (simp add: Let_def)
  show "fp_on P fp e \<Longrightarrow> i < 32 \<Longrightarrow> fpr (load_r P fp (context_r P fp e) t) i = fpr e i"
    unfolding q_def [symmetric] u using f [OF _ refl] fpm by (simp add: Let_def fs_def)
qed

section \<open>Entry and return\<close>

definition frame_words_r :: "core \<Rightarrow> u32 list" where
  "frame_words_r s = map (gpr s) [0, 1, 2, 3, 12] @ [lr s, pc s, psr s]"

lemma length_frame_words_r [simp]: "length (frame_words_r s) = 8"
  by (simp add: frame_words_r_def)

lemma handler_entry_r_sel:
  "mem (handler_entry_r irq s) = store_words (psp s - 32) (frame_words_r s) (mem s)"
  "psp (handler_entry_r irq s) = psp s - 32" "gpr (handler_entry_r irq s) = gpr s" "lr (handler_entry_r irq s) = lr s"
  "fpr (handler_entry_r irq s) = fpr s" "fpscr (handler_entry_r irq s) = fpscr s"
proof -
  have "mem (handler_entry_r irq s) =
      store_words (psp s - 32) (map (gpr s) [0, 1, 2, 3, 12] @ [lr s]) (store_words (psp s - 8) [pc s, psr s] (mem s))"
    by (simp add: handler_entry_r_def Let_def del: store_words.simps)
  then show "mem (handler_entry_r irq s) = store_words (psp s - 32) (frame_words_r s) (mem s)"
    using store_words_join [of "map (gpr s) [0, 1, 2, 3, 12] @ [lr s]" "[pc s, psr s]" "psp s - 32" "mem s"]
    by (simp add: frame_words_r_def algebra_simps del: store_words.simps)
qed (simp_all add: handler_entry_r_def Let_def)

lemma handler_exit_r_frame:
  assumes "load_words (psp u) 8 (mem u) = frame_words_r s"
  shows "i \<in> {0, 1, 2, 3, 12} \<Longrightarrow> gpr (handler_exit_r u) i = gpr s i"
    "4 \<le> i \<Longrightarrow> i < 12 \<Longrightarrow> gpr (handler_exit_r u) i = gpr u i"
    "lr (handler_exit_r u) = lr s" "pc (handler_exit_r u) = pc s" "psr (handler_exit_r u) = psr s"
    "psp (handler_exit_r u) = psp u + 32" "fpr (handler_exit_r u) = fpr u" "fpscr (handler_exit_r u) = fpscr u"
    "mem (handler_exit_r u) = mem u"
proof -
  have a: "load_words (psp u) 6 (mem u) @ load_words (psp u + 24) 2 (mem u) = frame_words_r s"
    using assms load_words_append [of "psp u" 6 2 "mem u"] by (simp del: load_words.simps)
  have w: "load_words (psp u) 6 (mem u) = map (gpr s) [0, 1, 2, 3, 12] @ [lr s]"
    "load_words (psp u + 24) 2 (mem u) = [pc s, psr s]"
    using arg_cong [OF a, of "take 6"] arg_cong [OF a, of "drop 6"]
    by (simp_all add: frame_words_r_def del: load_words.simps)
  have u: "handler_exit_r u = u\<lparr>gpr := (gpr u)(0 := gpr s 0, 1 := gpr s 1, 2 := gpr s 2, 3 := gpr s 3, 12 := gpr s 12),
      lr := lr s, pc := pc s, psr := psr s, psp := psp u + 32\<rparr>"
    by (intro core.equality; simp add: handler_exit_r_def pop_def Let_def w del: load_words.simps)
  show "i \<in> {0, 1, 2, 3, 12} \<Longrightarrow> gpr (handler_exit_r u) i = gpr s i"
    "4 \<le> i \<Longrightarrow> i < 12 \<Longrightarrow> gpr (handler_exit_r u) i = gpr u i"
    "lr (handler_exit_r u) = lr s" "pc (handler_exit_r u) = pc s" "psr (handler_exit_r u) = psr s"
    "psp (handler_exit_r u) = psp u + 32" "fpr (handler_exit_r u) = fpr u" "fpscr (handler_exit_r u) = fpscr u"
    "mem (handler_exit_r u) = mem u"
    unfolding u by auto
qed

section \<open>Properties\<close>

text \<open>
  What the code relies on in \<^verbatim>\<open>rt_syscall_run\<close>, compiled for supervisor mode: it keeps the registers that a call
  keeps and the banked ones of the task, does not use floating point, and does not write to the
  task's frame or to the flag.
\<close>

definition run_keeps_r :: "u32 \<Rightarrow> core \<Rightarrow> core \<Rightarrow> bool" where
  "run_keeps_r fp_enabled s e \<longleftrightarrow> (\<forall>i. 4 \<le> i \<and> i < 12 \<longrightarrow> gpr e i = gpr s i) \<and> psp e = psp s \<and> lr e = lr s \<and>
     fpr e = fpr s \<and> fpscr e = fpscr s \<and> (\<forall>x \<in> insert fp_enabled (span (psp s) 8). mem e x = mem s x)"

text \<open>The task goes on in \<open>w\<close> as it was in \<open>s\<close>, and so does the flag of its floating-point context.\<close>

definition resumed_r :: "port \<Rightarrow> u32 \<Rightarrow> core \<Rightarrow> core \<Rightarrow> bool" where
  "resumed_r P fp_enabled s w \<longleftrightarrow> (\<forall>i < 13. gpr w i = gpr s i) \<and> lr w = lr s \<and> pc w = pc s \<and> psr w = psr s \<and> psp w = psp s \<and>
     (fpu P \<longrightarrow> load_byte fp_enabled (mem w) = load_byte fp_enabled (mem s) \<and>
       (load_byte fp_enabled (mem s) \<noteq> 0 \<longrightarrow> fpscr w = fpscr s \<and> (\<forall>i < 32. fpr w i = fpr s i)))"

text \<open>
  C24. The handler of the R-profile is a round trip too, with a memory protection unit or with
  floating point, but not with both: when a task is interrupted in the state \<open>s\<close>,
  by a supervisor call or an interrupt, and the handler switches to the context \<open>c\<close>, it leaves the address of the
  task's context at \<open>prev\<close>; and when later, in any state \<open>t\<close> of another task, it switches to
  that context, the task goes on with all its registers, its mode and its flag as they were, provided nobody has
  written to its stack meanwhile.
\<close>

theorem switch_round_trip_r:
  assumes P: "\<not> (mpu P \<and> fpu P)" and run: "run_keeps_r fp (handler_entry_r irq s) e"
    and c: "c \<noteq> 0" "context_r P fp e \<noteq> 0"
    and area: "area = span (context_r P fp e) (num_r P fp e + 8)" and fp: "fp \<notin> area"
    and prev: "prev \<notin> area" "prev \<noteq> fp" "prev' \<notin> area \<union> span (context_r P fp t) (num_r P fp t)"
    and t: "\<forall>x \<in> area. mem t x = mem (handler_r P fp cfg c prev e) x"
      "area \<inter> span (context_r P fp t) (num_r P fp t) = {}"
  shows "\<exists>q. mem (handler_r P fp cfg c prev e) prev = q \<and>
     resumed_r P fp s (handler_exit_r (handler_r P fp cfg q prev' t))"
proof -
  let ?q = "context_r P fp e" and ?n = "num_r P fp e" and ?m = "saved_r P fp prev' t"
  let ?u = "load_r P fp ?q (t\<lparr>mem := ?m\<rparr>)"
  have e: "\<And>i. 4 \<le> i \<Longrightarrow> i < 12 \<Longrightarrow> gpr e i = gpr s i" "psp e = psp s - 32" "fpr e = fpr s" "fpscr e = fpscr s"
    "\<And>x. x = fp \<or> x \<in> span (psp s - 32) 8 \<Longrightarrow> mem e x = store_words (psp s - 32) (frame_words_r s) (mem s) x"
    using run by (auto simp: run_keeps_r_def handler_entry_r_sel)
  have top: "?q + 4 * of_nat ?n = psp e" by (rule context_r_end)
  have ar: "area = span ?q ?n \<union> span (psp e) 8" unfolding area span_add top ..
  have disj: "span ?q ?n \<inter> span (psp e) 8 = {}"
    using span_disjoint [of ?n 8 ?q] num_r_bound [of P fp e] unfolding top by simp
  note sv = saved_r_words [of prev P fp e] and st = saved_r_words(3) [of prev' P fp t]
  have u1: "mem (handler_r P fp cfg c prev e) x = saved_r P fp prev e x" if "x \<noteq> fp" for x
    using that by (simp add: handler_r_eq [OF P c(1)] mem_load_r)
  have keep: "?m x = saved_r P fp prev e x" if x: "x \<in> area" for x
  proof -
    have "x \<noteq> fp" "x \<noteq> prev'" "x \<notin> span (context_r P fp t) (num_r P fp t)" using x fp prev(3) t(2) by auto
    then show ?thesis using st prev(3) t(1) u1 x by simp
  qed
  have "load_words ?q ?n ?m = load_words ?q ?n (saved_r P fp prev e)" by (rule load_words_cong) (simp add: keep ar)
  then have "load_words ?q ?n (mem (t\<lparr>mem := ?m\<rparr>)) = words_r P fp e" using sv(1) prev(1) ar by simp
  note r = load_r_resumes [OF this] and fpq = fp [unfolded ar]
  have "load_words (psp e) 8 (mem ?u) = load_words (psp s - 32) 8 (store_words (psp s - 32) (frame_words_r s) (mem s))"
    unfolding e(2)
  proof (rule load_words_cong)
    fix x assume x: "x \<in> span (psp s - 32) 8"
    then have "x \<in> area" "x \<noteq> fp" "x \<notin> span ?q ?n" "x \<noteq> prev" using ar fp prev(1) disj unfolding e(2) by auto
    then show "mem ?u x = store_words (psp s - 32) (frame_words_r s) (mem s) x"
      using keep sv(3) prev(1) ar e(5) x by (simp add: mem_load_r)
  qed
  also have "\<dots> = frame_words_r s"
    using load_store_words [of "frame_words_r s" "psp s - 32" "mem s"] by simp
  finally have "load_words (psp ?u) 8 (mem ?u) = frame_words_r s" using r(2) fpq by simp
  note x = handler_exit_r_frame [OF this]
  have "fp \<notin> span (psp s - 32) (length (frame_words_r s))" using fpq unfolding e(2) by simp
  then have flag: "load_byte fp (mem e) = load_byte fp (mem s)" using e(5) [of fp] by (simp add: load_byte_def store_words_other)
  have "gpr (handler_exit_r ?u) i = gpr s i" if "i < 13" for i
  proof (cases "4 \<le> i \<and> i < 12")
    case True
    then show ?thesis using x(2) r(1) fpq e(1) by simp
  next
    case False
    then have "i \<in> {0, 1, 2, 3, 12}" using that by auto
    then show ?thesis by (rule x(1))
  qed
  then have "resumed_r P fp s (handler_exit_r ?u)"
    using x(3-) r(2-5) fpq flag e(2-4) by (auto simp: resumed_r_def fp_on_def)
  moreover have "handler_r P fp cfg ?q prev' t = ?u" using handler_r_eq [OF P c(2)] .
  moreover have "mem (handler_r P fp cfg c prev e) prev = ?q" using u1 prev(1,2) sv(2) ar by simp
  ultimately show ?thesis by auto
qed

text \<open>
  The first switch to a new context on the R-profile starts the task's function, in system mode, with
  its argument, its return address \<^verbatim>\<open>rt_task_exit\<close>, its whole stack and no floating-point context.
\<close>

lemma context_index_r:
  assumes "PROFILE_R P"
  shows "index_of (M_r 0) (context_struct P) = of_bool (fpu P) + 8" "index_of M_lr (context_struct P) = of_bool (fpu P) + 13"
    "index_of M_pc (context_struct P) = of_bool (fpu P) + 14" "index_of M_psr (context_struct P) = of_bool (fpu P) + 15"
    "fpu P \<Longrightarrow> index_of M_fp_enabled (context_struct P) = 0" "sizeof_context P = 4 * of_nat (of_bool (fpu P) + 16)"
    "length (context_struct P) = of_bool (fpu P) + 16"
  using assms by (simp_all add: context_struct_def PROFILE_M_def PROFILE_R_def sizeof_context_def V8M_def)

lemma context_create_r:
  assumes "PROFILE_R P" and "rt_context_create_arg P exit_fn fn arg stack stack_size m0 = (ctx, m)"
  shows "member_of P ctx M_lr m = exit_fn" "member_of P ctx M_pc m = fn"
    "member_of P ctx M_psr m = CPSR_MODE_SYS OR CPSR_E P OR CPSR_THUMB fn"
    "member_of P ctx (M_r 0) m = arg" "fpu P \<Longrightarrow> member_of P ctx M_fp_enabled m = 0"
    "ctx = stack + stack_size - sizeof_context P"
proof -
  have v: "\<not> V8M P" "\<not> PROFILE_M P" using assms(1) by (simp_all add: PROFILE_R_def V8M_def PROFILE_M_def)
  have f: "fpu P \<Longrightarrow> M_fp_enabled \<in> set (context_struct P)" using assms(1) by (simp add: context_struct_def)
  note defs = rt_context_create_arg_def context_create_def Let_def member_of_set_member assms(1) v f
  show "member_of P ctx M_lr m = exit_fn" "member_of P ctx M_pc m = fn"
    "member_of P ctx M_psr m = CPSR_MODE_SYS OR CPSR_E P OR CPSR_THUMB fn"
    "member_of P ctx (M_r 0) m = arg" "fpu P \<Longrightarrow> member_of P ctx M_fp_enabled m = 0"
    "ctx = stack + stack_size - sizeof_context P"
    using assms(2) by (auto simp: defs)
qed

lemma load_r_new:
  assumes "fpu P \<longrightarrow> mem t q = 0"
  shows "psp (load_r P fp q t) = q + 4 * of_nat (of_bool (fpu P) + 8)"
    "fpu P \<Longrightarrow> load_byte fp (mem (load_r P fp q t)) = 0"
proof -
  have "fpu P \<Longrightarrow> hd (load_words q 9 (mem t)) = 0"
    using assms load_words_nth [of 0 9 q "mem t"] by (simp add: hd_conv_nth del: load_words.simps flip: length_greater_0_conv)
  then show "psp (load_r P fp q t) = q + 4 * of_nat (of_bool (fpu P) + 8)"
    "fpu P \<Longrightarrow> load_byte fp (mem (load_r P fp q t)) = 0"
    by (cases "fpu P"; simp add: load_r_def Let_def load_byte_store_byte)+
qed

lemma eight_words: "length ws = 8 \<Longrightarrow> ws = [ws ! 0, ws ! 1, ws ! 2, ws ! 3, ws ! 4, ws ! 5, ws ! 6, ws ! 7]"
  by (auto simp: numeral_eq_Suc length_Suc_conv)

theorem new_task_starts_r:
  assumes P: "PROFILE_R P" "\<not> (mpu P \<and> fpu P)"
    and new: "rt_context_create_arg P exit_fn fn arg stack stack_size m0 = (ctx, m)"
    and area: "area = span ctx (of_bool (fpu P) + 16)" and c: "ctx \<noteq> 0" "fp \<notin> area"
    and t: "\<forall>x \<in> area. mem t x = m x" "area \<inter> span (context_r P fp t) (num_r P fp t) = {}"
      "prev \<notin> area \<union> span (context_r P fp t) (num_r P fp t)"
    and w: "w = handler_exit_r (handler_r P fp cfg ctx prev t)"
  shows "pc w = fn \<and> gpr w 0 = arg \<and> lr w = exit_fn \<and> psp w = stack + stack_size \<and>
    psr w = CPSR_MODE_SYS OR CPSR_E P OR CPSR_THUMB fn \<and> (fpu P \<longrightarrow> load_byte fp (mem w) = 0)"
proof -
  let ?k = "of_bool (fpu P) :: nat" and ?t = "t\<lparr>mem := saved_r P fp prev t\<rparr>"
  let ?u = "load_r P fp ctx ?t"
  note m = context_create_r [OF P(1) new] and ix = context_index_r [OF P(1)]
  have keep: "mem ?t x = m x" if "x \<in> area" for x
    using that t saved_r_words(3) [of prev P fp t x] by auto
  have mem_u: "mem ?u x = m x" if "x \<in> area" for x using that keep c(2) by (subst mem_load_r) auto
  have at: "ctx + 4 * of_nat i \<in> area" if "i < ?k + 16" for i using that by (auto simp: area span_def)
  have "fpu P \<longrightarrow> mem ?t ctx = 0" using keep at [of 0] m(5) ix(5) by (simp add: member_of_def)
  note u = load_r_new [OF this]
  let ?ws = "load_words (psp ?u) 8 (mem ?u)"
  have ws: "?ws ! i = m (ctx + 4 * of_nat (?k + 8 + i))" if "i < 8" for i
    using that mem_u [OF at, of "?k + 8 + i"] unfolding u(1) load_words_nth [OF that] by (simp add: algebra_simps)
  let ?s = "t\<lparr>gpr := (\<lambda>i. if i = 12 then ?ws ! 4 else ?ws ! i), lr := ?ws ! 5, pc := ?ws ! 6, psr := ?ws ! 7\<rparr>"
  have "?ws = frame_words_r ?s" using eight_words [of ?ws] by (simp add: frame_words_r_def del: load_words.simps)
  note x = handler_exit_r_frame [OF this]
  have W: "w = handler_exit_r ?u" using w handler_r_eq [OF P(2) c(1)] by simp
  have "gpr w 0 = arg" using x(1) [of 0] ws [of 0] m(4) ix(1) unfolding W by (simp add: member_of_def)
  moreover have "lr w = exit_fn" using x(3) ws [of 5] m(1) ix(2) unfolding W by (simp add: member_of_def algebra_simps)
  moreover have "pc w = fn" using x(4) ws [of 6] m(2) ix(3) unfolding W by (simp add: member_of_def algebra_simps)
  moreover have "psr w = CPSR_MODE_SYS OR CPSR_E P OR CPSR_THUMB fn"
    using x(5) ws [of 7] m(3) ix(4) unfolding W by (simp add: member_of_def algebra_simps)
  moreover have "psp w = stack + stack_size"
  proof -
    have "psp w = ctx + 4 * of_nat (?k + 8) + 32" unfolding W x(6) u(1) ..
    also have "\<dots> = ctx + sizeof_context P" unfolding ix(6) by simp
    finally show ?thesis using m(6) by simp
  qed
  ultimately show ?thesis using x(9) u(2) unfolding W by simp
qed

text \<open>A task with a floating-point context, interrupted and resumed.\<close>

definition cortex_r :: port where
  "cortex_r = \<lparr>arch = ARMV7R, mpu = False, fpu = True, big_endian = False\<rparr>"

definition r_task :: core where
  "r_task = some_core 0x2000 ((\<lambda>_. 0)(0x6000 := 1))"

theorem switch_round_trip_r_witness:
  "let e = handler_entry_r True r_task;
       u = handler_r cortex_r 0x6000 0x7000 0x5000 0x4000 e;
       t = some_core 0x3000 ((mem u)(0x6000 := 0))
   in load_byte 0x6000 (mem r_task) = 1 \<and>
     (\<exists>q. mem u 0x4000 = q \<and> resumed_r cortex_r 0x6000 r_task (handler_exit_r (handler_r cortex_r 0x6000 0x7000 q 0x4004 t)))"
proof -
  let ?P = cortex_r and ?e = "handler_entry_r True r_task"
  let ?u = "handler_r ?P 0x6000 0x7000 0x5000 0x4000 ?e"
  let ?t = "some_core 0x3000 ((mem ?u)(0x6000 := 0))"
  have flag: "load_byte 0x6000 (mem r_task) = 1" by (simp add: r_task_def some_core_def load_byte_def)
  have p: "psp r_task = 0x2000" "psp ?e = 0x1FE0" by (simp_all add: handler_entry_r_sel r_task_def some_core_def)
  have sets: "0x6000 \<notin> span 0x1FE0 8" "0x6000 \<notin> span 0x1F38 50" "0x4000 \<notin> span 0x1F38 50"
    "0x4004 \<notin> span 0x1F38 50 \<union> span 0x2FDC 9" "span 0x1F38 50 \<inter> span 0x2FDC 9 = {}"
    by (simp_all add: span_def lessThan_nat_numeral lessThan_Suc)
  have "load_byte 0x6000 (mem ?e) = 1"
    using flag sets(1) p by (simp add: handler_entry_r_sel load_byte_def store_words_other)
  then have e: "num_r ?P 0x6000 ?e = 42" "context_r ?P 0x6000 ?e = 0x1F38"
    using p by (simp_all add: num_r_def fp_on_def cortex_r_def context_r_def)
  have t: "num_r ?P 0x6000 ?t = 9" "context_r ?P 0x6000 ?t = 0x2FDC" "mem ?t = (mem ?u)(0x6000 := 0)"
    by (simp_all add: num_r_def fp_on_def cortex_r_def context_r_def load_byte_def some_core_def)
  have "\<exists>q. mem ?u 0x4000 = q \<and> resumed_r ?P 0x6000 r_task (handler_exit_r (handler_r ?P 0x6000 0x7000 q 0x4004 ?t))"
    by (rule switch_round_trip_r [where irq = True and e = ?e and c = "0x5000" and area = "span 0x1F38 50"])
      (use sets e t in \<open>auto simp: cortex_r_def run_keeps_r_def\<close>)
  then show ?thesis using flag by (simp add: Let_def)
qed

end
