(* ===== verification/Rt_Mpu_Attr.thy ===== *)
theory Rt_Mpu_Attr
  imports Rt_Mpu Rt_Mpu_V8
begin

text \<open>
  The attributes of memory regions in \<^verbatim>\<open>arch/arm/include/muntos/arch/mpu.h\<close> that callers of
  \<^verbatim>\<open>rt_mpu_region_set\<close> and \<^verbatim>\<open>rt_mpu_config_set\<close> combine, what the processor reads from them, and the
  coprocessor registers of the R-profile (\<^verbatim>\<open>arch/arm/r/coprocessor.h\<close>) with the functions that turn the
  unit and the cycle counter on.
\<close>

section \<open>Armv6 and Armv7\<close>

definition RT_MPU_ATTR_NO_ACCESS :: u32 where "RT_MPU_ATTR_NO_ACCESS = RT_MPU_ATTR_AP 0"
definition RT_MPU_ATTR_RW_PRIV :: u32 where "RT_MPU_ATTR_RW_PRIV = RT_MPU_ATTR_AP 1"
definition RT_MPU_ATTR_RW_PRIV_RO :: u32 where "RT_MPU_ATTR_RW_PRIV_RO = RT_MPU_ATTR_AP 2"
definition RT_MPU_ATTR_RO_PRIV :: u32 where "RT_MPU_ATTR_RO_PRIV = RT_MPU_ATTR_AP 5"
definition RT_MPU_ATTR_RO :: u32 where "RT_MPU_ATTR_RO = RT_MPU_ATTR_AP 6"
definition RT_MPU_ATTR_STRONGLY_ORDERED :: u32 where "RT_MPU_ATTR_STRONGLY_ORDERED = RT_MPU_ATTR 0"
definition RT_MPU_ATTR_SHARED_DEVICE :: u32 where "RT_MPU_ATTR_SHARED_DEVICE = RT_MPU_ATTR 1"
definition RT_MPU_ATTR_CACHED_WT :: u32 where "RT_MPU_ATTR_CACHED_WT = RT_MPU_ATTR 2"
definition RT_MPU_ATTR_CACHED_WB :: u32 where "RT_MPU_ATTR_CACHED_WB = RT_MPU_ATTR 3"
definition RT_MPU_ATTR_NONCACHED :: u32 where "RT_MPU_ATTR_NONCACHED = RT_MPU_ATTR 8"
definition RT_MPU_ATTR_DEVICE_v7 :: u32 where "RT_MPU_ATTR_DEVICE_v7 = RT_MPU_ATTR 16"
definition RT_MPU_ATTR_CACHED :: "u32 \<Rightarrow> u32 \<Rightarrow> u32" where
  "RT_MPU_ATTR_CACHED outer inner = RT_MPU_ATTR (push_bit 5 1 OR push_bit 3 outer OR inner)"
definition RT_MPU_ATTR_SHARED :: u32 where "RT_MPU_ATTR_SHARED = push_bit 18 1"

text \<open>
  What the architecture reads: who may do what, as the access permission field says, for privileged
  and unprivileged code; the field for the type of memory; whether code may be executed.
\<close>

datatype access = No_access | Read_only | Read_write

definition ap_access :: "u32 \<Rightarrow> (access \<times> access) option" where
  "ap_access ap =
     (if ap = 0 then Some (No_access, No_access) else if ap = 1 then Some (Read_write, No_access)
      else if ap = 2 then Some (Read_write, Read_only) else if ap = 3 then Some (Read_write, Read_write)
      else if ap = 5 then Some (Read_only, No_access) else if ap = 6 \<or> ap = 7 then Some (Read_only, Read_only)
      else None)"

definition region_access :: "u32 \<Rightarrow> (access \<times> access) option" where
  "region_access w = ap_access (take_bit 3 (drop_bit 24 w))"

definition region_memory :: "u32 \<Rightarrow> u32" where
  "region_memory w = take_bit 6 (drop_bit 16 w)"

lemma sizes_any:
  assumes "n \<noteq> SIZE_MAX" shows "\<exists>k. sizes n k"
proof (cases "n \<le> 256")
  case True
  then show ?thesis using sizes_small by blast
next
  case False
  then have "1 \<le> unat n" by (simp add: word_le_nat_alt)
  then obtain k where "2 ^ k \<le> unat n" "unat n < 2 ^ (k + 1)" using ex_power_ivl1 [of 2 "unat n"] by auto
  then show ?thesis using sizes_large [of n k] False assms by (auto simp: not_le)
qed

text \<open>The upper half of the register is the attributes alone: size and subregions are below.\<close>

lemma attr_size_upper:
  assumes n: "n \<noteq> SIZE_MAX" "n \<noteq> 0" and j: "16 \<le> j"
  shows "bit (RT_MPU_ATTR_SIZE const a n attr) j \<longleftrightarrow> bit attr j"
proof -
  obtain k where k: "sizes n k" using sizes_any [OF n(1)] by blast
  show ?thesis unfolding attr_size_bit [OF n(2)]
    using sizebits_bit [OF k, of "j - 1"] srd_bit_less [OF k, of const a "j - 8"] j by (auto dest: bit_imp_le_length)
qed

lemma no_high_bit:
  assumes "unat (v :: u32) < 2 ^ l" and "l \<le> j"
  shows "\<not> bit v j"
proof -
  have "(2 :: nat) ^ l \<le> 2 ^ j" using assms(2) by simp
  then have "unat v < 2 ^ j" using assms(1) by (rule less_le_trans [rotated])
  then have "\<not> bit (unat v) j" by (simp add: bit_iff_odd)
  then show ?thesis by (auto simp: bit_unsigned_iff dest: bit_imp_le_length)
qed

lemma attr_field:
  assumes n: "n \<noteq> SIZE_MAX" "n \<noteq> 0" and i: "16 \<le> i" and f: "\<And>j. j < l \<Longrightarrow> bit attr (i + j) = bit v j" and v: "unat v < 2 ^ l"
  shows "take_bit l (drop_bit i (RT_MPU_ATTR_SIZE const a n attr)) = v"
proof (rule bit_eqI)
  fix j
  have "\<not> bit v j" if "l \<le> j" using no_high_bit [OF v that] .
  then show "bit (take_bit l (drop_bit i (RT_MPU_ATTR_SIZE const a n attr))) j = bit v j"
    using f attr_size_upper [OF n, of "i + j" const a attr] i
    by (cases "j < l") (simp_all add: bit_take_bit_iff bit_drop_bit_eq)
qed

text \<open>
  The attributes can be combined freely: the processor reads each of them back from the register, and
  the size of the region with them.
\<close>

theorem region_attributes:
  assumes n: "n \<noteq> SIZE_MAX" "n \<noteq> 0" and p: "p < 8" and t: "t < 64"
    and attr: "attr = RT_MPU_ATTR_AP p OR RT_MPU_ATTR t OR (if xn then RT_MPU_ATTR_XN else 0) OR (if en then RT_MPU_ATTR_ENABLE else 0)"
    and w: "w = RT_MPU_ATTR_SIZE const a n attr"
  shows "region_access w = ap_access p \<and> region_memory w = t \<and> (bit w 28 \<longleftrightarrow> xn) \<and> (bit w 0 \<longleftrightarrow> en) \<and>
    drop_bit 1 w AND mask 5 = RT_MPU_SIZEBITS n"
proof -
  obtain k where k: "sizes n k" using sizes_any [OF n(1)] by blast
  have pt: "unat p < 2 ^ 3" "unat t < 2 ^ 6" using p t by (simp_all add: word_less_nat_alt)
  note hi = no_high_bit [OF pt(1)] no_high_bit [OF pt(2)]
  have b: "bit attr j \<longleftrightarrow> j < 32 \<and> (24 \<le> j \<and> bit p (j - 24) \<or> 16 \<le> j \<and> bit t (j - 16) \<or> xn \<and> j = 28 \<or> en \<and> j = 0)" for j
    unfolding attr RT_MPU_ATTR_AP_def RT_MPU_ATTR_def RT_MPU_ATTR_XN_def RT_MPU_ATTR_ENABLE_def
    by (cases xn; cases en; simp only: bit_or_iff bit_push_bit_iff bit_1_iff if_True if_False bit_0_eq bot_apply)
      (auto dest: bit_imp_le_length)
  have "take_bit 3 (drop_bit 24 w) = p" unfolding w
    by (rule attr_field [OF n _ _ pt(1)]) (use hi(2) in \<open>auto simp: b dest: bit_imp_le_length\<close>)
  moreover have "region_memory w = t" unfolding w region_memory_def
    by (rule attr_field [OF n _ _ pt(2)]) (auto simp: b dest: bit_imp_le_length)
  moreover have "bit w 28 \<longleftrightarrow> xn" unfolding w attr_size_upper [OF n, of 28, simplified] using hi by (simp add: b)
  moreover have "attr AND 0xFFFE = 0"
  proof (rule bit_eqI)
    have m: "(0xFFFE :: u32) = push_bit 1 (mask 15)" by (simp add: mask_eq_exp_minus_1 push_bit_eq_mult)
    show "bit (attr AND 0xFFFE) j = bit 0 j" for j unfolding m bit_and_iff bit_push_bit_iff bit_mask_iff b by auto
  qed
  note f = attr_size_fields(1,2) [OF k n(2) this, of const a]
  ultimately show ?thesis using f b [of 0] by (simp add: region_access_def w)
qed

text \<open>What each of the named permissions allows.\<close>

lemma named_permissions:
  "region_access RT_MPU_ATTR_NO_ACCESS = Some (No_access, No_access)"
  "region_access RT_MPU_ATTR_RW_PRIV = Some (Read_write, No_access)"
  "region_access RT_MPU_ATTR_RW_PRIV_RO = Some (Read_write, Read_only)"
  "region_access RT_MPU_ATTR_RW = Some (Read_write, Read_write)"
  "region_access RT_MPU_ATTR_RO_PRIV = Some (Read_only, No_access)"
  "region_access RT_MPU_ATTR_RO = Some (Read_only, Read_only)"
  by code_simp+

section \<open>Armv8\<close>

definition RT_MPU_ATTR_OUTER_SHAREABLE :: u32 where "RT_MPU_ATTR_OUTER_SHAREABLE = RT_MPU_ATTR_SH 2"
definition RT_MPU_ATTR_SHARED_v8 :: u32 where "RT_MPU_ATTR_SHARED_v8 = RT_MPU_ATTR_OUTER_SHAREABLE"
definition RT_MPU_ATTR_INNER_SHAREABLE :: u32 where "RT_MPU_ATTR_INNER_SHAREABLE = RT_MPU_ATTR_SH 3"
definition RT_MPU_ATTR_PXN :: u32 where "RT_MPU_ATTR_PXN = push_bit (4 + RT_MPU_ATTR_RLAR_SHIFT) 1"
definition RT_MPU_ATTR_DEVICE_NGNRNE :: u32 where "RT_MPU_ATTR_DEVICE_NGNRNE = RT_MPU_ATTR_DEVICE 0"
definition RT_MPU_ATTR_DEVICE_NGNRE :: u32 where "RT_MPU_ATTR_DEVICE_NGNRE = RT_MPU_ATTR_DEVICE 1"
definition RT_MPU_ATTR_DEVICE_NGRE :: u32 where "RT_MPU_ATTR_DEVICE_NGRE = RT_MPU_ATTR_DEVICE 2"
definition RT_MPU_ATTR_DEVICE_GRE :: u32 where "RT_MPU_ATTR_DEVICE_GRE = RT_MPU_ATTR_DEVICE 3"
definition RT_MPU_ATTR_WT_TRANSIENT :: "u32 \<Rightarrow> u32 \<Rightarrow> u32" where
  "RT_MPU_ATTR_WT_TRANSIENT r w = push_bit 1 r OR w"

definition ap_access_v8 :: "u32 \<Rightarrow> access \<times> access" where
  "ap_access_v8 ap =
     (if ap = 0 then (Read_write, No_access) else if ap = 1 then (Read_write, Read_write)
      else if ap = 2 then (Read_only, No_access) else (Read_only, Read_only))"

text \<open>
  On Armv8 one argument carries the attributes of both registers: the lower five bits go to the base
  address register, the next five to the limit register, and neither reaches the address.
\<close>

theorem region_attributes_v8:
  assumes n: "n \<noteq> 0"
  shows "take_bit 5 (RT_MPU_BASE_ADDR_v8 a attr) = take_bit 5 attr \<and>
    take_bit 5 (RT_MPU_LIMIT_ADDR a n attr) = take_bit 5 (drop_bit 5 attr) \<and>
    drop_bit 5 (RT_MPU_BASE_ADDR_v8 a attr) = drop_bit 5 a \<and>
    drop_bit 5 (RT_MPU_LIMIT_ADDR a n attr) = drop_bit 5 (a + n - 1)"
proof -
  have m: "(0x1F :: u32) = mask 5" by (simp add: mask_eq_exp_minus_1)
  show ?thesis
    unfolding RT_MPU_BASE_ADDR_v8_def RT_MPU_LIMIT_ADDR_def m using n
    by (intro conjI; intro bit_word_eqI; auto simp: bit_simps dest: bit_imp_le_length)
qed

theorem region_attributes_v8_witness:
  "take_bit 5 (RT_MPU_BASE_ADDR_v8 0x20000000 (RT_MPU_ATTR_RO_v8 OR RT_MPU_ATTR_INNER_SHAREABLE OR RT_MPU_ATTR_ENABLE_v8)) =
   take_bit 5 (RT_MPU_ATTR_RO_v8 OR RT_MPU_ATTR_INNER_SHAREABLE OR RT_MPU_ATTR_ENABLE_v8)"
  using region_attributes_v8 [of 32 "0x20000000"] by simp

section \<open>The coprocessor registers of the R-profile\<close>

datatype cp_reg =
  SCTLR | CPACR | PMCR | ACTLR | SACTLR | PMCCNTR | PMCNTENSET | PMCNTENCLR | DRBAR | DRSR | DRACR | RGNR

type_synonym coprocessor = "cp_reg \<Rightarrow> u32"

definition SCTLR_M :: u32 where "SCTLR_M = push_bit 0 1"
definition SCTLR_BR :: u32 where "SCTLR_BR = push_bit 17 1"
definition PMCR_E :: u32 where "PMCR_E = push_bit 0 1"
definition PMCR_C :: u32 where "PMCR_C = push_bit 2 1"
definition PMCNTEN_C :: u32 where "PMCNTEN_C = push_bit 31 1"

text \<open>
  What the instructions do. Bit 2 of \<^verbatim>\<open>pmcr\<close> resets the counter and reads as 0; the two registers that
  enable counters read alike, writing changes the bits that are 1.
\<close>

definition cp_get :: "cp_reg \<Rightarrow> coprocessor \<Rightarrow> u32" where
  "cp_get r c = c r"

definition cp_set :: "cp_reg \<Rightarrow> u32 \<Rightarrow> coprocessor \<Rightarrow> coprocessor" where
  "cp_set r x c =
     (case r of
        PMCR \<Rightarrow> c(PMCR := x AND NOT PMCR_C, PMCCNTR := (if x AND PMCR_C = 0 then c PMCCNTR else 0))
      | PMCNTENSET \<Rightarrow> c(PMCNTENSET := c PMCNTENSET OR x, PMCNTENCLR := c PMCNTENSET OR x)
      | PMCNTENCLR \<Rightarrow> c(PMCNTENSET := c PMCNTENSET AND NOT x, PMCNTENCLR := c PMCNTENSET AND NOT x)
      | _ \<Rightarrow> c(r := x))"

definition cp_oreq :: "cp_reg \<Rightarrow> u32 \<Rightarrow> coprocessor \<Rightarrow> coprocessor" where
  "cp_oreq r x c = cp_set r (cp_get r c OR x) c"

definition cp_andeq :: "cp_reg \<Rightarrow> u32 \<Rightarrow> coprocessor \<Rightarrow> coprocessor" where
  "cp_andeq r x c = cp_set r (cp_get r c AND x) c"

definition rt_mpu_enable_r :: "coprocessor \<Rightarrow> coprocessor" where
  "rt_mpu_enable_r c = cp_oreq SCTLR (SCTLR_M OR SCTLR_BR) c"

definition start_cycle_r :: "coprocessor \<Rightarrow> coprocessor" where
  "start_cycle_r c = cp_oreq PMCNTENSET PMCNTEN_C (cp_oreq PMCR (PMCR_E OR PMCR_C) c)"

definition rt_cycle_r :: "bool \<Rightarrow> coprocessor \<Rightarrow> u32" where
  "rt_cycle_r cycle_enable c = (if cycle_enable then cp_get PMCCNTR c else 0)"

text \<open>
  Turning the unit on changes nothing but its two bits. Once the scheduler has started, the counter is
  enabled and starts from 0.
\<close>

lemma rt_mpu_enable_r_bits:
  "bit (rt_mpu_enable_r c SCTLR) i \<longleftrightarrow> bit (c SCTLR) i \<or> i = 0 \<or> i = 17" "r \<noteq> SCTLR \<Longrightarrow> rt_mpu_enable_r c r = c r"
proof -
  have "bit (push_bit 17 1 :: u32) i \<longleftrightarrow> i = 17" "bit (push_bit 0 1 :: u32) i \<longleftrightarrow> i = 0"
    by (simp_all only: bit_push_bit_iff bit_1_iff) auto
  then show "bit (rt_mpu_enable_r c SCTLR) i \<longleftrightarrow> bit (c SCTLR) i \<or> i = 0 \<or> i = 17"
    by (auto simp only: rt_mpu_enable_r_def cp_oreq_def cp_set_def cp_get_def cp_reg.case fun_upd_same bit_or_iff SCTLR_M_def SCTLR_BR_def)
  show "r \<noteq> SCTLR \<Longrightarrow> rt_mpu_enable_r c r = c r" by (simp add: rt_mpu_enable_r_def cp_oreq_def cp_set_def)
qed

lemma start_cycle_r_counts:
  "rt_cycle_r True (start_cycle_r c) = 0" "bit (start_cycle_r c PMCR) 0" "bit (start_cycle_r c PMCNTENSET) 31"
  "r \<notin> {PMCR, PMCCNTR, PMCNTENSET, PMCNTENCLR} \<Longrightarrow> start_cycle_r c r = c r"
proof -
  have "(x OR (PMCR_E OR PMCR_C)) AND PMCR_C \<noteq> 0" for x
  proof -
    have "bit ((x OR (PMCR_E OR PMCR_C)) AND PMCR_C) 2" by (simp add: PMCR_C_def bit_simps)
    then show ?thesis by (metis bit_0_eq bot_apply bot_bool_def)
  qed
  then show "rt_cycle_r True (start_cycle_r c) = 0" "bit (start_cycle_r c PMCR) 0" "bit (start_cycle_r c PMCNTENSET) 31"
    "r \<notin> {PMCR, PMCCNTR, PMCNTENSET, PMCNTENCLR} \<Longrightarrow> start_cycle_r c r = c r"
    by (simp_all add: rt_cycle_r_def start_cycle_r_def cp_oreq_def cp_set_def cp_get_def PMCR_E_def PMCR_C_def PMCNTEN_C_def bit_simps)
qed

section \<open>The cycle counter of the M-profile\<close>

text \<open>The registers of the trace unit, which can be written after the key has been; the counter runs when both bits are set.\<close>

record dwt =
  dwt_unlocked :: bool
  demcr :: u32
  dwt_ctrl :: u32
  dwt_cyccnt :: u32

definition DWT_LAR_UNLOCK :: u32 where "DWT_LAR_UNLOCK = 0xC5ACCE55"
definition DEMCR_TRCENA :: u32 where "DEMCR_TRCENA = push_bit 24 1"
definition DWT_CTRL_CYCCNTENA :: u32 where "DWT_CTRL_CYCCNTENA = push_bit 0 1"

definition write_lar :: "u32 \<Rightarrow> dwt \<Rightarrow> dwt" where
  "write_lar x d = d\<lparr>dwt_unlocked := (x = DWT_LAR_UNLOCK)\<rparr>"

definition write_dwt_ctrl :: "u32 \<Rightarrow> dwt \<Rightarrow> dwt" where
  "write_dwt_ctrl x d = (if dwt_unlocked d then d\<lparr>dwt_ctrl := x\<rparr> else d)"

definition start_cycle_m :: "dwt \<Rightarrow> dwt" where
  "start_cycle_m d =
     (let d = write_lar DWT_LAR_UNLOCK d;
          d = d\<lparr>demcr := demcr d OR DEMCR_TRCENA\<rparr>
      in write_dwt_ctrl (dwt_ctrl d OR DWT_CTRL_CYCCNTENA) d)"

definition rt_cycle_m :: "bool \<Rightarrow> dwt \<Rightarrow> u32" where
  "rt_cycle_m cycle_enable d = (if cycle_enable then dwt_cyccnt d else 0)"

lemma start_cycle_m_counts:
  "bit (dwt_ctrl (start_cycle_m d)) 0" "bit (demcr (start_cycle_m d)) 24" "rt_cycle_m True (start_cycle_m d) = dwt_cyccnt d"
  by (simp_all add: start_cycle_m_def write_lar_def write_dwt_ctrl_def Let_def DWT_CTRL_CYCCNTENA_def DEMCR_TRCENA_def
      rt_cycle_m_def bit_simps)

end
