(* ===== verification/Rt_Pthread.thy ===== *)
theory Rt_Pthread
  imports Rt_Boot
begin

text \<open>
  The port to POSIX threads, \<^verbatim>\<open>arch/pthread/pthread.c\<close>: each task is a thread, system calls and ticks
  are signals, and a switch is a signal to the thread that goes on while the other one waits for
  one. The kernel is the model of \<open>Rt_Kernel\<close>; what a task does with it are the atomic steps of
  \<open>Rt_System\<close>.
\<close>

section \<open>Threads and signals\<close>

datatype signal = SIGTICK | SIGSYSCALL | SIGRESUME

text \<open>
  Where a thread is: in \<^verbatim>\<open>pthread_fn\<close>, in \<^verbatim>\<open>idle_fn\<close>, in \<^verbatim>\<open>rt_syscall_handler\<close>, in \<^verbatim>\<open>tick_handler\<close>
  or in \<^verbatim>\<open>resume_handler\<close>, before the call that the name says.
\<close>

datatype point =
  Fn_wait | Fn_unblock | Fn_run
| Idle_block | Idle_wait | Idle_kill signal | Idle_unblock
| Sys_run | Sys_block u32 | Sys_prev u32 | Sys_kill u32 | Sys_wait | Sys_unblock | Sys_ret
| Tick_run | Tick_ret
| Resume_error

text \<open>
  A thread has a mask of blocked signals, the signals pending for it, and the stack of its
  functions: a handler with the mask to restore on top of what it interrupted. \<open>fn_idle\<close> says that
  its function is \<^verbatim>\<open>idle_fn\<close>.
\<close>

record thread =
  sigmask :: "signal set"
  sigpend :: "signal set"
  frames :: "(point \<times> signal set) list"
  fn_idle :: bool

text \<open>
  The state of the process: the kernel with its tasks, the threads, whether the signal of the timer
  is pending for the process, \<^verbatim>\<open>rt_started\<close>, and whether \<^verbatim>\<open>rt_stop\<close> has been called.
\<close>

record process =
  conf :: config
  thr :: "u32 \<Rightarrow> thread option"
  tick_sig :: bool
  rt_started :: bool
  stopped :: bool

abbreviation all_signals :: "signal set" where
  "all_signals \<equiv> {SIGTICK, SIGSYSCALL, SIGRESUME}"

definition block_all_signals :: "thread \<Rightarrow> thread" where
  "block_all_signals th = th\<lparr>sigmask := sigmask th \<union> all_signals\<rparr>"

definition unblock_all_signals :: "thread \<Rightarrow> thread" where
  "unblock_all_signals th = th\<lparr>sigmask := sigmask th - all_signals\<rparr>"

definition pthread_kill :: "u32 \<Rightarrow> signal \<Rightarrow> process \<Rightarrow> process" where
  "pthread_kill x sg S =
     S\<lparr>thr := (thr S)(x := map_option (\<lambda>th. th\<lparr>sigpend := insert sg (sigpend th)\<rparr>) (thr S x))\<rparr>"

definition upd_thread :: "u32 \<Rightarrow> thread \<Rightarrow> process \<Rightarrow> process" where
  "upd_thread x th S = S\<lparr>thr := (thr S)(x \<mapsto> th)\<rparr>"

definition upd_kern :: "kernel \<Rightarrow> process \<Rightarrow> process" where
  "upd_kern k S = S\<lparr>conf := (conf S)\<lparr>kern := k\<rparr>\<rparr>"

definition goto :: "point \<Rightarrow> thread \<Rightarrow> thread" where
  "goto p th = th\<lparr>frames := (p, snd (hd (frames th))) # tl (frames th)\<rparr>"

definition take_signal :: "signal \<Rightarrow> thread \<Rightarrow> thread" where
  "take_signal sg th = th\<lparr>sigpend := sigpend th - {sg}\<rparr>"

text \<open>
  A thread goes on only when no signal that it does not block is pending for it: such a signal is
  delivered first (a signal that a thread sends to itself before \<^verbatim>\<open>pthread_kill\<close> returns).
\<close>

definition at_point :: "u32 \<Rightarrow> point \<Rightarrow> thread \<Rightarrow> process \<Rightarrow> bool" where
  "at_point x p th S \<longleftrightarrow> rt_started S \<and> \<not> stopped S \<and> thr S x = Some th \<and> frames th \<noteq> [] \<and>
     fst (hd (frames th)) = p \<and> sigpend th \<subseteq> sigmask th"

section \<open>The port\<close>

definition context_create_pt :: "u32 \<Rightarrow> bool \<Rightarrow> process \<Rightarrow> process" where
  "context_create_pt x idle S =
     upd_thread x \<lparr>sigmask = all_signals, sigpend = {}, frames = [(Fn_wait, {})], fn_idle = idle\<rparr> S"

text \<open>
  The kernel model notes a call of \<^verbatim>\<open>rt_syscall_pend\<close> in a flag. The port sends the signal to the
  calling thread, or nothing before \<^verbatim>\<open>rt_start\<close>.
\<close>

definition rt_syscall_pend_pt :: "u32 \<Rightarrow> process \<Rightarrow> process" where
  "rt_syscall_pend_pt x S =
     (if syscall_pended (kern (conf S))
      then let S = upd_kern ((kern (conf S))\<lparr>syscall_pended := False\<rparr>) S
           in if rt_started S then pthread_kill x SIGSYSCALL S else S
      else S)"

definition add_task :: "task_id \<Rightarrow> u32 \<Rightarrow> string \<Rightarrow> u32 \<Rightarrow> process \<Rightarrow> process" where
  "add_task t c nm p S =
     (let S = context_create_pt c False S
      in S\<lparr>conf := (conf S)\<lparr>kern := rt_task_init t c nm p (kern (conf S)), created := insert t (created (conf S))\<rparr>\<rparr>)"

text \<open>What a task may do with the kernel between two of its atomic steps.\<close>

inductive task_op :: "config \<Rightarrow> config \<Rightarrow> bool" where
  op_sem_init: "m \<notin> initialised g \<Longrightarrow> m \<noteq> NULL \<Longrightarrow>
    task_op g (g\<lparr>kern := rt_sem_init_max m v mx (kern g), initialised := insert m (initialised g)\<rparr>)"
| op_wait_value: "m \<in> initialised g \<Longrightarrow> task_op g (g\<lparr>kern := fst (sem_fetch_sub m (kern g))\<rparr>)"
| op_trywait: "m \<in> initialised g \<Longrightarrow> task_op g (g\<lparr>kern := fst (rt_sem_trywait m (kern g))\<rparr>)"
| op_post_value: "m \<in> initialised g \<Longrightarrow> sem_value (sem (kern g) m) \<ge> 0 \<Longrightarrow>
    task_op g (g\<lparr>kern := rt_sem_add_n m n (kern g)\<rparr>)"
| op_call: "call_args (initialised g) c x \<Longrightarrow> task_op g (g\<lparr>kern := submit c x (kern g)\<rparr>)"
| op_yield: "task_op g (g\<lparr>kern := rt_task_yield (kern g)\<rparr>)"

definition rt_stop_pt :: "u32 \<Rightarrow> thread \<Rightarrow> process \<Rightarrow> process" where
  "rt_stop_pt x th S = (upd_thread x (block_all_signals th) S)\<lparr>stopped := True\<rparr>"

text \<open>A task's thread. The end of its function is a call of \<^verbatim>\<open>rt_task_exit\<close>.\<close>

inductive pthread_fn :: "u32 \<Rightarrow> process \<Rightarrow> process \<Rightarrow> bool" where
  fn_wait: "at_point x Fn_wait th S \<Longrightarrow> SIGRESUME \<in> sigpend th \<Longrightarrow>
    pthread_fn x S (upd_thread x (goto Fn_unblock (take_signal SIGRESUME th)) S)"
| fn_unblock: "at_point x Fn_unblock th S \<Longrightarrow>
    pthread_fn x S (upd_thread x (goto (if fn_idle th then Idle_block else Fn_run) (unblock_all_signals th)) S)"
| fn_op: "at_point x Fn_run th S \<Longrightarrow> task_op (conf S) g \<Longrightarrow>
    pthread_fn x S (rt_syscall_pend_pt x (S\<lparr>conf := g\<rparr>))"
| fn_create: "at_point x Fn_run th S \<Longrightarrow> thr S c = None \<Longrightarrow> c \<noteq> NULL \<Longrightarrow> t \<notin> created (conf S) \<Longrightarrow> can_wait t \<Longrightarrow>
    pthread_fn x S (rt_syscall_pend_pt x (add_task t c nm p S))"
| fn_stop: "at_point x Fn_run th S \<Longrightarrow>
    pthread_fn x S (rt_stop_pt x th S)"

inductive rt_syscall_handler_pt :: "u32 \<Rightarrow> process \<Rightarrow> process \<Rightarrow> bool" where
  sys_run: "at_point x Sys_run th S \<Longrightarrow> rt_syscall_run (kern (conf S)) = Some (s', c) \<Longrightarrow>
    rt_syscall_handler_pt x S (upd_thread x (goto (if c = NULL then Sys_ret else Sys_block c) th) (upd_kern s' S))"
| sys_block: "at_point x (Sys_block c) th S \<Longrightarrow>
    rt_syscall_handler_pt x S (upd_thread x (goto (Sys_prev c) (block_all_signals th)) S)"
| sys_prev: "at_point x (Sys_prev c) th S \<Longrightarrow> rt_context_prev (kern (conf S)) = Some t \<Longrightarrow>
    rt_syscall_handler_pt x S
      (upd_thread x (goto (Sys_kill c) th) (upd_kern (upd_task t (\<lambda>k. k\<lparr>ctx := x\<rparr>) (kern (conf S))) S))"
| sys_kill: "at_point x (Sys_kill c) th S \<Longrightarrow>
    rt_syscall_handler_pt x S (pthread_kill c SIGRESUME (upd_thread x (goto Sys_wait th) S))"
| sys_wait: "at_point x Sys_wait th S \<Longrightarrow> SIGRESUME \<in> sigpend th \<Longrightarrow>
    rt_syscall_handler_pt x S (upd_thread x (goto Sys_unblock (take_signal SIGRESUME th)) S)"
| sys_unblock: "at_point x Sys_unblock th S \<Longrightarrow>
    rt_syscall_handler_pt x S (upd_thread x (goto Sys_ret (unblock_all_signals th)) S)"

definition tick_handler :: "u32 \<Rightarrow> thread \<Rightarrow> process \<Rightarrow> process" where
  "tick_handler x th S =
     rt_syscall_pend_pt x (upd_thread x (goto Tick_ret th) (upd_kern (rt_tick_advance (kern (conf S))) S))"

inductive idle_fn :: "u32 \<Rightarrow> process \<Rightarrow> process \<Rightarrow> bool" where
  idle_block: "at_point x Idle_block th S \<Longrightarrow>
    idle_fn x S (upd_thread x (goto Idle_wait (block_all_signals th)) S)"
| idle_wait: "at_point x Idle_wait th S \<Longrightarrow> sg \<in> sigpend th \<Longrightarrow>
    idle_fn x S (upd_thread x (goto (Idle_kill sg) (take_signal sg th)) S)"
| idle_wait_timer: "at_point x Idle_wait th S \<Longrightarrow> tick_sig S \<Longrightarrow>
    idle_fn x S (upd_thread x (goto (Idle_kill SIGTICK) th) (S\<lparr>tick_sig := False\<rparr>))"
| idle_kill: "at_point x (Idle_kill sg) th S \<Longrightarrow>
    idle_fn x S (pthread_kill x sg (upd_thread x (goto Idle_unblock th) S))"
| idle_unblock: "at_point x Idle_unblock th S \<Longrightarrow>
    idle_fn x S (upd_thread x (goto Idle_block (unblock_all_signals th)) S)"

text \<open>The actions that \<^verbatim>\<open>rt_start\<close> installs: each handler with the signals it blocks beside its own.\<close>

fun sa_handler :: "signal \<Rightarrow> point" where
  "sa_handler SIGTICK = Tick_run"
| "sa_handler SIGSYSCALL = Sys_run"
| "sa_handler SIGRESUME = Resume_error"

fun sa_mask :: "signal \<Rightarrow> signal set" where
  "sa_mask SIGTICK = {SIGSYSCALL}"
| "sa_mask SIGSYSCALL = {}"
| "sa_mask SIGRESUME = all_signals"

definition rt_start_pt :: "u32 \<Rightarrow> process \<Rightarrow> process" where
  "rt_start_pt i S =
     (let S = context_create_pt i True S;
          S = S\<lparr>rt_started := True\<rparr>;
          S = pthread_kill i SIGRESUME S
      in pthread_kill i SIGSYSCALL S)"

text \<open>How a signal is delivered and how a handler returns.\<close>

definition enter :: "signal \<Rightarrow> thread \<Rightarrow> thread" where
  "enter sg th = th\<lparr>sigmask := insert sg (sigmask th \<union> sa_mask sg), frames := (sa_handler sg, sigmask th) # frames th\<rparr>"

definition sigreturn :: "thread \<Rightarrow> thread" where
  "sigreturn th = th\<lparr>sigmask := snd (hd (frames th)), frames := tl (frames th)\<rparr>"

text \<open>
  A step of the process. Before \<^verbatim>\<open>rt_start\<close> the main thread creates tasks and semaphores. The
  identifier of a new thread is not that of another one and not null. \<^verbatim>\<open>rt_stop\<close> ends the model.
\<close>

inductive pstep :: "process \<Rightarrow> process \<Rightarrow> bool" where
  main_create: "\<not> rt_started S \<Longrightarrow> thr S c = None \<Longrightarrow> c \<noteq> NULL \<Longrightarrow> t \<notin> created (conf S) \<Longrightarrow> can_wait t \<Longrightarrow>
    pstep S (rt_syscall_pend_pt x (add_task t c nm p S))"
| main_sem_init: "\<not> rt_started S \<Longrightarrow> m \<notin> initialised (conf S) \<Longrightarrow> m \<noteq> NULL \<Longrightarrow>
    pstep S (S\<lparr>conf := (conf S)\<lparr>kern := rt_sem_init_max m v mx (kern (conf S)),
      initialised := insert m (initialised (conf S))\<rparr>\<rparr>)"
| main_start: "\<not> rt_started S \<Longrightarrow> thr S i = None \<Longrightarrow> i \<noteq> NULL \<Longrightarrow> pstep S (rt_start_pt i S)"
| timer: "rt_started S \<Longrightarrow> \<not> stopped S \<Longrightarrow> pstep S (S\<lparr>tick_sig := True\<rparr>)"
| deliver: "rt_started S \<Longrightarrow> \<not> stopped S \<Longrightarrow> thr S x = Some th \<Longrightarrow> sg \<in> sigpend th \<Longrightarrow> sg \<notin> sigmask th \<Longrightarrow>
    pstep S (upd_thread x (enter sg (take_signal sg th)) S)"
| deliver_timer: "rt_started S \<Longrightarrow> \<not> stopped S \<Longrightarrow> thr S x = Some th \<Longrightarrow> tick_sig S \<Longrightarrow> SIGTICK \<notin> sigmask th \<Longrightarrow>
    pstep S (upd_thread x (enter SIGTICK th) (S\<lparr>tick_sig := False\<rparr>))"
| handler_return: "at_point x p th S \<Longrightarrow> p = Sys_ret \<or> p = Tick_ret \<Longrightarrow> pstep S (upd_thread x (sigreturn th) S)"
| pthread_fn_step: "pthread_fn x S S' \<Longrightarrow> pstep S S'"
| syscall_step: "rt_syscall_handler_pt x S S' \<Longrightarrow> pstep S S'"
| tick_step: "at_point x Tick_run th S \<Longrightarrow> pstep S (tick_handler x th S)"
| idle_step: "idle_fn x S S' \<Longrightarrow> pstep S S'"

definition process_init :: process where
  "process_init = \<lparr>conf = config_init, thr = (\<lambda>_. None), tick_sig = False, rt_started = False, stopped = False\<rparr>"

definition process_reachable :: "process \<Rightarrow> bool" where
  "process_reachable S \<longleftrightarrow> pstep\<^sup>*\<^sup>* process_init S"

section \<open>What the port relies on in the kernel\<close>

definition conf_ok :: "config \<Rightarrow> queues \<Rightarrow> rec_id list \<Rightarrow> bool" where
  "conf_ok g A rs \<longleftrightarrow> system_ok (kern g) A rs \<and> q_tasks A = created g \<and> dom (q_wait A) = initialised g \<and>
     NULL \<notin> initialised g"

lemma run_switches:
  assumes s: "system_ok s A rs" and run: "rt_syscall_run s = Some (s', c)"
  shows "\<exists>B. system_ok s' B [] \<and> q_tasks B = q_tasks A \<and> dom (q_wait B) = dom (q_wait A)"
    "ctx (task s' t) = ctx (task s t)" "active_task s' \<in> q_tasks A"
    "active_task s' = active_task s \<Longrightarrow> c = NULL"
    "active_task s' \<noteq> active_task s \<Longrightarrow> c = ctx (task s (active_task s')) \<and> rt_context_prev s' = Some (active_task s)"
proof -
  note k = system_okD [OF s]
  from run_keeps [OF s] run obtain B where B: "system_ok s' B []" "q_tasks B = q_tasks A" "dom (q_wait B) = dom (q_wait A)"
    by auto
  then show "\<exists>B. system_ok s' B [] \<and> q_tasks B = q_tasks A \<and> dom (q_wait B) = dom (q_wait A)" by blast
  show "active_task s' \<in> q_tasks A" using kernel_okD(5) [OF system_okD(1) [OF B(1)]] B(2) by simp
  from rt_syscall_run_through [OF k(1)] run obtain s1 A1 C where
    th: "run_through rs s A s1 A1 s' C c" "active_task s1 = active_task s" by auto
  then have ran: "ran_all rs (s\<lparr>pending_syscalls := None\<rparr>) A s1 A1" and sc: "scheduled s1 A1 s' C c"
    by (simp_all add: run_through_def)
  have fr: "kframe (s1\<lparr>active_task := active_task s', rt_context_prev := rt_context_prev s'\<rparr>) s'"
    using sc by (simp add: scheduled_def)
  have c1: "ctx (task s1 t) = ctx (task s t)" for t using ran by (simp add: ran_all_def hframe_def)
  then show "ctx (task s' t) = ctx (task s t)" using kframe_task(1) [OF fr] by simp
  show "active_task s' = active_task s \<Longrightarrow> c = NULL"
    "active_task s' \<noteq> active_task s \<Longrightarrow> c = ctx (task s (active_task s')) \<and> rt_context_prev s' = Some (active_task s)"
    using sc th(2) c1 by (simp_all add: scheduled_def)
qed

lemma upd_ctx_system_ok:
  assumes "system_ok s A rs"
  shows "system_ok (upd_task t (\<lambda>k. k\<lparr>ctx := x\<rparr>) s) A rs"
proof -
  let ?s = "upd_task t (\<lambda>k. k\<lparr>ctx := x\<rparr>) s"
  note k = kernel_okD [OF system_okD(1) [OF assms]]
  have gr: "get_record ?s r = get_record s r" for r by (cases r) (simp_all add: kernel_simps)
  have "refines ?s A" using k(1) by (simp add: refines_def kernel_simps)
  moreover have "queues_ok {} ?s A"
  proof -
    have "priority (task ?s u) = priority (task s u)" "wake_tick (task ?s u) = wake_tick (task s u)"
      "task_record (task ?s u) = task_record (task s u)" "woken_tick ?s = woken_tick s" for u
      by (simp_all add: kernel_simps)
    then have "higher ?s = higher s" "sooner ?s = sooner s" "waits_on ?s = waits_on s" "sleeps ?s = sleeps s"
      by (simp_all only: fun_eq_iff higher_def sooner_def waits_on_def sleeps_def simp_thms)
    then show ?thesis using k(2) by (simp add: queues_ok_def ordered_by_def)
  qed
  moreover have "counts ?s A" "idle_ok ?s A" using k(3,4) by (simp_all add: counts_def idle_ok_def kernel_simps)
  moreover have "pending_ok ?s A rs" using k(7) by (rule pending_ok_grow) (simp_all add: gr kernel_simps)
  ultimately show ?thesis
    using k(5,6) system_okD(2,3) [OF assms] by (simp add: system_ok_def kernel_ok_def kernel_simps flags_ok_def posts_ok_def)
qed

lemma rt_tick_advance_sel:
  "active_task (rt_tick_advance s) = active_task s" "rt_context_prev (rt_tick_advance s) = rt_context_prev s"
  "tasks (rt_tick_advance s) = tasks s" "woken_tick (rt_tick_advance s) = woken_tick s"
  "tick_pending s \<Longrightarrow> syscall_pended (rt_tick_advance s) = syscall_pended s" "tick_pending (rt_tick_advance s)"
  by (simp_all add: rt_tick_advance_def rt_syscall_def rt_syscall_pend_def Let_def kernel_simps)

lemma task_op_sel:
  assumes "task_op g g'"
  shows "created g' = created g" "active_task (kern g') = active_task (kern g)"
    "ctx (task (kern g') t) = ctx (task (kern g) t)"
proof -
  have s: "active_task (submit c x s) = active_task s" "ctx (task (submit c x s) t) = ctx (task s t)" for c x s
    by (simp_all add: submit_def Let_def rt_syscall_def rt_syscall_pend_def kernel_simps)
  from assms show "created g' = created g" "active_task (kern g') = active_task (kern g)"
    "ctx (task (kern g') t) = ctx (task (kern g) t)"
    by (cases; simp add: s rt_sem_init_max_def sem_fetch_sub_def rt_sem_trywait_def rt_sem_add_n_def rt_task_yield_def
        rt_syscall_pend_def Let_def kernel_simps)+
qed

lemma task_op_ok:
  assumes ok: "conf_ok g A rs" and c: "caller_ok (kern g) rs" and op: "task_op g g'"
  shows "\<exists>A' rs'. conf_ok g' A' rs' \<and> (syscall_pended (kern g') \<or> rs' = rs)"
proof -
  have s: "system_ok (kern g) A rs" and T: "q_tasks A = created g" and M: "dom (q_wait A) = initialised g"
    and N: "NULL \<notin> initialised g"
    using ok by (simp_all add: conf_ok_def)
  have keep: "\<exists>A' rs'. conf_ok (g\<lparr>kern := k\<rparr>) A' rs' \<and> (syscall_pended k \<or> rs' = rs)"
    if "system_ok k A rs'" "syscall_pended k \<or> rs' = rs" for k rs'
    using that T M N unfolding conf_ok_def by auto
  from op show ?thesis
  proof cases
    case (op_sem_init m v mx)
    then have "q_wait A m = None" using M by blast
    then have "conf_ok g' (A\<lparr>q_wait := (q_wait A)(m \<mapsto> [])\<rparr>) rs"
      using create_sem_keeps [OF s, of m v mx] op_sem_init T M N by (simp add: conf_ok_def)
    then show ?thesis by blast
  next
    case (op_wait_value m)
    then show ?thesis using keep [OF sem_fetch_sub_ok(1) [OF s, of m]] by simp
  next
    case (op_trywait m)
    then show ?thesis using keep [OF rt_sem_trywait_ok [OF s, of m]] by simp
  next
    case (op_post_value m n)
    then show ?thesis using keep [OF rt_sem_add_n_ok [OF s, of m n]] by simp
  next
    case (op_call call x)
    let ?r = "Task_record (active_task (kern g))"
    have "call_ok (upd_record ?r (syscall_update (\<lambda>_. call)) (upd_record ?r (args_update (\<lambda>_. x)) (kern g))) A ?r"
      using op_call(2) M by (cases call) (auto simp: call_ok_def kernel_simps)
    then have "system_ok (submit call x (kern g)) A (?r # rs)"
      using submit_system_ok [OF s c] unfolding submit_def Let_def by blast
    moreover have "syscall_pended (submit call x (kern g))"
      by (simp add: submit_def Let_def rt_syscall_def rt_syscall_pend_def)
    ultimately show ?thesis using keep [of "submit call x (kern g)" "?r # rs"] op_call(1) by simp
  next
    case op_yield
    then show ?thesis using keep [of "rt_task_yield (kern g)" rs] s
      by (simp add: rt_task_yield_def rt_syscall_pend_def system_ok_processor)
  qed
qed

section \<open>The shape of a thread\<close>

text \<open>
  The masks a thread has at each point. The lowest frame is the thread's function; a handler
  interrupts only what does not block its signal.
\<close>

fun base_mask :: "bool \<Rightarrow> point \<Rightarrow> signal set option" where
  "base_mask i Fn_wait = Some all_signals"
| "base_mask i Fn_unblock = Some all_signals"
| "base_mask i Fn_run = (if i then None else Some {})"
| "base_mask i Idle_block = (if i then Some {} else None)"
| "base_mask i Idle_wait = (if i then Some all_signals else None)"
| "base_mask i (Idle_kill sg) = (if i \<and> sg \<noteq> SIGRESUME then Some all_signals else None)"
| "base_mask i Idle_unblock = (if i then Some all_signals else None)"
| "base_mask i _ = None"

fun handler_masks :: "signal set \<Rightarrow> point \<Rightarrow> signal set set" where
  "handler_masks s Sys_run = (if SIGSYSCALL \<in> s then {} else {{SIGSYSCALL}})"
| "handler_masks s (Sys_block c) = (if SIGSYSCALL \<in> s then {} else {{SIGSYSCALL}})"
| "handler_masks s (Sys_prev c) = (if SIGSYSCALL \<in> s then {} else {all_signals})"
| "handler_masks s (Sys_kill c) = (if SIGSYSCALL \<in> s then {} else {all_signals})"
| "handler_masks s Sys_wait = (if SIGSYSCALL \<in> s then {} else {all_signals})"
| "handler_masks s Sys_unblock = (if SIGSYSCALL \<in> s then {} else {all_signals})"
| "handler_masks s Sys_ret = (if SIGSYSCALL \<in> s then {} else {{}, {SIGSYSCALL}})"
| "handler_masks s Tick_run = (if SIGTICK \<in> s then {} else {s \<union> {SIGTICK, SIGSYSCALL}})"
| "handler_masks s Tick_ret = (if SIGTICK \<in> s then {} else {s \<union> {SIGTICK, SIGSYSCALL}})"
| "handler_masks s _ = {}"

fun wf_frames :: "bool \<Rightarrow> signal set \<Rightarrow> (point \<times> signal set) list \<Rightarrow> bool" where
  "wf_frames i m [] \<longleftrightarrow> False"
| "wf_frames i m [(p, s)] \<longleftrightarrow> base_mask i p = Some m"
| "wf_frames i m ((p, s) # f # fs) \<longleftrightarrow> m \<in> handler_masks s p \<and> wf_frames i s (f # fs)"

definition wf_thread :: "thread \<Rightarrow> bool" where
  "wf_thread th \<longleftrightarrow> wf_frames (fn_idle th) (sigmask th) (frames th)"

definition waiting :: "thread \<Rightarrow> bool" where
  "waiting th \<longleftrightarrow> frames th \<noteq> [] \<and> fst (hd (frames th)) \<in> {Fn_wait, Sys_wait}"

text \<open>The switch that a thread is about to make, and whether it has noted itself in the task's context yet.\<close>

fun switching :: "(point \<times> signal set) list \<Rightarrow> (bool \<times> u32) option" where
  "switching ((Sys_block c, s) # fs) = Some (False, c)"
| "switching ((Sys_prev c, s) # fs) = Some (False, c)"
| "switching ((Sys_kill c, s) # fs) = Some (True, c)"
| "switching ((Tick_run, s) # fs) = switching fs"
| "switching ((Tick_ret, s) # fs) = switching fs"
| "switching _ = None"

text \<open>The thread is about to run the kernel's handler.\<close>

fun to_run :: "(point \<times> signal set) list \<Rightarrow> bool" where
  "to_run ((Sys_run, s) # fs) \<longleftrightarrow> True"
| "to_run ((Idle_kill SIGSYSCALL, s) # fs) \<longleftrightarrow> True"
| "to_run ((Tick_run, s) # fs) \<longleftrightarrow> to_run fs"
| "to_run ((Tick_ret, s) # fs) \<longleftrightarrow> to_run fs"
| "to_run _ \<longleftrightarrow> False"

lemma wf_frames_Cons:
  "wf_frames i m ((p, s) # fs) \<longleftrightarrow>
     (if fs = [] then base_mask i p = Some m else m \<in> handler_masks s p \<and> wf_frames i s fs)"
  by (cases fs) auto

lemma wf_frames_masks:
  assumes "wf_frames i m fs"
  shows "m \<in> {{}, {SIGSYSCALL}, {SIGTICK, SIGSYSCALL}, all_signals}"
  using assms
proof (induction fs arbitrary: m)
  case (Cons f fs)
  obtain p s where f: "f = (p, s)" by (cases f)
  show ?case
  proof (cases "fs = []")
    case True
    then show ?thesis using Cons.prems by (cases p) (auto simp: f split: if_splits)
  next
    case False
    then have m: "m \<in> handler_masks s p" "wf_frames i s fs" using Cons.prems by (auto simp: f wf_frames_Cons)
    then show ?thesis using Cons.IH [OF m(2)] by (cases p) (auto split: if_splits)
  qed
qed simp

section \<open>The invariant\<close>

abbreviation ctx_of :: "process \<Rightarrow> task_id \<Rightarrow> u32" where
  "ctx_of S t \<equiv> ctx (task (kern (conf S)) t)"

text \<open>
  The thread \<open>l\<close> is that of the task \<open>t\<close>; the contexts of the other tasks are their threads, which
  are all different.
\<close>

definition owns :: "process \<Rightarrow> u32 \<Rightarrow> task_id \<Rightarrow> bool \<Rightarrow> bool" where
  "owns S l t idle \<longleftrightarrow> (idle \<longleftrightarrow> t = Idle_task) \<and> t \<in> created (conf S) \<and>
     inj_on (ctx_of S) (created (conf S) - {t}) \<and>
     (\<forall>u \<in> created (conf S) - {t}. ctx_of S u \<noteq> l \<and>
        (\<exists>th. thr S (ctx_of S u) = Some th \<and> (fn_idle th \<longleftrightarrow> u = Idle_task)))"

definition resting :: "thread \<Rightarrow> bool" where
  "resting th \<longleftrightarrow> wf_thread th \<and> waiting th \<and> SIGRESUME \<notin> sigpend th"

definition switch_ok :: "process \<Rightarrow> u32 \<Rightarrow> bool \<Rightarrow> rec_id list \<Rightarrow> bool \<times> u32 \<Rightarrow> bool" where
  "switch_ok S l idle rs = (\<lambda>(k, c). set rs \<subseteq> {Tick_record} \<and>
     (\<exists>t. rt_context_prev (kern (conf S)) = Some t \<and> t \<noteq> active_task (kern (conf S)) \<and>
        ctx_of S (active_task (kern (conf S))) = c \<and> owns S l t idle \<and> (k \<longrightarrow> ctx_of S t = l)))"

definition handled_soon :: "thread \<Rightarrow> bool" where
  "handled_soon th \<longleftrightarrow> SIGSYSCALL \<in> sigpend th \<or> to_run (frames th)"

definition live_ok :: "process \<Rightarrow> u32 \<Rightarrow> thread \<Rightarrow> rec_id list \<Rightarrow> bool" where
  "live_ok S l th rs \<longleftrightarrow> wf_thread th \<and> (SIGRESUME \<in> sigpend th \<longleftrightarrow> waiting th) \<and>
     (case switching (frames th) of
        None \<Rightarrow> owns S l (active_task (kern (conf S))) (fn_idle th) \<and> (set rs \<subseteq> {Tick_record} \<or> handled_soon th)
      | Some kc \<Rightarrow> switch_ok S l (fn_idle th) rs kc)"

text \<open>The live thread is \<open>l\<close>; all others rest.\<close>

definition inv_at :: "process \<Rightarrow> u32 \<Rightarrow> thread \<Rightarrow> queues \<Rightarrow> rec_id list \<Rightarrow> bool" where
  "inv_at S l th A rs \<longleftrightarrow> rt_started S \<and> conf_ok (conf S) A rs \<and> thr S NULL = None \<and>
     (\<forall>t \<in> created (conf S). t = Idle_task \<or> can_wait t) \<and> thr S l = Some th \<and> live_ok S l th rs \<and>
     (\<forall>x th'. thr S x = Some th' \<and> x \<noteq> l \<longrightarrow> resting th')"

lemma inv_atD:
  assumes "inv_at S l th A rs"
  shows "rt_started S" "conf_ok (conf S) A rs" "thr S NULL = None" "\<forall>t \<in> created (conf S). t = Idle_task \<or> can_wait t"
    "thr S l = Some th" "live_ok S l th rs" "thr S x = Some th' \<Longrightarrow> x \<noteq> l \<Longrightarrow> resting th'"
    "active_task (kern (conf S)) \<in> created (conf S)"
  using assms kernel_okD(5) [OF system_okD(1)] by (auto simp: inv_at_def conf_ok_def)

lemma resting_blocked:
  assumes "resting th" shows "sigmask th = all_signals" "fst (hd (frames th)) \<in> {Fn_wait, Sys_wait}"
proof -
  obtain p s fs where "frames th = (p, s) # fs" using assms by (cases "frames th") (auto simp: resting_def waiting_def)
  then show "sigmask th = all_signals" "fst (hd (frames th)) \<in> {Fn_wait, Sys_wait}"
    using assms by (auto simp: resting_def waiting_def wf_thread_def wf_frames_Cons split: if_splits)
qed

text \<open>Only the live thread makes steps.\<close>

lemma at_point_live:
  assumes "inv_at S l th A rs" and "at_point x p th' S" and "p \<in> {Fn_wait, Sys_wait} \<Longrightarrow> SIGRESUME \<in> sigpend th'"
  shows "x = l" "th' = th"
proof -
  have t: "thr S x = Some th'" "fst (hd (frames th')) = p" using assms(2) by (simp_all add: at_point_def)
  show "x = l"
  proof (rule ccontr)
    assume "x \<noteq> l"
    then have "resting th'" using inv_atD(7) [OF assms(1) t(1)] by simp
    then show False using resting_blocked(2) t(2) assms(3) by (auto simp: resting_def)
  qed
  then show "th' = th" using t(1) inv_atD(5) [OF assms(1)] by simp
qed

lemma at_point_frames:
  assumes "at_point x p th S" obtains s fs where "frames th = (p, s) # fs" "sigpend th \<subseteq> sigmask th"
  using assms unfolding at_point_def by (cases "frames th") auto

lemma owns_upd_thread [simp]:
  "owns (upd_thread l th S) l t idle = owns S l t idle"
  by (auto simp: owns_def upd_thread_def)

lemma upd_thread_sel [simp]:
  "conf (upd_thread x th S) = conf S" "rt_started (upd_thread x th S) = rt_started S"
  "stopped (upd_thread x th S) = stopped S" "tick_sig (upd_thread x th S) = tick_sig S"
  "thr (upd_thread x th S) = (thr S)(x \<mapsto> th)"
  by (simp_all add: upd_thread_def)

lemma inv_upd_live:
  assumes inv: "inv_at S l th A rs" and wf: "wf_thread th'" "fn_idle th' = fn_idle th"
    and res: "SIGRESUME \<in> sigpend th' \<longleftrightarrow> waiting th'" and sw: "switching (frames th') = switching (frames th)"
    and soon: "switching (frames th) = None \<Longrightarrow> handled_soon th \<Longrightarrow> handled_soon th'"
  shows "inv_at (upd_thread l th' S) l th' A rs"
proof -
  have "live_ok (upd_thread l th' S) l th' rs"
    using inv_atD(6) [OF inv] wf res sw soon
    by (auto simp: live_ok_def switch_ok_def split: option.splits)
  then show ?thesis using inv inv_atD(3,5) [OF inv] by (auto simp: inv_at_def)
qed

lemma inv_tick_sig [simp]: "inv_at (S\<lparr>tick_sig := b\<rparr>) l th A rs = inv_at S l th A rs"
  by (simp add: inv_at_def live_ok_def switch_ok_def owns_def split: option.splits)

lemmas thread_simps = goto_def take_signal_def block_all_signals_def unblock_all_signals_def wf_thread_def wf_frames_Cons
  waiting_def handled_soon_def

text \<open>What a handler may interrupt: not a thread that waits, and for a system call not a switch.\<close>

lemma wf_frames_interrupted:
  assumes "wf_frames i m fs"
  shows "SIGTICK \<notin> m \<Longrightarrow> fst (hd fs) \<notin> {Fn_wait, Sys_wait}" "SIGSYSCALL \<notin> m \<Longrightarrow> fst (hd fs) \<notin> {Fn_wait, Sys_wait}"
    "SIGSYSCALL \<notin> m \<Longrightarrow> switching fs = None"
proof -
  obtain p s gs where f: "fs = (p, s) # gs" using assms by (cases fs) auto
  show "SIGTICK \<notin> m \<Longrightarrow> fst (hd fs) \<notin> {Fn_wait, Sys_wait}" "SIGSYSCALL \<notin> m \<Longrightarrow> fst (hd fs) \<notin> {Fn_wait, Sys_wait}"
    "SIGSYSCALL \<notin> m \<Longrightarrow> switching fs = None"
    using assms unfolding f wf_frames_Cons by (cases p; auto split: if_splits)+
qed

text \<open>Steps that change only the live thread.\<close>

lemma fn_local:
  assumes inv: "inv_at S l th A rs" and at: "at_point l p th S"
  shows "p = Fn_wait \<Longrightarrow> SIGRESUME \<in> sigpend th \<Longrightarrow>
      inv_at (upd_thread l (goto Fn_unblock (take_signal SIGRESUME th)) S) l (goto Fn_unblock (take_signal SIGRESUME th)) A rs"
    "p = Fn_unblock \<Longrightarrow>
      inv_at (upd_thread l (goto (if fn_idle th then Idle_block else Fn_run) (unblock_all_signals th)) S)
        l (goto (if fn_idle th then Idle_block else Fn_run) (unblock_all_signals th)) A rs"
proof -
  obtain s fs where f: "frames th = (p, s) # fs" "sigpend th \<subseteq> sigmask th" using at by (rule at_point_frames)
  have th: "wf_thread th" "SIGRESUME \<in> sigpend th \<longleftrightarrow> waiting th" using inv_atD(6) [OF inv] by (simp_all add: live_ok_def)
  show "p = Fn_wait \<Longrightarrow> SIGRESUME \<in> sigpend th \<Longrightarrow>
      inv_at (upd_thread l (goto Fn_unblock (take_signal SIGRESUME th)) S) l (goto Fn_unblock (take_signal SIGRESUME th)) A rs"
    using th f by (intro inv_upd_live [OF inv]) (auto simp: thread_simps split: if_splits)
  show "p = Fn_unblock \<Longrightarrow>
      inv_at (upd_thread l (goto (if fn_idle th then Idle_block else Fn_run) (unblock_all_signals th)) S)
        l (goto (if fn_idle th then Idle_block else Fn_run) (unblock_all_signals th)) A rs"
    using th f by (intro inv_upd_live [OF inv]) (auto simp: thread_simps split: if_splits)
qed

lemma sys_local:
  assumes inv: "inv_at S l th A rs" and at: "at_point l p th S"
  shows "p = Sys_block c \<Longrightarrow>
      inv_at (upd_thread l (goto (Sys_prev c) (block_all_signals th)) S) l (goto (Sys_prev c) (block_all_signals th)) A rs"
    "p = Sys_wait \<Longrightarrow> SIGRESUME \<in> sigpend th \<Longrightarrow>
      inv_at (upd_thread l (goto Sys_unblock (take_signal SIGRESUME th)) S) l (goto Sys_unblock (take_signal SIGRESUME th)) A rs"
    "p = Sys_unblock \<Longrightarrow>
      inv_at (upd_thread l (goto Sys_ret (unblock_all_signals th)) S) l (goto Sys_ret (unblock_all_signals th)) A rs"
    "p = Sys_ret \<or> p = Tick_ret \<Longrightarrow> inv_at (upd_thread l (sigreturn th) S) l (sigreturn th) A rs"
proof -
  obtain s fs where f: "frames th = (p, s) # fs" "sigpend th \<subseteq> sigmask th" using at by (rule at_point_frames)
  have th: "wf_thread th" "SIGRESUME \<in> sigpend th \<longleftrightarrow> waiting th" using inv_atD(6) [OF inv] by (simp_all add: live_ok_def)
  show "p = Sys_block c \<Longrightarrow>
      inv_at (upd_thread l (goto (Sys_prev c) (block_all_signals th)) S) l (goto (Sys_prev c) (block_all_signals th)) A rs"
    using th f by (intro inv_upd_live [OF inv]) (auto simp: thread_simps split: if_splits)
  show "p = Sys_wait \<Longrightarrow> SIGRESUME \<in> sigpend th \<Longrightarrow>
      inv_at (upd_thread l (goto Sys_unblock (take_signal SIGRESUME th)) S) l (goto Sys_unblock (take_signal SIGRESUME th)) A rs"
    using th f by (intro inv_upd_live [OF inv]) (auto simp: thread_simps split: if_splits)
  show "p = Sys_unblock \<Longrightarrow>
      inv_at (upd_thread l (goto Sys_ret (unblock_all_signals th)) S) l (goto Sys_ret (unblock_all_signals th)) A rs"
    using th f by (intro inv_upd_live [OF inv]) (auto simp: thread_simps split: if_splits)
  show "p = Sys_ret \<or> p = Tick_ret \<Longrightarrow> inv_at (upd_thread l (sigreturn th) S) l (sigreturn th) A rs"
  proof (rule inv_upd_live [OF inv])
    assume p: "p = Sys_ret \<or> p = Tick_ret"
    then have s: "wf_frames (fn_idle th) s fs" "fs \<noteq> []" "p = Sys_ret \<longrightarrow> SIGSYSCALL \<notin> s" "p = Tick_ret \<longrightarrow> SIGTICK \<notin> s"
      using th(1) f(1) by (auto simp: wf_thread_def wf_frames_Cons split: if_splits)
    note i = wf_frames_interrupted [OF s(1)]
    show "wf_thread (sigreturn th)" using s(1) f(1) by (simp add: wf_thread_def sigreturn_def)
    show "SIGRESUME \<in> sigpend (sigreturn th) \<longleftrightarrow> waiting (sigreturn th)"
      using th(2) f(1) p i(1,2) s(3,4) by (auto simp: waiting_def sigreturn_def)
    show "switching (frames (sigreturn th)) = switching (frames th)" using p i(3) s(3) f(1) by (auto simp: sigreturn_def)
    show "handled_soon th \<Longrightarrow> handled_soon (sigreturn th)" using p f(1) by (auto simp: handled_soon_def sigreturn_def)
  qed (simp add: sigreturn_def)
qed

lemma idle_local:
  assumes inv: "inv_at S l th A rs" and at: "at_point l p th S"
  shows "p = Idle_block \<Longrightarrow>
      inv_at (upd_thread l (goto Idle_wait (block_all_signals th)) S) l (goto Idle_wait (block_all_signals th)) A rs"
    "p = Idle_wait \<Longrightarrow> sg \<in> sigpend th \<Longrightarrow>
      inv_at (upd_thread l (goto (Idle_kill sg) (take_signal sg th)) S) l (goto (Idle_kill sg) (take_signal sg th)) A rs"
    "p = Idle_wait \<Longrightarrow> inv_at (upd_thread l (goto (Idle_kill SIGTICK) th) S) l (goto (Idle_kill SIGTICK) th) A rs"
    "p = Idle_kill sg \<Longrightarrow> \<exists>th'. inv_at (pthread_kill l sg (upd_thread l (goto Idle_unblock th) S)) l th' A rs"
    "p = Idle_unblock \<Longrightarrow>
      inv_at (upd_thread l (goto Idle_block (unblock_all_signals th)) S) l (goto Idle_block (unblock_all_signals th)) A rs"
proof -
  obtain s fs where f: "frames th = (p, s) # fs" "sigpend th \<subseteq> sigmask th" using at by (rule at_point_frames)
  have th: "wf_thread th" "SIGRESUME \<in> sigpend th \<longleftrightarrow> waiting th" using inv_atD(6) [OF inv] by (simp_all add: live_ok_def)
  show "p = Idle_block \<Longrightarrow>
      inv_at (upd_thread l (goto Idle_wait (block_all_signals th)) S) l (goto Idle_wait (block_all_signals th)) A rs"
    using th f by (intro inv_upd_live [OF inv]) (auto simp: thread_simps split: if_splits)
  show "p = Idle_wait \<Longrightarrow> sg \<in> sigpend th \<Longrightarrow>
      inv_at (upd_thread l (goto (Idle_kill sg) (take_signal sg th)) S) l (goto (Idle_kill sg) (take_signal sg th)) A rs"
    using th f by (intro inv_upd_live [OF inv]; cases sg) (auto simp: thread_simps split: if_splits)
  show "p = Idle_wait \<Longrightarrow> inv_at (upd_thread l (goto (Idle_kill SIGTICK) th) S) l (goto (Idle_kill SIGTICK) th) A rs"
    using th f by (intro inv_upd_live [OF inv]) (auto simp: thread_simps split: if_splits)
  show "\<exists>th'. inv_at (pthread_kill l sg (upd_thread l (goto Idle_unblock th) S)) l th' A rs" if p: "p = Idle_kill sg"
  proof -
    let ?th = "(goto Idle_unblock th)\<lparr>sigpend := insert sg (sigpend th)\<rparr>"
    have "pthread_kill l sg (upd_thread l (goto Idle_unblock th) S) = upd_thread l ?th S"
      by (simp add: pthread_kill_def upd_thread_def goto_def)
    moreover have "inv_at (upd_thread l ?th S) l ?th A rs"
      using th f p by (intro inv_upd_live [OF inv]; cases sg) (auto simp: thread_simps split: if_splits)
    ultimately show ?thesis by auto
  qed
  show "p = Idle_unblock \<Longrightarrow>
      inv_at (upd_thread l (goto Idle_block (unblock_all_signals th)) S) l (goto Idle_block (unblock_all_signals th)) A rs"
    using th f by (intro inv_upd_live [OF inv]) (auto simp: thread_simps split: if_splits)
qed

text \<open>Delivery of a signal to the live thread.\<close>

lemma enter_local:
  assumes inv: "inv_at S l th A rs" and sg: "sg \<notin> sigmask th" "sg \<noteq> SIGRESUME"
    and th': "sigmask th' = sigmask th" "frames th' = frames th" "fn_idle th' = fn_idle th"
      "sigpend th' = sigpend th - {sg} \<or> sigpend th' = sigpend th \<and> sg = SIGTICK"
  shows "inv_at (upd_thread l (enter sg th') S) l (enter sg th') A rs"
proof (rule inv_upd_live [OF inv])
  have th: "wf_thread th" "SIGRESUME \<in> sigpend th \<longleftrightarrow> waiting th" using inv_atD(6) [OF inv] by (simp_all add: live_ok_def)
  have wf: "wf_frames (fn_idle th) (sigmask th) (frames th)" using th(1) by (simp add: wf_thread_def)
  note m = wf_frames_masks [OF wf] and i = wf_frames_interrupted [OF wf]
  have ne: "frames th \<noteq> []" using wf by auto
  show "wf_thread (enter sg th')" using wf m sg ne th' by (cases sg) (auto simp: wf_thread_def enter_def wf_frames_Cons)
  show "fn_idle (enter sg th') = fn_idle th" using th' by (simp add: enter_def)
  show "SIGRESUME \<in> sigpend (enter sg th') \<longleftrightarrow> waiting (enter sg th')"
    using th(2) i(1,2) sg th' ne by (cases sg) (auto simp: enter_def waiting_def)
  show "switching (frames (enter sg th')) = switching (frames th)"
    using sg th' i(3) by (cases sg) (auto simp: enter_def)
  show "handled_soon th \<Longrightarrow> handled_soon (enter sg th')"
    using sg th' by (cases sg) (auto simp: enter_def handled_soon_def)
qed

text \<open>Steps with the kernel.\<close>

lemma upd_kern_sel [simp]:
  "conf (upd_kern k S) = (conf S)\<lparr>kern := k\<rparr>" "thr (upd_kern k S) = thr S" "rt_started (upd_kern k S) = rt_started S"
  "stopped (upd_kern k S) = stopped S" "tick_sig (upd_kern k S) = tick_sig S"
  by (simp_all add: upd_kern_def)

lemma owns_cong:
  assumes "created (conf S') = created (conf S)" and "\<And>u. u \<noteq> t \<Longrightarrow> ctx_of S' u = ctx_of S u"
    and "\<And>x. x \<noteq> l \<Longrightarrow> thr S' x = thr S x"
  shows "owns S' l t idle \<longleftrightarrow> owns S l t idle"
proof -
  have "inj_on (ctx_of S') (created (conf S) - {t}) = inj_on (ctx_of S) (created (conf S) - {t})"
    by (rule inj_on_cong) (use assms(2) in auto)
  then show ?thesis unfolding owns_def assms(1) by (intro conj_cong ball_cong refl) (simp_all add: assms(2,3))
qed

text \<open>How the flag of the kernel model becomes a signal to the live thread.\<close>

lemma pend_live:
  assumes "rt_started S" and "thr S l = Some th"
  shows "rt_syscall_pend_pt l S = upd_thread l
      (th\<lparr>sigpend := if syscall_pended (kern (conf S)) then insert SIGSYSCALL (sigpend th) else sigpend th\<rparr>)
      (upd_kern ((kern (conf S))\<lparr>syscall_pended := False\<rparr>) S)"
proof (cases "syscall_pended (kern (conf S))")
  case True
  then show ?thesis using assms by (simp add: rt_syscall_pend_pt_def pthread_kill_def upd_thread_def upd_kern_def)
next
  case False
  then have "(kern (conf S))\<lparr>syscall_pended := False\<rparr> = kern (conf S)" by (cases "kern (conf S)") simp
  then show ?thesis using False assms(2)
    by (simp add: rt_syscall_pend_pt_def upd_thread_def upd_kern_def fun_upd_idem)
qed

lemma conf_ok_pended [simp]: "conf_ok (g\<lparr>kern := (kern g)\<lparr>syscall_pended := b\<rparr>\<rparr>) A rs = conf_ok g A rs"
  by (simp add: conf_ok_def system_ok_processor)

text \<open>
  A step of the live thread with the kernel that keeps contexts, the active task and the noted
  context: new records other than the tick's come with a signal.
\<close>

lemma inv_kernel_live:
  assumes inv: "inv_at S l th A rs" and ok: "conf_ok g A' rs'" and g: "created g = created (conf S)"
      "\<And>t. ctx (task (kern g) t) = ctx_of S t" "active_task (kern g) = active_task (kern (conf S))"
    and prev: "switching (frames th) \<noteq> None \<Longrightarrow> rt_context_prev (kern g) = rt_context_prev (kern (conf S))"
    and rs: "set rs' \<subseteq> insert Tick_record (set rs) \<or> switching (frames th) = None \<and> syscall_pended (kern g)"
    and th': "wf_thread th'" "fn_idle th' = fn_idle th" "sigpend th' = sigpend th" "\<not> waiting th" "\<not> waiting th'"
      "switching (frames th') = switching (frames th)" "to_run (frames th) \<Longrightarrow> to_run (frames th')"
  shows "\<exists>th''. inv_at (rt_syscall_pend_pt l (upd_thread l th' (S\<lparr>conf := g\<rparr>))) l th'' A' rs'"
proof -
  let ?th = "th'\<lparr>sigpend := if syscall_pended (kern g) then insert SIGSYSCALL (sigpend th') else sigpend th'\<rparr>"
  let ?g = "g\<lparr>kern := (kern g)\<lparr>syscall_pended := False\<rparr>\<rparr>"
  let ?S = "upd_thread l ?th (S\<lparr>conf := ?g\<rparr>)"
  note i = inv_atD [OF inv]
  have S: "rt_syscall_pend_pt l (upd_thread l th' (S\<lparr>conf := g\<rparr>)) = ?S"
    using i(1) by (subst pend_live [of _ _ th']) (simp_all add: upd_thread_def upd_kern_def)
  have o: "owns ?S l t b = owns S l t b" for t b using g by (intro owns_cong) simp_all
  have soon: "handled_soon th \<Longrightarrow> handled_soon ?th" "syscall_pended (kern g) \<Longrightarrow> handled_soon ?th"
    using th'(3,7) by (auto simp: handled_soon_def)
  have t: "wf_thread ?th" "SIGRESUME \<in> sigpend ?th \<longleftrightarrow> waiting ?th" "frames ?th = frames th'"
    using th' i(6) by (auto simp: wf_thread_def waiting_def live_ok_def)
  have "live_ok ?S l ?th rs'"
  proof (cases "switching (frames th)")
    case None
    then have "owns S l (active_task (kern (conf S))) (fn_idle th)" "set rs \<subseteq> {Tick_record} \<or> handled_soon th"
      using i(6) by (simp_all add: live_ok_def)
    then have "owns ?S l (active_task (kern g)) (fn_idle th)" "set rs' \<subseteq> {Tick_record} \<or> handled_soon ?th"
      using o g(3) rs soon None by auto
    then show ?thesis using None t th'(2,6) by (simp add: live_ok_def)
  next
    case (Some kc)
    then have "switch_ok S l (fn_idle th) rs kc" using i(6) by (simp add: live_ok_def)
    then have "switch_ok ?S l (fn_idle th) rs' kc" using o g prev rs Some by (auto simp: switch_ok_def split: prod.splits)
    then show ?thesis using Some t th'(2,6) by (simp add: live_ok_def)
  qed
  then have "inv_at ?S l ?th A' rs'" using i(1,3,4,5) i(7) ok g by (auto simp: inv_at_def)
  then show ?thesis unfolding S by blast
qed

lemma wf_top:
  assumes "wf_thread th" and "frames th = (p, s) # fs"
  shows "p = Fn_run \<Longrightarrow> sigmask th = {} \<and> \<not> fn_idle th \<and> fs = []"
    "p \<in> {Sys_run, Tick_run} \<union> range Sys_prev \<union> range Sys_kill \<Longrightarrow> fs \<noteq> []"
  using assms by (auto simp: wf_thread_def wf_frames_Cons split: if_splits)

lemma fn_caller:
  assumes inv: "inv_at S l th A rs" and at: "at_point l Fn_run th S"
  shows "caller_ok (kern (conf S)) rs" "switching (frames th) = None" "\<not> waiting th" "\<not> to_run (frames th)"
    "set rs \<subseteq> {Tick_record}" "owns S l (active_task (kern (conf S))) (fn_idle th)" "wf_thread th" "SIGRESUME \<notin> sigpend th"
proof -
  obtain s fs where f: "frames th = (Fn_run, s) # fs" "sigpend th \<subseteq> sigmask th" using at by (rule at_point_frames)
  note i = inv_atD [OF inv]
  show wf: "wf_thread th" using i(6) by (simp add: live_ok_def)
  note t = wf_top(1) [OF wf f(1), simplified]
  show "\<not> waiting th" and sw: "switching (frames th) = None" and run: "\<not> to_run (frames th)"
    using f(1) by (simp_all add: waiting_def)
  show "SIGRESUME \<notin> sigpend th" using f(2) t by auto
  have "SIGSYSCALL \<notin> sigpend th" using f(2) t by auto
  then show rs: "set rs \<subseteq> {Tick_record}" and o: "owns S l (active_task (kern (conf S))) (fn_idle th)"
    using i(6) sw run by (simp_all add: live_ok_def handled_soon_def)
  have "active_task (kern (conf S)) \<noteq> Idle_task" using o t by (simp add: owns_def)
  then show "caller_ok (kern (conf S)) rs" using i(4,8) rs by (auto simp: caller_ok_def)
qed

lemma inv_fn_op:
  assumes inv: "inv_at S l th A rs" and at: "at_point l Fn_run th S" and op: "task_op (conf S) g"
  shows "\<exists>th' A' rs'. inv_at (rt_syscall_pend_pt l (S\<lparr>conf := g\<rparr>)) l th' A' rs'"
proof -
  note i = inv_atD [OF inv] and c = fn_caller [OF inv at]
  obtain A' rs' where ok: "conf_ok g A' rs'" and rs: "syscall_pended (kern g) \<or> rs' = rs"
    using task_op_ok [OF i(2) c(1) op] by blast
  have "\<exists>th''. inv_at (rt_syscall_pend_pt l (upd_thread l th (S\<lparr>conf := g\<rparr>))) l th'' A' rs'"
    using rs c by (intro inv_kernel_live [OF inv ok] task_op_sel [OF op]) auto
  moreover have "upd_thread l th (S\<lparr>conf := g\<rparr>) = S\<lparr>conf := g\<rparr>"
    using i(5) by (simp add: upd_thread_def fun_upd_idem)
  ultimately show ?thesis by auto
qed

lemma inv_tick:
  assumes inv: "inv_at S l th A rs" and at: "at_point l Tick_run th S"
  shows "\<exists>th' A' rs'. inv_at (tick_handler l th S) l th' A' rs'"
proof -
  obtain s fs where f: "frames th = (Tick_run, s) # fs" "sigpend th \<subseteq> sigmask th" using at by (rule at_point_frames)
  note i = inv_atD [OF inv]
  have wf: "wf_thread th" using i(6) by (simp add: live_ok_def)
  let ?k = "rt_tick_advance (kern (conf S))"
  obtain rs' where rs': "system_ok ?k A rs'" "set rs' \<subseteq> insert Tick_record (set rs)"
    using i(2) rt_tick_advance_ok unfolding conf_ok_def by blast
  then have ok: "conf_ok ((conf S)\<lparr>kern := ?k\<rparr>) A rs'" using i(2) by (simp add: conf_ok_def)
  have "\<exists>th''. inv_at (rt_syscall_pend_pt l (upd_thread l (goto Tick_ret th) (S\<lparr>conf := (conf S)\<lparr>kern := ?k\<rparr>\<rparr>))) l th'' A rs'"
    using wf f(1) rs'(2) wf_top(2) [OF wf f(1)] by (intro inv_kernel_live [OF inv ok]) (auto simp: rt_tick_advance_sel thread_simps)
  then show ?thesis unfolding tick_handler_def upd_kern_def by blast
qed

lemma inv_sys_run:
  assumes inv: "inv_at S l th A rs" and at: "at_point l Sys_run th S" and run: "rt_syscall_run (kern (conf S)) = Some (s', c)"
  shows "\<exists>th' A'. inv_at (upd_thread l (goto (if c = NULL then Sys_ret else Sys_block c) th) (upd_kern s' S)) l th' A' []"
proof -
  obtain s fs where f: "frames th = (Sys_run, s) # fs" "sigpend th \<subseteq> sigmask th" using at by (rule at_point_frames)
  note i = inv_atD [OF inv]
  have wf: "wf_thread th" "SIGRESUME \<notin> sigpend th" and o: "owns S l (active_task (kern (conf S))) (fn_idle th)"
    using i(6) f(1) by (simp_all add: live_ok_def waiting_def)
  have sy: "system_ok (kern (conf S)) A rs" using i(2) by (simp add: conf_ok_def)
  note r = run_switches [OF sy run]
  obtain B where B: "conf_ok ((conf S)\<lparr>kern := s'\<rparr>) B []" using r(1) i(2) by (auto simp: conf_ok_def)
  have act: "active_task s' \<in> created (conf S)" using r(3) i(2) by (simp add: conf_ok_def)
  let ?a = "active_task (kern (conf S))"
  let ?th = "goto (if c = NULL then Sys_ret else Sys_block c) th"
  let ?S = "upd_thread l ?th (upd_kern s' S)"
  have o': "owns ?S l t b = owns S l t b" for t b using r(2) by (intro owns_cong) simp_all
  have t: "wf_thread ?th" "SIGRESUME \<in> sigpend ?th \<longleftrightarrow> waiting ?th" "fn_idle ?th = fn_idle th"
    using wf f(1) wf_top(2) [OF wf(1) f(1)] by (auto simp: thread_simps split: if_splits)
  have "live_ok ?S l ?th []"
  proof (cases "active_task s' = ?a")
    case True
    then have "c = NULL" by (rule r(4))
    then show ?thesis using t o o' True f(1) by (simp add: live_ok_def goto_def)
  next
    case False
    then have c: "c = ctx_of S (active_task s')" "rt_context_prev s' = Some ?a" using r(5) by auto
    then obtain th' where "thr S c = Some th'" using o act False by (auto simp: owns_def)
    then have "c \<noteq> NULL" using i(3) by auto
    then show ?thesis using t o o' False f(1) c r(2) by (auto simp: live_ok_def goto_def switch_ok_def)
  qed
  then have "inv_at ?S l ?th B []" using i(1,3,4,5) i(7) B by (auto simp: inv_at_def)
  then show ?thesis by blast
qed

lemma inv_sys_prev:
  assumes inv: "inv_at S l th A rs" and at: "at_point l (Sys_prev c) th S"
    and prev: "rt_context_prev (kern (conf S)) = Some t"
  shows "\<exists>th'. inv_at (upd_thread l (goto (Sys_kill c) th) (upd_kern (upd_task t (\<lambda>k. k\<lparr>ctx := l\<rparr>) (kern (conf S))) S)) l th' A rs"
proof -
  obtain s fs where f: "frames th = (Sys_prev c, s) # fs" "sigpend th \<subseteq> sigmask th" using at by (rule at_point_frames)
  note i = inv_atD [OF inv]
  have wf: "wf_thread th" "SIGRESUME \<notin> sigpend th" and sw: "switch_ok S l (fn_idle th) rs (False, c)"
    using i(6) f(1) by (simp_all add: live_ok_def waiting_def)
  let ?k = "upd_task t (\<lambda>k. k\<lparr>ctx := l\<rparr>) (kern (conf S))"
  let ?th = "goto (Sys_kill c) th"
  let ?S = "upd_thread l ?th (upd_kern ?k S)"
  have ok: "conf_ok ((conf S)\<lparr>kern := ?k\<rparr>) A rs" using i(2) by (simp add: conf_ok_def upd_ctx_system_ok)
  have "owns ?S l t b = owns S l t b" for b by (intro owns_cong) (simp_all add: kernel_simps)
  then have "switch_ok ?S l (fn_idle th) rs (True, c)" using sw prev by (auto simp: switch_ok_def kernel_simps)
  then have "live_ok ?S l ?th rs"
    using wf f(1) wf_top(2) [OF wf(1) f(1)] by (auto simp: live_ok_def thread_simps)
  then have "inv_at ?S l ?th A rs" using i(1,3,4,5) i(7) ok by (auto simp: inv_at_def)
  then show ?thesis by blast
qed

lemma inv_sys_kill:
  assumes inv: "inv_at S l th A rs" and at: "at_point l (Sys_kill c) th S"
  shows "\<exists>th'. inv_at (pthread_kill c SIGRESUME (upd_thread l (goto Sys_wait th) S)) c th' A rs"
proof -
  obtain s fs where f: "frames th = (Sys_kill c, s) # fs" "sigpend th \<subseteq> sigmask th" using at by (rule at_point_frames)
  note i = inv_atD [OF inv]
  let ?a = "active_task (kern (conf S))" and ?T = "created (conf S)"
  have wf: "wf_thread th" "SIGRESUME \<notin> sigpend th" and rs: "set rs \<subseteq> {Tick_record}" and c: "ctx_of S ?a = c"
    using i(6) f(1) by (auto simp: live_ok_def waiting_def switch_ok_def)
  obtain t where t: "t \<noteq> ?a" "owns S l t (fn_idle th)" "ctx_of S t = l"
    using i(6) f(1) by (auto simp: live_ok_def switch_ok_def)
  have inj: "inj_on (ctx_of S) (?T - {t})" and oth: "\<And>u. u \<in> ?T \<Longrightarrow> u \<noteq> t \<Longrightarrow> ctx_of S u \<noteq> l \<and>
      (\<exists>th. thr S (ctx_of S u) = Some th \<and> (fn_idle th \<longleftrightarrow> u = Idle_task))" and id: "fn_idle th \<longleftrightarrow> t = Idle_task"
    using t(2) by (auto simp: owns_def)
  from oth [OF i(8)] t(1) c obtain tc where tc: "thr S c = Some tc" "fn_idle tc \<longleftrightarrow> ?a = Idle_task" "c \<noteq> l" by auto
  have rest: "resting tc" using i(7) [OF tc(1,3)] .
  let ?tc = "tc\<lparr>sigpend := insert SIGRESUME (sigpend tc)\<rparr>"
  let ?S = "upd_thread c ?tc (upd_thread l (goto Sys_wait th) S)"
  have S: "pthread_kill c SIGRESUME (upd_thread l (goto Sys_wait th) S) = ?S"
    using tc by (simp add: pthread_kill_def upd_thread_def)
  have "inj_on (ctx_of S) (?T - {?a})"
  proof (rule inj_onI)
    fix u v assume u: "u \<in> ?T - {?a}" and v: "v \<in> ?T - {?a}" and e: "ctx_of S u = ctx_of S v"
    show "u = v"
    proof (cases "u = t \<or> v = t")
      case True
      then show ?thesis using oth [of u] oth [of v] u v e t(3) by (cases "u = t"; cases "v = t") auto
    next
      case False
      then show ?thesis using inj_onD [OF inj e] u v by simp
    qed
  qed
  moreover have "ctx_of S u \<noteq> c" if "u \<in> ?T" "u \<noteq> ?a" for u
    using that inj_onD [OF inj, of u ?a] c t(1,3) tc(3) i(8) by (cases "u = t") auto
  moreover have "\<exists>th'. thr ?S (ctx_of S u) = Some th' \<and> (fn_idle th' \<longleftrightarrow> u = Idle_task)" if "u \<in> ?T" "u \<noteq> ?a" for u
    using that oth [of u] t(3) id calculation(2) [OF that] by (cases "u = t") (auto simp: goto_def)
  ultimately have "owns ?S c ?a (fn_idle ?tc)" using tc(2) i(8) unfolding owns_def by auto
  moreover have "switching (frames tc) = None" "wf_thread ?tc" "waiting ?tc"
    using rest by (auto simp: resting_def waiting_def wf_thread_def; cases "frames tc"; auto)+
  ultimately have "live_ok ?S c ?tc rs" using rs by (simp add: live_ok_def)
  moreover have "resting (goto Sys_wait th)"
    using wf f(1) wf_top(2) [OF wf(1) f(1)] by (auto simp: resting_def thread_simps)
  moreover have "c \<noteq> NULL" "l \<noteq> NULL" using tc(1) i(3,5) by auto
  ultimately have "inv_at ?S c ?tc A rs" using i(1-4) i(7) tc(3) by (auto simp: inv_at_def)
  then show ?thesis unfolding S by blast
qed

lemma add_task_owns:
  assumes o: "owns S l t0 b" and new: "thr S c = None" "t \<notin> created (conf S)" and l: "c \<noteq> l" and t: "can_wait t"
  shows "owns (add_task t c nm p S) l t0 b"
proof -
  let ?S = "add_task t c nm p S" and ?T = "created (conf S)"
  have ne: "u \<noteq> t" if "u \<in> ?T" for u using that new(2) by blast
  have ctx: "ctx_of ?S u = (if u = t then c else ctx_of S u)" for u
    by (simp add: add_task_def context_create_pt_def Let_def rt_task_init_def task_init_def rt_syscall_def
        rt_syscall_pend_def kernel_simps)
  have thr: "thr ?S = (thr S)(c \<mapsto> \<lparr>sigmask = all_signals, sigpend = {}, frames = [(Fn_wait, {})], fn_idle = False\<rparr>)"
    "created (conf ?S) = insert t ?T"
    by (simp_all add: add_task_def context_create_pt_def Let_def)
  have t0: "t0 \<in> ?T" "t0 \<noteq> t" and inj: "inj_on (ctx_of S) (?T - {t0})"
    and oth: "\<And>u. u \<in> ?T - {t0} \<Longrightarrow> ctx_of S u \<noteq> l \<and> (\<exists>th. thr S (ctx_of S u) = Some th \<and> (fn_idle th \<longleftrightarrow> u = Idle_task))"
    using o ne by (auto simp: owns_def)
  have c: "ctx_of S u \<noteq> c" if "u \<in> ?T - {t0}" for u using oth [OF that] new(1) by auto
  have "inj_on (ctx_of ?S) (?T - {t0})" using inj ne by (subst inj_on_cong [of _ _ "ctx_of S"]) (auto simp: ctx)
  then have "inj_on (ctx_of ?S) (insert t ?T - {t0})"
    using c t0(2) ne by (simp add: insert_Diff_if) (auto simp: ctx)
  moreover have "t \<noteq> Idle_task" using t by auto
  ultimately show ?thesis using o t0 oth c ne l unfolding owns_def thr by (auto simp: ctx)
qed

lemma add_task_conf:
  assumes ok: "conf_ok (conf S) A rs" and t: "t \<notin> created (conf S)" "can_wait t"
  shows "conf_ok (conf (add_task t c nm p S)) (A\<lparr>q_tasks := insert t (q_tasks A)\<rparr>) (Task_record t # rs)"
    "active_task (kern (conf (add_task t c nm p S))) = active_task (kern (conf S))"
    "syscall_pended (kern (conf (add_task t c nm p S)))"
proof -
  show "conf_ok (conf (add_task t c nm p S)) (A\<lparr>q_tasks := insert t (q_tasks A)\<rparr>) (Task_record t # rs)"
    using create_task_keeps [of "kern (conf S)" A rs t c nm p] ok t
    by (simp add: conf_ok_def add_task_def context_create_pt_def Let_def)
qed (simp_all add: add_task_def context_create_pt_def Let_def rt_task_init_def task_init_def rt_syscall_def
    rt_syscall_pend_def kernel_simps)

lemma add_task_sel:
  "thr (add_task t c nm p S) = (thr S)(c \<mapsto> \<lparr>sigmask = all_signals, sigpend = {}, frames = [(Fn_wait, {})], fn_idle = False\<rparr>)"
  "created (conf (add_task t c nm p S)) = insert t (created (conf S))" "rt_started (add_task t c nm p S) = rt_started S"
  "stopped (add_task t c nm p S) = stopped S"
  by (simp_all add: add_task_def context_create_pt_def Let_def)

lemma resting_new: "resting \<lparr>sigmask = all_signals, sigpend = {}, frames = [(Fn_wait, {})], fn_idle = b\<rparr>"
  by (simp add: resting_def waiting_def wf_thread_def)

lemma inv_fn_create:
  assumes inv: "inv_at S l th A rs" and at: "at_point l Fn_run th S"
    and new: "thr S c = None" "c \<noteq> NULL" "t \<notin> created (conf S)" "can_wait t"
  shows "\<exists>th' A' rs'. inv_at (rt_syscall_pend_pt l (add_task t c nm p S)) l th' A' rs'"
proof -
  note i = inv_atD [OF inv] and f = fn_caller [OF inv at] and a = add_task_conf [OF inv_atD(2) [OF inv] new(3,4), of c nm p]
  let ?S1 = "add_task t c nm p S" and ?th = "th\<lparr>sigpend := insert SIGSYSCALL (sigpend th)\<rparr>"
  let ?S = "upd_thread l ?th (upd_kern ((kern (conf ?S1))\<lparr>syscall_pended := False\<rparr>) ?S1)"
  have cl: "c \<noteq> l" using new(1) i(5) by auto
  then have S: "rt_syscall_pend_pt l ?S1 = ?S"
    using i(1,5) a(3) by (subst pend_live [of _ _ th]) (simp_all add: add_task_sel)
  have "owns ?S1 l (active_task (kern (conf S))) (fn_idle th)"
    using f(6) new(1,3) cl new(4) by (rule add_task_owns)
  moreover have "owns ?S l u b = owns ?S1 l u b" for u b by (intro owns_cong) simp_all
  ultimately have "live_ok ?S l ?th (Task_record t # rs)"
    using f(2,3,7,8) a(2) by (auto simp: live_ok_def handled_soon_def wf_thread_def waiting_def)
  then have "inv_at ?S l ?th (A\<lparr>q_tasks := insert t (q_tasks A)\<rparr>) (Task_record t # rs)"
    using i(1,3,4,5) i(7) a(1) new resting_new [of False] by (auto simp: inv_at_def add_task_sel split: if_splits)
  then show ?thesis unfolding S by blast
qed

text \<open>Before the start all threads rest, and the idle task has none yet.\<close>

definition inv_pre :: "process \<Rightarrow> bool" where
  "inv_pre S \<longleftrightarrow> (\<exists>A rs. conf_ok (conf S) A rs) \<and> thr S NULL = None \<and>
     (\<forall>t \<in> created (conf S). t = Idle_task \<or> can_wait t) \<and> active_task (kern (conf S)) = Idle_task \<and>
     owns S NULL Idle_task True \<and> (\<forall>x th. thr S x = Some th \<longrightarrow> resting th)"

lemma inv_pre_start:
  assumes pre: "inv_pre S" and i: "thr S i = None" "i \<noteq> NULL"
  shows "\<exists>th A rs. inv_at (rt_start_pt i S) i th A rs"
proof -
  obtain A rs where ok: "conf_ok (conf S) A rs" using pre by (auto simp: inv_pre_def)
  let ?th = "\<lparr>sigmask = all_signals, sigpend = {SIGRESUME, SIGSYSCALL}, frames = [(Fn_wait, {})], fn_idle = True\<rparr>"
  let ?S = "upd_thread i ?th (S\<lparr>rt_started := True\<rparr>)"
  have S: "rt_start_pt i S = ?S"
    by (simp add: rt_start_pt_def context_create_pt_def pthread_kill_def upd_thread_def Let_def insert_commute)
  have "owns ?S i Idle_task True"
  proof -
    have "ctx_of S u \<noteq> i" if "u \<in> created (conf S) - {Idle_task}" for u
      using pre i(1) that unfolding inv_pre_def owns_def by fastforce
    then show ?thesis using pre unfolding inv_pre_def owns_def by simp
  qed
  then have "live_ok ?S i ?th rs"
    using pre by (simp add: live_ok_def inv_pre_def handled_soon_def wf_thread_def waiting_def)
  then have "inv_at ?S i ?th A rs" using pre ok i by (auto simp: inv_at_def inv_pre_def)
  then show ?thesis unfolding S by blast
qed

lemma inv_pre_create:
  assumes pre: "inv_pre S" and st: "\<not> rt_started S"
    and new: "thr S c = None" "c \<noteq> NULL" "t \<notin> created (conf S)" "can_wait t"
  shows "inv_pre (rt_syscall_pend_pt x (add_task t c nm p S))"
proof -
  let ?S1 = "add_task t c nm p S"
  let ?S = "upd_kern ((kern (conf ?S1))\<lparr>syscall_pended := False\<rparr>) ?S1"
  obtain A rs where ok: "conf_ok (conf S) A rs" using pre by (auto simp: inv_pre_def)
  note a = add_task_conf [OF ok new(3,4), of c nm p]
  have S: "rt_syscall_pend_pt x ?S1 = ?S" using a(3) st by (simp add: rt_syscall_pend_pt_def add_task_sel)
  have "owns ?S1 NULL Idle_task True"
    using pre new(1,3,2,4) by (intro add_task_owns) (simp_all add: inv_pre_def)
  moreover have "owns ?S NULL u b = owns ?S1 NULL u b" for u b by (intro owns_cong) simp_all
  ultimately have o: "owns ?S NULL Idle_task True" by simp
  have ok': "\<exists>A rs. conf_ok (conf ?S) A rs" using a(1) by (simp only: upd_kern_sel conf_ok_pended) blast
  show ?thesis
    unfolding S inv_pre_def
    by (intro conjI ok' o) (use pre a(2) new resting_new [of False] in \<open>simp_all add: inv_pre_def add_task_sel\<close>)
qed

section \<open>Every step keeps the invariant\<close>

lemma wf_waiting: "wf_thread th \<Longrightarrow> waiting th \<Longrightarrow> sigmask th = all_signals"
  using resting_blocked(1) [of "th\<lparr>sigpend := {}\<rparr>"] by (simp add: resting_def wf_thread_def waiting_def)

lemma deliver_live:
  assumes "inv_at S l th A rs" and "thr S x = Some th'" and "sg \<notin> sigmask th'"
  shows "x = l" "th' = th" "sg \<in> sigpend th \<Longrightarrow> sg \<noteq> SIGRESUME"
proof -
  show x: "x = l"
    using inv_atD(7) [OF assms(1,2)] resting_blocked(1) [of th'] assms(3) by (cases sg; cases "x = l") auto
  then show t: "th' = th" using assms(2) inv_atD(5) [OF assms(1)] by simp
  have "wf_thread th" "SIGRESUME \<in> sigpend th \<longleftrightarrow> waiting th" using inv_atD(6) [OF assms(1)] by (simp_all add: live_ok_def)
  then show "sg \<in> sigpend th \<Longrightarrow> sg \<noteq> SIGRESUME" using wf_waiting assms(3) t by auto
qed

text \<open>What holds of every state: the handler of stray resume signals never runs, and all threads but one rest.\<close>

definition switch_safe :: "process \<Rightarrow> bool" where
  "switch_safe S \<longleftrightarrow> (\<forall>x th. thr S x = Some th \<longrightarrow> Resume_error \<notin> fst ` set (frames th)) \<and>
     (\<exists>l. \<forall>x th. thr S x = Some th \<and> x \<noteq> l \<longrightarrow> resting th)"

lemma wf_no_error: "wf_frames i m fs \<Longrightarrow> Resume_error \<notin> fst ` set fs"
  by (induction i m fs rule: wf_frames.induct) auto

lemma inv_at_safe: "inv_at S l th A rs \<Longrightarrow> switch_safe S"
  unfolding switch_safe_def
proof (intro conjI allI impI exI)
  assume inv: "inv_at S l th A rs"
  show "resting th'" if "thr S x = Some th' \<and> x \<noteq> l" for x th' using inv_atD(7) [OF inv] that by blast
  show "Resume_error \<notin> fst ` set (frames th')" if "thr S x = Some th'" for x th'
  proof -
    have "wf_thread th'" using that inv_atD(5,6) [OF inv] inv_atD(7) [OF inv that]
      by (cases "x = l") (auto simp: live_ok_def resting_def)
    then show ?thesis using wf_no_error by (auto simp: wf_thread_def)
  qed
qed

definition process_ok :: "process \<Rightarrow> bool" where
  "process_ok S \<longleftrightarrow> switch_safe S \<and> (\<not> stopped S \<longrightarrow> (if rt_started S then \<exists>l th A rs. inv_at S l th A rs else inv_pre S)) \<and>
     (stopped S \<longrightarrow> rt_started S)"

lemma inv_pre_safe: "inv_pre S \<Longrightarrow> switch_safe S"
  using wf_no_error unfolding inv_pre_def switch_safe_def resting_def wf_thread_def by blast

lemma live_step_inv:
  assumes i: "inv_at S l th A rs" and st: "\<not> stopped S" and step: "pstep S S'" and go: "\<not> stopped S'"
  shows "\<exists>l th A rs. inv_at S' l th A rs"
  using step
proof cases
  case (deliver x th' sg)
  note d = deliver_live [OF i deliver(4,6)]
  have "inv_at (upd_thread l (enter sg (take_signal sg th)) S) l (enter sg (take_signal sg th)) A rs"
    using deliver(5,6) d by (intro enter_local [OF i]) (simp_all add: take_signal_def)
  then show ?thesis using deliver(1) d by auto
next
  case (deliver_timer x th')
  note d = deliver_live [OF i deliver_timer(4,6)]
  have "inv_at (upd_thread l (enter SIGTICK th) (S\<lparr>tick_sig := False\<rparr>)) l (enter SIGTICK th) A rs"
    using deliver_timer(6) d i by (intro enter_local [of "S\<lparr>tick_sig := False\<rparr>" l th A rs SIGTICK th]) simp_all
  then show ?thesis using deliver_timer(1) d by auto
next
  case (handler_return x p th')
  have l: "x = l" "th' = th" using at_point_live [OF i handler_return(2)] handler_return(3) by auto
  show ?thesis using sys_local(4) [OF i] handler_return l by blast
next
  case (pthread_fn_step x)
  then show ?thesis
  proof cases
    case (fn_wait th')
    have l: "x = l" "th' = th" using at_point_live [OF i fn_wait(2)] fn_wait(3) by auto
    show ?thesis using fn_local(1) [OF i] fn_wait l by blast
  next
    case (fn_unblock th')
    have l: "x = l" "th' = th" using at_point_live [OF i fn_unblock(2)] by auto
    show ?thesis using fn_local(2) [OF i] fn_unblock l by blast
  next
    case (fn_op th' g)
    have l: "x = l" "th' = th" using at_point_live [OF i fn_op(2)] by auto
    show ?thesis using inv_fn_op [OF i] fn_op l by blast
  next
    case (fn_create th' c t nm p)
    have l: "x = l" "th' = th" using at_point_live [OF i fn_create(2)] by auto
    show ?thesis using inv_fn_create [OF i] fn_create l by blast
  next
    case (fn_stop th')
    then show ?thesis using go by (simp add: rt_stop_pt_def)
  qed
next
  case (syscall_step x)
  then show ?thesis
  proof cases
    case (sys_run th' s' c)
    have l: "x = l" "th' = th" using at_point_live [OF i sys_run(2)] by auto
    show ?thesis using inv_sys_run [OF i] sys_run l by blast
  next
    case (sys_block c th')
    have l: "x = l" "th' = th" using at_point_live [OF i sys_block(2)] by auto
    show ?thesis using sys_local(1) [OF i] sys_block l by blast
  next
    case (sys_prev c th' t)
    have l: "x = l" "th' = th" using at_point_live [OF i sys_prev(2)] by auto
    show ?thesis using inv_sys_prev [OF i] sys_prev l by blast
  next
    case (sys_kill c th')
    have l: "x = l" "th' = th" using at_point_live [OF i sys_kill(2)] by auto
    show ?thesis using inv_sys_kill [OF i] sys_kill l by blast
  next
    case (sys_wait th')
    have l: "x = l" "th' = th" using at_point_live [OF i sys_wait(2)] sys_wait(3) by auto
    show ?thesis using sys_local(2) [OF i] sys_wait l by blast
  next
    case (sys_unblock th')
    have l: "x = l" "th' = th" using at_point_live [OF i sys_unblock(2)] by auto
    show ?thesis using sys_local(3) [OF i] sys_unblock l by blast
  qed
next
  case (tick_step x th')
  have l: "x = l" "th' = th" using at_point_live [OF i tick_step(2)] by auto
  show ?thesis using inv_tick [OF i] tick_step l by blast
next
  case (idle_step x)
  then show ?thesis
  proof cases
    case (idle_block th')
    have l: "x = l" "th' = th" using at_point_live [OF i idle_block(2)] by auto
    show ?thesis using idle_local(1) [OF i] idle_block l by blast
  next
    case (idle_wait th' sg)
    have l: "x = l" "th' = th" using at_point_live [OF i idle_wait(2)] by auto
    show ?thesis using idle_local(2) [OF i] idle_wait l by blast
  next
    case (idle_wait_timer th')
    have l: "x = l" "th' = th" using at_point_live [OF i idle_wait_timer(2)] by auto
    have "at_point l Idle_wait th (S\<lparr>tick_sig := False\<rparr>)" using idle_wait_timer(2) l by (simp add: at_point_def)
    then show ?thesis using idle_local(3) [of "S\<lparr>tick_sig := False\<rparr>" l th A rs Idle_wait] i idle_wait_timer(1) l by auto
  next
    case (idle_kill sg th')
    have l: "x = l" "th' = th" using at_point_live [OF i idle_kill(2)] by auto
    show ?thesis using idle_local(4) [OF i] idle_kill l by blast
  next
    case (idle_unblock th')
    have l: "x = l" "th' = th" using at_point_live [OF i idle_unblock(2)] by auto
    show ?thesis using idle_local(5) [OF i] idle_unblock l by blast
  qed
qed (use i inv_atD(1) [OF i] in auto)

lemma pend_sel [simp]:
  "stopped (rt_syscall_pend_pt x S) = stopped S" "rt_started (rt_syscall_pend_pt x S) = rt_started S"
  "stopped (pthread_kill x sg S) = stopped S" "stopped (tick_handler x th S) = stopped S"
  "stopped (rt_start_pt i S) = stopped S" "stopped (add_task t c nm p S) = stopped S"
  by (simp_all add: rt_syscall_pend_pt_def pthread_kill_def tick_handler_def rt_start_pt_def add_task_sel
      context_create_pt_def Let_def)

lemma at_point_started: "at_point x p th S \<Longrightarrow> rt_started S"
  by (simp add: at_point_def)

lemma stop_step:
  assumes "pstep S S'" and "\<not> stopped S" and "stopped S'"
  shows "\<exists>x th. at_point x Fn_run th S \<and> thr S' = (thr S)(x \<mapsto> block_all_signals th) \<and> rt_started S'"
  using assms
  by (cases, auto elim!: pthread_fn.cases rt_syscall_handler_pt.cases idle_fn.cases simp: rt_stop_pt_def,
      blast dest: at_point_started)

lemma started_step: "pstep S S' \<Longrightarrow> rt_started S \<Longrightarrow> \<not> stopped S"
  by (cases rule: pstep.cases) (auto simp: at_point_def elim!: pthread_fn.cases rt_syscall_handler_pt.cases idle_fn.cases)

lemma not_started_step:
  assumes "pstep S S'" and "\<not> rt_started S" and pre: "inv_pre S"
  shows "if rt_started S' then \<exists>l th A rs. inv_at S' l th A rs else inv_pre S'" "stopped S' = stopped S"
proof -
  show "stopped S' = stopped S"
    using assms(1,2) by cases (auto simp: at_point_def elim!: pthread_fn.cases rt_syscall_handler_pt.cases idle_fn.cases)
  from assms(1) show "if rt_started S' then \<exists>l th A rs. inv_at S' l th A rs else inv_pre S'"
  proof cases
    case (main_create c t x nm p)
    then show ?thesis using inv_pre_create [OF pre] assms(2) by (simp add: add_task_sel)
  next
    case (main_sem_init m v mx)
    obtain A rs where ok: "conf_ok (conf S) A rs" using pre by (auto simp: inv_pre_def)
    let ?g = "(conf S)\<lparr>kern := rt_sem_init_max m v mx (kern (conf S)), initialised := insert m (initialised (conf S))\<rparr>"
    have s: "system_ok (kern (conf S)) A rs" "q_wait A m = None" using ok main_sem_init(3) by (auto simp: conf_ok_def)
    have ok': "conf_ok ?g (A\<lparr>q_wait := (q_wait A)(m \<mapsto> [])\<rparr>) rs"
      using create_sem_keeps [OF s] ok main_sem_init(4) by (simp add: conf_ok_def)
    have k: "tasks (kern ?g) = tasks (kern (conf S))" "active_task (kern ?g) = active_task (kern (conf S))"
      by (simp_all add: rt_sem_init_max_def Let_def kernel_simps)
    have "owns (S\<lparr>conf := ?g\<rparr>) NULL Idle_task True" using pre k(1) by (subst owns_cong [of _ S]) (simp_all add: inv_pre_def)
    then have "inv_pre (S\<lparr>conf := ?g\<rparr>)" unfolding inv_pre_def
      by (intro conjI exI [of _ "A\<lparr>q_wait := (q_wait A)(m \<mapsto> [])\<rparr>"] exI [of _ rs])
        (use pre ok' k in \<open>simp_all add: inv_pre_def\<close>)
    then show ?thesis using main_sem_init(1) assms(2) by simp
  next
    case (main_start i)
    obtain th A rs where "inv_at S' i th A rs" using inv_pre_start [OF pre main_start(3,4)] main_start(1) by blast
    then show ?thesis using inv_atD(1) by auto
  qed (use assms(2) in \<open>auto simp: at_point_def elim!: pthread_fn.cases rt_syscall_handler_pt.cases idle_fn.cases\<close>)
qed

lemma stop_safe:
  assumes at: "inv_at S l th A rs" and pt: "at_point x Fn_run th' S" and S': "thr S' = (thr S)(x \<mapsto> block_all_signals th')"
  shows "switch_safe S'"
proof -
  have x: "x = l" "th' = th" using at_point_live [OF at pt] by auto
  have "switch_safe S" using at by (rule inv_at_safe)
  then have "Resume_error \<notin> fst ` set (frames (block_all_signals th))"
    using inv_atD(5) [OF at] by (auto simp: switch_safe_def block_all_signals_def)
  then show ?thesis using \<open>switch_safe S\<close> inv_atD(7) [OF at] unfolding switch_safe_def S' x
    by (intro conjI exI [of _ l]) auto
qed

lemma pstep_inv:
  assumes i: "process_ok S" and step: "pstep S S'"
  shows "process_ok S'"
proof (cases "rt_started S")
  case True
  have go: "\<not> stopped S" using started_step [OF step True] .
  then obtain l th A rs where at: "inv_at S l th A rs" using i True by (auto simp: process_ok_def)
  show ?thesis
  proof (cases "stopped S'")
    case False
    then obtain l th A rs where "inv_at S' l th A rs" using live_step_inv [OF at go step] by blast
    then show ?thesis using False inv_at_safe [of S'] inv_atD(1) [of S'] by (auto simp: process_ok_def)
  next
    case True
    from stop_step [OF step go True] show ?thesis using stop_safe [OF at] True by (auto simp: process_ok_def)
  qed
next
  case False
  then have pre: "inv_pre S" and go: "\<not> stopped S" using i by (auto simp: process_ok_def)
  note n = not_started_step [OF step False pre]
  have "switch_safe S'" using n(1) inv_at_safe [of S'] inv_pre_safe [of S'] by (auto split: if_splits)
  then show ?thesis using n go by (simp add: process_ok_def)
qed

lemma process_init_inv: "process_ok process_init"
proof -
  have "conf_ok config_init queues_init []"
    using config_init_ok by (simp add: config_ok_def conf_ok_def)
  moreover have "active_task kernel_init = Idle_task" by (simp add: kernel_init_def)
  ultimately have "inv_pre process_init"
    unfolding inv_pre_def process_init_def by (auto simp: owns_def config_init_def)
  then show ?thesis using inv_pre_safe by (simp add: process_ok_def process_init_def)
qed

lemma process_reachable_inv: "process_reachable S \<Longrightarrow> process_ok S"
  unfolding process_reachable_def by (induction rule: rtranclp_induct) (auto intro: process_init_inv pstep_inv)

end
