(* ===== verification/Rt_Pthread_Tick.thy ===== *)
theory Rt_Pthread_Tick
  imports Rt_Pthread
begin

text \<open>
  What the port to POSIX threads guarantees and what it loses: switches are safe, but a tick in the
  middle of one can stop time. The last section is a run of the process to which both properties are
  applied.
\<close>

section \<open>Switches are safe\<close>

text \<open>
  C39. Switches are safe: in every reachable state of the process, whatever tasks are created and
  call and whenever the timer fires, no thread is in the handler of stray resume signals, which
  would end the program. All threads but one wait for a resume signal that has not been sent, with
  all signals blocked, so that at most one runs and takes ticks and system calls. Outside of a
  switch, the context of every task that is not active is another thread than the one that runs.
\<close>

theorem one_thread_runs:
  assumes "process_reachable S"
  shows "(\<forall>x th. thr S x = Some th \<longrightarrow> Resume_error \<notin> fst ` set (frames th)) \<and>
     (rt_started S \<and> \<not> stopped S \<longrightarrow> (\<exists>l th. thr S l = Some th \<and>
        (\<forall>x th'. thr S x = Some th' \<and> x \<noteq> l \<longrightarrow> fst (hd (frames th')) \<in> {Fn_wait, Sys_wait} \<and>
           sigmask th' = all_signals \<and> SIGRESUME \<notin> sigpend th') \<and>
        (switching (frames th) = None \<longrightarrow> (\<forall>t \<in> created (conf S) - {active_task (kern (conf S))}.
           ctx_of S t \<noteq> l \<and> thr S (ctx_of S t) \<noteq> None))))"
proof -
  have i: "process_ok S" using assms by (rule process_reachable_inv)
  have live: "\<exists>l th. thr S l = Some th \<and>
        (\<forall>x th'. thr S x = Some th' \<and> x \<noteq> l \<longrightarrow> fst (hd (frames th')) \<in> {Fn_wait, Sys_wait} \<and>
           sigmask th' = all_signals \<and> SIGRESUME \<notin> sigpend th') \<and>
        (switching (frames th) = None \<longrightarrow> (\<forall>t \<in> created (conf S) - {active_task (kern (conf S))}.
           ctx_of S t \<noteq> l \<and> thr S (ctx_of S t) \<noteq> None))" if go: "rt_started S" "\<not> stopped S"
  proof -
    obtain l th A rs where at: "inv_at S l th A rs" using i go by (auto simp: process_ok_def)
    have rest: "fst (hd (frames th')) \<in> {Fn_wait, Sys_wait} \<and> sigmask th' = all_signals \<and> SIGRESUME \<notin> sigpend th'"
      if "thr S x = Some th'" "x \<noteq> l" for x th'
      using inv_atD(7) [OF at that] resting_blocked [of th'] by (simp add: resting_def)
    have "switching (frames th) = None \<Longrightarrow> owns S l (active_task (kern (conf S))) (fn_idle th)"
      using inv_atD(6) [OF at] by (simp add: live_ok_def)
    then show ?thesis using inv_atD(5) [OF at] rest unfolding owns_def
      by (intro exI [of _ l] exI [of _ th]) blast
  qed
  then show ?thesis using i unfolding process_ok_def switch_safe_def by blast
qed

section \<open>A tick that is lost\<close>

text \<open>The flag of the kernel model is always turned into a signal at once.\<close>

lemma run_flag:
  assumes s: "system_ok s A rs" and run: "rt_syscall_run s = Some (s', c)"
  shows "syscall_pended s' = syscall_pended s"
proof -
  from rt_syscall_run_through [OF system_okD(1) [OF s]] run obtain s1 A1 C where
    th: "run_through rs s A s1 A1 s' C c" by auto
  then have ran: "ran_all rs (s\<lparr>pending_syscalls := None\<rparr>) A s1 A1" and sc: "scheduled s1 A1 s' C c"
    by (simp_all add: run_through_def)
  have "kframe (s1\<lparr>active_task := active_task s', rt_context_prev := rt_context_prev s'\<rparr>) s'"
    using sc by (simp add: scheduled_def)
  then show ?thesis using ran kframe_fields(8) by (fastforce simp: ran_all_def hframe_def)
qed

lemma pend_flag: "\<not> syscall_pended (kern (conf (rt_syscall_pend_pt x S)))"
  by (simp add: rt_syscall_pend_pt_def pthread_kill_def Let_def)

lemma flag_step:
  assumes "pstep S S'" and "process_ok S" and "\<not> syscall_pended (kern (conf S))"
  shows "\<not> syscall_pended (kern (conf S'))"
  using assms(1)
proof cases
  case (syscall_step x)
  then show ?thesis
  proof cases
    case (sys_run th s' c)
    have "rt_started S" "\<not> stopped S" using sys_run(2) by (simp_all add: at_point_def)
    then obtain A rs where "system_ok (kern (conf S)) A rs"
      using assms(2) inv_atD(2) by (fastforce simp: process_ok_def conf_ok_def)
    from run_flag [OF this sys_run(3)] show ?thesis using sys_run(1) assms(3) by simp
  qed (use assms(3) in \<open>simp_all add: pthread_kill_def kernel_simps\<close>)
next
  case (pthread_fn_step x)
  then show ?thesis by cases (use assms(3) pend_flag in \<open>simp_all add: rt_stop_pt_def\<close>)
next
  case (idle_step x)
  then show ?thesis by cases (use assms(3) in \<open>simp_all add: pthread_kill_def\<close>)
qed (use assms(3) pend_flag in \<open>simp_all add: tick_handler_def rt_sem_init_max_def rt_start_pt_def context_create_pt_def
    pthread_kill_def Let_def kernel_simps\<close>)

lemma process_reachable_flag: "process_reachable S \<Longrightarrow> \<not> syscall_pended (kern (conf S))"
  unfolding process_reachable_def
proof (induction rule: rtranclp_induct)
  case base
  then show ?case by (simp add: process_init_def config_init_def kernel_init_def)
next
  case (step S S')
  then show ?case using flag_step process_reachable_inv unfolding process_reachable_def by blast
qed

text \<open>
  A thread that will not run the kernel's handler: it is in the idle loop, in a tick handler or
  past the switch of a handler, and no system call signal is pending for it.
\<close>

fun quiet_point :: "point \<Rightarrow> bool" where
  "quiet_point Fn_run = False"
| "quiet_point (Idle_kill sg) = (sg \<noteq> SIGSYSCALL)"
| "quiet_point Sys_run = False"
| "quiet_point (Sys_block c) = False"
| "quiet_point (Sys_prev c) = False"
| "quiet_point (Sys_kill c) = False"
| "quiet_point _ = True"

definition quiet :: "thread \<Rightarrow> bool" where
  "quiet th \<longleftrightarrow> SIGSYSCALL \<notin> sigpend th \<and> fn_idle th \<and> (\<forall>f \<in> set (frames th). quiet_point (fst f))"

definition frozen :: "process \<Rightarrow> bool" where
  "frozen S \<longleftrightarrow> rt_started S \<and> tick_pending (kern (conf S)) \<and> \<not> syscall_pended (kern (conf S)) \<and>
     (\<forall>x th. thr S x = Some th \<longrightarrow> resting th \<or> quiet th)"

lemma frozen_upd:
  assumes "frozen S" and "quiet th"
  shows "frozen (upd_thread x th S)"
  using assms by (simp add: frozen_def)

lemma frozen_point:
  assumes "frozen S" and "at_point x p th S" and "p \<in> {Fn_wait, Sys_wait} \<Longrightarrow> SIGRESUME \<in> sigpend th"
  shows "quiet th" "\<exists>s fs. frames th = (p, s) # fs"
proof -
  have t: "thr S x = Some th" "fst (hd (frames th)) = p" using assms(2) by (simp_all add: at_point_def)
  show "quiet th"
    using assms(1,3) t resting_blocked(2) [of th] by (auto simp: frozen_def resting_def)
  show "\<exists>s fs. frames th = (p, s) # fs" using assms(2) by (auto elim: at_point_frames)
qed

lemmas quiet_simps = quiet_def goto_def take_signal_def block_all_signals_def unblock_all_signals_def

lemma frozen_step:
  assumes f: "frozen S" and step: "pstep S S'"
  shows "frozen S' \<and> woken_tick (kern (conf S')) = woken_tick (kern (conf S)) \<and>
     active_task (kern (conf S')) = active_task (kern (conf S))"
  using step
proof cases
  case (timer)
  then show ?thesis using f by (simp add: frozen_def)
next
  case (deliver x th sg)
  have "quiet th"
    using f deliver(4-6) resting_blocked(1) [of th] by (cases sg) (auto simp: frozen_def)
  then have "quiet (enter sg (take_signal sg th))"
    using deliver(5) by (cases sg) (auto simp: quiet_simps enter_def)
  then show ?thesis using deliver(1) frozen_upd [OF f] by simp
next
  case (deliver_timer x th)
  have "quiet th" using f deliver_timer(4,6) resting_blocked(1) [of th] by (auto simp: frozen_def)
  then have "quiet (enter SIGTICK th)" by (auto simp: quiet_simps enter_def)
  moreover have "frozen (S\<lparr>tick_sig := False\<rparr>)" using f by (simp add: frozen_def)
  ultimately show ?thesis using deliver_timer(1) frozen_upd by simp
next
  case (handler_return x p th)
  have q: "quiet th" using frozen_point(1) [OF f handler_return(2)] handler_return(3) by auto
  obtain s fs where "frames th = (p, s) # fs" using frozen_point(2) [OF f handler_return(2)] handler_return(3) by auto
  then have "quiet (sigreturn th)" using q by (auto simp: quiet_simps sigreturn_def)
  then show ?thesis using handler_return(1) frozen_upd [OF f] by simp
next
  case (tick_step x th)
  have q: "quiet th" using frozen_point(1) [OF f tick_step(2)] by simp
  obtain s fs where fr: "frames th = (Tick_run, s) # fs" using frozen_point(2) [OF f tick_step(2)] by auto
  let ?k = "rt_tick_advance (kern (conf S))"
  have k: "\<not> syscall_pended ?k" "tick_pending ?k" using f rt_tick_advance_sel(5,6) by (auto simp: frozen_def)
  have "quiet (goto Tick_ret th)" using q fr by (simp add: quiet_simps)
  then have "frozen (upd_thread x (goto Tick_ret th) (upd_kern ?k S))" using f k by (simp add: frozen_def)
  then show ?thesis using tick_step(1) k by (simp add: tick_handler_def rt_syscall_pend_pt_def rt_tick_advance_sel)
next
  case (pthread_fn_step x)
  then show ?thesis
  proof cases
    case (fn_wait th)
    note q = frozen_point [OF f fn_wait(2)]
    obtain s fs where "frames th = (Fn_wait, s) # fs" using q(2) fn_wait(3) by blast
    then have "quiet (goto Fn_unblock (take_signal SIGRESUME th))" using q(1) fn_wait(3) by (simp add: quiet_simps)
    then show ?thesis using fn_wait(1) frozen_upd [OF f] by simp
  next
    case (fn_unblock th)
    note q = frozen_point [OF f fn_unblock(2)]
    have "quiet (goto (if fn_idle th then Idle_block else Fn_run) (unblock_all_signals th))"
      using q by (auto simp: quiet_simps)
    then show ?thesis using fn_unblock(1) frozen_upd [OF f] by simp
  next
    case (fn_op th g)
    then show ?thesis using frozen_point [OF f fn_op(2)] by (auto simp: quiet_def)
  next
    case (fn_create th c t nm p)
    then show ?thesis using frozen_point [OF f fn_create(2)] by (auto simp: quiet_def)
  next
    case (fn_stop th)
    then show ?thesis using frozen_point [OF f fn_stop(2)] by (auto simp: quiet_def)
  qed
next
  case (syscall_step x)
  then show ?thesis
  proof cases
    case (sys_run th s' c)
    then show ?thesis using frozen_point [OF f sys_run(2)] by (auto simp: quiet_def)
  next
    case (sys_block c th)
    then show ?thesis using frozen_point [OF f sys_block(2)] by (auto simp: quiet_def)
  next
    case (sys_prev c th t)
    then show ?thesis using frozen_point [OF f sys_prev(2)] by (auto simp: quiet_def)
  next
    case (sys_kill c th)
    then show ?thesis using frozen_point [OF f sys_kill(2)] by (auto simp: quiet_def)
  next
    case (sys_wait th)
    note q = frozen_point [OF f sys_wait(2)]
    have "quiet (goto Sys_unblock (take_signal SIGRESUME th))" using q sys_wait(3) by (auto simp: quiet_simps)
    then show ?thesis using sys_wait(1) frozen_upd [OF f] by simp
  next
    case (sys_unblock th)
    note q = frozen_point [OF f sys_unblock(2)]
    have "quiet (goto Sys_ret (unblock_all_signals th))" using q by (auto simp: quiet_simps)
    then show ?thesis using sys_unblock(1) frozen_upd [OF f] by simp
  qed
next
  case (idle_step x)
  then show ?thesis
  proof cases
    case (idle_block th)
    note q = frozen_point [OF f idle_block(2)]
    have "quiet (goto Idle_wait (block_all_signals th))" using q by (auto simp: quiet_simps)
    then show ?thesis using idle_block(1) frozen_upd [OF f] by simp
  next
    case (idle_wait th sg)
    note q = frozen_point [OF f idle_wait(2)]
    have "quiet (goto (Idle_kill sg) (take_signal sg th))" using q idle_wait(3) by (cases sg) (auto simp: quiet_simps)
    then show ?thesis using idle_wait(1) frozen_upd [OF f] by simp
  next
    case (idle_wait_timer th)
    note q = frozen_point [OF f idle_wait_timer(2)]
    have "quiet (goto (Idle_kill SIGTICK) th)" using q by (auto simp: quiet_simps)
    moreover have "frozen (S\<lparr>tick_sig := False\<rparr>)" using f by (simp add: frozen_def)
    ultimately show ?thesis using idle_wait_timer(1) frozen_upd by simp
  next
    case (idle_kill sg th)
    note q = frozen_point [OF f idle_kill(2)]
    let ?th = "(goto Idle_unblock th)\<lparr>sigpend := insert sg (sigpend th)\<rparr>"
    have "quiet ?th" using q by (cases sg) (auto simp: quiet_simps)
    moreover have "pthread_kill x sg (upd_thread x (goto Idle_unblock th) S) = upd_thread x ?th S"
      by (simp add: pthread_kill_def upd_thread_def goto_def)
    ultimately show ?thesis using idle_kill(1) frozen_upd [OF f] by simp
  next
    case (idle_unblock th)
    note q = frozen_point [OF f idle_unblock(2)]
    have "quiet (goto Idle_block (unblock_all_signals th))" using q by (auto simp: quiet_simps)
    then show ?thesis using idle_unblock(1) frozen_upd [OF f] by simp
  qed
qed (use f in \<open>simp_all add: frozen_def\<close>)

lemma frozen_steps:
  assumes "pstep\<^sup>*\<^sup>* S S'" and "frozen S"
  shows "frozen S' \<and> woken_tick (kern (conf S')) = woken_tick (kern (conf S)) \<and>
     active_task (kern (conf S')) = active_task (kern (conf S))"
  using assms by (induction rule: rtranclp_induct) (use frozen_step in auto)

text \<open>Below a handler of a system call in the idle thread there are only the idle loop and finished handlers.\<close>

lemma idle_frames:
  assumes "wf_frames True m fs" and "SIGSYSCALL \<notin> m"
  shows "\<forall>f \<in> set fs. quiet_point (fst f)"
  using assms
proof (induction fs arbitrary: m)
  case (Cons f fs)
  obtain p s where f: "f = (p, s)" by (cases f)
  show ?case
  proof (cases "fs = []")
    case True
    then show ?thesis using Cons.prems by (cases p) (auto simp: f split: if_splits)
  next
    case False
    then have m: "m \<in> handler_masks s p" "wf_frames True s fs" using Cons.prems by (auto simp: f wf_frames_Cons)
    then have "p = Sys_ret" "SIGSYSCALL \<notin> s" using Cons.prems(2) by (cases p; auto split: if_splits)+
    then show ?thesis using Cons.IH [OF m(2)] f by simp
  qed
qed simp

lemma resting_quiet:
  assumes r: "resting th" and i: "fn_idle th" and sig: "SIGSYSCALL \<notin> sigpend th"
  shows "quiet (th\<lparr>sigpend := insert SIGRESUME (sigpend th)\<rparr>)"
proof -
  obtain p s fs where f: "frames th = (p, s) # fs" using r by (cases "frames th") (auto simp: resting_def waiting_def)
  have p: "fs = [] \<or> wf_frames True s fs \<and> SIGSYSCALL \<notin> s" "p = Fn_wait \<or> p = Sys_wait"
    using r i f by (auto simp: resting_def wf_thread_def waiting_def wf_frames_Cons split: if_splits)
  then have "\<forall>f \<in> set fs. quiet_point (fst f)" using idle_frames [of s fs] by (elim disjE) simp_all
  with p(2) show ?thesis using i sig f by (auto simp: quiet_def)
qed

text \<open>The seven steps of a switch with a tick in the middle.\<close>

lemma switch_with_tick:
  assumes at: "at_point x (Sys_block c) th S" and b: "sigmask th = {SIGSYSCALL}" and cx: "c \<noteq> x"
    and tc: "thr S c = Some tc" and prev: "rt_context_prev (kern (conf S)) = Some t"
    and tick: "\<not> tick_pending (kern (conf S))"
  defines "k \<equiv> upd_task t (\<lambda>k. k\<lparr>ctx := x\<rparr>) ((rt_tick_advance (kern (conf S)))\<lparr>syscall_pended := False\<rparr>)"
  shows "pstep\<^sup>*\<^sup>* S (upd_thread c (tc\<lparr>sigpend := insert SIGRESUME (sigpend tc)\<rparr>)
    (upd_thread x (th\<lparr>sigpend := insert SIGSYSCALL (sigpend th), sigmask := all_signals,
       frames := (Sys_wait, snd (hd (frames th))) # tl (frames th)\<rparr>)
    (S\<lparr>conf := (conf S)\<lparr>kern := k\<rparr>, tick_sig := False\<rparr>)))" (is "pstep\<^sup>*\<^sup>* S ?S'")
proof -
  obtain s fs where f: "frames th = (Sys_block c, s) # fs" "sigpend th \<subseteq> sigmask th" using at by (rule at_point_frames)
  have st: "rt_started S" "\<not> stopped S" "thr S x = Some th" using at by (simp_all add: at_point_def)
  define P where "P = (\<lambda>k b th'. upd_thread x th' (S\<lparr>conf := (conf S)\<lparr>kern := k\<rparr>, tick_sig := b\<rparr>))"
  let ?k0 = "kern (conf S)" and ?k1 = "(rt_tick_advance (kern (conf S)))\<lparr>syscall_pended := False\<rparr>"
  let ?sg = "insert SIGSYSCALL (sigpend th)"
  define t1 where "t1 = th\<lparr>sigmask := {SIGTICK, SIGSYSCALL}, frames := (Tick_run, {SIGSYSCALL}) # frames th\<rparr>"
  define t2 where "t2 = t1\<lparr>frames := (Tick_ret, {SIGSYSCALL}) # frames th, sigpend := ?sg\<rparr>"
  define t3 where "t3 = th\<lparr>sigpend := ?sg\<rparr>"
  define t4 where "t4 = t3\<lparr>sigmask := all_signals, frames := (Sys_prev c, s) # fs\<rparr>"
  define t5 where "t5 = t4\<lparr>frames := (Sys_kill c, s) # fs\<rparr>"
  have P: "thr (P k' b' th') = (thr S)(x \<mapsto> th')" "rt_started (P k' b' th')" "\<not> stopped (P k' b' th')"
    "kern (conf (P k' b' th')) = k'" "upd_thread x th'' (P k' b' th') = P k' b' th''"
    "upd_kern k'' (P k' b' th') = P k'' b' th'" for k' b' th' k'' th''
    using st by (simp_all add: P_def upd_thread_def upd_kern_def)
  have k1: "syscall_pended (rt_tick_advance ?k0)"
    using tick by (simp add: rt_tick_advance_def rt_syscall_def rt_syscall_pend_def Let_def)
  have s1: "pstep S (P ?k0 True th)"
  proof -
    have "P ?k0 True th = S\<lparr>tick_sig := True\<rparr>" using st(3) by (simp add: P_def upd_thread_def fun_upd_idem)
    then show ?thesis using timer [OF st(1,2)] by simp
  qed
  have s2: "pstep (P ?k0 True th) (P ?k0 False t1)"
  proof -
    have "upd_thread x (enter SIGTICK th) ((P ?k0 True th)\<lparr>tick_sig := False\<rparr>) = P ?k0 False t1"
      using b by (simp add: P_def upd_thread_def enter_def t1_def insert_commute)
    then show ?thesis using deliver_timer [of "P ?k0 True th" x th] P b by (simp add: P_def)
  qed
  have s3: "pstep (P ?k0 False t1) (P ?k1 False t2)"
  proof -
    have "tick_handler x t1 (P ?k0 False t1) = P ?k1 False t2"
      using k1 P by (simp add: tick_handler_def rt_syscall_pend_pt_def pthread_kill_def t2_def t1_def goto_def)
        (simp add: P_def upd_thread_def)
    moreover have "at_point x Tick_run t1 (P ?k0 False t1)" using P f(2) b by (auto simp: at_point_def t1_def)
    ultimately show ?thesis using tick_step by metis
  qed
  have s4: "pstep (P ?k1 False t2) (P ?k1 False t3)"
  proof -
    have "at_point x Tick_ret t2 (P ?k1 False t2)" using P f(2) b by (auto simp: at_point_def t1_def t2_def)
    from handler_return [OF this] have "pstep (P ?k1 False t2) (P ?k1 False (sigreturn t2))" by (simp add: P)
    moreover have "sigreturn t2 = t3" using b by (simp add: sigreturn_def t2_def t1_def t3_def)
    ultimately show ?thesis by simp
  qed
  have s5: "pstep (P ?k1 False t3) (P ?k1 False t4)"
  proof -
    have "at_point x (Sys_block c) t3 (P ?k1 False t3)" using P f b by (auto simp: at_point_def t3_def)
    from syscall_step [OF sys_block [OF this]]
    have "pstep (P ?k1 False t3) (P ?k1 False (goto (Sys_prev c) (block_all_signals t3)))" by (simp add: P)
    moreover have "goto (Sys_prev c) (block_all_signals t3) = t4"
      using f(1) b by (simp add: goto_def block_all_signals_def t3_def t4_def insert_commute)
    ultimately show ?thesis by simp
  qed
  have s6: "pstep (P ?k1 False t4) (P k False t5)"
  proof -
    have "at_point x (Sys_prev c) t4 (P ?k1 False t4)" using P f b by (auto simp: at_point_def t3_def t4_def)
    moreover have "rt_context_prev (kern (conf (P ?k1 False t4))) = Some t" using prev by (simp add: P rt_tick_advance_sel)
    ultimately have "pstep (P ?k1 False t4) (P k False (goto (Sys_kill c) t4))"
      using syscall_step [OF sys_prev] P by (metis k_def)
    moreover have "goto (Sys_kill c) t4 = t5" by (simp add: goto_def t4_def t5_def)
    ultimately show ?thesis by simp
  qed
  have s7: "pstep (P k False t5) ?S'"
  proof -
    have "at_point x (Sys_kill c) t5 (P k False t5)" using P f b by (auto simp: at_point_def t3_def t4_def t5_def)
    from syscall_step [OF sys_kill [OF this]]
    have "pstep (P k False t5) (pthread_kill c SIGRESUME (P k False (goto Sys_wait t5)))" by (simp add: P)
    moreover have "pthread_kill c SIGRESUME (P k False (goto Sys_wait t5)) = ?S'"
      using cx tc f(1) by (simp add: pthread_kill_def P_def upd_thread_def goto_def t5_def t4_def t3_def)
    ultimately show ?thesis by simp
  qed
  note go = converse_rtranclp_into_rtranclp [where r = pstep]
  show ?thesis by (rule go [OF s1 go [OF s2 go [OF s3 go [OF s4 go [OF s5 go [OF s6 r_into_rtranclp [where r = pstep, OF s7]]]]]]])
qed

text \<open>
  C40. A tick can be lost, and with it time: when a task has gone to wait and the handler switches
  to the idle thread, a tick that comes after \<^verbatim>\<open>rt_syscall_run\<close> and before the signals are blocked
  pends the system call signal for the thread that is about to wait. The idle thread never gets it,
  and since the tick's record stays pending, later ticks pend no other one: from then on, however
  long the process runs and however often the timer fires, \<^verbatim>\<open>woken_tick\<close> does not advance, no sleeping
  task is woken and the idle task stays active.
\<close>

theorem tick_lost_in_switch:
  assumes reach: "process_reachable S" and at: "at_point x (Sys_block c) th S"
    and tc: "thr S c = Some tc" "fn_idle tc" "SIGSYSCALL \<notin> sigpend tc" and tick: "\<not> tick_pending (kern (conf S))"
  shows "\<exists>S'. pstep\<^sup>*\<^sup>* S S' \<and> tick (kern (conf S')) = tick (kern (conf S)) + 1 \<and>
     (\<forall>S''. pstep\<^sup>*\<^sup>* S' S'' \<longrightarrow> woken_tick (kern (conf S'')) = woken_tick (kern (conf S)) \<and>
        active_task (kern (conf S'')) = Idle_task)"
proof -
  let ?k = "kern (conf S)"
  have "rt_started S" "\<not> stopped S" using at by (simp_all add: at_point_def)
  then obtain l th0 A rs where "inv_at S l th0 A rs" using process_reachable_inv [OF reach] by (auto simp: process_ok_def)
  moreover from this have "x = l" "th = th0" using at_point_live [OF _ at] by auto
  ultimately have inv: "inv_at S x th A rs" by simp
  note i = inv_atD [OF inv]
  obtain s fs where f: "frames th = (Sys_block c, s) # fs" "sigpend th \<subseteq> sigmask th" using at by (rule at_point_frames)
  have wf: "wf_thread th" "SIGRESUME \<notin> sigpend th" and sw: "switch_ok S x (fn_idle th) rs (False, c)"
    using i(6) f(1) by (simp_all add: live_ok_def waiting_def)
  have b: "sigmask th = {SIGSYSCALL}" "fs \<noteq> []" "SIGSYSCALL \<notin> s"
    using wf(1) f(1) by (auto simp: wf_thread_def wf_frames_Cons split: if_splits)
  obtain t where t: "rt_context_prev ?k = Some t" "t \<noteq> active_task ?k" "ctx_of S (active_task ?k) = c" "owns S x t (fn_idle th)"
    using sw by (auto simp: switch_ok_def)
  have "active_task ?k \<in> created (conf S) - {t}" using i(8) t(2) by simp
  then have "ctx_of S (active_task ?k) \<noteq> x \<and>
      (\<exists>u. thr S (ctx_of S (active_task ?k)) = Some u \<and> (fn_idle u \<longleftrightarrow> active_task ?k = Idle_task))"
    using t(4) unfolding owns_def by blast
  then have o: "c \<noteq> x" "active_task ?k = Idle_task" using tc(1,2) unfolding t(3) by simp_all
  let ?k' = "upd_task t (\<lambda>k. k\<lparr>ctx := x\<rparr>) ((rt_tick_advance ?k)\<lparr>syscall_pended := False\<rparr>)"
  let ?tc = "tc\<lparr>sigpend := insert SIGRESUME (sigpend tc)\<rparr>"
  let ?th = "th\<lparr>sigpend := insert SIGSYSCALL (sigpend th), sigmask := all_signals,
    frames := (Sys_wait, snd (hd (frames th))) # tl (frames th)\<rparr>"
  let ?S = "upd_thread c ?tc (upd_thread x ?th (S\<lparr>conf := (conf S)\<lparr>kern := ?k'\<rparr>, tick_sig := False\<rparr>))"
  have path: "pstep\<^sup>*\<^sup>* S ?S" using switch_with_tick [OF at b(1) o(1) tc(1) t(1) tick] .
  have "resting tc" using i(7) [OF tc(1) o(1)] .
  then have "quiet ?tc" using tc(2,3) by (rule resting_quiet)
  moreover have "resting ?th" using wf f(1) b by (auto simp: resting_def wf_thread_def waiting_def wf_frames_Cons)
  ultimately have "resting u \<or> quiet u" if "thr ?S y = Some u" for y u
    using that i(7) [of y u] by (cases "y = c"; cases "y = x") simp_all
  then have fz: "frozen ?S"
    unfolding frozen_def using i(1) by (intro conjI allI impI) (simp_all add: rt_tick_advance_sel kernel_simps)
  have "tick (kern (conf ?S)) = tick ?k + 1" "woken_tick (kern (conf ?S)) = woken_tick ?k" "active_task (kern (conf ?S)) = Idle_task"
    using o(2) by (simp_all add: rt_tick_advance_sel kernel_simps)
      (simp add: rt_tick_advance_def rt_syscall_def rt_syscall_pend_def Let_def kernel_simps)
  then show ?thesis using path frozen_steps [OF _ fz] by (intro exI [of _ ?S]) auto
qed

section \<open>A run of the process\<close>

text \<open>
  One task is created and the scheduler is started; the idle thread switches to the task, which
  goes to sleep, and the handler is about to switch back. The task's thread is 100, the idle
  thread 200.
\<close>

declare run_records.simps [code] find_successor.simps [code] wake_while.simps [code] wake_sleepers.simps [code]

definition run_k0 :: kernel where "run_k0 = (rt_task_init (Task 1) 100 ''a'' 1 kernel_init)\<lparr>syscall_pended := False\<rparr>"
definition run_k1 :: kernel where "run_k1 = fst (the (rt_syscall_run run_k0))"
definition run_k2 :: kernel where "run_k2 = upd_task Idle_task (\<lambda>k. k\<lparr>ctx := 200\<rparr>) run_k1"
definition run_k3 :: kernel where "run_k3 = (submit RT_SYSCALL_SLEEP (Sleep 5) run_k2)\<lparr>syscall_pended := False\<rparr>"
definition run_k4 :: kernel where "run_k4 = fst (the (rt_syscall_run run_k3))"

lemma run_kernels:
  "rt_syscall_run run_k0 = Some (run_k1, 100)" "rt_context_prev run_k1 = Some Idle_task"
  "rt_syscall_run run_k3 = Some (run_k4, 200)" "\<not> tick_pending run_k4"
proof -
  have "(case rt_syscall_run run_k0 of None \<Rightarrow> False | Some (s, c) \<Rightarrow> c = 100)" by code_simp
  then show "rt_syscall_run run_k0 = Some (run_k1, 100)" by (auto simp: run_k1_def split: option.splits)
  have "(case rt_syscall_run run_k3 of None \<Rightarrow> False | Some (s, c) \<Rightarrow> c = 200)" by code_simp
  then show "rt_syscall_run run_k3 = Some (run_k4, 200)" by (auto simp: run_k4_def split: option.splits)
  show "rt_context_prev run_k1 = Some Idle_task" by code_simp
  show "\<not> tick_pending run_k4" by code_simp
qed

definition two :: "kernel \<Rightarrow> thread \<Rightarrow> thread \<Rightarrow> process" where
  "two k a b = \<lparr>conf = \<lparr>kern = k, created = {Task 1, Idle_task}, initialised = {}\<rparr>, thr = [100 \<mapsto> a, 200 \<mapsto> b],
     tick_sig = False, rt_started = True, stopped = False\<rparr>"

lemma two_simps:
  "upd_thread 100 t (two k a b) = two k t b" "upd_thread 200 t (two k a b) = two k a t" "upd_kern k' (two k a b) = two k' a b"
  "thr (two k a b) 100 = Some a" "thr (two k a b) 200 = Some b" "kern (conf (two k a b)) = k"
  "pthread_kill 100 sg (two k a b) = two k (a\<lparr>sigpend := insert sg (sigpend a)\<rparr>) b"
  "rt_started (two k a b)" "\<not> stopped (two k a b)" "conf (two k a b) = \<lparr>kern = k, created = {Task 1, Idle_task}, initialised = {}\<rparr>"
  "at_point 100 p t (two k a b) \<longleftrightarrow> t = a \<and> frames a \<noteq> [] \<and> fst (hd (frames a)) = p \<and> sigpend a \<subseteq> sigmask a"
  "at_point 200 p t (two k a b) \<longleftrightarrow> t = b \<and> frames b \<noteq> [] \<and> fst (hd (frames b)) = p \<and> sigpend b \<subseteq> sigmask b"
  by (auto simp: two_def upd_thread_def upd_kern_def pthread_kill_def at_point_def fun_upd_twist)

abbreviation thread_at :: "signal set \<Rightarrow> signal set \<Rightarrow> point list \<Rightarrow> bool \<Rightarrow> thread" where
  "thread_at m q ps i \<equiv> \<lparr>sigmask = m, sigpend = q, frames = map (\<lambda>p. (p, {})) ps, fn_idle = i\<rparr>"

lemmas run_simps = two_simps goto_def take_signal_def block_all_signals_def unblock_all_signals_def enter_def

lemma run_start:
  "pstep\<^sup>*\<^sup>* process_init (two run_k0 (thread_at all_signals {} [Fn_wait] False)
     (thread_at all_signals {SIGRESUME, SIGSYSCALL} [Fn_wait] True))"
proof -
  let ?a = "thread_at all_signals {} [Fn_wait] False" and ?b = "thread_at all_signals {SIGRESUME, SIGSYSCALL} [Fn_wait] True"
  let ?S = "\<lparr>conf = \<lparr>kern = run_k0, created = {Task 1, Idle_task}, initialised = {}\<rparr>, thr = [100 \<mapsto> ?a],
     tick_sig = False, rt_started = False, stopped = False\<rparr>"
  have "pstep process_init (rt_syscall_pend_pt 0 (add_task (Task 1) 100 ''a'' 1 process_init))"
    by (rule main_create) (simp_all add: process_init_def config_init_def)
  moreover have "rt_syscall_pend_pt 0 (add_task (Task 1) 100 ''a'' 1 process_init) = ?S"
  proof -
    define k where "k = rt_task_init (Task 1) 100 ''a'' 1 kernel_init"
    have p: "syscall_pended k"
      unfolding k_def rt_task_init_def task_init_def rt_syscall_def rt_syscall_pend_def Let_def by simp
    have "add_task (Task 1) 100 ''a'' 1 process_init =
        \<lparr>conf = \<lparr>kern = k, created = {Task 1, Idle_task}, initialised = {}\<rparr>, thr = [100 \<mapsto> ?a],
          tick_sig = False, rt_started = False, stopped = False\<rparr>"
      by (simp add: process_init_def config_init_def add_task_def context_create_pt_def upd_thread_def Let_def k_def [symmetric])
    then show ?thesis using p unfolding run_k0_def k_def [symmetric] by (simp add: rt_syscall_pend_pt_def upd_kern_def)
  qed
  ultimately have 1: "pstep process_init ?S" by simp
  have "pstep ?S (rt_start_pt 200 ?S)" by (rule main_start) simp_all
  moreover have "rt_start_pt 200 ?S = two run_k0 ?a ?b"
    by (simp add: rt_start_pt_def context_create_pt_def upd_thread_def pthread_kill_def two_def Let_def insert_commute)
  ultimately have 2: "pstep ?S (two run_k0 ?a ?b)" by simp
  show ?thesis
    by (rule converse_rtranclp_into_rtranclp [where r = pstep, OF 1 r_into_rtranclp [where r = pstep, OF 2]])
qed

lemma pstep_eq: "pstep S T \<Longrightarrow> T = U \<Longrightarrow> pstep S U"
  by simp

lemma run_to_task:
  "pstep\<^sup>*\<^sup>* (two run_k0 (thread_at all_signals {} [Fn_wait] False) (thread_at all_signals {SIGRESUME, SIGSYSCALL} [Fn_wait] True))
     (two run_k2 (thread_at all_signals {SIGRESUME} [Fn_wait] False) (thread_at all_signals {} [Sys_wait, Idle_block] True))"
proof -
  let ?a = "thread_at all_signals {} [Fn_wait] False"
  let ?b0 = "thread_at all_signals {SIGRESUME, SIGSYSCALL} [Fn_wait] True"
  let ?b1 = "thread_at all_signals {SIGSYSCALL} [Fn_unblock] True"
  let ?b2 = "thread_at {} {SIGSYSCALL} [Idle_block] True"
  let ?b3 = "thread_at {SIGSYSCALL} {} [Sys_run, Idle_block] True"
  let ?b4 = "thread_at {SIGSYSCALL} {} [Sys_block 100, Idle_block] True"
  let ?b5 = "thread_at all_signals {} [Sys_prev 100, Idle_block] True"
  let ?b6 = "thread_at all_signals {} [Sys_kill 100, Idle_block] True"
  have all: "{SIGTICK, SIGSYSCALL, SIGRESUME, SIGSYSCALL} = all_signals" by auto
  note go = converse_rtranclp_into_rtranclp [where r = pstep]
  have s1: "pstep (two run_k0 ?a ?b0) (two run_k0 ?a ?b1)"
    by (rule pstep_eq [OF pthread_fn_step [OF fn_wait [of 200 ?b0]]]) (simp_all add: run_simps)
  have s2: "pstep (two run_k0 ?a ?b1) (two run_k0 ?a ?b2)"
    by (rule pstep_eq [OF pthread_fn_step [OF fn_unblock [of 200 ?b1]]]) (simp_all add: run_simps)
  have s3: "pstep (two run_k0 ?a ?b2) (two run_k0 ?a ?b3)"
    by (rule pstep_eq [OF deliver [of _ 200 ?b2 SIGSYSCALL]]) (simp_all add: run_simps)
  have s4: "pstep (two run_k0 ?a ?b3) (two run_k1 ?a ?b4)"
    by (rule pstep_eq [OF syscall_step [OF sys_run [of 200 ?b3 _ run_k1 100]]]) (simp_all add: run_simps run_kernels)
  have s5: "pstep (two run_k1 ?a ?b4) (two run_k1 ?a ?b5)"
    by (rule pstep_eq [OF syscall_step [OF sys_block [of 200 100 ?b4]]]) (simp_all add: run_simps all)
  have s6: "pstep (two run_k1 ?a ?b5) (two run_k2 ?a ?b6)"
    by (rule pstep_eq [OF syscall_step [OF sys_prev [of 200 100 ?b5 _ Idle_task]]]) (simp_all add: run_simps run_kernels run_k2_def)
  have s7: "pstep (two run_k2 ?a ?b6)
      (two run_k2 (thread_at all_signals {SIGRESUME} [Fn_wait] False) (thread_at all_signals {} [Sys_wait, Idle_block] True))"
    by (rule pstep_eq [OF syscall_step [OF sys_kill [of 200 100 ?b6]]]) (simp_all add: run_simps)
  show ?thesis
    by (rule go [OF s1 go [OF s2 go [OF s3 go [OF s4 go [OF s5 go [OF s6 r_into_rtranclp [where r = pstep, OF s7]]]]]]])
qed

lemma run_to_sleep:
  "pstep\<^sup>*\<^sup>* (two run_k2 (thread_at all_signals {SIGRESUME} [Fn_wait] False) b) (two run_k4 (thread_at {SIGSYSCALL} {} [Sys_block 200, Fn_run] False) b)"
proof -
  let ?a0 = "thread_at all_signals {SIGRESUME} [Fn_wait] False"
  let ?a1 = "thread_at all_signals {} [Fn_unblock] False"
  let ?a2 = "thread_at {} {} [Fn_run] False"
  let ?a3 = "thread_at {} {SIGSYSCALL} [Fn_run] False"
  let ?a4 = "thread_at {SIGSYSCALL} {} [Sys_run, Fn_run] False"
  let ?a5 = "thread_at {SIGSYSCALL} {} [Sys_block 200, Fn_run] False"
  note go = converse_rtranclp_into_rtranclp [where r = pstep]
  have s1: "pstep (two run_k2 ?a0 b) (two run_k2 ?a1 b)"
    by (rule pstep_eq [OF pthread_fn_step [OF fn_wait [of 100 ?a0]]]) (simp_all add: run_simps)
  have s2: "pstep (two run_k2 ?a1 b) (two run_k2 ?a2 b)"
    by (rule pstep_eq [OF pthread_fn_step [OF fn_unblock [of 100 ?a1]]]) (simp_all add: run_simps)
  have s3: "pstep (two run_k2 ?a2 b) (two run_k3 ?a3 b)"
  proof -
    let ?k = "submit RT_SYSCALL_SLEEP (Sleep 5) run_k2" and ?g = "conf (two run_k2 ?a2 b)"
    have "task_op ?g (?g\<lparr>kern := submit RT_SYSCALL_SLEEP (Sleep 5) (kern ?g)\<rparr>)" by (rule op_call) simp
    then have op: "task_op ?g (?g\<lparr>kern := ?k\<rparr>)" by (simp add: two_simps)
    have p: "syscall_pended ?k" unfolding submit_def Let_def rt_syscall_def rt_syscall_pend_def by simp
    have "rt_syscall_pend_pt 100 ((two run_k2 ?a2 b)\<lparr>conf := ?g\<lparr>kern := ?k\<rparr>\<rparr>) = two run_k3 ?a3 b"
      using p by (simp add: rt_syscall_pend_pt_def two_def run_k3_def upd_kern_def pthread_kill_def Let_def fun_upd_twist)
    moreover have "at_point 100 Fn_run ?a2 (two run_k2 ?a2 b)" by (simp add: run_simps)
    ultimately show ?thesis using pthread_fn_step [OF fn_op [OF _ op]] by metis
  qed
  have s4: "pstep (two run_k3 ?a3 b) (two run_k3 ?a4 b)"
    by (rule pstep_eq [OF deliver [of _ 100 ?a3 SIGSYSCALL]]) (simp_all add: run_simps)
  have s5: "pstep (two run_k3 ?a4 b) (two run_k4 ?a5 b)"
    by (rule pstep_eq [OF syscall_step [OF sys_run [of 100 ?a4 _ run_k4 200]]]) (simp_all add: run_simps run_kernels)
  show ?thesis
    by (rule go [OF s1 go [OF s2 go [OF s3 go [OF s4 r_into_rtranclp [where r = pstep, OF s5]]]]])
qed

definition run_state :: process where
  "run_state = two run_k4 (thread_at {SIGSYSCALL} {} [Sys_block 200, Fn_run] False)
     (thread_at all_signals {} [Sys_wait, Idle_block] True)"

lemma run_reachable: "process_reachable run_state"
  unfolding process_reachable_def run_state_def
  using run_start run_to_task run_to_sleep [of "thread_at all_signals {} [Sys_wait, Idle_block] True"]
  by (meson rtranclp_trans)

theorem one_thread_runs_witness:
  "rt_started run_state \<and> \<not> stopped run_state \<and>
   (\<exists>l th. thr run_state l = Some th \<and> (\<forall>x th'. thr run_state x = Some th' \<and> x \<noteq> l \<longrightarrow>
      fst (hd (frames th')) \<in> {Fn_wait, Sys_wait} \<and> sigmask th' = all_signals \<and> SIGRESUME \<notin> sigpend th'))"
proof -
  have "rt_started run_state" "\<not> stopped run_state" by (simp_all add: run_state_def two_simps)
  then show ?thesis using one_thread_runs [OF run_reachable] by blast
qed

theorem tick_lost_in_switch_witness:
  "process_reachable run_state \<and>
   (\<exists>S'. pstep\<^sup>*\<^sup>* run_state S' \<and> tick (kern (conf S')) = tick (kern (conf run_state)) + 1 \<and>
     (\<forall>S''. pstep\<^sup>*\<^sup>* S' S'' \<longrightarrow> woken_tick (kern (conf S'')) = woken_tick (kern (conf run_state)) \<and>
        active_task (kern (conf S'')) = Idle_task))"
proof -
  let ?a = "thread_at {SIGSYSCALL} {} [Sys_block 200, Fn_run] False" and ?b = "thread_at all_signals {} [Sys_wait, Idle_block] True"
  have "at_point 100 (Sys_block 200) ?a run_state" "thr run_state 200 = Some ?b" "\<not> tick_pending (kern (conf run_state))"
    by (simp_all add: two_simps run_kernels run_state_def)
  from tick_lost_in_switch [OF run_reachable this(1,2) _ _ this(3)] show ?thesis using run_reachable by simp
qed

end
