(* ===== verification/Rt_Pthread_Stop.thy ===== *)
theory Rt_Pthread_Stop
  imports Rt_Pthread_Tick
begin

text \<open>
  The end of the scheduler in the port to POSIX threads: what \<^verbatim>\<open>rt_start\<close> does once \<^verbatim>\<open>rt_stop\<close> has sent
  its signal to the main thread, while the timer is still running and the task that called
  \<^verbatim>\<open>rt_stop\<close> goes on.
\<close>

section \<open>The end of \<^verbatim>\<open>rt_start\<close>\<close>

datatype sig_action = Handler | SIG_IGN | SIG_DFL

text \<open>Where the main thread is: before the call that the name says.\<close>

datatype main_point = Main_wait | Main_setitimer | Main_ign signal | Main_unblock | Main_dfl signal | Main_return

text \<open>
  The process with the main thread's mask and pending signals, whether the timer runs, the action of each
  signal, and the signals that were delivered since with the action they had.
\<close>

record ending =
  proc :: process
  main_mask :: "signal set"
  main_pend :: "signal set"
  main_at :: main_point
  timer_on :: bool
  sigactions :: "signal \<Rightarrow> sig_action"
  delivered :: "(signal \<times> sig_action) list"

definition discard :: "signal \<Rightarrow> thread \<Rightarrow> thread" where
  "discard sg th = th\<lparr>sigpend := sigpend th - {sg}\<rparr>"

text \<open>A new action; ignoring a signal drops it where it is pending, for every thread and for the process.\<close>

definition sigaction :: "signal \<Rightarrow> sig_action \<Rightarrow> ending \<Rightarrow> ending" where
  "sigaction sg act E =
     (let E = E\<lparr>sigactions := (sigactions E)(sg := act)\<rparr>
      in if act = SIG_IGN
         then E\<lparr>main_pend := main_pend E - {sg},
                proc := (proc E)\<lparr>thr := (\<lambda>x. map_option (discard sg) (thr (proc E) x)),
                                 tick_sig := (tick_sig (proc E) \<and> sg \<noteq> SIGTICK)\<rparr>\<rparr>
         else E)"

inductive rt_start_end :: "ending \<Rightarrow> ending \<Rightarrow> bool" where
  end_wait: "main_at E = Main_wait \<Longrightarrow> SIGRESUME \<in> main_pend E \<Longrightarrow>
    rt_start_end E (E\<lparr>main_pend := main_pend E - {SIGRESUME}, main_at := Main_setitimer\<rparr>)"
| end_setitimer: "main_at E = Main_setitimer \<Longrightarrow>
    rt_start_end E (E\<lparr>timer_on := False, main_at := Main_ign SIGTICK\<rparr>)"
| end_ign_tick: "main_at E = Main_ign SIGTICK \<Longrightarrow>
    rt_start_end E ((sigaction SIGTICK SIG_IGN E)\<lparr>main_at := Main_ign SIGRESUME\<rparr>)"
| end_ign_resume: "main_at E = Main_ign SIGRESUME \<Longrightarrow>
    rt_start_end E ((sigaction SIGRESUME SIG_IGN E)\<lparr>main_at := Main_ign SIGSYSCALL\<rparr>)"
| end_ign_syscall: "main_at E = Main_ign SIGSYSCALL \<Longrightarrow>
    rt_start_end E ((sigaction SIGSYSCALL SIG_IGN E)\<lparr>main_at := Main_unblock\<rparr>)"
| end_unblock: "main_at E = Main_unblock \<Longrightarrow>
    rt_start_end E (E\<lparr>main_mask := main_mask E - all_signals, main_at := Main_dfl SIGTICK\<rparr>)"
| end_dfl_tick: "main_at E = Main_dfl SIGTICK \<Longrightarrow>
    rt_start_end E ((sigaction SIGTICK SIG_DFL E)\<lparr>main_at := Main_dfl SIGRESUME\<rparr>)"
| end_dfl_resume: "main_at E = Main_dfl SIGRESUME \<Longrightarrow>
    rt_start_end E ((sigaction SIGRESUME SIG_DFL E)\<lparr>main_at := Main_dfl SIGSYSCALL\<rparr>)"
| end_dfl_syscall: "main_at E = Main_dfl SIGSYSCALL \<Longrightarrow>
    rt_start_end E ((sigaction SIGSYSCALL SIG_DFL E)\<lparr>main_at := Main_return\<rparr>)"

text \<open>
  What happens meanwhile. The timer's signal is pending for the process. The task that called
  \<^verbatim>\<open>rt_stop\<close> returns from it and goes on with its signals blocked: it may use the kernel and create
  tasks, as before. A signal that is ignored may be dropped or stay pending while it is blocked. A
  signal that is pending for a thread, or for the process, is delivered to a thread that does
  not block it; the next two rules note each delivery.
\<close>

definition runs_on :: "u32 \<Rightarrow> thread \<Rightarrow> process \<Rightarrow> bool" where
  "runs_on x th S \<longleftrightarrow> thr S x = Some th \<and> frames th \<noteq> [] \<and> fst (hd (frames th)) = Fn_run"

inductive meanwhile :: "ending \<Rightarrow> ending \<Rightarrow> bool" where
  late_timer: "timer_on E \<Longrightarrow> meanwhile E (E\<lparr>proc := (proc E)\<lparr>tick_sig := True\<rparr>\<rparr>)"
| late_op: "runs_on x th (proc E) \<Longrightarrow> task_op (conf (proc E)) g \<Longrightarrow>
    meanwhile E (E\<lparr>proc := rt_syscall_pend_pt x ((proc E)\<lparr>conf := g\<rparr>)\<rparr>)"
| late_create: "runs_on x th (proc E) \<Longrightarrow> thr (proc E) c = None \<Longrightarrow>
    meanwhile E (E\<lparr>proc := rt_syscall_pend_pt x (add_task t c nm p (proc E))\<rparr>)"
| late_drop: "sigactions E sg = SIG_IGN \<Longrightarrow> thr (proc E) x = Some th \<Longrightarrow>
    meanwhile E (E\<lparr>proc := upd_thread x (discard sg th) (proc E)\<rparr>)"
| late_deliver: "thr (proc E) x = Some th \<Longrightarrow> sg \<in> sigpend th \<or> sg = SIGTICK \<and> tick_sig (proc E) \<Longrightarrow> sg \<notin> sigmask th \<Longrightarrow>
    meanwhile E (E\<lparr>delivered := (sg, sigactions E sg) # delivered E\<rparr>)"
| late_deliver_main: "sg \<in> main_pend E \<or> sg = SIGTICK \<and> tick_sig (proc E) \<Longrightarrow> sg \<notin> main_mask E \<Longrightarrow>
    meanwhile E (E\<lparr>delivered := (sg, sigactions E sg) # delivered E\<rparr>)"

definition ending_step :: "ending \<Rightarrow> ending \<Rightarrow> bool" where
  "ending_step E E' \<longleftrightarrow> rt_start_end E E' \<or> meanwhile E E'"

text \<open>
  The main thread waits with all signals blocked, \<^verbatim>\<open>rt_stop\<close> has sent its signal, and the actions are
  those that the start of \<^verbatim>\<open>rt_start\<close> installed.
\<close>

definition ending_init :: "process \<Rightarrow> ending" where
  "ending_init S = \<lparr>proc = S, main_mask = all_signals, main_pend = {SIGRESUME}, main_at = Main_wait, timer_on = True,
     sigactions = (\<lambda>_. Handler), delivered = []\<rparr>"

section \<open>All threads block all signals\<close>

definition all_block :: "process \<Rightarrow> bool" where
  "all_block S \<longleftrightarrow> (\<forall>x th. thr S x = Some th \<longrightarrow> all_signals \<subseteq> sigmask th)"

lemma all_blockI: "(\<And>x th. thr S x = Some th \<Longrightarrow> all_signals \<subseteq> sigmask th) \<Longrightarrow> all_block S"
  by (simp add: all_block_def)

lemma all_blockD: "all_block S \<Longrightarrow> thr S x = Some th \<Longrightarrow> sg \<in> sigmask th"
  by (cases sg) (auto simp: all_block_def)

lemma stopped_blocks:
  assumes reach: "process_reachable S" and stop: "stopped S"
  shows "all_block S"
proof -
  from reach stop obtain S0 where S0: "process_reachable S0" "pstep S0 S"
    unfolding process_reachable_def by (cases rule: rtranclp.cases) (auto simp: process_init_def)
  have ok: "process_ok S0" using S0(1) by (rule process_reachable_inv)
  then have go: "\<not> stopped S0" using started_step [OF S0(2)] by (auto simp: process_ok_def)
  obtain x th where st: "at_point x Fn_run th S0" "thr S = (thr S0)(x \<mapsto> block_all_signals th)"
    using stop_step [OF S0(2) go stop] by blast
  then obtain l th0 A rs where at: "inv_at S0 l th0 A rs" using ok go at_point_started [OF st(1)] by (auto simp: process_ok_def)
  have x: "x = l" using at_point_live [OF at st(1)] by simp
  show ?thesis
  proof (rule all_blockI)
    show "all_signals \<subseteq> sigmask t" if "thr S y = Some t" for y t
      using that inv_atD(7) [OF at, of y t] resting_blocked(1) [of t] unfolding st(2) x
      by (cases "y = l") (auto simp: block_all_signals_def)
  qed
qed

lemma all_block_upd: "all_block S \<Longrightarrow> all_signals \<subseteq> sigmask th \<Longrightarrow> all_block (upd_thread x th S)"
  by (auto simp: all_block_def upd_thread_def)

lemma all_block_kill: "all_block S \<Longrightarrow> all_block (pthread_kill x sg S)"
  by (auto simp: all_block_def pthread_kill_def)

lemma all_block_fields [simp]:
  "all_block (S\<lparr>tick_sig := b\<rparr>) = all_block S" "all_block (S\<lparr>conf := g\<rparr>) = all_block S"
  by (simp_all add: all_block_def)

lemma all_block_pend: "all_block S \<Longrightarrow> all_block (rt_syscall_pend_pt x S)"
  by (auto simp: rt_syscall_pend_pt_def Let_def upd_kern_def intro!: all_block_kill)

lemma all_block_add: "all_block S \<Longrightarrow> all_block (add_task t c nm p S)"
  by (auto simp: add_task_def context_create_pt_def Let_def all_block_def upd_thread_def)

lemma pend_tick_sig [simp]:
  "tick_sig (rt_syscall_pend_pt x S) = tick_sig S" "tick_sig (add_task t c nm p S) = tick_sig S" "tick_sig (upd_thread x th S) = tick_sig S"
  by (simp_all add: rt_syscall_pend_pt_def pthread_kill_def upd_kern_def add_task_def context_create_pt_def upd_thread_def Let_def)

section \<open>The invariant of the end\<close>

text \<open>The actions when the main thread is at each point.\<close>

fun actions_at :: "main_point \<Rightarrow> signal \<Rightarrow> sig_action" where
  "actions_at Main_wait = (\<lambda>_. Handler)"
| "actions_at Main_setitimer = (\<lambda>_. Handler)"
| "actions_at (Main_ign SIGTICK) = (\<lambda>_. Handler)"
| "actions_at (Main_ign SIGRESUME) = (\<lambda>_. Handler)(SIGTICK := SIG_IGN)"
| "actions_at (Main_ign SIGSYSCALL) = (\<lambda>_. SIG_IGN)(SIGSYSCALL := Handler)"
| "actions_at Main_unblock = (\<lambda>_. SIG_IGN)"
| "actions_at (Main_dfl SIGTICK) = (\<lambda>_. SIG_IGN)"
| "actions_at (Main_dfl SIGRESUME) = (\<lambda>_. SIG_IGN)(SIGTICK := SIG_DFL)"
| "actions_at (Main_dfl SIGSYSCALL) = (\<lambda>_. SIG_DFL)(SIGSYSCALL := SIG_IGN)"
| "actions_at Main_return = (\<lambda>_. SIG_DFL)"

definition ending_ok :: "ending \<Rightarrow> bool" where
  "ending_ok E \<longleftrightarrow> all_block (proc E) \<and> delivered E = [] \<and> sigactions E = actions_at (main_at E) \<and>
     main_pend E = (if main_at E = Main_wait then {SIGRESUME} else {}) \<and>
     (timer_on E \<longleftrightarrow> main_at E \<in> {Main_wait, Main_setitimer}) \<and>
     (tick_sig (proc E) \<longrightarrow> main_at E \<in> {Main_wait, Main_setitimer, Main_ign SIGTICK}) \<and>
     main_mask E = (if main_at E = Main_return \<or> main_at E \<in> range Main_dfl then {} else all_signals)"

lemma signal_fun_eq: "f = g \<longleftrightarrow> f SIGTICK = g SIGTICK \<and> f SIGSYSCALL = g SIGSYSCALL \<and> f SIGRESUME = g SIGRESUME"
  by (auto intro!: ext) (metis signal.exhaust)

lemma all_block_drop:
  assumes "all_block S"
  shows "all_block (S\<lparr>thr := (\<lambda>x. map_option (discard sg) (thr S x)), tick_sig := b\<rparr>)"
    "all_block (S\<lparr>thr := (\<lambda>x. map_option (discard sg) (thr S x))\<rparr>)"
  using assms by (auto simp: all_block_def discard_def)

lemma rt_start_end_ok:
  assumes "rt_start_end E E'" and "ending_ok E"
  shows "ending_ok E'"
  using assms by cases (auto simp: ending_ok_def sigaction_def Let_def signal_fun_eq intro: all_block_drop)

lemma meanwhile_ok:
  assumes "meanwhile E E'" and E: "ending_ok E"
  shows "ending_ok E'"
proof -
  have b: "all_block (proc E)" using E by (simp add: ending_ok_def)
  have keep: "ending_ok (E\<lparr>proc := S\<rparr>)" if "all_block S" "tick_sig S \<longrightarrow> tick_sig (proc E) \<or> timer_on E" for S
    using E that by (auto simp: ending_ok_def)
  from assms(1) show ?thesis
  proof cases
    case late_timer
    then show ?thesis using b by (auto intro!: keep)
  next
    case (late_op x th g)
    then show ?thesis using b by (auto intro!: keep all_block_pend)
  next
    case (late_create x th c t nm p)
    then show ?thesis using b by (auto intro!: keep all_block_pend all_block_add)
  next
    case (late_drop sg x th)
    then show ?thesis using b by (auto intro!: keep all_block_upd simp: discard_def all_blockD)
  next
    case (late_deliver x th sg)
    then show ?thesis using all_blockD [OF b] by blast
  next
    case (late_deliver_main sg)
    then show ?thesis using E by (cases sg) (auto simp: ending_ok_def split: if_splits)
  qed
qed

lemma ending_reachable_ok:
  assumes "ending_step\<^sup>*\<^sup>* (ending_init S) E" and "all_block S"
  shows "ending_ok E"
  using assms(1)
proof (induction rule: rtranclp_induct)
  case base
  show ?case using assms(2) by (simp add: ending_ok_def ending_init_def image_iff)
next
  case (step E E')
  then show ?case using rt_start_end_ok meanwhile_ok unfolding ending_step_def by blast
qed

text \<open>The main thread is never held up.\<close>

lemma main_goes_on:
  assumes "ending_ok E" and "main_at E \<noteq> Main_return"
  shows "\<exists>E'. rt_start_end E E'"
proof (cases "main_at E")
  case Main_wait
  then show ?thesis using end_wait [of E] assms(1) by (auto simp: ending_ok_def)
next
  case (Main_ign sg)
  then show ?thesis using end_ign_tick end_ign_resume end_ign_syscall by (cases sg) blast+
next
  case (Main_dfl sg)
  then show ?thesis using end_dfl_tick end_dfl_resume end_dfl_syscall by (cases sg) blast+
qed (use assms end_setitimer end_unblock in blast)+

fun main_left :: "main_point \<Rightarrow> nat" where
  "main_left Main_wait = 9"
| "main_left Main_setitimer = 8"
| "main_left (Main_ign SIGTICK) = 7"
| "main_left (Main_ign SIGRESUME) = 6"
| "main_left (Main_ign SIGSYSCALL) = 5"
| "main_left Main_unblock = 4"
| "main_left (Main_dfl SIGTICK) = 3"
| "main_left (Main_dfl SIGRESUME) = 2"
| "main_left (Main_dfl SIGSYSCALL) = 1"
| "main_left Main_return = 0"

lemma main_left_step: "rt_start_end E E' \<Longrightarrow> main_left (main_at E) = Suc (main_left (main_at E'))"
  by (cases rule: rt_start_end.cases) auto

lemma main_left_meanwhile: "meanwhile E E' \<Longrightarrow> main_at E' = main_at E"
  by (cases rule: meanwhile.cases) auto

lemma main_left_0: "main_left p = 0 \<longleftrightarrow> p = Main_return"
  by (cases p rule: main_left.cases) auto

lemma main_returns:
  assumes "ending_ok E" shows "\<exists>E'. (rt_start_end ^^ main_left (main_at E)) E E' \<and> main_at E' = Main_return"
  using assms
proof (induction "main_left (main_at E)" arbitrary: E)
  case 0
  then show ?case using main_left_0 [of "main_at E"] by auto
next
  case (Suc n)
  then obtain E1 where E1: "rt_start_end E E1" using main_goes_on main_left_0 by (metis nat.simps(3))
  then have "n = main_left (main_at E1)" "ending_ok E1" using main_left_step [OF E1] rt_start_end_ok Suc by auto
  then obtain E' where "(rt_start_end ^^ n) E1 E'" "main_at E' = Main_return" using Suc.hyps(1) by blast
  then show ?case using E1 Suc.hyps(2) relpowp_Suc_I2 [of rt_start_end E E1 n E'] by auto
qed

text \<open>
  C20. The scheduler of the POSIX port stops cleanly. Once a task has called \<^verbatim>\<open>rt_stop\<close>, however the timer
  and that task go on, no signal is delivered to any thread any more, whether its action is the port's
  handler or the default one, which would end the process: the ticks that are still pending are dropped before
  the main thread unblocks its signals. The main thread is never held up: it returns from
  \<^verbatim>\<open>rt_start\<close> after at most nine more steps of its own, and then the timer is off, no signal is pending for
  it or for the process, none is blocked, and all actions are the default ones again.
\<close>

theorem rt_start_stops_cleanly:
  assumes "process_reachable S" and "stopped S" and "ending_step\<^sup>*\<^sup>* (ending_init S) E"
  shows "delivered E = [] \<and>
    (\<exists>n E'. n \<le> 9 \<and> (rt_start_end ^^ n) E E' \<and> main_at E' = Main_return) \<and>
    (main_at E = Main_return \<longrightarrow> \<not> timer_on E \<and> \<not> tick_sig (proc E) \<and> main_pend E = {} \<and> main_mask E = {} \<and>
       sigactions E = (\<lambda>_. SIG_DFL))"
proof -
  have ok: "ending_ok E" using ending_reachable_ok [OF assms(3) stopped_blocks [OF assms(1,2)]] .
  have "main_left p \<le> 9" for p by (cases p rule: main_left.cases) auto
  then show ?thesis using main_returns [OF ok] ok by (auto simp: ending_ok_def)
qed

section \<open>A run to the end\<close>

definition stop_state :: process where
  "stop_state = (two run_k2 (thread_at all_signals {} [Fn_run] False)
     (thread_at all_signals {} [Sys_wait, Idle_block] True))\<lparr>stopped := True\<rparr>"

lemma stop_reachable: "process_reachable stop_state"
proof -
  let ?a0 = "thread_at all_signals {SIGRESUME} [Fn_wait] False"
  let ?a1 = "thread_at all_signals {} [Fn_unblock] False"
  let ?a2 = "thread_at {} {} [Fn_run] False"
  let ?b = "thread_at all_signals {} [Sys_wait, Idle_block] True"
  have s1: "pstep (two run_k2 ?a0 ?b) (two run_k2 ?a1 ?b)"
    by (rule pstep_eq [OF pthread_fn_step [OF fn_wait [of 100 ?a0]]]) (simp_all add: run_simps)
  have s2: "pstep (two run_k2 ?a1 ?b) (two run_k2 ?a2 ?b)"
    by (rule pstep_eq [OF pthread_fn_step [OF fn_unblock [of 100 ?a1]]]) (simp_all add: run_simps)
  have s3: "pstep (two run_k2 ?a2 ?b) stop_state"
    by (rule pstep_eq [OF pthread_fn_step [OF fn_stop [of 100 ?a2]]]) (simp_all add: run_simps rt_stop_pt_def stop_state_def)
  show ?thesis unfolding process_reachable_def using run_start run_to_task s1 s2 s3
    by (meson rtranclp.rtrancl_into_rtrancl rtranclp_trans)
qed

theorem rt_start_stops_cleanly_witness:
  "process_reachable stop_state \<and> stopped stop_state \<and>
   (let E = (ending_init stop_state)\<lparr>proc := stop_state\<lparr>tick_sig := True\<rparr>\<rparr>
    in ending_step\<^sup>*\<^sup>* (ending_init stop_state) E \<and> delivered E = [] \<and>
       (\<exists>n E'. n \<le> 9 \<and> (rt_start_end ^^ n) E E' \<and> main_at E' = Main_return))"
proof -
  let ?E = "(ending_init stop_state)\<lparr>proc := stop_state\<lparr>tick_sig := True\<rparr>\<rparr>"
  have s: "stopped stop_state" by (simp add: stop_state_def)
  have "meanwhile (ending_init stop_state) ?E"
    using late_timer [of "ending_init stop_state"] by (simp add: ending_init_def)
  then have "ending_step\<^sup>*\<^sup>* (ending_init stop_state) ?E" by (auto simp: ending_step_def)
  then show ?thesis using rt_start_stops_cleanly [OF stop_reachable s] stop_reachable s by (simp add: Let_def)
qed

end
