(* ===== verification/Rt_Task_Static.thy ===== *)
theory Rt_Task_Static
  imports Rt_System
begin

text \<open>
  Tasks in static memory: the macros \<^verbatim>\<open>RT_TASK_INIT\<close>, \<^verbatim>\<open>RT_TASK\<close> and \<^verbatim>\<open>RT_TASK_ARG\<close> of \<^verbatim>\<open>task.h\<close>. The
  initialiser is in memory before the program starts (\<open>static_task\<close>); the statements of the macros
  store the context and submit the record. The context is the argument \<open>c\<close>, what the
  architecture's \<^verbatim>\<open>rt_context_create\<close> or \<^verbatim>\<open>rt_context_create_arg\<close> returned.
\<close>

section \<open>The macros\<close>

definition RT_TASK_INIT :: "string \<Rightarrow> u32 \<Rightarrow> rt_task" where
  "RT_TASK_INIT name_str prio =
     zero_task\<lparr>task_record := zero_record\<lparr>syscall := RT_SYSCALL_TASK_READY\<rparr>, task_name := name_str, priority := prio\<rparr>"

definition static_task :: "task_id \<Rightarrow> string \<Rightarrow> u32 \<Rightarrow> kernel \<Rightarrow> kernel" where
  "static_task t name_str prio s =
     (let s = upd_nodes (rt_list_init (Task_list t)) s;
          s = upd_nodes (rt_list_init (Task_sleep_list t)) s
      in upd_task t (\<lambda>_. RT_TASK_INIT name_str prio) s)"

definition RT_TASK :: "task_id \<Rightarrow> u32 \<Rightarrow> kernel \<Rightarrow> kernel" where
  "RT_TASK t c s =
     (let s = upd_task t (\<lambda>k. k\<lparr>ctx := c\<rparr>) s
      in rt_syscall (Task_record t) s)"

text \<open>
  The statements of \<^verbatim>\<open>RT_TASK_ARG\<close> are the same with the other context. Its initialiser has a name made
  of the texts of the macro's arguments.
\<close>

definition RT_TASK_ARG :: "task_id \<Rightarrow> u32 \<Rightarrow> kernel \<Rightarrow> kernel" where
  "RT_TASK_ARG t c s =
     (let s = upd_task t (\<lambda>k. k\<lparr>ctx := c\<rparr>) s
      in rt_syscall (Task_record t) s)"

definition static_task_arg :: "task_id \<Rightarrow> string \<Rightarrow> string \<Rightarrow> u32 \<Rightarrow> kernel \<Rightarrow> kernel" where
  "static_task_arg t fn arg prio s = static_task t (fn @ ''('' @ arg @ '')'') prio s"

text \<open>
  A program with the static tasks \<open>ps\<close>, each with its address, name, priority and context: its
  memory when it starts, and \<^verbatim>\<open>main\<close> up to \<^verbatim>\<open>rt_start\<close>.
\<close>

type_synonym static_program = "(task_id \<times> string \<times> u32 \<times> u32) list"

definition load_program :: "static_program \<Rightarrow> kernel" where
  "load_program ps = fold (\<lambda>(t, nm, p, c). static_task t nm p) ps kernel_init"

definition start_program :: "static_program \<Rightarrow> kernel \<Rightarrow> kernel" where
  "start_program ps s = fold (\<lambda>(t, nm, p, c). RT_TASK t c) ps s"

section \<open>The same as the functions\<close>

definition is_static :: "task_id \<Rightarrow> string \<Rightarrow> u32 \<Rightarrow> kernel \<Rightarrow> bool" where
  "is_static t nm p s \<longleftrightarrow> task s t = RT_TASK_INIT nm p \<and>
     nodes s (Task_sleep_list t) = \<lparr>lprev = Task_sleep_list t, lnext = Task_sleep_list t\<rparr>"

lemma RT_TASK_ARG_same: "RT_TASK_ARG = RT_TASK"
  by (simp add: fun_eq_iff RT_TASK_ARG_def RT_TASK_def)

lemma rt_list_init_same:
  "h l = \<lparr>lprev = l, lnext = l\<rparr> \<Longrightarrow> rt_list_init l h = h"
  by (rule ext, rule list_heap_eqI) (simp_all add: rt_list_init_def Let_def heap_simps)

lemma RT_TASK_eq:
  assumes "is_static t nm p s"
  shows "RT_TASK t c s = rt_task_init t c nm p s"
proof -
  let ?s = "upd_task t (\<lambda>k. k\<lparr>ctx := c\<rparr>) s"
  have k: "task ?s t = (RT_TASK_INIT nm p)\<lparr>ctx := c\<rparr>" using assms by (simp add: is_static_def kernel_simps)
  have n: "upd_nodes (rt_list_init (Task_sleep_list t)) ?s = ?s"
    using assms rt_list_init_same [of "nodes s" "Task_sleep_list t"]
    by (simp add: is_static_def upd_nodes_def upd_task_def)
  have same: "upd_task t f ?s = ?s" if "f (task ?s t) = task ?s t" for f
    using that by (cases s) (simp add: upd_task_def fun_upd_idem)
  have "task_init t nm p ?s = rt_syscall (Task_record t) ?s"
    by (simp add: task_init_def Let_def n same k RT_TASK_INIT_def zero_task_def zero_record_def)
  then show ?thesis by (simp add: RT_TASK_def rt_task_init_def Let_def)
qed

section \<open>The invariant\<close>

text \<open>Memory of tasks that are not created yet does not matter.\<close>

lemma static_task_sel [kernel_simps]:
  "nodes (static_task t nm p s) = rt_list_init (Task_sleep_list t) (rt_list_init (Task_list t) (nodes s))"
  "tasks (static_task t nm p s) = (tasks s)(t := RT_TASK_INIT nm p)" "sems (static_task t nm p s) = sems s"
  "tick_record (static_task t nm p s) = tick_record s" "flags (static_task t nm p s) = flags s"
  "pending_syscalls (static_task t nm p s) = pending_syscalls s"
  "active_task (static_task t nm p s) = active_task s" "woken_tick (static_task t nm p s) = woken_tick s"
  by (simp_all add: static_task_def Let_def kernel_simps flags_def)

lemma static_task_ok:
  assumes s: "system_ok s A rs" and t: "t \<notin> q_tasks A" "can_wait t" "q_state A t = RT_TASK_STATE_RUNNING"
  shows "system_ok (static_task t nm p s) A rs" (is "system_ok ?s A rs")
proof -
  note k = kernel_okD [OF system_okD(1) [OF s]]
  have un: "t \<notin> queued A" "t \<noteq> active_task s" using t(1) queues_okD(1) [OF k(2)] k(5) by auto
  have new: "Task_record t \<notin> set rs"
    using k(7) t(1) unfolding pending_ok_def records_ok_def rec_ok_def by force
  have "lists_at dlist (rt_list_init (Task_list t) (nodes s)) ((heads A)(Task_list t \<mapsto> []))"
    by (rule rt_lists.init_lists, use k(1) in \<open>simp add: refines_def\<close>, rule unlisted_Task_list)
      (use un(1) in_queued in blast)+
  then have 1: "lists_at dlist (rt_list_init (Task_list t) (nodes s)) (heads A)"
    by (rule lists_at_forget) (case_tac l; auto split: if_splits)
  have "lists_at dlist (nodes ?s) ((heads A)(Task_sleep_list t \<mapsto> []))"
    unfolding static_task_sel by (rule rt_lists.init_lists, rule 1, rule heads_unlisted_head)
      (use t queues_okD(1) [OF k(2)] in auto)
  then have "lists_at dlist (nodes ?s) (heads A)"
    by (rule lists_at_forget) (case_tac l; auto split: if_splits)
  then have "refines ?s A" using k(1) t(3)
    by (auto simp: refines_def static_task_sel RT_TASK_INIT_def zero_task_def)
  moreover have "queues_ok {} ?s A"
    using k(2) by (rule queues_ok_same) (use un(1) in \<open>auto simp: static_task_sel\<close>)
  moreover have "counts ?s A" using k(3) by (simp add: counts_def static_task_sel)
  moreover have "idle_ok ?s A" using k(4) t(2) by (auto simp: idle_ok_def static_task_sel)
  moreover have "get_record ?s r = get_record s r" if "r \<in> set rs" for r
    by (cases r) (use that new in \<open>auto simp: static_task_sel\<close>)
  then have "pending_ok ?s A rs" by (intro pending_ok_grow [OF k(7)]) (simp_all add: static_task_sel)
  ultimately have "kernel_ok ?s A rs" using k(5,6) by (simp add: kernel_ok_def static_task_sel)
  then show ?thesis using system_okD(2,3) [OF s]
    by (simp add: system_ok_def flags_ok_def posts_ok_def static_task_sel)
qed

section \<open>Static programs\<close>

abbreviation prog_tasks :: "static_program \<Rightarrow> task_id list" where
  "prog_tasks ps \<equiv> map fst ps"

lemma load_program_ok:
  assumes "\<forall>t \<in> set (prog_tasks ps). t \<noteq> Idle_task \<and> can_wait t"
  shows "system_ok (load_program ps) queues_init []"
proof -
  have "system_ok (fold (\<lambda>(t, nm, p, c). static_task t nm p) ps s) queues_init []"
    if "system_ok s queues_init []" for s
    using assms that
  proof (induction ps arbitrary: s)
    case (Cons q ps)
    obtain t nm p c where q: "q = (t, nm, p, c)" by (cases q)
    have "system_ok (static_task t nm p s) queues_init []"
      using Cons.prems q by (intro static_task_ok) (simp_all add: queues_init_def)
    then show ?case using Cons q by simp
  qed simp
  then show ?thesis unfolding load_program_def using system_init_ok by blast
qed

lemma rt_list_init_self: "rt_list_init l h l = \<lparr>lprev = l, lnext = l\<rparr>"
  by (simp add: rt_list_init_def Let_def set_prev_def set_next_def)

lemma is_static_self: "is_static t nm p (static_task t nm p s)"
  by (simp add: is_static_def static_task_sel rt_list_init_self)

lemma is_static_other:
  assumes "u \<noteq> t"
  shows "is_static u nm p (static_task t nm' p' s) = is_static u nm p s"
    and "is_static u nm p (RT_TASK t c s) = is_static u nm p s"
  using assms by (simp_all add: is_static_def static_task_sel RT_TASK_def rt_syscall_def rt_syscall_pend_def Let_def
      kernel_simps rt_list_init_frame)

lemma load_is_static:
  assumes "distinct (prog_tasks ps)" and "(t, nm, p, c) \<in> set ps"
  shows "is_static t nm p (load_program ps)"
proof -
  let ?load = "fold (\<lambda>(t, nm, p, c). static_task t nm p)"
  have keep: "is_static t nm p (?load ps s) = is_static t nm p s" if "t \<notin> set (prog_tasks ps)" for ps s
    using that by (induction ps arbitrary: s) (auto simp: is_static_other)
  obtain qs rs where ps: "ps = qs @ (t, nm, p, c) # rs" using split_list [OF assms(2)] by blast
  then have "t \<notin> set (prog_tasks rs)" using assms(1) by simp
  then show ?thesis unfolding load_program_def ps by (simp add: keep is_static_self)
qed

text \<open>
  A program with static tasks comes to the state of one that calls \<^verbatim>\<open>rt_task_init\<close> for each task, and
  to a state that satisfies the invariant, with the records of all tasks pending.
\<close>

lemma start_program_eq:
  assumes "distinct (prog_tasks ps)" and "\<And>t nm p c. (t, nm, p, c) \<in> set ps \<Longrightarrow> is_static t nm p s"
  shows "start_program ps s = fold (\<lambda>(t, nm, p, c). rt_task_init t c nm p) ps s"
  using assms
proof (induction ps arbitrary: s)
  case (Cons q ps)
  obtain t nm p c where q: "q = (t, nm, p, c)" by (cases q)
  have eq: "RT_TASK t c s = rt_task_init t c nm p s" using Cons.prems(2) [of t nm p c] q by (intro RT_TASK_eq) simp
  have "is_static u nm' p' (RT_TASK t c s)" if "(u, nm', p', c') \<in> set ps" for u nm' p' c'
  proof -
    have "u \<noteq> t" using Cons.prems(1) q that by force
    then show ?thesis using Cons.prems(2) [of u nm' p' c'] that by (simp add: is_static_other)
  qed
  then show ?case using Cons.IH [of "RT_TASK t c s"] Cons.prems(1) by (simp add: start_program_def q eq)
qed (simp add: start_program_def)

lemma start_tasks_ok:
  assumes "system_ok s A rs" and "distinct (prog_tasks ps)" and "\<forall>t \<in> set (prog_tasks ps). t \<notin> q_tasks A \<and> can_wait t"
  shows "system_ok (fold (\<lambda>(t, nm, p, c). rt_task_init t c nm p) ps s)
     (A\<lparr>q_tasks := set (prog_tasks ps) \<union> q_tasks A\<rparr>) (rev (map Task_record (prog_tasks ps)) @ rs)"
  using assms
proof (induction ps arbitrary: s A rs)
  case (Cons q ps)
  obtain t nm p c where q: "q = (t, nm, p, c)" by (cases q)
  let ?A = "A\<lparr>q_tasks := insert t (q_tasks A)\<rparr>"
  have "system_ok (rt_task_init t c nm p s) ?A (Task_record t # rs)"
    using Cons.prems q by (intro create_task_keeps) simp_all
  from Cons.IH [OF this] show ?case using Cons.prems(2,3) by (auto simp: q)
qed simp

theorem static_program_starts:
  assumes "distinct (prog_tasks ps)" and "\<forall>t \<in> set (prog_tasks ps). t \<noteq> Idle_task \<and> can_wait t"
  shows "start_program ps (load_program ps) =
       fold (\<lambda>(t, nm, p, c). rt_task_init t c nm p) ps (load_program ps) \<and>
     system_ok (start_program ps (load_program ps))
       (queues_init\<lparr>q_tasks := set (prog_tasks ps) \<union> {Idle_task}\<rparr>) (rev (map Task_record (prog_tasks ps)))"
proof -
  have eq: "start_program ps (load_program ps) = fold (\<lambda>(t, nm, p, c). rt_task_init t c nm p) ps (load_program ps)"
    using assms(1) load_is_static [OF assms(1)] by (rule start_program_eq)
  show ?thesis using start_tasks_ok [OF load_program_ok [OF assms(2)] assms(1)] assms(2)
    by (simp add: eq queues_init_def)
qed

end
