(* ===== verification/Rt_First_Task.thy ===== *)
theory Rt_First_Task
  imports Rt_Task_Static
begin

text \<open>
  Which task runs first: the system calls that make the tasks of a program ready are on a stack, so
  the handler's first run sees the task that was created last first. The comment of
  \<^verbatim>\<open>examples/cycle/yield.c\<close> relies on it.
\<close>

section \<open>Many tasks become ready\<close>

lemma q_make_ready_sel [simp]:
  "q_tasks (q_make_ready s t A) = q_tasks A" "q_ready (q_make_ready s t A) = insert_by (higher s) t (q_ready A)"
  by (simp_all add: q_make_ready_def)

lemma run_ready:
  assumes "refines s A" "queues_ok {} s A" "counts s A" and "distinct ts" "set ts \<subseteq> q_tasks A" "set ts \<inter> queued A = {}"
    and "chain s r (map Task_record ts)" and "\<forall>t \<in> set ts. syscall (task_record (task s t)) = RT_SYSCALL_TASK_READY"
  shows "\<exists>s'. run_records r s = Some s' \<and> refines s' (fold (q_make_ready s) ts A) \<and>
     queues_ok {} s' (fold (q_make_ready s) ts A) \<and> counts s' (fold (q_make_ready s) ts A) \<and> kframe s s'"
  using assms
proof (induction ts arbitrary: s A r)
  case Nil
  then show ?case by (simp add: run_records.simps)
next
  case (Cons t ts)
  let ?A = "q_make_ready s t A"
  from handle_task_ready [OF Cons.prems(1-3), of t] Cons.prems(5,6) obtain s1 where
    s1: "task_ready t s = Some s1" "handled (Task_record t) s A s1 ?A" "kframe s s1" by auto
  have rd: "syscall (get_record s (Task_record t)) = RT_SYSCALL_TASK_READY" using Cons.prems(8) by simp
  have h: "handle_record (Task_record t) s = Some s1" using rd s1(1) by (simp add: handle_record_def)
  have q: "queued ?A \<subseteq> insert t (queued A)" using handledD [OF s1(2)] by auto
  have ch: "chain s1 (next_record (get_record s (Task_record t))) (map Task_record ts)"
    using Cons.prems(7) chain_frame [OF hframe_kframe [OF s1(3)]] by simp
  have fr: "q_make_ready s1 = q_make_ready s" using q_make_ready_frame [OF s1(3)] by (simp add: fun_eq_iff)
  have "set ts \<inter> queued ?A = {}" using q Cons.prems(4,6) by auto
  then obtain s' where s': "run_records (next_record (get_record s (Task_record t))) s1 = Some s'"
    "refines s' (fold (q_make_ready s) ts ?A)" "queues_ok {} s' (fold (q_make_ready s) ts ?A)"
    "counts s' (fold (q_make_ready s) ts ?A)" "kframe s1 s'"
    using Cons.IH [OF handledD(1-3) [OF s1(2)] _ _ _ ch] Cons.prems(4,5,8) unfolding fr
    by (auto simp: kframe_task [OF s1(3)])
  have "run_records r s = Some s'" using Cons.prems(7) h s'(1) by (subst run_records.simps) simp
  then show ?case using s' kframe_trans [OF s1(3)] by auto
qed

lemma insert_by_hd:
  "hd (insert_by before x xs) = (if xs = [] \<or> before x (hd xs) then x else hd xs)"
  by (cases xs) (auto simp: insert_by_def)

text \<open>The first of the ones of the highest rank comes first.\<close>

lemma fold_insert_hd:
  assumes "\<forall>y \<in> set ys. before x y" and "\<forall>z \<in> set zs. \<not> before z x"
  shows "fold (insert_by before) (ys @ x # zs) [] \<noteq> [] \<and> hd (fold (insert_by before) (ys @ x # zs) []) = x"
proof -
  have mem: "set (fold (insert_by before) ys xs) = set ys \<union> set xs" for xs
    by (induction ys arbitrary: xs) auto
  have keep: "fold (insert_by before) zs xs \<noteq> [] \<and> hd (fold (insert_by before) zs xs) = x" if "xs \<noteq> []" "hd xs = x" for xs
    using that assms(2) by (induction zs arbitrary: xs) (simp_all add: insert_by_hd)
  have "hd (insert_by before x (fold (insert_by before) ys [])) = x"
    using mem [of "[]"] assms(1) hd_in_set unfolding insert_by_hd by fastforce
  then show ?thesis using keep by simp
qed

lemma fold_make_ready:
  "q_ready (fold (q_make_ready s) ts A) = fold (insert_by (higher s)) ts (q_ready A)"
  "q_tasks (fold (q_make_ready s) ts A) = q_tasks A"
  "u \<notin> set ts \<Longrightarrow> q_state (fold (q_make_ready s) ts A) u = q_state A u"
  by (induction ts arbitrary: A) (simp_all add: q_make_ready_def)

section \<open>The first run of the handler\<close>

lemma RT_TASK_sel:
  "priority (task (RT_TASK t c s) u) = priority (task s u)"
  "syscall (task_record (task (RT_TASK t c s) u)) = syscall (task_record (task s u))"
  "ctx (task (RT_TASK t c s) u) = (if u = t then c else ctx (task s u))"
  "active_task (RT_TASK t c s) = active_task s"
  by (simp_all add: RT_TASK_def rt_syscall_def rt_syscall_pend_def Let_def kernel_simps)

lemma start_program_sel:
  "priority (task (start_program ps s) u) = priority (task s u)"
  "syscall (task_record (task (start_program ps s) u)) = syscall (task_record (task s u))"
  "active_task (start_program ps s) = active_task s"
  "u \<notin> set (prog_tasks ps) \<Longrightarrow> ctx (task (start_program ps s) u) = ctx (task s u)"
  unfolding start_program_def by (induction ps arbitrary: s) (auto simp: RT_TASK_sel)

lemma load_program_idle:
  assumes "Idle_task \<notin> set (prog_tasks ps)"
  shows "priority (task (load_program ps) Idle_task) = 0" "active_task (load_program ps) = Idle_task"
proof -
  let ?load = "fold (\<lambda>(t, nm, p, c). static_task t nm p)"
  have "priority (task (?load ps s) Idle_task) = priority (task s Idle_task) \<and> active_task (?load ps s) = active_task s" for s
    using assms by (induction ps arbitrary: s) (auto simp: static_task_sel)
  then show "priority (task (load_program ps) Idle_task) = 0" "active_task (load_program ps) = Idle_task"
    by (simp_all add: load_program_def kernel_init_def idle_task_init_def)
qed

lemma start_program_ctx:
  assumes "distinct (prog_tasks (pre @ (t, nm, p, c) # post))"
  shows "ctx (task (start_program (pre @ (t, nm, p, c) # post) s) t) = c"
proof -
  have "start_program (pre @ (t, nm, p, c) # post) s = start_program post (RT_TASK t c (start_program pre s))"
    by (simp add: start_program_def)
  then show ?thesis using assms by (simp add: start_program_sel RT_TASK_sel)
qed

lemma first_run:
  assumes ok: "kernel_ok s A (map Task_record ts)" and A: "queued A = {}" "q_state A Idle_task = RT_TASK_STATE_RUNNING"
      "distinct ts" "set ts \<subseteq> q_tasks A" "Idle_task \<notin> set ts"
    and rd: "\<forall>u \<in> set ts. syscall (task_record (task s u)) = RT_SYSCALL_TASK_READY"
    and idle: "active_task s = Idle_task" "higher s t Idle_task"
    and ts: "ts = ys @ t # zs" "\<forall>y \<in> set ys. higher s t y" "\<forall>z \<in> set zs. \<not> higher s z t"
  shows "\<exists>s'. rt_syscall_run s = Some (s', ctx (task s t)) \<and> active_task s' = t"
proof -
  let ?z = "s\<lparr>pending_syscalls := None\<rparr>"
  let ?B = "fold (q_make_ready ?z) ts A"
  note k = kernel_ok_start [OF ok]
  have "set ts \<inter> queued A = {}" using A(1) by simp
  moreover have "\<forall>u \<in> set ts. syscall (task_record (task ?z u)) = RT_SYSCALL_TASK_READY" using rd by simp
  ultimately obtain s1 where s1: "run_records (pending_syscalls s) ?z = Some s1" "refines s1 ?B" "queues_ok {} s1 ?B"
    "counts s1 ?B" "kframe ?z s1"
    using run_ready [OF k(1-3) A(3,4) _ k(6)] by blast
  have hi: "higher s1 = higher s" "higher ?z = higher s"
    using kframe_task(5) [OF s1(5)] by (simp_all add: fun_eq_iff higher_def)
  have "q_ready A = []" using A(1) by (simp add: queued_def)
  then obtain rest where r: "q_ready ?B = t # rest"
    using fold_insert_hd [OF ts(2,3)] unfolding fold_make_ready(1) hi ts(1)
    by (cases "fold (insert_by (higher s)) (ys @ t # zs) []") auto
  have "s1\<lparr>nodes := nodes ?z, tasks := tasks ?z, sems := sems ?z\<rparr> = ?z" using s1(5) by (simp only: kframe_def)
  then have a: "active_task s1 = Idle_task" using idle(1) by (cases s1, cases s) simp
  have "Idle_task \<in> q_tasks A" using kernel_okD(5) [OF ok] idle(1) by simp
  then obtain s' x C where s': "sched s1 = Some (s', x)" "scheduled s1 ?B s' C x"
    using sched_refines [OF s1(2-4)] a by (auto simp: fold_make_ready)
  have t: "t \<noteq> Idle_task" "\<not> higher s1 Idle_task t" using A(5) ts(1) idle(2) hi(1) by (auto simp: higher_def)
  then have 1: "active_task s' = t"
    using s'(2) r a unfolding scheduled_def q_sched_def by (auto simp: Let_def)
  moreover have "x = ctx (task s t)"
    using s'(2) 1 t(1) a kframe_task(1) [OF s1(5), of t] unfolding scheduled_def by simp
  ultimately show ?thesis using s1(1) s'(1) by (auto simp: rt_syscall_run_def)
qed

text \<open>
  C37. The task that runs first: when all tasks of a program are created and the handler runs for
  the first time, it switches to the context of a task of the highest priority and, of the tasks of
  that priority, to the one that was created last.
\<close>

theorem last_created_runs_first:
  assumes d: "distinct (prog_tasks ps)" and ids: "\<forall>t \<in> set (prog_tasks ps). t \<noteq> Idle_task \<and> can_wait t"
    and ps: "ps = pre @ (t, nm, p, c) # post" and p: "0 < p"
    and pre: "\<forall>(t', nm', p', c') \<in> set pre. p' \<le> p" and post: "\<forall>(t', nm', p', c') \<in> set post. p' < p"
  shows "\<exists>s'. rt_syscall_run (start_program ps (load_program ps)) = Some (s', c) \<and> active_task s' = t"
proof -
  let ?s = "start_program ps (load_program ps)"
  let ?A = "queues_init\<lparr>q_tasks := set (prog_tasks ps) \<union> {Idle_task}\<rparr>"
  have no: "Idle_task \<notin> set (prog_tasks ps)" using ids by blast
  have sys: "kernel_ok ?s ?A (map Task_record (rev (prog_tasks ps)))"
    using system_okD(1) [OF conjunct2 [OF static_program_starts [OF d ids]]] by (simp only: rev_map)
  have st: "priority (task ?s u) = q" "syscall (task_record (task ?s u)) = RT_SYSCALL_TASK_READY" if "(u, n, q, x) \<in> set ps" for u n q x
    using load_is_static [OF d that] by (simp_all add: start_program_sel is_static_def RT_TASK_INIT_def)
  have t: "priority (task ?s t) = p" using st(1) [of t nm p c] ps by simp
  have idle: "priority (task ?s Idle_task) = 0" "active_task ?s = Idle_task"
    using load_program_idle [OF no] by (simp_all only: start_program_sel)
  have "\<exists>s'. rt_syscall_run ?s = Some (s', ctx (task ?s t)) \<and> active_task s' = t"
  proof (rule first_run [OF sys])
    show "rev (prog_tasks ps) = rev (prog_tasks post) @ t # rev (prog_tasks pre)" by (simp add: ps)
    show "\<forall>u \<in> set (rev (prog_tasks ps)). syscall (task_record (task ?s u)) = RT_SYSCALL_TASK_READY" using st(2) by auto
    show "\<forall>y \<in> set (rev (prog_tasks post)). higher ?s t y"
      using post st(1) ps t unfolding higher_def by fastforce
    show "\<forall>z \<in> set (rev (prog_tasks pre)). \<not> higher ?s z t"
      using pre st(1) ps t unfolding higher_def by fastforce
    show "higher ?s t Idle_task" unfolding higher_def idle(1) t by (rule p)
    show "queued ?A = {}" "q_state ?A Idle_task = RT_TASK_STATE_RUNNING" by (simp_all add: queued_def queues_init_def)
  qed (use d no idle(2) in auto)
  then show ?thesis using start_program_ctx [of pre t nm p c post "load_program ps"] d unfolding ps by simp
qed

theorem last_created_runs_first_witness:
  "\<exists>s'. rt_syscall_run (start_program [(Task 1, ''task1'', 1, 100), (Task 2, ''task0'', 1, 200)]
       (load_program [(Task 1, ''task1'', 1, 100), (Task 2, ''task0'', 1, 200)])) = Some (s', 200) \<and> active_task s' = Task 2"
  by (rule last_created_runs_first [of _ "[(Task 1, ''task1'', 1, 100)]" "Task 2" "''task0''" 1 200 "[]"]) simp_all

end
