(* ===== verification/Rt_Cycle.thy ===== *)
theory Rt_Cycle
  imports Rt_Boot
begin

text \<open>
  The cycle counts of the tasks (\<^verbatim>\<open>RT_TASK_ENABLE_CYCLE\<close>): the handler adds the cycles since the active
  task went on to its count, and notes the cycle at which the next task goes on. The counter that
  \<^verbatim>\<open>rt_cycle\<close> reads has 32 bits and wraps around, the counts have 64.
\<close>

section \<open>The code\<close>

record cycles =
  total_cycles :: "task_id \<Rightarrow> 64 word"
  start_cycle :: "task_id \<Rightarrow> u32"
  total_task_cycles :: "64 word"

definition cycles_enter :: "u32 \<Rightarrow> task_id \<Rightarrow> cycles \<Rightarrow> cycles" where
  "cycles_enter now_cycle t c =
     (let task_cycles = now_cycle - start_cycle c t;
          c = c\<lparr>total_cycles := (total_cycles c)(t := total_cycles c t + ucast task_cycles)\<rparr>
      in c\<lparr>total_task_cycles := total_task_cycles c + ucast task_cycles\<rparr>)"

definition cycles_exit :: "u32 \<Rightarrow> task_id \<Rightarrow> cycles \<Rightarrow> cycles" where
  "cycles_exit now_cycle t c = c\<lparr>start_cycle := (start_cycle c)(t := now_cycle)\<rparr>"

text \<open>The handler, entered when the counter reads \<open>a\<close> and left when it reads \<open>b\<close>.\<close>

definition rt_syscall_run_cycle :: "u32 \<Rightarrow> u32 \<Rightarrow> kernel \<Rightarrow> cycles \<Rightarrow> (kernel \<times> u32 \<times> cycles) option" where
  "rt_syscall_run_cycle a b s c =
     do {
       let c = cycles_enter a (active_task s) c;
       (s, new_ctx) \<leftarrow> rt_syscall_run s;
       Some (s, new_ctx, cycles_exit b (active_task s) c)
     }"

section \<open>Time\<close>

text \<open>
  \<open>now\<close> is the time in cycles since the counter was 0, \<open>since\<close> the time at which the active task went on,
  and \<open>spent\<close> the time each task has had. Whatever the tasks and interrupts do in between is a step
  of the kernel that keeps the active task. A task does not run for \<open>2 ^ 32\<close> cycles without a system
  call or a tick.
\<close>

record timed =
  conf :: config
  cyc :: cycles
  now :: nat
  since :: nat
  spent :: "task_id \<Rightarrow> nat"

inductive cstep :: "timed \<Rightarrow> timed \<Rightarrow> bool" where
  cyc_work: "kstep (conf S) g \<Longrightarrow> active_task (kern g) = active_task (kern (conf S)) \<Longrightarrow> now S \<le> n \<Longrightarrow>
    cstep S (S\<lparr>conf := g, now := n\<rparr>)"
| cyc_handler: "syscall_pended (kern (conf S)) \<Longrightarrow> now S \<le> a \<Longrightarrow> a \<le> b \<Longrightarrow> a - since S < 2 ^ 32 \<Longrightarrow>
    rt_syscall_run_cycle (word_of_nat a) (word_of_nat b) ((kern (conf S))\<lparr>syscall_pended := False\<rparr>) (cyc S) = Some (s', x, c) \<Longrightarrow>
    cstep S (S\<lparr>conf := (conf S)\<lparr>kern := s'\<rparr>, cyc := c, now := b, since := b,
      spent := (spent S)(active_task (kern (conf S)) := spent S (active_task (kern (conf S))) + (a - since S))\<rparr>)"

text \<open>\<^verbatim>\<open>rt_start\<close> at time \<open>n\<close> notes the start of the task that is active then, with counts that are what they are.\<close>

definition timed_start :: "config \<Rightarrow> cycles \<Rightarrow> nat \<Rightarrow> timed" where
  "timed_start g c n = \<lparr>conf = g, cyc = cycles_exit (word_of_nat n) (active_task (kern g)) c, now = n, since = n, spent = (\<lambda>_. 0)\<rparr>"

section \<open>The counts are the time spent\<close>

lemma elapsed:
  assumes "b \<le> a" and "a - b < 2 ^ 32"
  shows "(ucast (word_of_nat a - word_of_nat b :: u32) :: 64 word) = word_of_nat (a - b)"
proof -
  have "(word_of_nat a - word_of_nat b :: u32) = word_of_nat (a - b)" using assms(1) by (simp add: of_nat_diff)
  moreover have "unat (word_of_nat (a - b) :: u32) = a - b" using assms(2) by (simp add: unat_of_nat)
  ultimately have "unat (word_of_nat a - word_of_nat b :: u32) = a - b" by simp
  then show ?thesis by (metis of_nat_unat ucast_id unsigned_def word_of_nat_eq_iff)
qed

definition cyc_inv :: "cycles \<Rightarrow> timed \<Rightarrow> bool" where
  "cyc_inv c S \<longleftrightarrow> since S \<le> now S \<and> start_cycle (cyc S) (active_task (kern (conf S))) = word_of_nat (since S) \<and>
     (\<forall>t. total_cycles (cyc S) t = total_cycles c t + word_of_nat (spent S t)) \<and>
     (\<exists>T. finite T \<and> (\<forall>t. t \<notin> T \<longrightarrow> spent S t = 0) \<and>
        total_task_cycles (cyc S) = total_task_cycles c + word_of_nat (\<Sum>t \<in> T. spent S t))"

lemma cyc_start_inv: "cyc_inv c (timed_start g c n)"
  by (auto simp: cyc_inv_def timed_start_def cycles_exit_def intro: exI [of _ "{}"])

lemma sum_spent:
  assumes "finite T" and "\<forall>u. u \<notin> T \<longrightarrow> f u = (0 :: nat)"
  shows "(\<Sum>u \<in> insert t T. (f(t := f t + d)) u) = (\<Sum>u \<in> T. f u) + d"
proof -
  have "(\<Sum>u \<in> insert t T. (f(t := f t + d)) u) = f t + d + (\<Sum>u \<in> T - {t}. f u)"
    using assms(1) by (subst sum.insert_remove) (auto intro: sum.cong)
  also have "\<dots> = (\<Sum>u \<in> insert t T. f u) + d" using assms(1) by (simp add: sum.insert_remove)
  also have "(\<Sum>u \<in> insert t T. f u) = (\<Sum>u \<in> T. f u)" using assms by (cases "t \<in> T") (simp_all add: insert_absorb)
  finally show ?thesis .
qed

lemma cstep_inv:
  assumes "cstep S S'" and inv: "cyc_inv c S"
  shows "cyc_inv c S'"
  using assms(1)
proof cases
  case (cyc_work g n)
  then show ?thesis using inv by (simp add: cyc_inv_def)
next
  case (cyc_handler a b s' x c')
  let ?t = "active_task (kern (conf S))"
  have I: "since S \<le> now S" "start_cycle (cyc S) ?t = word_of_nat (since S)"
    "\<forall>t. total_cycles (cyc S) t = total_cycles c t + word_of_nat (spent S t)" using inv by (simp_all add: cyc_inv_def)
  obtain T where T: "finite T" "\<forall>t. t \<notin> T \<longrightarrow> spent S t = 0"
    "total_task_cycles (cyc S) = total_task_cycles c + word_of_nat (\<Sum>t \<in> T. spent S t)"
    using inv by (auto simp: cyc_inv_def)
  have c': "c' = cycles_exit (word_of_nat b) (active_task s') (cycles_enter (word_of_nat a) ?t (cyc S))"
    using cyc_handler(6) by (auto simp: rt_syscall_run_cycle_def split: bind_splits)
  have e: "(ucast (word_of_nat a - start_cycle (cyc S) ?t) :: 64 word) = word_of_nat (a - since S)"
    unfolding I(2) using I(1) cyc_handler(3,5) by (intro elapsed) simp_all
  have "total_cycles c' t = total_cycles c t + word_of_nat (spent S' t)" for t
    using I(3) by (simp add: c' cycles_exit_def cycles_enter_def e cyc_handler(1))
  moreover have "total_task_cycles c' = total_task_cycles c + word_of_nat (\<Sum>t \<in> insert ?t T. spent S' t)"
    using sum_spent [OF T(1,2), of ?t "a - since S"] T(3)
    by (simp add: c' cycles_exit_def cycles_enter_def e cyc_handler(1) add.assoc)
  moreover have "start_cycle c' (active_task s') = word_of_nat b" by (simp add: c' cycles_exit_def)
  ultimately show ?thesis using T(1,2) unfolding cyc_inv_def
    by (intro conjI exI [of _ "insert ?t T"]) (auto simp: cyc_handler(1))
qed



end
