(* ===== verification/Ex_List.thy ===== *)
theory Ex_List
  imports Rt_List
begin

text \<open>
  The programs \<^verbatim>\<open>examples/list.c\<close> and \<^verbatim>\<open>examples/pq.c\<close>, which use the lists of \<^verbatim>\<open>src/list.c\<close> without the
  kernel: a queue, and a priority queue whose elements come from a linear congruential generator.
  Both check their output, and the theorems show that the checks succeed and that the loops end,
  for any number of nodes and any contents of the memory before.
\<close>

section \<open>Nodes\<close>

text \<open>
  An address is that of the local variable \<^verbatim>\<open>list\<close> or that of the member \<^verbatim>\<open>list\<close> of an element of the
  array \<^verbatim>\<open>nodes\<close>. Only from the latter does \<^verbatim>\<open>rt_container_of\<close> give an element.
\<close>

datatype ex_node = Ex_list | Ex_nodes nat

fun item :: "ex_node \<Rightarrow> nat option" where
  "item (Ex_nodes i) = Some i"
| "item Ex_list = None"

section \<open>The queue\<close>

definition push_nodes :: "nat \<Rightarrow> (nat \<Rightarrow> int) \<times> ex_node list_heap \<Rightarrow> (nat \<Rightarrow> int) \<times> ex_node list_heap" where
  "push_nodes n = fold (\<lambda>i (x, h). (x(i := int i), rt_list_push_back Ex_list (Ex_nodes i) h)) [0..<n]"

partial_function (option) check_each :: "(nat \<Rightarrow> int) \<Rightarrow> ex_node list_heap \<Rightarrow> ex_node \<Rightarrow> int \<Rightarrow> bool option" where
  "check_each x h node i =
     (if node \<noteq> Ex_list
      then Option.bind (item node) (\<lambda>k. if x k \<noteq> i then Some False else check_each x h (lnext (h node)) (i + 1))
      else Some True)"

partial_function (option) pop_each :: "(nat \<Rightarrow> int) \<Rightarrow> ex_node list_heap \<Rightarrow> int \<Rightarrow> bool option" where
  "pop_each x h i =
     (if \<not> rt_list_is_empty Ex_list h
      then Option.bind (item (fst (rt_list_pop_front Ex_list h)))
        (\<lambda>k. if x k \<noteq> i then Some False else pop_each x (snd (rt_list_pop_front Ex_list h)) (i + 1))
      else Some True)"

definition list_main :: "nat \<Rightarrow> (nat \<Rightarrow> int) \<Rightarrow> ex_node list_heap \<Rightarrow> int option" where
  "list_main n x h =
     do {
       let h = rt_list_init Ex_list h;
       let (x, h) = push_nodes n (x, h);
       ok \<leftarrow> check_each x h (rt_list_front Ex_list h) 0;
       if \<not> ok then Some 1
       else do {
         ok \<leftarrow> pop_each x h 0;
         Some (if \<not> ok then 1 else 0)
       }
     }"

section \<open>The priority queue\<close>

definition u_node_less_than :: "(nat \<Rightarrow> u32) \<Rightarrow> ex_node \<Rightarrow> ex_node \<Rightarrow> bool option" where
  "u_node_less_than x a b =
     do {
       i \<leftarrow> item a;
       j \<leftarrow> item b;
       Some (x i < x j)
     }"

text \<open>What is logged does not matter, but that the loop ends does.\<close>

partial_function (option) print_list :: "(nat \<Rightarrow> u32) \<Rightarrow> ex_node list_heap \<Rightarrow> ex_node \<Rightarrow> u32 list option" where
  "print_list x h node =
     (if node \<noteq> Ex_list
      then Option.bind (item node) (\<lambda>k. Option.bind (print_list x h (lnext (h node))) (\<lambda>xs. Some (x k # xs)))
      else Some [])"

fun pq_fill :: "nat list \<Rightarrow> u32 \<Rightarrow> (nat \<Rightarrow> u32) \<Rightarrow> ex_node list_heap \<Rightarrow> ((nat \<Rightarrow> u32) \<times> ex_node list_heap) option" where
  "pq_fill [] seed x h = Some (x, h)"
| "pq_fill (i # is) seed x h =
     (let seed = 1664525 * seed + 1013904223;
          x = x(i := seed mod 1000)
      in Option.bind (rt_list_insert_by Ex_list (Ex_nodes i) (u_node_less_than x) h)
        (\<lambda>h. Option.bind (print_list x h (rt_list_front Ex_list h)) (\<lambda>_. pq_fill is seed x h)))"

partial_function (option) pq_drain :: "(nat \<Rightarrow> u32) \<Rightarrow> ex_node list_heap \<Rightarrow> u32 \<Rightarrow> int option" where
  "pq_drain x h mx =
     (if \<not> rt_list_is_empty Ex_list h
      then Option.bind (print_list x h (rt_list_front Ex_list h))
        (\<lambda>_. Option.bind (item (fst (rt_list_pop_front Ex_list h)))
          (\<lambda>k. if x k < mx then Some 1 else pq_drain x (snd (rt_list_pop_front Ex_list h)) (x k)))
      else Some 0)"

definition pq_main :: "nat \<Rightarrow> (nat \<Rightarrow> u32) \<Rightarrow> ex_node list_heap \<Rightarrow> int option" where
  "pq_main n x h =
     do {
       let h = rt_list_init Ex_list h;
       (x, h) \<leftarrow> pq_fill [0..<n] 0 x h;
       pq_drain x h 0
     }"

section \<open>Walking along a list\<close>

lemma dlist_next:
  assumes "dlist h l (as @ a # bs)"
  shows "lnext (h a) = hd (bs @ [l])"
proof -
  have "ring h (a # bs @ l # as)" using assms ring_rotate [of h "l # as" "a # bs"] by (simp add: dlist_def)
  from ring_neighbours(1) [OF this] show ?thesis by (cases bs) simp_all
qed

lemma check_each_ok:
  assumes "dlist h Ex_list (map Ex_nodes (is @ js))" and "\<And>k. k < length js \<Longrightarrow> x (js ! k) = i + int k"
  shows "check_each x h (hd (map Ex_nodes js @ [Ex_list])) i = Some True"
  using assms
proof (induction js arbitrary: "is" i)
  case Nil
  then show ?case by (simp add: check_each.simps)
next
  case (Cons j js)
  have x: "x j = i" using Cons.prems(2) [of 0] by simp
  have "lnext (h (Ex_nodes j)) = hd (map Ex_nodes js @ [Ex_list])"
    using dlist_next [of h Ex_list "map Ex_nodes is" "Ex_nodes j" "map Ex_nodes js"] Cons.prems(1) by simp
  moreover have "check_each x h (hd (map Ex_nodes js @ [Ex_list])) (i + 1) = Some True"
    using Cons.IH [of "is @ [j]" "i + 1"] Cons.prems Cons.prems(2) [of "Suc k" for k] by fastforce
  ultimately show ?case using x by (simp add: check_each.simps [of x h "Ex_nodes j"])
qed

lemma pop_each_ok:
  assumes "dlist h Ex_list (map Ex_nodes js)" and "\<And>k. k < length js \<Longrightarrow> x (js ! k) = i + int k"
  shows "pop_each x h i = Some True"
  using assms
proof (induction js arbitrary: h i)
  case Nil
  then show ?case using rt_list_is_empty_spec [of h Ex_list "[]"] by (simp add: pop_each.simps)
next
  case (Cons j js)
  have d: "dlist h Ex_list (Ex_nodes j # map Ex_nodes js)" using Cons.prems(1) by simp
  have e: "\<not> rt_list_is_empty Ex_list h" using rt_list_is_empty_spec [OF d] by simp
  have p: "rt_list_pop_front Ex_list h = (Ex_nodes j, rt_list_remove (Ex_nodes j) h)" using d by (rule rt_list_pop_front_spec)
  have "dlist (rt_list_remove (Ex_nodes j) h) Ex_list (map Ex_nodes js)"
    using rt_list_remove_spec [of h Ex_list "[]" "Ex_nodes j"] d by simp
  then have "pop_each x (rt_list_remove (Ex_nodes j) h) (i + 1) = Some True"
    using Cons.prems(2) [of "Suc k" for k] by (intro Cons.IH) fastforce+
  moreover have "x j = i" using Cons.prems(2) [of 0] by simp
  ultimately show ?case by (subst pop_each.simps) (simp add: e p)
qed

lemma push_nodes_ok:
  assumes "dlist h Ex_list []"
  shows "dlist (snd (push_nodes n (x, h))) Ex_list (map Ex_nodes [0..<n]) \<and> (\<forall>k < n. fst (push_nodes n (x, h)) k = int k)"
proof (induction n)
  case 0
  then show ?case using assms by (simp add: push_nodes_def)
next
  case (Suc n)
  obtain y k where y: "push_nodes n (x, h) = (y, k)" by force
  have s: "push_nodes (Suc n) (x, h) = (y(n := int n), rt_list_push_back Ex_list (Ex_nodes n) k)"
    using y by (simp add: push_nodes_def)
  have "dlist k Ex_list (map Ex_nodes [0..<n])" using Suc y by simp
  moreover have "Ex_nodes n \<notin> set (Ex_list # map Ex_nodes [0..<n])" by auto
  ultimately have "dlist (rt_list_push_back Ex_list (Ex_nodes n) k) Ex_list (map Ex_nodes [0..<n] @ [Ex_nodes n])"
    by (rule rt_list_push_back_spec)
  then show ?case using Suc y by (simp add: s less_Suc_eq)
qed

text \<open>The program succeeds.\<close>

theorem list_main_succeeds: "list_main n x h = Some 0"
proof -
  let ?h = "rt_list_init Ex_list h"
  obtain y k where y: "push_nodes n (x, ?h) = (y, k)" by force
  have k: "dlist k Ex_list (map Ex_nodes [0..<n])" "\<forall>j < n. y j = int j"
    using push_nodes_ok [OF rt_list_init_spec [of Ex_list h], of n x] y by simp_all
  have "check_each y k (rt_list_front Ex_list k) 0 = Some True"
    using check_each_ok [of k "[]" "[0..<n]" y 0] k rt_list_front_spec [OF k(1)] by simp
  moreover have "pop_each y k 0 = Some True" using k by (intro pop_each_ok [of k "[0..<n]"]) simp_all
  ultimately show ?thesis by (simp add: list_main_def Let_def y)
qed

section \<open>The priority queue is in order\<close>

fun node_x :: "(nat \<Rightarrow> u32) \<Rightarrow> ex_node \<Rightarrow> u32" where
  "node_x x (Ex_nodes i) = x i"
| "node_x x Ex_list = 0"

abbreviation node_less :: "(nat \<Rightarrow> u32) \<Rightarrow> ex_node \<Rightarrow> ex_node \<Rightarrow> bool" where
  "node_less x a b \<equiv> node_x x a < node_x x b"

lemma print_list_ok:
  assumes "dlist h Ex_list (map Ex_nodes (is @ js))"
  shows "print_list x h (hd (map Ex_nodes js @ [Ex_list])) = Some (map x js)"
  using assms
proof (induction js arbitrary: "is")
  case Nil
  then show ?case by (simp add: print_list.simps)
next
  case (Cons j js)
  have "lnext (h (Ex_nodes j)) = hd (map Ex_nodes js @ [Ex_list])"
    using dlist_next [of h Ex_list "map Ex_nodes is" "Ex_nodes j" "map Ex_nodes js"] Cons.prems by simp
  moreover have "print_list x h (hd (map Ex_nodes js @ [Ex_list])) = Some (map x js)"
    using Cons.IH [of "is @ [j]"] Cons.prems by simp
  ultimately show ?case by (simp add: print_list.simps [of x h "Ex_nodes j"])
qed

lemma print_front_ok:
  "dlist h Ex_list (map Ex_nodes js) \<Longrightarrow> print_list x h (rt_list_front Ex_list h) = Some (map x js)"
  using print_list_ok [of h "[]" js x] rt_list_front_spec [of h Ex_list "map Ex_nodes js"] by simp

lemma insert_nodes:
  assumes "i \<notin> set js"
  shows "\<exists>ks. insert_by (node_less x) (Ex_nodes i) (map Ex_nodes js) = map Ex_nodes ks \<and> set ks = insert i (set js)"
proof -
  let ?P = "\<lambda>k. \<not> node_less x (Ex_nodes i) (Ex_nodes k)"
  have "insert_by (node_less x) (Ex_nodes i) (map Ex_nodes js) = map Ex_nodes (takeWhile ?P js @ i # dropWhile ?P js)"
    by (simp add: insert_by_def takeWhile_map dropWhile_map comp_def)
  moreover have "set (takeWhile ?P js @ i # dropWhile ?P js) = insert i (set js)"
    by (metis Un_insert_right list.simps(15) set_append takeWhile_dropWhile_id)
  ultimately show ?thesis by blast
qed

lemma pq_fill_ok:
  assumes "dlist h Ex_list (map Ex_nodes js)" and "ordered_by (node_less x) (map Ex_nodes js)"
    and "distinct is" and "set is \<inter> set js = {}"
  shows "\<exists>y k ks. pq_fill is seed x h = Some (y, k) \<and> dlist k Ex_list (map Ex_nodes ks) \<and>
     ordered_by (node_less y) (map Ex_nodes ks) \<and> set ks = set is \<union> set js"
  using assms
proof (induction "is" arbitrary: seed x h js)
  case Nil
  then show ?case by auto
next
  case (Cons i "is")
  let ?seed = "1664525 * seed + 1013904223"
  let ?x = "x(i := ?seed mod 1000)"
  have new: "i \<notin> set js" "Ex_nodes i \<notin> set (Ex_list # map Ex_nodes js)" using Cons.prems(4) by auto
  have "ordered_by (node_less ?x) (map Ex_nodes js) = ordered_by (node_less x) (map Ex_nodes js)"
  proof (rule ordered_by_cong)
    have "node_x ?x c = node_x x c" if "c \<in> set (map Ex_nodes js)" for c using that new(1) by auto
    then show "node_less ?x a b = node_less x a b" if "a \<in> set (map Ex_nodes js)" "b \<in> set (map Ex_nodes js)" for a b
      using that by simp
  qed
  then have o: "ordered_by (node_less ?x) (insert_by (node_less ?x) (Ex_nodes i) (map Ex_nodes js))"
    using Cons.prems(2) by (intro key_less.ordered_insert_by) simp
  obtain ks where ks: "insert_by (node_less ?x) (Ex_nodes i) (map Ex_nodes js) = map Ex_nodes ks" "set ks = insert i (set js)"
    using insert_nodes [OF new(1)] by blast
  have cmp: "u_node_less_than ?x (Ex_nodes i) a = Some (node_less ?x (Ex_nodes i) a)" if "a \<in> set (map Ex_nodes js)" for a
    using that by (auto simp: u_node_less_than_def)
  obtain k where k: "rt_list_insert_by Ex_list (Ex_nodes i) (u_node_less_than ?x) h = Some k" "dlist k Ex_list (map Ex_nodes ks)"
    using rt_lists.insert_holds [OF Cons.prems(1) new(2), of "u_node_less_than ?x" "node_less ?x"] cmp ks(1) by auto
  have d: "distinct is" "set is \<inter> set ks = {}" using Cons.prems(3,4) ks(2) by auto
  obtain y k' ks' where
    "pq_fill is ?seed ?x k = Some (y, k')" "dlist k' Ex_list (map Ex_nodes ks')"
    "ordered_by (node_less y) (map Ex_nodes ks')" "set ks' = set is \<union> set ks"
    using Cons.IH [OF k(2) o [unfolded ks(1)] d] by blast
  then show ?case using k(1) print_front_ok [OF k(2)] ks(2) by (auto simp: Let_def)
qed

lemma pq_drain_ok:
  assumes "dlist h Ex_list (map Ex_nodes js)" and "ordered_by (node_less x) (map Ex_nodes js)" and "\<forall>j \<in> set js. mx \<le> x j"
  shows "pq_drain x h mx = Some 0"
  using assms
proof (induction js arbitrary: h mx)
  case Nil
  then show ?case using rt_list_is_empty_spec [of h Ex_list "[]"] by (simp add: pq_drain.simps)
next
  case (Cons j js)
  have d: "dlist h Ex_list (Ex_nodes j # map Ex_nodes js)" using Cons.prems(1) by simp
  have e: "\<not> rt_list_is_empty Ex_list h" using rt_list_is_empty_spec [OF d] by simp
  have p: "rt_list_pop_front Ex_list h = (Ex_nodes j, rt_list_remove (Ex_nodes j) h)" using d by (rule rt_list_pop_front_spec)
  have "dlist (rt_list_remove (Ex_nodes j) h) Ex_list (map Ex_nodes js)"
    using rt_list_remove_spec [of h Ex_list "[]" "Ex_nodes j"] d by simp
  then have "pq_drain x (rt_list_remove (Ex_nodes j) h) (x j) = Some 0"
    using Cons.prems(2) by (intro Cons.IH) (auto simp: ordered_by_Cons not_less)
  moreover have "\<not> x j < mx" using Cons.prems(3) by (simp add: not_less)
  ultimately show ?case by (subst pq_drain.simps) (simp add: e p print_front_ok [OF Cons.prems(1)])
qed

text \<open>The program succeeds: the elements come out in order, whatever their number.\<close>

theorem pq_main_succeeds: "pq_main n x h = Some 0"
proof -
  have "\<exists>y k ks. pq_fill [0..<n] 0 x (rt_list_init Ex_list h) = Some (y, k) \<and> dlist k Ex_list (map Ex_nodes ks) \<and>
      ordered_by (node_less y) (map Ex_nodes ks) \<and> set ks = set [0..<n] \<union> set []"
    by (rule pq_fill_ok) (simp_all add: rt_list_init_spec ordered_by_def)
  then obtain y k ks where "pq_fill [0..<n] 0 x (rt_list_init Ex_list h) = Some (y, k)"
    "dlist k Ex_list (map Ex_nodes ks)" "ordered_by (node_less y) (map Ex_nodes ks)" by blast
  then show ?thesis using pq_drain_ok [of k ks y 0] by (simp add: pq_main_def)
qed

end
