(* ===== verification/Ex_Mutex.thy ===== *)
theory Ex_Mutex
  imports Rt_Threads
begin

text \<open>
  The program \<^verbatim>\<open>examples/mutex.c\<close>: tasks increment a shared counter under a mutex, each with one of
  three ways to lock it, and the last one to finish stops the scheduler. An increment is a load and a
  store, between which other tasks may run. The number of iterations is the argument \<open>n\<close>, the number of
  tasks that of the type \<open>'i\<close>; \<open>fns\<close> says which function each task runs.
\<close>

section \<open>The program\<close>

datatype mx_sem = Mx_mutex | Mx_stop

datatype mx_pc =
    Mx_loop       \<comment> \<open>the head of the loop\<close>
  | Mx_load       \<comment> \<open>load \<^verbatim>\<open>x\<close>\<close>
  | Mx_store      \<comment> \<open>store \<^verbatim>\<open>x + 1\<close>\<close>
  | Mx_unlock     \<comment> \<open>unlock the mutex\<close>
  | Mx_sleep      \<comment> \<open>\<^verbatim>\<open>rt_sleep(1)\<close>\<close>
  | Mx_stop_last  \<comment> \<open>\<^verbatim>\<open>stop_last\<close>\<close>
  | Mx_exit       \<comment> \<open>the function has returned\<close>
  | Mx_rt_stop    \<comment> \<open>\<^verbatim>\<open>rt_stop\<close>\<close>
  | Mx_stopped

datatype mx_fn = Increment_lock | Increment_trylock | Increment_timedlock

record 'i mx_data =
  mx_x :: ulong
  mx_i :: "'i \<Rightarrow> ulong"
  mx_reg :: "'i \<Rightarrow> ulong"
  mx_stopped :: bool

type_synonym 'i mx = "('i, mx_sem, mx_pc, 'i mx_data) threads"

inductive stop_last :: "'i \<Rightarrow> 'i mx \<Rightarrow> 'i mx \<Rightarrow> bool" for i where
  stop_taken: "thr g i = Run Mx_stop_last \<Longrightarrow> val g Mx_stop > 0 \<Longrightarrow> stop_last i g (th_fetch_sub i Mx_stop Mx_exit g)"
| stop_failed: "thr g i = Run Mx_stop_last \<Longrightarrow> \<not> val g Mx_stop > 0 \<Longrightarrow> stop_last i g (th_goto i (Run Mx_rt_stop) g)"
| stop_rt_stop: "thr g i = Run Mx_rt_stop \<Longrightarrow> stop_last i g (th_data i (\<lambda>d. d\<lparr>mx_stopped := True\<rparr>) Mx_stopped g)"

text \<open>What the three functions have in common: the increment, the unlock with the loop's \<^verbatim>\<open>++i\<close>, and the loop's exit.
  \<^verbatim>\<open>rt_task_drop_privilege\<close>, before the loop, changes nothing that is shared.\<close>

inductive increment_body :: "ulong \<Rightarrow> 'i \<Rightarrow> 'i mx \<Rightarrow> 'i mx \<Rightarrow> bool" for n i where
  body_load: "thr g i = Run Mx_load \<Longrightarrow>
    increment_body n i g (th_data i (\<lambda>d. d\<lparr>mx_reg := (mx_reg d)(i := mx_x d)\<rparr>) Mx_store g)"
| body_store: "thr g i = Run Mx_store \<Longrightarrow>
    increment_body n i g (th_data i (\<lambda>d. d\<lparr>mx_x := mx_reg d i + 1\<rparr>) Mx_unlock g)"
| body_unlock: "thr g i = Run Mx_unlock \<Longrightarrow>
    increment_body n i g (th_post i Mx_mutex 1 Mx_loop (g\<lparr>dat := (dat g)\<lparr>mx_i := (mx_i (dat g))(i := mx_i (dat g) i + 1)\<rparr>\<rparr>))"
| body_done: "thr g i = Run Mx_loop \<Longrightarrow> \<not> mx_i (dat g) i < n \<Longrightarrow>
    increment_body n i g (th_goto i (Run Mx_stop_last) g)"

text \<open>The three functions, which differ in how they lock. A timed wait that expires gives its unit back.\<close>

inductive increment_lock :: "ulong \<Rightarrow> 'i \<Rightarrow> 'i mx \<Rightarrow> 'i mx \<Rightarrow> bool" for n i where
  lock_wait: "thr g i = Run Mx_loop \<Longrightarrow> mx_i (dat g) i < n \<Longrightarrow> increment_lock n i g (th_wait i Mx_mutex Mx_load g)"
| lock_body: "increment_body n i g g' \<Longrightarrow> increment_lock n i g g'"
| lock_stop: "stop_last i g g' \<Longrightarrow> increment_lock n i g g'"

inductive increment_trylock :: "ulong \<Rightarrow> 'i \<Rightarrow> 'i mx \<Rightarrow> 'i mx \<Rightarrow> bool" for n i where
  try_taken: "thr g i = Run Mx_loop \<Longrightarrow> mx_i (dat g) i < n \<Longrightarrow> val g Mx_mutex > 0 \<Longrightarrow>
    increment_trylock n i g (th_fetch_sub i Mx_mutex Mx_load g)"
| try_failed: "thr g i = Run Mx_loop \<Longrightarrow> mx_i (dat g) i < n \<Longrightarrow> \<not> val g Mx_mutex > 0 \<Longrightarrow>
    increment_trylock n i g (th_goto i (Run Mx_sleep) g)"
| try_slept: "thr g i = Run Mx_sleep \<Longrightarrow> increment_trylock n i g (th_goto i (Run Mx_loop) g)"
| try_body: "increment_body n i g g' \<Longrightarrow> increment_trylock n i g g'"
| try_stop: "stop_last i g g' \<Longrightarrow> increment_trylock n i g g'"

inductive increment_timedlock :: "ulong \<Rightarrow> 'i \<Rightarrow> 'i mx \<Rightarrow> 'i mx \<Rightarrow> bool" for n i where
  timed_wait: "thr g i = Run Mx_loop \<Longrightarrow> mx_i (dat g) i < n \<Longrightarrow>
    increment_timedlock n i g (th_wait i Mx_mutex Mx_load g)"
| timed_out: "thr g i = Waiting Mx_mutex Mx_load \<Longrightarrow> increment_timedlock n i g (th_post i Mx_mutex 1 Mx_loop g)"
| timed_body: "increment_body n i g g' \<Longrightarrow> increment_timedlock n i g g'"
| timed_stop: "stop_last i g g' \<Longrightarrow> increment_timedlock n i g g'"

inductive mx_step :: "ulong \<Rightarrow> ('i \<Rightarrow> mx_fn) \<Rightarrow> ('i::finite) mx \<Rightarrow> 'i mx \<Rightarrow> bool" for n fns where
  mx_lock: "fns i = Increment_lock \<Longrightarrow> increment_lock n i g g' \<Longrightarrow> \<not> mx_stopped (dat g) \<Longrightarrow>
    mx_step n fns g g'"
| mx_trylock: "fns i = Increment_trylock \<Longrightarrow> increment_trylock n i g g' \<Longrightarrow> \<not> mx_stopped (dat g) \<Longrightarrow>
    mx_step n fns g g'"
| mx_timedlock: "fns i = Increment_timedlock \<Longrightarrow> increment_timedlock n i g g' \<Longrightarrow> \<not> mx_stopped (dat g) \<Longrightarrow>
    mx_step n fns g g'"
| mx_wake: "th_wake g g' \<Longrightarrow> \<not> mx_stopped (dat g) \<Longrightarrow> mx_step n fns g g'"

definition mx_main :: "('i::finite) mx" where
  "mx_main = \<lparr>val = (\<lambda>m. case m of Mx_mutex \<Rightarrow> 1 | Mx_stop \<Rightarrow> int CARD('i) - 1),
     maxv = (\<lambda>m. case m of Mx_mutex \<Rightarrow> 1 | Mx_stop \<Rightarrow> INT_MAX), thr = (\<lambda>_. Run Mx_loop),
     dat = \<lparr>mx_x = 0, mx_i = (\<lambda>_. 0), mx_reg = (\<lambda>_. 0), mx_stopped = False\<rparr>\<rparr>"

section \<open>Lemmas\<close>

definition mx_hs :: "(mx_sem, mx_pc) thread list" where
  "mx_hs = [Run Mx_load, Run Mx_store, Run Mx_unlock]"

definition mx_ws :: "(mx_sem, mx_pc) thread list" where
  "mx_ws = [Waiting Mx_mutex Mx_load]"

interpretation mx_mutex: mutex_user Mx_mutex mx_hs mx_ws
  by unfold_locales (auto simp: mx_hs_def mx_ws_def)

text \<open>What a task has done at each point: \<open>k\<close> is its number of iterations.\<close>

fun mx_at :: "ulong \<Rightarrow> ulong \<Rightarrow> ulong \<Rightarrow> ulong \<Rightarrow> int \<Rightarrow> (mx_sem, mx_pc) thread \<Rightarrow> bool" where
  "mx_at n k r x s (Run Mx_loop) = (k \<le> n)"
| "mx_at n k r x s (Run Mx_store) = (k < n \<and> r = x)"
| "mx_at n k r x s (Run Mx_stop_last) = (k = n)"
| "mx_at n k r x s (Run Mx_exit) = (k = n)"
| "mx_at n k r x s (Run Mx_rt_stop) = (k = n \<and> s = 0)"
| "mx_at n k r x s (Run Mx_stopped) = (k = n \<and> s = 0)"
| "mx_at n k r x s (Run p) = (k < n)"
| "mx_at n k r x s (Waiting m p) = (k < n \<and> m = Mx_mutex \<and> p = Mx_load)"

definition mx_inv :: "ulong \<Rightarrow> ('i::finite) mx \<Rightarrow> bool" where
  "mx_inv n g \<longleftrightarrow> mutex_inv Mx_mutex mx_hs mx_ws g \<and>
     (\<forall>u. mx_at n (mx_i (dat g) u) (mx_reg (dat g) u) (mx_x (dat g)) (val g Mx_stop) (thr g u)) \<and>
     mx_x (dat g) = (\<Sum>u \<in> UNIV. mx_i (dat g) u) + of_bool (\<exists>u. thr g u = Run Mx_unlock) \<and>
     val g Mx_stop + cnt (\<lambda>t. t = Run Mx_exit) (thr g) = int CARD('i) - 1 \<and> 0 \<le> val g Mx_stop \<and>
     (mx_stopped (dat g) \<longrightarrow> (\<exists>u. thr g u = Run Mx_stopped))"

lemma mx_invD:
  assumes "mx_inv n g"
  shows "mutex_inv Mx_mutex mx_hs mx_ws g"
    "mx_at n (mx_i (dat g) u) (mx_reg (dat g) u) (mx_x (dat g)) (val g Mx_stop) (thr g u)"
    "mx_x (dat g) = (\<Sum>u \<in> UNIV. mx_i (dat g) u) + of_bool (\<exists>u. thr g u = Run Mx_unlock)"
    "val g Mx_stop + cnt (\<lambda>t. t = Run Mx_exit) (thr g) = int CARD('i::finite) - 1" "0 \<le> val (g :: 'i mx) Mx_stop"
    "mx_stopped (dat g) \<Longrightarrow> \<exists>u. thr g u = Run Mx_stopped"
  using assms unfolding mx_inv_def by blast+

lemma ex_upd: "f i \<noteq> a \<Longrightarrow> \<exists>u. f u = a \<Longrightarrow> \<exists>u. (f(i := t)) u = a"
  by (metis fun_upd_other)

lemma ex_upd_eq: "f i \<noteq> a \<Longrightarrow> t \<noteq> a \<Longrightarrow> (\<exists>u. (f(i := t)) u = a) = (\<exists>u. f u = a)"
  by (metis fun_upd_apply)

lemma mx_init_inv: "mx_inv n mx_main"
  using zero_less_card_finite [where 'a = 'a]
  by (simp add: mx_inv_def mx_main_def mutex_inv_def mx_hs_def mx_ws_def cnt_0)

lemma mx_waiting:
  assumes "mx_inv n g"
  shows "cnt (is_waiting Mx_mutex) (thr g) = at_one (thr g) mx_ws"
proof -
  have "is_waiting Mx_mutex (thr g u) = (thr g u = Waiting Mx_mutex Mx_load)" for u
    using mx_invD(2) [OF assms, of u] by (cases "thr g u") auto
  then have "cnt (is_waiting Mx_mutex) (thr g) = cnt (\<lambda>x. x = Waiting Mx_mutex Mx_load) (thr g)"
    by (rule cnt_cong)
  then show ?thesis by (simp add: mx_ws_def)
qed

text \<open>A task moves and changes only its own variables.\<close>

lemma mx_move:
  assumes g: "mx_inv n g" and g': "thr g' = (thr g)(i := t)" "val g' Mx_stop = val g Mx_stop"
      "mx_x (dat g') = mx_x (dat g)" "mx_i (dat g') = mx_i (dat g)" "mx_stopped (dat g') = mx_stopped (dat g)"
      "\<And>u. u \<noteq> i \<Longrightarrow> mx_reg (dat g') u = mx_reg (dat g) u"
    and m: "mutex_inv Mx_mutex mx_hs mx_ws g'"
    and t: "mx_at n (mx_i (dat g) i) (mx_reg (dat g') i) (mx_x (dat g)) (val g Mx_stop) t"
    and "thr g i \<notin> {Run Mx_unlock, Run Mx_exit, Run Mx_stopped}" "t \<notin> {Run Mx_unlock, Run Mx_exit}"
  shows "mx_inv n g'"
proof -
  note i = mx_invD [OF g]
  have "mx_at n (mx_i (dat g') u) (mx_reg (dat g') u) (mx_x (dat g')) (val g' Mx_stop) (thr g' u)" for u
    using i(2) [of u] g' t by (cases "u = i") simp_all
  moreover have "(\<exists>u. thr g' u = Run Mx_unlock) = (\<exists>u. thr g u = Run Mx_unlock)"
    "mx_stopped (dat g) \<Longrightarrow> \<exists>u. thr g' u = Run Mx_stopped"
    unfolding g'(1) using assms(10,11) i(6) by (intro ex_upd ex_upd_eq; simp)+
  ultimately show ?thesis
    using i assms(10,11) m unfolding mx_inv_def g'(1-5) by (simp add: cnt_upd)
qed

lemma mx_keep:
  assumes "mx_inv n g" "thr g' = (thr g)(i := t)" "val g' Mx_mutex = val g Mx_mutex" "maxv g' = maxv g"
    "t \<in> set mx_hs \<longleftrightarrow> thr g i \<in> set mx_hs" "t \<in> set mx_ws \<longleftrightarrow> thr g i \<in> set mx_ws"
  shows "mutex_inv Mx_mutex mx_hs mx_ws g'"
  using assms mx_mutex.keep_inv [of g g' i t] by (simp add: mx_inv_def)

lemma mx_lock_inv:
  assumes g: "mx_inv n g" and i: "thr g i = Run Mx_loop" "mx_i (dat g) i < n"
  shows "mx_inv n (th_wait i Mx_mutex Mx_load g)"
proof -
  have "mutex_inv Mx_mutex mx_hs mx_ws (th_wait i Mx_mutex Mx_load g)"
    by (rule mx_mutex.lock_inv) (use mx_invD(1) [OF g] i(1) in \<open>simp_all add: mx_hs_def mx_ws_def\<close>)
  then show ?thesis using i mx_invD(2) [OF g, of i]
    by (intro mx_move [OF g, of _ i "if val g Mx_mutex > 0 then Run Mx_load else Waiting Mx_mutex Mx_load"]) auto
qed

lemma mx_alone:
  assumes "mx_inv n g" and "thr g i \<in> set mx_hs" and "u \<noteq> i"
  shows "thr g u \<notin> set mx_hs"
  using mx_mutex.exclusive [OF mx_invD(1) [OF assms(1)] assms(2)] assms(3) by blast

lemma mx_at_x:
  "mx_at n k r x s t \<Longrightarrow> t \<notin> set mx_hs \<Longrightarrow> mx_at n k r x' s t"
  by (cases "(n, k, r, x, s, t)" rule: mx_at.cases) (simp_all add: mx_hs_def)

lemma mx_body_inv:
  assumes "increment_body n i g g'" and g: "mx_inv n g"
  shows "mx_inv n g'"
  using assms(1)
proof cases
  case body_load
  then show ?thesis using mx_keep [OF g, of g' i "Run Mx_store"] mx_invD(2) [OF g, of i]
    by (intro mx_move [OF g, of _ i "Run Mx_store"]) (auto simp: mx_hs_def mx_ws_def)
next
  case body_store
  have h: "thr g i \<in> set mx_hs" using body_store by (simp add: mx_hs_def)
  note a = mx_alone [OF g h] and d = mx_invD [OF g]
  have x: "mx_reg (dat g) i = mx_x (dat g)" "mx_i (dat g) i < n" using d(2) [of i] body_store(2) by simp_all
  have no: "thr g u \<noteq> Run Mx_unlock" for u
    using a [of u] body_store(2) by (cases "u = i") (auto simp: mx_hs_def)
  have "mutex_inv Mx_mutex mx_hs mx_ws g'"
    using mx_keep [OF g, of g' i "Run Mx_unlock"] body_store by (simp add: mx_hs_def mx_ws_def)
  moreover have "mx_at n (mx_i (dat g') u) (mx_reg (dat g') u) (mx_x (dat g')) (val g' Mx_stop) (thr g' u)" for u
    using d(2) [of u] a [of u] x(2) body_store(1) mx_at_x by (cases "u = i") auto
  moreover have "\<exists>u. thr g' u = Run Mx_unlock" using body_store(1) by auto
  moreover have "mx_stopped (dat g) \<Longrightarrow> \<exists>u. thr g' u = Run Mx_stopped"
    using ex_upd [OF _ d(6)] body_store by simp
  ultimately show ?thesis using d(3-5) x(1) no body_store by (simp add: mx_inv_def cnt_upd)
next
  case body_unlock
  have h: "thr g i \<in> set mx_hs" using body_unlock by (simp add: mx_hs_def)
  note a = mx_alone [OF g h] and d = mx_invD [OF g]
  let ?g = "g\<lparr>dat := (dat g)\<lparr>mx_i := (mx_i (dat g))(i := mx_i (dat g) i + 1)\<rparr>\<rparr>"
  have k: "mx_i (dat g) i < n" using d(2) [of i] body_unlock(2) by simp
  then have k': "mx_i (dat g) i + 1 \<le> n" by (simp add: inc_le)
  have no: "thr g' u \<noteq> Run Mx_unlock" for u
    using a [of u] body_unlock(1) by (cases "u = i") (auto simp: mx_hs_def)
  have "mutex_inv Mx_mutex mx_hs mx_ws ?g" using d(1) by (simp add: mutex_inv_def)
  then have "mutex_inv Mx_mutex mx_hs mx_ws g'"
    unfolding body_unlock(1) by (rule mx_mutex.unlock_inv) (use h in \<open>simp_all add: mx_hs_def mx_ws_def\<close>)
  moreover have "mx_at n (mx_i (dat g') u) (mx_reg (dat g') u) (mx_x (dat g')) (val g' Mx_stop) (thr g' u)" for u
    using d(2) [of u] k' body_unlock(1) by (cases "u = i") auto
  moreover have "(\<Sum>u \<in> UNIV. mx_i (dat g') u) = (\<Sum>u \<in> UNIV. mx_i (dat g) u) + 1"
  proof -
    have "(\<Sum>u \<in> UNIV. mx_i (dat g') u) = (\<Sum>u \<in> UNIV - {i}. mx_i (dat g) u) + (mx_i (dat g) i + 1)"
      using body_unlock(1) by (subst sum.remove [of _ i]) (auto intro: sum.cong)
    then show ?thesis by (subst sum.remove [of _ i]) auto
  qed
  moreover have "mx_stopped (dat g) \<Longrightarrow> \<exists>u. thr g' u = Run Mx_stopped"
    using ex_upd [OF _ d(6)] body_unlock by simp
  ultimately show ?thesis using d(3-5) no body_unlock by (auto simp: mx_inv_def cnt_upd)
next
  case body_done
  then show ?thesis using mx_keep [OF g, of g' i "Run Mx_stop_last"] mx_invD(2) [OF g, of i]
    by (intro mx_move [OF g, of _ i "Run Mx_stop_last"]) (auto simp: mx_hs_def mx_ws_def)
qed

lemma mx_stop_inv:
  assumes "stop_last i g g'" and g: "mx_inv n g"
  shows "mx_inv n g'"
  using assms(1)
proof cases
  case stop_taken
  note d = mx_invD [OF g]
  have m: "mutex_inv Mx_mutex mx_hs mx_ws g'"
    using mx_keep [OF g, of g' i "Run Mx_exit"] stop_taken by (simp add: mx_hs_def mx_ws_def)
  have at: "mx_at n (mx_i (dat g') u) (mx_reg (dat g') u) (mx_x (dat g')) (val g' Mx_stop) (thr g' u)" for u
  proof (cases "u = i")
    case False
    have "thr g u \<notin> {Run Mx_rt_stop, Run Mx_stopped}" using d(2) [of u] stop_taken(3) by auto
    then show ?thesis using d(2) [of u] False stop_taken(1)
      by (cases "(n, mx_i (dat g) u, mx_reg (dat g) u, mx_x (dat g), val g Mx_stop, thr g u)" rule: mx_at.cases) auto
  qed (use d(2) [of i] stop_taken in simp)
  have ex: "(\<exists>u. thr g' u = Run Mx_unlock) = (\<exists>u. thr g u = Run Mx_unlock)" using ex_upd_eq [of "thr g" i "Run Mx_unlock" "Run Mx_exit"] stop_taken(2) unfolding stop_taken(1) by (simp del: fun_upd_apply)
  have "mx_stopped (dat g) \<Longrightarrow> \<exists>u. thr g' u = Run Mx_stopped" using ex_upd [OF _ d(6)] stop_taken by simp
  then show ?thesis using m at d(3-5) stop_taken(2,3) unfolding mx_inv_def ex by (simp add: stop_taken(1) cnt_upd)
next
  case stop_failed
  then show ?thesis using mx_keep [OF g, of g' i "Run Mx_rt_stop"] mx_invD(2) [OF g, of i] mx_invD(5) [OF g]
    by (intro mx_move [OF g, of _ i "Run Mx_rt_stop"]) (auto simp: mx_hs_def mx_ws_def)
next
  case stop_rt_stop
  note d = mx_invD [OF g]
  have m: "mutex_inv Mx_mutex mx_hs mx_ws g'"
    using mx_keep [OF g, of g' i "Run Mx_stopped"] stop_rt_stop by (simp add: mx_hs_def mx_ws_def)
  have at: "mx_at n (mx_i (dat g') u) (mx_reg (dat g') u) (mx_x (dat g')) (val g' Mx_stop) (thr g' u)" for u
    using d(2) [of u] stop_rt_stop by (cases "u = i") simp_all
  have ex: "(\<exists>u. thr g' u = Run Mx_unlock) = (\<exists>u. thr g u = Run Mx_unlock)" using ex_upd_eq [of "thr g" i "Run Mx_unlock" "Run Mx_stopped"] stop_rt_stop(2) unfolding stop_rt_stop(1) by (simp del: fun_upd_apply)
  have "\<exists>u. thr g' u = Run Mx_stopped" using stop_rt_stop by auto
  then show ?thesis using m at d(3-5) stop_rt_stop(2) unfolding mx_inv_def ex by (simp add: stop_rt_stop(1) cnt_upd)
qed

lemma mx_increment_lock_inv:
  assumes "increment_lock n i g g'" and g: "mx_inv n g"
  shows "mx_inv n g'"
  using assms(1) by cases (use mx_lock_inv [OF g] mx_body_inv [OF _ g] mx_stop_inv [OF _ g] in blast)+

lemma mx_trylock_inv:
  assumes "increment_trylock n i g g'" and g: "mx_inv n g"
  shows "mx_inv n g'"
  using assms(1)
proof cases
  case try_taken
  then have "th_wait i Mx_mutex Mx_load g = g'" by (simp add: th_wait_def)
  then show ?thesis using mx_lock_inv [OF g try_taken(2,3)] by simp
next
  case try_failed
  then show ?thesis using mx_keep [OF g, of g' i "Run Mx_sleep"]
    by (intro mx_move [OF g, of _ i "Run Mx_sleep"]) (auto simp: mx_hs_def mx_ws_def)
next
  case try_slept
  then show ?thesis using mx_keep [OF g, of g' i "Run Mx_loop"] mx_invD(2) [OF g, of i]
    by (intro mx_move [OF g, of _ i "Run Mx_loop"]) (auto simp: mx_hs_def mx_ws_def)
qed (use mx_body_inv [OF _ g] mx_stop_inv [OF _ g] in blast)+

lemma mx_timedlock_inv:
  assumes "increment_timedlock n i g g'" and g: "mx_inv n g"
  shows "mx_inv n g'"
  using assms(1)
proof cases
  case timed_wait
  then show ?thesis using mx_lock_inv [OF g] by simp
next
  case timed_out
  have "mutex_inv Mx_mutex mx_hs mx_ws g'"
    unfolding timed_out(1) by (rule mx_mutex.timeout_inv)
      (use mx_invD(1) [OF g] timed_out(2) in \<open>simp_all add: mx_hs_def mx_ws_def\<close>)
  then show ?thesis using timed_out mx_invD(2) [OF g, of i]
    by (intro mx_move [OF g, of _ i "Run Mx_loop"]) auto
qed (use mx_body_inv [OF _ g] mx_stop_inv [OF _ g] in blast)+

lemma mx_wake_inv:
  assumes "th_wake g g'" and g: "mx_inv n g"
  shows "mx_inv n g'"
  using assms(1)
proof cases
  case (1 u m p)
  have p: "m = Mx_mutex" "p = Mx_load" using mx_invD(2) [OF g, of u] 1(2) by simp_all
  have "mutex_inv Mx_mutex mx_hs mx_ws g'"
    unfolding 1(1) by (rule mx_mutex.wake_inv [OF _ 1(2) _ _ 1(3)])
      (use mx_invD(1) [OF g] p mx_waiting [OF g] in \<open>simp_all add: mx_hs_def mx_ws_def\<close>)
  then show ?thesis using 1 p mx_invD(2) [OF g, of u]
    by (intro mx_move [OF g, of _ u "Run Mx_load"]) auto
qed

lemma mx_reachable_inv: "(mx_step n fns)\<^sup>*\<^sup>* mx_main g \<Longrightarrow> mx_inv n g"
proof (induction rule: rtranclp_induct)
  case base
  show ?case by (rule mx_init_inv)
next
  case (step g g')
  from step(2) show ?case
    by cases (use step(3) mx_increment_lock_inv mx_trylock_inv mx_timedlock_inv mx_wake_inv in blast)+
qed

section \<open>A run of two tasks\<close>

text \<open>Two tasks, one iteration each, with a lock that has to wait.\<close>

definition mx_at_two ::
  "int \<Rightarrow> int \<Rightarrow> (mx_sem, mx_pc) thread \<Rightarrow> (mx_sem, mx_pc) thread \<Rightarrow> ulong \<Rightarrow> ulong \<Rightarrow> ulong \<Rightarrow> ulong \<Rightarrow> ulong \<Rightarrow> bool \<Rightarrow> bool mx" where
  "mx_at_two m s t u x i j q r b =
     \<lparr>val = (\<lambda>k. case k of Mx_mutex \<Rightarrow> m | Mx_stop \<Rightarrow> s),
      maxv = (\<lambda>k. case k of Mx_mutex \<Rightarrow> 1 | Mx_stop \<Rightarrow> INT_MAX), thr = case_bool u t,
      dat = \<lparr>mx_x = x, mx_i = case_bool j i, mx_reg = case_bool r q, mx_stopped = b\<rparr>\<rparr>"

lemma mx_at_two_main: "mx_main = mx_at_two 1 1 (Run Mx_loop) (Run Mx_loop) 0 0 0 0 0 False"
  by (simp add: mx_main_def mx_at_two_def fun_eq_iff split: bool.split mx_sem.split)

lemma upd_two:
  "(case_bool u t)(False := a) = case_bool u a" "(case_bool u t)(True := a) = case_bool a t"
  "(\<lambda>k. case k of Mx_mutex \<Rightarrow> m | Mx_stop \<Rightarrow> s)(Mx_mutex := v) = (\<lambda>k. case k of Mx_mutex \<Rightarrow> v | Mx_stop \<Rightarrow> s)"
  "(\<lambda>k. case k of Mx_mutex \<Rightarrow> m | Mx_stop \<Rightarrow> s)(Mx_stop := v) = (\<lambda>k. case k of Mx_mutex \<Rightarrow> m | Mx_stop \<Rightarrow> v)"
  by (auto simp: fun_eq_iff split: bool.split mx_sem.split)

definition mx_fns_two :: "bool \<Rightarrow> mx_fn" where
  "mx_fns_two = case_bool Increment_timedlock Increment_lock"

lemma mx_lock_two:
  assumes "increment_lock n False g h" and "h = g'" and "\<not> mx_stopped (dat g)"
  shows "mx_step n mx_fns_two g g'"
  using assms mx_lock [of mx_fns_two False n g g'] by (simp add: mx_fns_two_def)

lemma mx_timedlock_two:
  assumes "increment_timedlock n True g h" and "h = g'" and "\<not> mx_stopped (dat g)"
  shows "mx_step n mx_fns_two g g'"
  using assms mx_timedlock [of mx_fns_two True n g g'] by (simp add: mx_fns_two_def)

lemma mx_any_two:
  assumes "increment_body n i g h \<or> stop_last i g h" and "\<not> mx_stopped (dat g)"
  shows "mx_step n mx_fns_two g h"
proof (cases i)
  case True
  then have "increment_timedlock n True g h" using assms(1) timed_body timed_stop by auto
  then show ?thesis using assms(2) mx_timedlock [of mx_fns_two True n g h] by (simp add: mx_fns_two_def)
next
  case False
  then have "increment_lock n False g h" using assms(1) lock_body lock_stop by auto
  then show ?thesis using assms(2) mx_lock [of mx_fns_two False n g h] by (simp add: mx_fns_two_def)
qed

lemma mx_body_two:
  assumes "increment_body n i g h" and "h = g'" and "\<not> mx_stopped (dat g)"
  shows "mx_step n mx_fns_two g g'"
  using assms mx_any_two by blast

lemma mx_stop_two:
  assumes "stop_last i g h" and "h = g'" and "\<not> mx_stopped (dat g)"
  shows "mx_step n mx_fns_two g g'"
  using assms mx_any_two by blast

lemma mx_wake_two:
  assumes "th_wake g h" and "h = g'" and "\<not> mx_stopped (dat g)"
  shows "mx_step n mx_fns_two g g'"
  using assms mx_wake by blast

lemma cnt_two: "cnt P (case_bool u t) = of_bool (P u) + of_bool (P t)"
  unfolding cnt_def UNIV_bool by (simp del: sum_of_bool_eq)

lemma mx_run_more:
  "mx_step n fns a b \<Longrightarrow> (mx_step n fns)\<^sup>*\<^sup>* b c \<Longrightarrow> (mx_step n fns)\<^sup>*\<^sup>* a c"
  by (rule converse_rtranclp_into_rtranclp)

lemmas mx_two_simps = mx_at_two_def upd_two th_wait_def th_fetch_sub_def th_block_def th_goto_def th_post_def th_data_def new_value_def

lemma mx_run_two:
  shows "mx_step 1 mx_fns_two (mx_at_two 1 1 (Run Mx_loop) (Run Mx_loop) 0 0 0 0 0 False)
     (mx_at_two 0 1 (Run Mx_load) (Run Mx_loop) 0 0 0 0 0 False)"
    "mx_step 1 mx_fns_two (mx_at_two 0 1 (Run Mx_load) (Run Mx_loop) 0 0 0 0 0 False)
     (mx_at_two 0 1 (Run Mx_store) (Run Mx_loop) 0 0 0 0 0 False)"
    "mx_step 1 mx_fns_two (mx_at_two 0 1 (Run Mx_store) (Run Mx_loop) 0 0 0 0 0 False)
     (mx_at_two (-1) 1 (Run Mx_store) (Waiting Mx_mutex Mx_load) 0 0 0 0 0 False)"
    "mx_step 1 mx_fns_two (mx_at_two (-1) 1 (Run Mx_store) (Waiting Mx_mutex Mx_load) 0 0 0 0 0 False)
     (mx_at_two (-1) 1 (Run Mx_unlock) (Waiting Mx_mutex Mx_load) 1 0 0 0 0 False)"
    "mx_step 1 mx_fns_two (mx_at_two (-1) 1 (Run Mx_unlock) (Waiting Mx_mutex Mx_load) 1 0 0 0 0 False)
     (mx_at_two 0 1 (Run Mx_loop) (Waiting Mx_mutex Mx_load) 1 1 0 0 0 False)"
    "mx_step 1 mx_fns_two (mx_at_two 0 1 (Run Mx_loop) (Waiting Mx_mutex Mx_load) 1 1 0 0 0 False)
     (mx_at_two 0 1 (Run Mx_loop) (Run Mx_load) 1 1 0 0 0 False)"
    "mx_step 1 mx_fns_two (mx_at_two 0 1 (Run Mx_loop) (Run Mx_load) 1 1 0 0 0 False)
     (mx_at_two 0 1 (Run Mx_stop_last) (Run Mx_load) 1 1 0 0 0 False)"
    "mx_step 1 mx_fns_two (mx_at_two 0 1 (Run Mx_stop_last) (Run Mx_load) 1 1 0 0 0 False)
     (mx_at_two 0 0 (Run Mx_exit) (Run Mx_load) 1 1 0 0 0 False)"
    "mx_step 1 mx_fns_two (mx_at_two 0 0 (Run Mx_exit) (Run Mx_load) 1 1 0 0 0 False)
     (mx_at_two 0 0 (Run Mx_exit) (Run Mx_store) 1 1 0 0 1 False)"
    "mx_step 1 mx_fns_two (mx_at_two 0 0 (Run Mx_exit) (Run Mx_store) 1 1 0 0 1 False)
     (mx_at_two 0 0 (Run Mx_exit) (Run Mx_unlock) 2 1 0 0 1 False)"
    "mx_step 1 mx_fns_two (mx_at_two 0 0 (Run Mx_exit) (Run Mx_unlock) 2 1 0 0 1 False)
     (mx_at_two 1 0 (Run Mx_exit) (Run Mx_loop) 2 1 1 0 1 False)"
    "mx_step 1 mx_fns_two (mx_at_two 1 0 (Run Mx_exit) (Run Mx_loop) 2 1 1 0 1 False)
     (mx_at_two 1 0 (Run Mx_exit) (Run Mx_stop_last) 2 1 1 0 1 False)"
    "mx_step 1 mx_fns_two (mx_at_two 1 0 (Run Mx_exit) (Run Mx_stop_last) 2 1 1 0 1 False)
     (mx_at_two 1 0 (Run Mx_exit) (Run Mx_rt_stop) 2 1 1 0 1 False)"
    "mx_step 1 mx_fns_two (mx_at_two 1 0 (Run Mx_exit) (Run Mx_rt_stop) 2 1 1 0 1 False)
     (mx_at_two 1 0 (Run Mx_exit) (Run Mx_stopped) 2 1 1 0 1 True)"
proof -
  show "mx_step 1 mx_fns_two (mx_at_two 1 1 (Run Mx_loop) (Run Mx_loop) 0 0 0 0 0 False)
     (mx_at_two 0 1 (Run Mx_load) (Run Mx_loop) 0 0 0 0 0 False)"
    by (rule mx_lock_two [OF lock_wait [where i = False]]) (simp_all add: mx_two_simps)
  show "mx_step 1 mx_fns_two (mx_at_two 0 1 (Run Mx_load) (Run Mx_loop) 0 0 0 0 0 False)
     (mx_at_two 0 1 (Run Mx_store) (Run Mx_loop) 0 0 0 0 0 False)"
    by (rule mx_body_two [OF body_load [where i = False]]) (simp_all add: mx_two_simps)
  show "mx_step 1 mx_fns_two (mx_at_two 0 1 (Run Mx_store) (Run Mx_loop) 0 0 0 0 0 False)
     (mx_at_two (-1) 1 (Run Mx_store) (Waiting Mx_mutex Mx_load) 0 0 0 0 0 False)"
    by (rule mx_timedlock_two [OF timed_wait [where i = True]]) (simp_all add: mx_two_simps)
  show "mx_step 1 mx_fns_two (mx_at_two (-1) 1 (Run Mx_store) (Waiting Mx_mutex Mx_load) 0 0 0 0 0 False)
     (mx_at_two (-1) 1 (Run Mx_unlock) (Waiting Mx_mutex Mx_load) 1 0 0 0 0 False)"
    by (rule mx_body_two [OF body_store [where i = False]]) (simp_all add: mx_two_simps)
  show "mx_step 1 mx_fns_two (mx_at_two (-1) 1 (Run Mx_unlock) (Waiting Mx_mutex Mx_load) 1 0 0 0 0 False)
     (mx_at_two 0 1 (Run Mx_loop) (Waiting Mx_mutex Mx_load) 1 1 0 0 0 False)"
    by (rule mx_body_two [OF body_unlock [where i = False]]) (simp_all add: mx_two_simps)
  show "mx_step 1 mx_fns_two (mx_at_two 0 1 (Run Mx_loop) (Waiting Mx_mutex Mx_load) 1 1 0 0 0 False)
     (mx_at_two 0 1 (Run Mx_loop) (Run Mx_load) 1 1 0 0 0 False)"
    by (rule mx_wake_two [OF th_wake.intros [where u = True and m = Mx_mutex and p = Mx_load]]) (simp_all add: mx_two_simps cnt_two)
  show "mx_step 1 mx_fns_two (mx_at_two 0 1 (Run Mx_loop) (Run Mx_load) 1 1 0 0 0 False)
     (mx_at_two 0 1 (Run Mx_stop_last) (Run Mx_load) 1 1 0 0 0 False)"
    by (rule mx_body_two [OF body_done [where i = False]]) (simp_all add: mx_two_simps)
  show "mx_step 1 mx_fns_two (mx_at_two 0 1 (Run Mx_stop_last) (Run Mx_load) 1 1 0 0 0 False)
     (mx_at_two 0 0 (Run Mx_exit) (Run Mx_load) 1 1 0 0 0 False)"
    by (rule mx_stop_two [OF stop_taken [where i = False]]) (simp_all add: mx_two_simps)
  show "mx_step 1 mx_fns_two (mx_at_two 0 0 (Run Mx_exit) (Run Mx_load) 1 1 0 0 0 False)
     (mx_at_two 0 0 (Run Mx_exit) (Run Mx_store) 1 1 0 0 1 False)"
    by (rule mx_body_two [OF body_load [where i = True]]) (simp_all add: mx_two_simps)
  show "mx_step 1 mx_fns_two (mx_at_two 0 0 (Run Mx_exit) (Run Mx_store) 1 1 0 0 1 False)
     (mx_at_two 0 0 (Run Mx_exit) (Run Mx_unlock) 2 1 0 0 1 False)"
    by (rule mx_body_two [OF body_store [where i = True]]) (simp_all add: mx_two_simps)
  show "mx_step 1 mx_fns_two (mx_at_two 0 0 (Run Mx_exit) (Run Mx_unlock) 2 1 0 0 1 False)
     (mx_at_two 1 0 (Run Mx_exit) (Run Mx_loop) 2 1 1 0 1 False)"
    by (rule mx_body_two [OF body_unlock [where i = True]]) (simp_all add: mx_two_simps)
  show "mx_step 1 mx_fns_two (mx_at_two 1 0 (Run Mx_exit) (Run Mx_loop) 2 1 1 0 1 False)
     (mx_at_two 1 0 (Run Mx_exit) (Run Mx_stop_last) 2 1 1 0 1 False)"
    by (rule mx_body_two [OF body_done [where i = True]]) (simp_all add: mx_two_simps)
  show "mx_step 1 mx_fns_two (mx_at_two 1 0 (Run Mx_exit) (Run Mx_stop_last) 2 1 1 0 1 False)
     (mx_at_two 1 0 (Run Mx_exit) (Run Mx_rt_stop) 2 1 1 0 1 False)"
    by (rule mx_stop_two [OF stop_failed [where i = True]]) (simp_all add: mx_two_simps)
  show "mx_step 1 mx_fns_two (mx_at_two 1 0 (Run Mx_exit) (Run Mx_rt_stop) 2 1 1 0 1 False)
     (mx_at_two 1 0 (Run Mx_exit) (Run Mx_stopped) 2 1 1 0 1 True)"
    by (rule mx_stop_two [OF stop_rt_stop [where i = True]]) (simp_all add: mx_two_simps)
qed

section \<open>The counter\<close>

text \<open>
  C16. No increment is lost: whichever of the three functions each task runs and however the tasks are
  interleaved, when the scheduler stops the counter is the number of iterations times the number of
  tasks, which is what \<^verbatim>\<open>main\<close> checks.
\<close>

theorem no_increment_lost:
  assumes "(mx_step n fns)\<^sup>*\<^sup>* mx_main (g :: ('i::finite) mx)" and "mx_stopped (dat g)"
  shows "mx_x (dat g) = n * of_nat CARD('i)"
proof -
  have g: "mx_inv n g" using assms(1) by (rule mx_reachable_inv)
  note d = mx_invD [OF g]
  obtain v where v: "thr g v = Run Mx_stopped" using d(6) assms(2) by blast
  then have "val g Mx_stop = 0" using d(2) [of v] by simp
  then have "card {u. thr g u = Run Mx_exit} = CARD('i) - 1" using d(4) by (simp add: cnt_card)
  moreover have "{u. thr g u = Run Mx_exit} \<subseteq> UNIV - {v}" using v by auto
  moreover have "card (UNIV - {v}) = CARD('i) - 1" by (simp add: card_Diff_singleton)
  ultimately have all: "{u. thr g u = Run Mx_exit} = UNIV - {v}" by (intro card_subset_eq) simp_all
  have u: "thr g u = Run Mx_exit \<or> thr g u = Run Mx_stopped" for u using all v by (cases "u = v") auto
  have "mx_i (dat g) u = n" for u using u [of u] d(2) [of u] by (elim disjE) simp_all
  moreover have "thr g u \<noteq> Run Mx_unlock" for u using u [of u] by (elim disjE) simp_all
  ultimately show ?thesis using d(3) by (simp add: mult.commute)
qed

theorem no_increment_lost_witness:
  "(mx_step 1 mx_fns_two)\<^sup>*\<^sup>* mx_main (mx_at_two 1 0 (Run Mx_exit) (Run Mx_stopped) 2 1 1 0 1 True) \<and>
   mx_x (dat (mx_at_two 1 0 (Run Mx_exit) (Run Mx_stopped) 2 1 1 0 1 True)) = 2"
proof -
  let ?g = "mx_at_two 1 0 (Run Mx_exit) (Run Mx_stopped) 2 1 1 0 1 True"
  have "(mx_step 1 mx_fns_two)\<^sup>*\<^sup>* mx_main ?g"
    unfolding mx_at_two_main
    by (intro mx_run_more [OF mx_run_two(1)]
      mx_run_more [OF mx_run_two(2)]
      mx_run_more [OF mx_run_two(3)]
      mx_run_more [OF mx_run_two(4)]
      mx_run_more [OF mx_run_two(5)]
      mx_run_more [OF mx_run_two(6)]
      mx_run_more [OF mx_run_two(7)]
      mx_run_more [OF mx_run_two(8)]
      mx_run_more [OF mx_run_two(9)]
      mx_run_more [OF mx_run_two(10)]
      mx_run_more [OF mx_run_two(11)]
      mx_run_more [OF mx_run_two(12)]
      mx_run_more [OF mx_run_two(13)]
      mx_run_more [OF mx_run_two(14)] rtranclp.rtrancl_refl)
  moreover have "mx_stopped (dat ?g)" by (simp add: mx_at_two_def)
  ultimately show ?thesis using no_increment_lost [of 1 mx_fns_two ?g] by simp
qed

end
