(* ===== verification/Ex_Once.thy ===== *)
theory Ex_Once
  imports Rt_Once
begin

text \<open>
  The program \<^verbatim>\<open>examples/once.c\<close>: one task resets the one-time call after each of its calls, the others
  call it and wait for a semaphore that the first one posts. \<^verbatim>\<open>main\<close> expects the function to have run once for
  each reset. The function runs inside the call, under its mutex, so \<^verbatim>\<open>x\<close> is the number
  \<^const>\<open>finished\<close> of its returns; there are fewer than \<open>2 ^ 32\<close> of them.
\<close>

section \<open>The code\<close>

datatype ox_sem = Ox_sem

datatype ox_pc =
    Ox_head | Ox_once | Ox_wait | Ox_next | Ox_exit
  | Rs_head | Rs_once | Rs_store | Rs_post | Rs_next | Rs_stop

record 'i ox_data =
  once :: "'i once"
  iter :: "'i \<Rightarrow> nat"

type_synonym 'i ox = "('i, ox_sem, ox_pc, 'i ox_data) threads"

text \<open>A call of \<^verbatim>\<open>rt_once\<close> until it returns.\<close>

inductive rt_once_call :: "'i \<Rightarrow> 'i once \<Rightarrow> 'i once \<Rightarrow> bool" for i where
  call_fast: "rt_once_step i k k' \<Longrightarrow> thr k i \<noteq> Run Once_return \<Longrightarrow> rt_once_call i k k'"
| call_slow: "rt_once_slow i k k' \<Longrightarrow> rt_once_call i k k'"

definition called :: "'i \<Rightarrow> 'i ox_data \<Rightarrow> 'i ox_data" where
  "called i d = d\<lparr>once := th_goto i (Run Once_call) (once d)\<rparr>"

definition next_iter :: "'i \<Rightarrow> 'i ox_data \<Rightarrow> 'i ox_data" where
  "next_iter i d = d\<lparr>iter := (iter d)(i := iter d i + 1)\<rparr>"

definition reset_done :: "'i ox_data \<Rightarrow> 'i ox_data" where
  "reset_done d = d\<lparr>once := (once d)\<lparr>dat := (dat (once d))\<lparr>once_done := 0\<rparr>\<rparr>\<rparr>"

inductive oncer :: "nat \<Rightarrow> 'i \<Rightarrow> 'i ox \<Rightarrow> 'i ox \<Rightarrow> bool" for n i where
  ox_head: "thr g i = Run Ox_head \<Longrightarrow> oncer n i g (th_data i id (if iter (dat g) i < n then Ox_once else Ox_exit) g)"
| ox_once: "thr g i = Run Ox_once \<Longrightarrow> rt_once_call i (once (dat g)) k \<Longrightarrow>
    oncer n i g (th_data i (\<lambda>d. d\<lparr>once := k\<rparr>) Ox_once g)"
| ox_returned: "thr g i = Run Ox_once \<Longrightarrow> thr (once (dat g)) i = Run Once_return \<Longrightarrow>
    oncer n i g (th_data i (called i) Ox_wait g)"
| ox_wait: "thr g i = Run Ox_wait \<Longrightarrow> oncer n i g (th_wait i Ox_sem Ox_next g)"
| ox_next: "thr g i = Run Ox_next \<Longrightarrow> oncer n i g (th_data i (next_iter i) Ox_head g)"

inductive oncer_reset :: "nat \<Rightarrow> 'i \<Rightarrow> 'i ox \<Rightarrow> 'i ox \<Rightarrow> bool" for n i where
  rs_head: "thr g i = Run Rs_head \<Longrightarrow> oncer_reset n i g (th_data i id (if iter (dat g) i < n then Rs_once else Rs_stop) g)"
| rs_once: "thr g i = Run Rs_once \<Longrightarrow> rt_once_call i (once (dat g)) k \<Longrightarrow>
    oncer_reset n i g (th_data i (\<lambda>d. d\<lparr>once := k\<rparr>) Rs_once g)"
| rs_returned: "thr g i = Run Rs_once \<Longrightarrow> thr (once (dat g)) i = Run Once_return \<Longrightarrow>
    oncer_reset n i g (th_data i (called i) Rs_store g)"
| rs_store: "thr g i = Run Rs_store \<Longrightarrow> oncer_reset n i g (th_data i reset_done Rs_post g)"
| rs_post: "thr g i = Run Rs_post \<Longrightarrow> oncer_reset n i g (th_post i Ox_sem 1 Rs_next g)"
| rs_next: "thr g i = Run Rs_next \<Longrightarrow> oncer_reset n i g (th_data i (next_iter i) Rs_head g)"

text \<open>The task \<open>z\<close> resets; a waiter of the call's mutex or of the semaphore may be woken at any time.\<close>

inductive ox_step :: "nat \<Rightarrow> 'i::finite \<Rightarrow> 'i ox \<Rightarrow> 'i ox \<Rightarrow> bool" for n z where
  ox_oncer: "i \<noteq> z \<Longrightarrow> oncer n i g g' \<Longrightarrow> ox_step n z g g'"
| ox_reset: "oncer_reset n z g g' \<Longrightarrow> ox_step n z g g'"
| ox_wake: "th_wake g g' \<Longrightarrow> ox_step n z g g'"
| ox_wake_mutex: "th_wake (once (dat g)) k \<Longrightarrow> ox_step n z g (g\<lparr>dat := (dat g)\<lparr>once := k\<rparr>\<rparr>)"

definition ox_init :: "'i \<Rightarrow> 'i ox" where
  "ox_init z = \<lparr>val = (\<lambda>_. 0), maxv = (\<lambda>_. INT_MAX), thr = (\<lambda>i. Run (if i = z then Rs_head else Ox_head)),
     dat = \<lparr>once = RT_ONCE_INIT, iter = (\<lambda>_. 0)\<rparr>\<rparr>"

definition ox_x :: "'i ox \<Rightarrow> nat" where
  "ox_x g = finished (dat (once (dat g)))"

definition ox_main :: "nat \<Rightarrow> 'i ox \<Rightarrow> int" where
  "ox_main n g = (if ox_x g \<noteq> n then 1 else 0)"

section \<open>The invariant of the call\<close>

text \<open>
  Between two resets the function runs once. \<open>r\<close> is the number of resets; the task \<open>z\<close> is the only one that resets,
  so \<^verbatim>\<open>done\<close> is set when its call returns.
\<close>

fun ro_at :: "rt_once \<Rightarrow> (once_sem, once_pc) thread \<Rightarrow> bool" where
  "ro_at d (Run p) = (p \<in> {Once_fn, Once_in_fn, Once_store} \<longrightarrow> once_done d = 0)"
| "ro_at d (Waiting m p) = (p = Once_check)"

definition runs :: "nat \<Rightarrow> ('i::finite) once \<Rightarrow> bool" where
  "runs r k \<longleftrightarrow> (if once_done (dat k) = 0 then finished (dat k) = r + of_bool (\<exists>i. thr k i = Run Once_store)
     else once_done (dat k) = 1 \<and> finished (dat k) = r + 1)"

definition ro_inv :: "'i \<Rightarrow> nat \<Rightarrow> ('i::finite) once \<Rightarrow> bool" where
  "ro_inv z r k \<longleftrightarrow> mutex_inv Once_mutex once_hs once_ws k \<and> (\<forall>i. ro_at (dat k) (thr k i)) \<and> runs r k \<and>
     (thr k z \<in> {Run Once_unlock, Run Once_return} \<longrightarrow> once_done (dat k) = 1)"

lemma ro_invD:
  assumes "ro_inv z r k"
  shows "mutex_inv Once_mutex once_hs once_ws k" "ro_at (dat k) (thr k i)" "runs r k"
    "thr k z = Run Once_unlock \<or> thr k z = Run Once_return \<Longrightarrow> once_done (dat k) = 1"
    "once_done (dat k) \<noteq> 0 \<Longrightarrow> once_done (dat k) = 1"
  using assms by (auto simp: ro_inv_def runs_def split: if_splits)

text \<open>A task moves without changing the data.\<close>

lemma ro_move:
  assumes k: "ro_inv z r k" and k': "thr k' = (thr k)(i := t)" "dat k' = dat k"
    and m: "mutex_inv Once_mutex once_hs once_ws k'" and i: "thr k i \<noteq> Run Once_store" "t \<noteq> Run Once_store"
    and t: "ro_at (dat k) t" "t \<in> {Run Once_unlock, Run Once_return} \<Longrightarrow> i = z \<Longrightarrow> once_done (dat k) = 1"
  shows "ro_inv z r k'"
proof -
  have "(\<exists>u. thr k' u = Run Once_store) \<longleftrightarrow> (\<exists>u. thr k u = Run Once_store)" using i by (auto simp: k')
  then have "runs r k'" using ro_invD(3) [OF k] by (simp add: runs_def k')
  then show ?thesis using k m t unfolding ro_inv_def by (auto simp: k')
qed

text \<open>A task that holds the mutex changes the data.\<close>

lemma ro_holder:
  assumes k: "ro_inv z r k" and i: "thr k i \<in> set once_hs" "Run p \<in> set once_hs"
    and d: "ro_at (f (dat k)) (Run p)" "once_done (f (dat k)) \<in> {once_done (dat k), 1}"
      "p = Once_unlock \<Longrightarrow> once_done (f (dat k)) = 1" and ok: "runs r (th_data i f p k)"
  shows "ro_inv z r (th_data i f p k)"
proof -
  note k' = ro_invD [OF k]
  have w: "thr k i \<notin> set once_ws" "Run p \<notin> set once_ws" using i by (auto simp: once_hs_def once_ws_def)
  have "mutex_inv Once_mutex once_hs once_ws (th_data i f p k)"
    by (rule once_mutex.keep_inv [OF k'(1), of _ i "Run p"]) (use i w in simp_all)
  moreover have "ro_at (f (dat k)) (thr k u)" if "u \<noteq> i" for u
  proof -
    have "thr k u \<notin> set once_hs" using once_mutex.exclusive [OF k'(1), of i u] i(1) that by auto
    then show ?thesis using k'(2) [of u] by (cases "thr k u") (auto simp: once_hs_def)
  qed
  moreover have "once_done (f (dat k)) = 1" if "thr (th_data i f p k) z \<in> {Run Once_unlock, Run Once_return}"
  proof (cases "z = i")
    case True
    then show ?thesis using that i(2) d(3) by (auto simp: once_hs_def)
  next
    case False
    then show ?thesis using that k'(4) d(2) by auto
  qed
  ultimately show ?thesis using d(1) ok by (simp add: ro_inv_def)
qed

lemma ro_no_store:
  assumes k: "ro_inv z r k" and i: "thr k i \<in> set once_hs" "thr k i \<noteq> Run Once_store"
  shows "thr k u \<noteq> Run Once_store"
proof
  assume u: "thr k u = Run Once_store"
  then have "u = i" using once_mutex.exclusive [OF ro_invD(1) [OF k], of u i] i(1) by (auto simp: once_hs_def)
  then show False using u i(2) by simp
qed

lemma ro_call:
  assumes "rt_once_call i k k'" and k: "ro_inv z r k"
  shows "ro_inv z r k'"
  using assms(1)
proof cases
  case call_fast
  note k' = ro_invD [OF k]
  from call_fast(1) show ?thesis
  proof cases
    case once_fast
    let ?t = "Run (if once_done (dat k) = 0 then Once_lock else Once_return) :: (once_sem, once_pc) thread"
    have "mutex_inv Once_mutex once_hs once_ws k'"
      by (rule once_mutex.keep_inv [OF k'(1), of _ i ?t]) (use once_fast in \<open>simp_all add: once_hs_def once_ws_def\<close>)
    then show ?thesis by (rule ro_move [OF k, of k' i ?t, rotated 2]) (use k'(5) once_fast in \<open>auto split: if_splits\<close>)
  qed (use call_fast(2) in simp)
next
  case call_slow
  note k' = ro_invD [OF k]
  from call_slow show ?thesis
  proof cases
    case slow_lock
    have "mutex_inv Once_mutex once_hs once_ws k'"
      unfolding slow_lock(1) by (rule once_mutex.lock_inv [OF k'(1)]) (use slow_lock(2) in \<open>simp_all add: once_hs_def once_ws_def\<close>)
    then show ?thesis
      by (rule ro_move [OF k, of k' i "if val k Once_mutex > 0 then Run Once_check else Waiting Once_mutex Once_check", rotated 2])
        (use slow_lock in \<open>auto split: if_splits\<close>)
  next
    case slow_check
    let ?t = "Run (if once_done (dat k) = 0 then Once_fn else Once_unlock) :: (once_sem, once_pc) thread"
    have "mutex_inv Once_mutex once_hs once_ws k'"
      by (rule once_mutex.keep_inv [OF k'(1), of _ i ?t]) (use slow_check in \<open>simp_all add: once_hs_def once_ws_def\<close>)
    then show ?thesis by (rule ro_move [OF k, of k' i ?t, rotated 2]) (use k'(5) slow_check in \<open>auto split: if_splits\<close>)
  next
    case slow_fn
    have d: "once_done (dat k) = 0" using k'(2) [of i] slow_fn(2) by simp
    have n: "thr k u \<noteq> Run Once_store" for u using ro_no_store [OF k, of i] slow_fn(2) by (simp add: once_hs_def)
    then show ?thesis unfolding slow_fn(1)
      by (intro ro_holder [OF k]) (use k'(3) d slow_fn(2) in \<open>auto simp: once_hs_def runs_def\<close>)
  next
    case slow_fn_returns
    have d: "once_done (dat k) = 0" using k'(2) [of i] slow_fn_returns(2) by simp
    have n: "thr k u \<noteq> Run Once_store" for u using ro_no_store [OF k, of i] slow_fn_returns(2) by (simp add: once_hs_def)
    then show ?thesis unfolding slow_fn_returns(1)
      by (intro ro_holder [OF k]) (use k'(3) d slow_fn_returns(2) in \<open>auto simp: once_hs_def runs_def\<close>)
  next
    case slow_store
    have "finished (dat k) = r + 1" using k'(2) [of i] k'(3) slow_store(2) by (auto simp: runs_def)
    then show ?thesis unfolding slow_store(1)
      by (intro ro_holder [OF k]) (use slow_store(2) in \<open>simp_all add: once_hs_def runs_def\<close>)
  next
    case slow_unlock
    have "mutex_inv Once_mutex once_hs once_ws k'"
      unfolding slow_unlock(1) by (rule once_mutex.unlock_inv [OF k'(1)]) (use slow_unlock(2) in \<open>simp_all add: once_hs_def once_ws_def\<close>)
    then show ?thesis by (rule ro_move [OF k, of k' i "Run Once_return", rotated 2]) (use k'(4) slow_unlock in auto)
  qed
qed

lemma ro_wake:
  assumes "th_wake k k'" and k: "ro_inv z r k"
  shows "ro_inv z r k'"
  using assms(1)
proof cases
  case (1 u m p)
  note k' = ro_invD [OF k]
  have p: "p = Once_check" using k'(2) [of u] 1(2) by simp
  have "is_waiting Once_mutex (thr k u) = (thr k u = Waiting Once_mutex Once_check)" for u
    using k'(2) [of u] by (cases "thr k u") simp_all
  then have "cnt (is_waiting Once_mutex) (thr k) = at_one (thr k) once_ws"
    using cnt_cong [of "is_waiting Once_mutex" "thr k" "\<lambda>t. t = Waiting Once_mutex Once_check"] by (simp add: once_ws_def)
  then have "mutex_inv Once_mutex once_hs once_ws k'"
    unfolding 1(1) by (intro once_mutex.wake_inv [OF k'(1) 1(2) _ _ 1(3)]) (use p in \<open>simp_all add: once_hs_def once_ws_def\<close>)
  then show ?thesis using ro_move [OF k, of k' u "Run Once_check"] 1 p by simp
qed

lemma ro_goto:
  assumes k: "ro_inv z r k" and i: "thr k i = Run Once_return"
  shows "ro_inv z r (th_goto i (Run Once_call) k)"
proof -
  have "mutex_inv Once_mutex once_hs once_ws (th_goto i (Run Once_call) k)"
    by (rule once_mutex.keep_inv [OF ro_invD(1) [OF k], of _ i "Run Once_call"]) (use i in \<open>simp_all add: once_hs_def once_ws_def\<close>)
  then show ?thesis using ro_move [OF k, of "th_goto i (Run Once_call) k" i "Run Once_call"] i by simp
qed

text \<open>The reset, when \<^verbatim>\<open>done\<close> is set and the task that resets is not in the call.\<close>

lemma ro_reset:
  assumes k: "ro_inv z r k" and d: "once_done (dat k) = 1" and z: "thr k z = Run Once_call"
  shows "ro_inv z (r + 1) (k\<lparr>dat := (dat k)\<lparr>once_done := 0\<rparr>\<rparr>)"
proof -
  note k' = ro_invD [OF k]
  have "thr k u \<noteq> Run Once_store" for u using k'(2) [of u] d by auto
  then have "runs (r + 1) (k\<lparr>dat := (dat k)\<lparr>once_done := 0\<rparr>\<rparr>)" using k'(3) d by (simp add: runs_def)
  moreover have "ro_at (dat k\<lparr>once_done := 0\<rparr>) (thr k u)" for u using k'(2) [of u] by (cases "thr k u") simp_all
  ultimately show ?thesis using k'(1) z by (simp add: ro_inv_def mutex_inv_def)
qed

section \<open>The invariant of the program\<close>

definition resets :: "'i \<Rightarrow> 'i ox \<Rightarrow> nat" where
  "resets z g = iter (dat g) z + of_bool (thr g z \<in> {Run Rs_post, Run Rs_next})"

fun oncer_at :: "(ox_sem, ox_pc) thread \<Rightarrow> bool" where
  "oncer_at (Run p) = (p \<in> {Ox_head, Ox_once, Ox_wait, Ox_next, Ox_exit})"
| "oncer_at (Waiting m p) = (p = Ox_next)"

fun reset_at :: "nat \<Rightarrow> nat \<Rightarrow> int \<Rightarrow> (once_sem, once_pc) thread \<Rightarrow> (ox_sem, ox_pc) thread \<Rightarrow> bool" where
  "reset_at n i d c (Run p) =
     (p \<in> {Rs_head, Rs_once, Rs_store, Rs_post, Rs_next, Rs_stop} \<and> i \<le> n \<and> (p = Rs_stop \<longrightarrow> i = n) \<and>
      (p \<in> {Rs_once, Rs_store, Rs_post, Rs_next} \<longrightarrow> i < n) \<and> (p \<noteq> Rs_once \<longrightarrow> c = Run Once_call) \<and>
      (p = Rs_store \<longrightarrow> d = 1))"
| "reset_at n i d c (Waiting m p) = False"

definition ox_inv :: "nat \<Rightarrow> 'i \<Rightarrow> ('i::finite) ox \<Rightarrow> bool" where
  "ox_inv n z g \<longleftrightarrow> ro_inv z (resets z g) (once (dat g)) \<and> (\<forall>i. i \<noteq> z \<longrightarrow> oncer_at (thr g i)) \<and>
     reset_at n (iter (dat g) z) (once_done (dat (once (dat g)))) (thr (once (dat g)) z) (thr g z)"

lemma ox_invD:
  assumes "ox_inv n z g"
  shows "ro_inv z (resets z g) (once (dat g))" "i \<noteq> z \<Longrightarrow> oncer_at (thr g i)"
    "reset_at n (iter (dat g) z) (once_done (dat (once (dat g)))) (thr (once (dat g)) z) (thr g z)"
  using assms by (simp_all add: ox_inv_def)

lemma ox_init_inv: "ox_inv n z (ox_init z)"
proof -
  have "ro_inv z 0 RT_ONCE_INIT"
    by (simp add: ro_inv_def RT_ONCE_INIT_def mutex_inv_def once_hs_def once_ws_def cnt_0 runs_def)
  then show ?thesis by (simp add: ox_inv_def ox_init_def resets_def) (simp add: RT_ONCE_INIT_def)
qed

text \<open>Another task calls: the task that resets stays where it is, and \<^verbatim>\<open>done\<close> is not reset.\<close>

lemma call_keeps:
  assumes "rt_once_call i k k'" and "i \<noteq> z" and "ro_inv z r k"
  shows "thr k' z = thr k z" "once_done (dat k) = 1 \<Longrightarrow> once_done (dat k') = 1"
  using assms by (auto elim!: rt_once_call.cases rt_once_step.cases rt_once_slow.cases)

lemma wake_keeps:
  assumes "th_wake k k'"
  shows "dat k' = dat k" "thr k z = Run p \<Longrightarrow> thr k' z = Run p"
  using assms by (auto elim!: th_wake.cases)

lemma ox_oncer_inv:
  assumes "oncer n i g g'" and i: "i \<noteq> z" and g: "ox_inv n z g"
  shows "ox_inv n z g'"
  using assms(1)
proof cases
  case (ox_once k)
  note d = ox_invD [OF g] and c = call_keeps [OF ox_once(3) i ox_invD(1) [OF g]]
  have "ro_inv z (resets z g) k" using ro_call [OF ox_once(3) d(1)] .
  moreover have "reset_at n (iter (dat g) z) (once_done (dat k)) (thr k z) (thr g z)"
    using d(3) c by (cases "thr g z") auto
  ultimately show ?thesis using d(2) i ox_once(1) by (simp add: ox_inv_def resets_def)
next
  case ox_returned
  note d = ox_invD [OF g]
  have "ro_inv z (resets z g) (th_goto i (Run Once_call) (once (dat g)))" using ro_goto [OF d(1) ox_returned(3)] .
  then show ?thesis using d i ox_returned(1) by (simp add: ox_inv_def resets_def called_def)
qed (use ox_invD [OF g] i in \<open>auto simp: ox_inv_def resets_def next_iter_def\<close>)

lemma ox_reset_inv:
  assumes "oncer_reset n z g g'" and g: "ox_inv n z g"
  shows "ox_inv n z g'"
  using assms(1)
proof cases
  case (rs_once k)
  note d = ox_invD [OF g]
  have "ro_inv z (resets z g) k" using ro_call [OF rs_once(3) d(1)] .
  then show ?thesis using d rs_once(1,2) by (auto simp: ox_inv_def resets_def)
next
  case rs_returned
  note d = ox_invD [OF g]
  have "ro_inv z (resets z g) (th_goto z (Run Once_call) (once (dat g)))" using ro_goto [OF d(1) rs_returned(3)] .
  moreover have "once_done (dat (once (dat g))) = 1" using ro_invD(4) [OF d(1)] rs_returned(3) by simp
  ultimately show ?thesis using d rs_returned(1,2) by (auto simp: ox_inv_def resets_def called_def)
next
  case rs_store
  note d = ox_invD [OF g]
  have "ro_inv z (resets z g + 1) ((once (dat g))\<lparr>dat := (dat (once (dat g)))\<lparr>once_done := 0\<rparr>\<rparr>)"
    by (rule ro_reset [OF d(1)]) (use d(3) rs_store(2) in auto)
  then show ?thesis using d rs_store(1,2) by (auto simp: ox_inv_def resets_def reset_done_def)
qed (use ox_invD [OF g] in \<open>auto simp: ox_inv_def resets_def next_iter_def\<close>)

lemma ox_step_inv:
  assumes "ox_step n z g g'" and g: "ox_inv n z g"
  shows "ox_inv n z g'"
  using assms(1)
proof cases
  case (ox_oncer i)
  then show ?thesis using ox_oncer_inv g by blast
next
  case ox_reset
  then show ?thesis using ox_reset_inv g by blast
next
  case ox_wake
  note d = ox_invD [OF g]
  from ox_wake show ?thesis
  proof cases
    case (1 u m p)
    have "u \<noteq> z" using d(3) 1(2) by (cases "u = z") auto
    moreover from this have "p = Ox_next" using d(2) [of u] 1(2) by simp
    ultimately show ?thesis using d 1(1) by (simp add: ox_inv_def resets_def)
  qed
next
  case (ox_wake_mutex k)
  note d = ox_invD [OF g] and w = wake_keeps [OF ox_wake_mutex(2)]
  have "ro_inv z (resets z g) k" using ro_wake [OF ox_wake_mutex(2) d(1)] .
  moreover have "reset_at n (iter (dat g) z) (once_done (dat k)) (thr k z) (thr g z)"
    using d(3) w by (cases "thr g z") auto
  ultimately show ?thesis using d(2) ox_wake_mutex(1) by (simp add: ox_inv_def resets_def)
qed

lemma ox_reachable_inv: "(ox_step n z)\<^sup>*\<^sup>* (ox_init z) g \<Longrightarrow> ox_inv n z g"
  by (induction rule: rtranclp_induct) (use ox_init_inv ox_step_inv in blast)+

text \<open>When the scheduler is stopped, the function has run once for each reset, or once more.\<close>

lemma ox_count:
  assumes "(ox_step n z)\<^sup>*\<^sup>* (ox_init z) g" and z: "thr g z = Run Rs_stop"
  shows "ox_x g = n \<or> ox_x g = n + 1"
proof -
  note d = ox_invD [OF ox_reachable_inv [OF assms(1)]]
  have "iter (dat g) z = n" using d(3) z by auto
  then show ?thesis using ro_invD(3) [OF d(1)] z by (auto simp: runs_def resets_def ox_x_def split: if_splits)
qed

section \<open>Both numbers are possible\<close>

definition free :: "'i once \<Rightarrow> bool" where
  "free k \<longleftrightarrow> (\<forall>i. thr k i = Run Once_call) \<and> val k Once_mutex = 1 \<and> maxv k Once_mutex = 1"

lemma call_runs:
  assumes k: "free k" "once_done (dat k) = 0"
  shows "\<exists>k'. (rt_once_call i)\<^sup>*\<^sup>* k k' \<and> thr k' i = Run Once_return \<and> free (th_goto i (Run Once_call) k') \<and>
    finished (dat k') = finished (dat k) + 1 \<and> once_done (dat k') = 1"
proof -
  let ?c = "rt_once_call i"
  let ?k1 = "th_goto i (Run Once_lock) k"
  let ?k2 = "th_wait i Once_mutex Once_check ?k1"
  let ?k3 = "th_goto i (Run Once_fn) ?k2"
  let ?k4 = "th_data i (\<lambda>d. d\<lparr>started := started d + 1\<rparr>) Once_in_fn ?k3"
  let ?k5 = "th_data i (\<lambda>d. d\<lparr>finished := finished d + 1\<rparr>) Once_store ?k4"
  let ?k6 = "th_data i (\<lambda>d. d\<lparr>once_done := 1\<rparr>) Once_unlock ?k5"
  let ?k7 = "th_post i Once_mutex 1 Once_return ?k6"
  have t: "thr k i = Run Once_call" "val k Once_mutex = 1" "maxv k Once_mutex = 1" using k(1) by (simp_all add: free_def)
  have 1: "?c k ?k1" using call_fast [OF once_fast [OF t(1)]] t k(2) by simp
  have 2: "?c ?k1 ?k2" by (rule call_slow [OF slow_lock]) simp
  have 3: "?c ?k2 ?k3" using call_slow [OF slow_check, of ?k2 i] t k(2) by simp
  have 4: "?c ?k3 ?k4" by (rule call_slow [OF slow_fn]) simp
  have 5: "?c ?k4 ?k5" by (rule call_slow [OF slow_fn_returns]) simp
  have 6: "?c ?k5 ?k6" by (rule call_slow [OF slow_store]) simp
  have 7: "?c ?k6 ?k7" by (rule call_slow [OF slow_unlock]) simp
  have "?c\<^sup>*\<^sup>* k ?k7" using 1 2 3 4 5 6 7 by (meson converse_rtranclp_into_rtranclp rtranclp.rtrancl_refl)
  moreover have "free (th_goto i (Run Once_call) ?k7)" using k(1) t by (simp add: free_def new_value_def)
  ultimately show ?thesis by (intro exI [of _ ?k7]) simp
qed

lemma calls_lift:
  assumes "(rt_once_call i)\<^sup>*\<^sup>* k k'" and "once (dat g) = k"
    and i: "thr g i = Run Rs_once \<and> i = z \<or> thr g i = Run Ox_once \<and> i \<noteq> z"
  shows "(ox_step n z)\<^sup>*\<^sup>* g (g\<lparr>dat := (dat g)\<lparr>once := k'\<rparr>\<rparr>)"
  using assms(1)
proof (induction rule: rtranclp_induct)
  case base
  have "g\<lparr>dat := (dat g)\<lparr>once := k\<rparr>\<rparr> = g" unfolding assms(2) [symmetric] by simp
  then show ?case by simp
next
  case (step k1 k2)
  let ?g = "\<lambda>k. g\<lparr>dat := (dat g)\<lparr>once := k\<rparr>\<rparr>"
  have "th_data i (\<lambda>d. d\<lparr>once := k2\<rparr>) p (?g k1) = ?g k2" if "thr g i = Run p" for p
    using that by (simp add: th_data_def th_goto_def fun_upd_idem)
  then have "ox_step n z (?g k1) (?g k2)"
    using i ox_oncer [where i = i and g = "?g k1", OF _ ox_once] ox_reset [where g = "?g k1", OF rs_once] step(2) by fastforce
  then show ?case using step(3) by (rule rtranclp.rtrancl_into_rtrancl [rotated])
qed

text \<open>The task \<^term>\<open>True\<close> resets, the task \<^term>\<open>False\<close> has not started; \<open>k\<close> iterations are over.\<close>

definition ox_posted :: "nat \<Rightarrow> bool ox \<Rightarrow> bool" where
  "ox_posted k g \<longleftrightarrow> thr g True = Run Rs_post \<and> thr g False = Run Ox_head \<and> free (once (dat g)) \<and>
     once_done (dat (once (dat g))) = 0 \<and> ox_x g = k + 1 \<and> iter (dat g) True = k \<and> iter (dat g) False = 0"

lemma reset_iteration:
  assumes g: "thr g True = Run Rs_head" "thr g False = Run Ox_head" "free (once (dat g))"
    "once_done (dat (once (dat g))) = 0" "ox_x g = k" "iter (dat g) True = k" "iter (dat g) False = 0" and k: "k < n"
  shows "\<exists>g'. (ox_step n True)\<^sup>*\<^sup>* g g' \<and> ox_posted k g'"
proof -
  let ?g1 = "th_data True id Rs_once g"
  obtain c where c: "(rt_once_call True)\<^sup>*\<^sup>* (once (dat g)) c" "thr c True = Run Once_return" "free (th_goto True (Run Once_call) c)"
    "finished (dat c) = finished (dat (once (dat g))) + 1" "once_done (dat c) = 1"
    using call_runs [OF g(3,4)] by blast
  let ?g2 = "?g1\<lparr>dat := (dat ?g1)\<lparr>once := c\<rparr>\<rparr>"
  let ?g3 = "th_data True (called True) Rs_store ?g2"
  let ?g4 = "th_data True reset_done Rs_post ?g3"
  have 1: "ox_step n True g ?g1" using ox_reset [OF rs_head [OF g(1)], of n] g(6) k by simp
  have 2: "(ox_step n True)\<^sup>*\<^sup>* ?g1 ?g2" by (rule calls_lift [OF c(1)]) simp_all
  have 3: "ox_step n True ?g2 ?g3" by (rule ox_reset [OF rs_returned]) (simp_all add: c(2))
  have 4: "ox_step n True ?g3 ?g4" by (rule ox_reset [OF rs_store]) simp
  have "(ox_step n True)\<^sup>*\<^sup>* g ?g4" using 1 2 3 4 by (meson converse_rtranclp_into_rtranclp rtranclp.rtrancl_into_rtrancl)
  moreover have "ox_posted k ?g4" using g c(3,4)
    by (simp add: ox_posted_def called_def reset_done_def ox_x_def free_def)
  ultimately show ?thesis by blast
qed

lemma reset_goes_on:
  assumes g: "thr g True = Run Rs_post"
  shows "\<exists>g'. (ox_step n True)\<^sup>*\<^sup>* g g' \<and> thr g' True = Run Rs_head \<and> thr g' False = thr g False \<and>
    once (dat g') = once (dat g) \<and> iter (dat g') = (iter (dat g))(True := iter (dat g) True + 1)"
proof -
  let ?g1 = "th_post True Ox_sem 1 Rs_next g"
  let ?g2 = "th_data True (next_iter True) Rs_head ?g1"
  have 1: "ox_step n True g ?g1" by (rule ox_reset [OF rs_post [OF g]])
  have 2: "ox_step n True ?g1 ?g2" by (rule ox_reset [OF rs_next]) simp
  have "(ox_step n True)\<^sup>*\<^sup>* g ?g2" using 1 2 by (meson converse_rtranclp_into_rtranclp rtranclp.rtrancl_refl)
  then show ?thesis by (intro exI [of _ ?g2]) (simp add: next_iter_def)
qed

lemma ox_posted_reachable: "k < n \<Longrightarrow> \<exists>g. (ox_step n True)\<^sup>*\<^sup>* (ox_init True) g \<and> ox_posted k g"
proof (induction k)
  case 0
  have "free (RT_ONCE_INIT :: bool once)" by (simp add: free_def RT_ONCE_INIT_def)
  then show ?case using reset_iteration [of "ox_init True" 0 n] 0
    by (auto simp: ox_init_def ox_x_def) (auto simp: RT_ONCE_INIT_def)
next
  case (Suc k)
  then obtain g where g: "(ox_step n True)\<^sup>*\<^sup>* (ox_init True) g" "ox_posted k g" by auto
  then obtain h where h: "(ox_step n True)\<^sup>*\<^sup>* g h" "thr h True = Run Rs_head" "thr h False = thr g False"
      "once (dat h) = once (dat g)" "iter (dat h) = (iter (dat g))(True := iter (dat g) True + 1)"
    using reset_goes_on [of g n] by (auto simp: ox_posted_def)
  obtain g' where "(ox_step n True)\<^sup>*\<^sup>* h g'" "ox_posted (Suc k) g'"
    using reset_iteration [of h "Suc k" n] h g(2) Suc.prems by (auto simp: ox_posted_def ox_x_def)
  then show ?case using g(1) h(1) by (meson rtranclp_trans)
qed

lemma reset_stops:
  assumes g: "thr g True = Run Rs_post" "iter (dat g) True + 1 = n"
  shows "\<exists>g'. (ox_step n True)\<^sup>*\<^sup>* g g' \<and> thr g' True = Run Rs_stop \<and> ox_x g' = ox_x g"
proof -
  obtain h where h: "(ox_step n True)\<^sup>*\<^sup>* g h" "thr h True = Run Rs_head" "once (dat h) = once (dat g)"
    "iter (dat h) = (iter (dat g))(True := iter (dat g) True + 1)" using reset_goes_on [OF g(1), of n] by auto
  let ?g = "th_data True id Rs_stop h"
  have "ox_step n True h ?g" using ox_reset [OF rs_head [OF h(2)], of n] h(4) g(2) by simp
  then have "(ox_step n True)\<^sup>*\<^sup>* g ?g" using h(1) by (rule rtranclp.rtrancl_into_rtrancl [rotated])
  then show ?thesis using h(3) by (intro exI [of _ ?g]) (simp add: ox_x_def)
qed

text \<open>
  The check of \<^verbatim>\<open>main\<close> in \<^verbatim>\<open>examples/once.c\<close>: with any number of other tasks and in any interleaving, the function has
  run \<open>n\<close> or \<open>n + 1\<close> times when the scheduler is stopped after \<open>n\<close> resets, and no other number; but already
  with one other task, and for every number of iterations, both do happen. The other task may call the
  function again between the last reset and \<^verbatim>\<open>rt_stop\<close>, and then \<^verbatim>\<open>main\<close> fails.
\<close>

theorem once_example_may_fail:
  assumes "0 < n"
  shows "(\<forall>(z :: 'i::finite) g. (ox_step n z)\<^sup>*\<^sup>* (ox_init z) g \<and> thr g z = Run Rs_stop \<longrightarrow> ox_x g \<in> {n, n + 1}) \<and>
    (\<forall>r \<in> {0, 1}. \<exists>g. (ox_step n True)\<^sup>*\<^sup>* (ox_init True) g \<and> thr g True = Run Rs_stop \<and> ox_main n g = r)"
proof -
  obtain k where n: "n = Suc k" using assms by (cases n) auto
  obtain g where g: "(ox_step n True)\<^sup>*\<^sup>* (ox_init True) g" "ox_posted k g" using ox_posted_reachable [of k n] n by auto
  note p = g(2) [unfolded ox_posted_def]
  obtain e where e: "(ox_step n True)\<^sup>*\<^sup>* g e" "thr e True = Run Rs_stop" "ox_x e = ox_x g"
    using reset_stops [of g n] p n by auto
  have ok: "\<exists>g. (ox_step n True)\<^sup>*\<^sup>* (ox_init True) g \<and> thr g True = Run Rs_stop \<and> ox_main n g = 0"
    using g(1) e p n by (intro exI [of _ e]) (auto simp: ox_main_def intro: rtranclp_trans)
  let ?h = "th_data False id Ox_once g"
  obtain c where c: "(rt_once_call False)\<^sup>*\<^sup>* (once (dat g)) c" "finished (dat c) = finished (dat (once (dat g))) + 1"
    using call_runs [of "once (dat g)" False] p by blast
  let ?f = "?h\<lparr>dat := (dat ?h)\<lparr>once := c\<rparr>\<rparr>"
  have "ox_step n True g ?h" using ox_oncer [where i = False and z = True and g = g and n = n, OF _ ox_head] p n by simp
  moreover have "(ox_step n True)\<^sup>*\<^sup>* ?h ?f" by (rule calls_lift [OF c(1)]) simp_all
  moreover obtain e' where "(ox_step n True)\<^sup>*\<^sup>* ?f e'" "thr e' True = Run Rs_stop" "ox_x e' = ox_x ?f"
    using reset_stops [of ?f n] p n by auto
  moreover have "ox_x ?f = n + 1" using c(2) p n by (simp add: ox_x_def)
  ultimately have "\<exists>g. (ox_step n True)\<^sup>*\<^sup>* (ox_init True) g \<and> thr g True = Run Rs_stop \<and> ox_main n g = 1"
    using g(1) by (intro exI [of _ e']) (auto simp: ox_main_def intro: rtranclp_trans converse_rtranclp_into_rtranclp)
  then show ?thesis using ok ox_count by auto
qed

theorem once_example_may_fail_witness:
  "\<exists>g. (ox_step 10000 True)\<^sup>*\<^sup>* (ox_init True) g \<and> thr g True = Run Rs_stop \<and> ox_main 10000 g = 1"
  using once_example_may_fail [of 10000] by auto

end
