(* ===== verification/Ex_Rwlock.thy ===== *)
theory Ex_Rwlock
  imports Rt_Rwlock
begin

text \<open>
  The program \<^verbatim>\<open>examples/rwlock.c\<close>: tasks read two variables under a readers-writer lock, others
  increment both. The state of the lock with its threads is that of \<open>Rt_Rwlock\<close>; beside it each task
  has a point in its own function and the two values it has loaded. The scheduler may be stopped
  at any time.
\<close>

section \<open>The program\<close>

datatype rx_pc =
    Rx_rlock | Rx_x | Rx_y | Rx_runlock | Rx_test
  | Wx_wlock | Wx_x_load | Wx_x_store | Wx_y_load | Wx_y_store | Wx_wunlock | Wx_sleep

record 'i rx =
  lock :: "'i rw"
  var_x :: ulong
  var_y :: ulong
  rx :: "'i \<Rightarrow> ulong"
  ry :: "'i \<Rightarrow> ulong"
  at :: "'i \<Rightarrow> rx_pc"
  mismatch :: bool

definition rx_goto :: "'i \<Rightarrow> rx_pc \<Rightarrow> 'i rx \<Rightarrow> 'i rx" where
  "rx_goto i p s = s\<lparr>at := (at s)(i := p)\<rparr>"

text \<open>A call of a function of the lock: the calling step, its steps, and its return.\<close>

inductive rx_reader :: "'i \<Rightarrow> 'i rx \<Rightarrow> 'i rx \<Rightarrow> bool" for i where
  rx_rlock: "at s i = Rx_rlock \<Longrightarrow> thr (lock s) i = Run Rw_idle \<Longrightarrow> rx_reader i s (s\<lparr>lock := th_data i id Rl_lock (lock s)\<rparr>)"
| rx_rlock_fn: "at s i = Rx_rlock \<Longrightarrow> rt_rwlock_rlock i (lock s) l \<Longrightarrow> rx_reader i s (s\<lparr>lock := l\<rparr>)"
| rx_rlock_ret: "at s i = Rx_rlock \<Longrightarrow> thr (lock s) i = Run Reading \<Longrightarrow> rx_reader i s (rx_goto i Rx_x s)"
| rx_load_x: "at s i = Rx_x \<Longrightarrow> rx_reader i s (rx_goto i Rx_y (s\<lparr>rx := (rx s)(i := var_x s)\<rparr>))"
| rx_load_y: "at s i = Rx_y \<Longrightarrow> rx_reader i s (rx_goto i Rx_runlock (s\<lparr>ry := (ry s)(i := var_y s)\<rparr>))"
| rx_runlock: "at s i = Rx_runlock \<Longrightarrow> thr (lock s) i = Run Reading \<Longrightarrow>
    rx_reader i s (s\<lparr>lock := th_data i id Ru_lock (lock s)\<rparr>)"
| rx_runlock_fn: "at s i = Rx_runlock \<Longrightarrow> rt_rwlock_runlock i (lock s) l \<Longrightarrow> rx_reader i s (s\<lparr>lock := l\<rparr>)"
| rx_runlock_ret: "at s i = Rx_runlock \<Longrightarrow> thr (lock s) i = Run Rw_idle \<Longrightarrow> rx_reader i s (rx_goto i Rx_test s)"
| rx_test: "at s i = Rx_test \<Longrightarrow>
    rx_reader i s (rx_goto i Rx_rlock (if rx s i \<noteq> ry s i then s\<lparr>mismatch := True\<rparr> else s))"

inductive rx_writer :: "'i \<Rightarrow> 'i rx \<Rightarrow> 'i rx \<Rightarrow> bool" for i where
  wx_wlock: "at s i = Wx_wlock \<Longrightarrow> thr (lock s) i = Run Rw_idle \<Longrightarrow> rx_writer i s (s\<lparr>lock := th_data i id Wl_lock (lock s)\<rparr>)"
| wx_wlock_fn: "at s i = Wx_wlock \<Longrightarrow> rt_rwlock_wlock i (lock s) l \<Longrightarrow> rx_writer i s (s\<lparr>lock := l\<rparr>)"
| wx_wlock_ret: "at s i = Wx_wlock \<Longrightarrow> thr (lock s) i = Run Writing \<Longrightarrow> rx_writer i s (rx_goto i Wx_x_load s)"
| wx_x_load: "at s i = Wx_x_load \<Longrightarrow> rx_writer i s (rx_goto i Wx_x_store (s\<lparr>rx := (rx s)(i := var_x s)\<rparr>))"
| wx_x_store: "at s i = Wx_x_store \<Longrightarrow> rx_writer i s (rx_goto i Wx_y_load (s\<lparr>var_x := rx s i + 1\<rparr>))"
| wx_y_load: "at s i = Wx_y_load \<Longrightarrow> rx_writer i s (rx_goto i Wx_y_store (s\<lparr>ry := (ry s)(i := var_y s)\<rparr>))"
| wx_y_store: "at s i = Wx_y_store \<Longrightarrow> rx_writer i s (rx_goto i Wx_wunlock (s\<lparr>var_y := ry s i + 1\<rparr>))"
| wx_wunlock: "at s i = Wx_wunlock \<Longrightarrow> thr (lock s) i = Run Writing \<Longrightarrow>
    rx_writer i s (s\<lparr>lock := th_data i id Wu_dec (lock s)\<rparr>)"
| wx_wunlock_fn: "at s i = Wx_wunlock \<Longrightarrow> rt_rwlock_wunlock i (lock s) l \<Longrightarrow> rx_writer i s (s\<lparr>lock := l\<rparr>)"
| wx_wunlock_ret: "at s i = Wx_wunlock \<Longrightarrow> thr (lock s) i = Run Rw_idle \<Longrightarrow> rx_writer i s (rx_goto i Wx_sleep s)"
| wx_sleep: "at s i = Wx_sleep \<Longrightarrow> rx_writer i s (rx_goto i Wx_wlock s)"

text \<open>The tasks in \<open>writers\<close> run \<^verbatim>\<open>writer\<close>, the others \<^verbatim>\<open>reader\<close>.\<close>

inductive rx_step :: "'i set \<Rightarrow> ('i::finite) rx \<Rightarrow> 'i rx \<Rightarrow> bool" for writers where
  rx_reads: "i \<notin> writers \<Longrightarrow> rx_reader i s s' \<Longrightarrow> rx_step writers s s'"
| rx_writes: "i \<in> writers \<Longrightarrow> rx_writer i s s' \<Longrightarrow> rx_step writers s s'"
| rx_wakes: "th_wake (lock s) l \<Longrightarrow> rx_step writers s (s\<lparr>lock := l\<rparr>)"

definition rx_init :: "'i set \<Rightarrow> 'i rx" where
  "rx_init writers = \<lparr>lock = rt_rwlock_init, var_x = 0, var_y = 0, rx = (\<lambda>_. 0), ry = (\<lambda>_. 0),
     at = (\<lambda>i. if i \<in> writers then Wx_wlock else Rx_rlock), mismatch = False\<rparr>"

lemma rx_goto_sel [simp]:
  "lock (rx_goto i p s) = lock s" "var_x (rx_goto i p s) = var_x s" "var_y (rx_goto i p s) = var_y s"
  "rx (rx_goto i p s) = rx s" "ry (rx_goto i p s) = ry s" "at (rx_goto i p s) = (at s)(i := p)"
  "mismatch (rx_goto i p s) = mismatch s"
  by (simp_all add: rx_goto_def)

section \<open>The invariant\<close>

text \<open>Where the lock is while a task is in its critical section, and what the task has loaded.\<close>

fun rx_at :: "ulong \<Rightarrow> ulong \<Rightarrow> (rw_sem, rw_pc) thread \<Rightarrow> ulong \<Rightarrow> ulong \<Rightarrow> rx_pc \<Rightarrow> bool" where
  "rx_at x y t a b Rx_x = (t = Run Reading)"
| "rx_at x y t a b Rx_y = (t = Run Reading \<and> a = x)"
| "rx_at x y t a b Rx_runlock = (a = b)"
| "rx_at x y t a b Rx_test = (a = b)"
| "rx_at x y t a b Wx_x_load = (t = Run Writing)"
| "rx_at x y t a b Wx_x_store = (t = Run Writing \<and> a = x)"
| "rx_at x y t a b Wx_y_load = (t = Run Writing)"
| "rx_at x y t a b Wx_y_store = (t = Run Writing \<and> b = y)"
| "rx_at x y t a b _ = True"

text \<open>The variables differ only while a writer has incremented one of them.\<close>

definition rx_inv :: "('i::finite) rx \<Rightarrow> bool" where
  "rx_inv s \<longleftrightarrow> rw_step\<^sup>*\<^sup>* rt_rwlock_init (lock s) \<and>
     (\<forall>u. rx_at (var_x s) (var_y s) (thr (lock s) u) (rx s u) (ry s u) (at s u)) \<and>
     var_x s = var_y s + of_bool (\<exists>u. at s u \<in> {Wx_y_load, Wx_y_store}) \<and> \<not> mismatch s"

lemma rx_invD:
  assumes "rx_inv s"
  shows "rw_step\<^sup>*\<^sup>* rt_rwlock_init (lock s)"
    "rx_at (var_x s) (var_y s) (thr (lock s) u) (rx s u) (ry s u) (at s u)"
    "var_x s = var_y s + of_bool (\<exists>u. at s u \<in> {Wx_y_load, Wx_y_store})" "\<not> mismatch s"
  using assms unfolding rx_inv_def by blast+

lemma rx_init_inv: "rx_inv (rx_init writers)"
  by (auto simp: rx_inv_def rx_init_def)

text \<open>Steps of the lock move the thread that takes them, or one that waits.\<close>

lemma rw_moves:
  "rt_rwlock_rlock i g g' \<Longrightarrow> thr g i \<noteq> Run Reading \<and> thr g i \<noteq> Run Writing \<and> (\<forall>u. u \<noteq> i \<longrightarrow> thr g' u = thr g u)"
  "rt_rwlock_runlock i g g' \<Longrightarrow> thr g i \<noteq> Run Reading \<and> thr g i \<noteq> Run Writing \<and> (\<forall>u. u \<noteq> i \<longrightarrow> thr g' u = thr g u)"
  "rt_rwlock_wlock i g g' \<Longrightarrow> thr g i \<noteq> Run Reading \<and> thr g i \<noteq> Run Writing \<and> (\<forall>u. u \<noteq> i \<longrightarrow> thr g' u = thr g u)"
  "rt_rwlock_wunlock i g g' \<Longrightarrow> thr g i \<noteq> Run Reading \<and> thr g i \<noteq> Run Writing \<and> (\<forall>u. u \<noteq> i \<longrightarrow> thr g' u = thr g u)"
  by (auto elim!: rt_rwlock_rlock.cases rt_rwlock_runlock.cases rt_rwlock_wlock.cases rt_rwlock_wunlock.cases th_cond_waitE)

lemma rx_at_waiting:
  "rx_at x y t a b p \<Longrightarrow> t \<noteq> Run Reading \<Longrightarrow> t \<noteq> Run Writing \<Longrightarrow> rx_at x y t' a b p"
  by (cases "(x, y, t, a, b, p)" rule: rx_at.cases) simp_all

lemma rx_lock_inv:
  assumes s: "rx_inv s" and l: "rw_step (lock s) l"
    and u: "\<And>u. thr l u = thr (lock s) u \<or> (thr (lock s) u \<noteq> Run Reading \<and> thr (lock s) u \<noteq> Run Writing) \<or>
      at s u \<in> {Rx_runlock, Wx_wunlock}"
  shows "rx_inv (s\<lparr>lock := l\<rparr>)"
proof -
  note d = rx_invD [OF s]
  have "rx_at (var_x s) (var_y s) (thr l v) (rx s v) (ry s v) (at s v)" for v
    using d(2) [of v] u [of v] rx_at_waiting by auto
  then show ?thesis using d rtranclp.rtrancl_into_rtrancl [OF d(1) l] by (simp add: rx_inv_def)
qed

lemma rx_read_inv:
  assumes s: "rx_inv s" and t: "lock t = lock s" "var_x t = var_x s" "var_y t = var_y s" "at t = (at s)(i := p)"
      "\<And>u. u \<noteq> i \<Longrightarrow> rx t u = rx s u \<and> ry t u = ry s u" "\<not> mismatch t"
    and p: "at s i \<notin> {Wx_y_load, Wx_y_store}" "p \<notin> {Wx_y_load, Wx_y_store}"
      "rx_at (var_x s) (var_y s) (thr (lock s) i) (rx t i) (ry t i) p"
  shows "rx_inv t"
proof -
  note d = rx_invD [OF s]
  have "rx_at (var_x t) (var_y t) (thr (lock t) u) (rx t u) (ry t u) (at t u)" for u
    using d(2) [of u] t p(3) by (cases "u = i") simp_all
  moreover have "(\<exists>u. at t u \<in> {Wx_y_load, Wx_y_store}) = (\<exists>u. at s u \<in> {Wx_y_load, Wx_y_store})"
    unfolding t(4) using p(1,2) by (metis fun_upd_apply)
  ultimately show ?thesis using d(1,3) t unfolding rx_inv_def by simp
qed

definition rx_critical :: "rx_pc list" where
  "rx_critical = [Rx_x, Rx_y, Wx_x_load, Wx_x_store, Wx_y_load, Wx_y_store]"

lemma rx_at_outside: "p \<notin> set rx_critical \<Longrightarrow> rx_at x y t a b p \<Longrightarrow> rx_at x' y' t' a b p"
  by (cases p) (simp_all add: rx_critical_def)

lemma rx_writer_alone:
  fixes s :: "('i::finite) rx"
  assumes s: "rx_inv s" and c: "int CARD('i) < INT_MAX" and i: "thr (lock s) i = Run Writing" and u: "u \<noteq> i"
  shows "at s u \<notin> set rx_critical"
proof
  assume "at s u \<in> set rx_critical"
  then have "thr (lock s) u \<in> {Run Reading, Run Writing}"
    using rx_invD(2) [OF s, of u] by (auto simp: rx_critical_def)
  then show False
    using rw_inv_alone [OF rw_reachable_inv [OF rx_invD(1) [OF s] c] i, of u] u by auto
qed

lemma rx_write_inv:
  fixes s :: "('i::finite) rx"
  assumes s: "rx_inv s" and c: "int CARD('i) < INT_MAX" and i: "thr (lock s) i = Run Writing"
    and t: "lock t = lock s" "at t = (at s)(i := p)" "\<And>u. u \<noteq> i \<Longrightarrow> rx t u = rx s u \<and> ry t u = ry s u" "\<not> mismatch t"
    and p: "rx_at (var_x t) (var_y t) (Run Writing) (rx t i) (ry t i) p"
      "var_x t = var_y t + of_bool (p \<in> {Wx_y_load, Wx_y_store})"
  shows "rx_inv t"
proof -
  note d = rx_invD [OF s] and a = rx_writer_alone [OF s c i]
  have "rx_at (var_x t) (var_y t) (thr (lock t) u) (rx t u) (ry t u) (at t u)" for u
    using rx_at_outside [OF a d(2), of u] t p(1) i by (cases "u = i") simp_all
  moreover have "(\<exists>u. at t u \<in> {Wx_y_load, Wx_y_store}) = (p \<in> {Wx_y_load, Wx_y_store})"
    using a unfolding t(2) rx_critical_def by (auto split: if_splits)
  ultimately show ?thesis using d(1) t(1,4) p(2) unfolding rx_inv_def by simp
qed

text \<open>A reader in its critical section finds the variables equal.\<close>

lemma rx_equal:
  fixes s :: "('i::finite) rx"
  assumes s: "rx_inv s" and c: "int CARD('i) < INT_MAX" and i: "thr (lock s) i = Run Reading"
  shows "var_x s = var_y s"
proof -
  have "at s u \<notin> {Wx_y_load, Wx_y_store}" for u
  proof
    assume "at s u \<in> {Wx_y_load, Wx_y_store}"
    then have "thr (lock s) u = Run Writing" using rx_invD(2) [OF s, of u] by auto
    then show False using rw_inv_alone(1) [OF rw_reachable_inv [OF rx_invD(1) [OF s] c], of u i] i by simp
  qed
  then show ?thesis using rx_invD(3) [OF s] by simp
qed

lemma rx_reader_inv:
  fixes s :: "('i::finite) rx"
  assumes "rx_reader i s s'" and s: "rx_inv s" and c: "int CARD('i) < INT_MAX"
  shows "rx_inv s'"
  using assms(1)
proof cases
  case rx_rlock
  then show ?thesis using rx_lock_inv [OF s rw_use [OF want_read]] by auto
next
  case (rx_rlock_fn l)
  then show ?thesis using rx_lock_inv [OF s rw_rlock] rw_moves(1) by metis
next
  case rx_rlock_ret
  then show ?thesis using rx_invD(4) [OF s] by (intro rx_read_inv [OF s, of _ i Rx_x]) auto
next
  case rx_load_x
  then show ?thesis using rx_invD(4) [OF s] rx_invD(2) [OF s, of i] by (intro rx_read_inv [OF s, of _ i Rx_y]) auto
next
  case rx_load_y
  then have "thr (lock s) i = Run Reading" "rx s i = var_x s" using rx_invD(2) [OF s, of i] by simp_all
  then show ?thesis using rx_load_y rx_invD(4) [OF s] rx_equal [OF s c] by (intro rx_read_inv [OF s, of _ i Rx_runlock]) auto
next
  case rx_runlock
  then show ?thesis using rx_lock_inv [OF s rw_use [OF end_read]] by auto
next
  case (rx_runlock_fn l)
  then show ?thesis using rx_lock_inv [OF s rw_runlock] rw_moves(2) by metis
next
  case rx_runlock_ret
  then show ?thesis using rx_invD(4) [OF s] rx_invD(2) [OF s, of i] by (intro rx_read_inv [OF s, of _ i Rx_test]) auto
next
  case rx_test
  then show ?thesis using rx_invD(4) [OF s] rx_invD(2) [OF s, of i] by (intro rx_read_inv [OF s, of _ i Rx_rlock]) auto
qed

lemma rx_writer_inv:
  fixes s :: "('i::finite) rx"
  assumes "rx_writer i s s'" and s: "rx_inv s" and c: "int CARD('i) < INT_MAX"
  shows "rx_inv s'"
  using assms(1)
proof cases
  case wx_wlock
  then show ?thesis using rx_lock_inv [OF s rw_use [OF want_write]] by auto
next
  case (wx_wlock_fn l)
  then show ?thesis using rx_lock_inv [OF s rw_wlock] rw_moves(3) by metis
next
  case wx_wlock_ret
  then show ?thesis using rx_invD(4) [OF s] by (intro rx_read_inv [OF s, of _ i Wx_x_load]) auto
next
  case wx_x_load
  then show ?thesis using rx_invD(4) [OF s] rx_invD(2) [OF s, of i] by (intro rx_read_inv [OF s, of _ i Wx_x_store]) auto
next
  case wx_x_store
  then have w: "thr (lock s) i = Run Writing" "rx s i = var_x s" using rx_invD(2) [OF s, of i] by simp_all
  have "at s u \<notin> {Wx_y_load, Wx_y_store}" for u
    using rx_writer_alone [OF s c w(1), of u] wx_x_store(2) by (cases "u = i") (auto simp: rx_critical_def)
  then have "var_x s = var_y s" using rx_invD(3) [OF s] by simp
  then show ?thesis using wx_x_store w rx_invD(4) [OF s] by (intro rx_write_inv [OF s c w(1), of _ Wx_y_load]) auto
next
  case wx_y_load
  then have w: "thr (lock s) i = Run Writing" using rx_invD(2) [OF s, of i] by simp
  have "\<exists>u. at s u \<in> {Wx_y_load, Wx_y_store}" using wx_y_load(2) by blast
  then have "var_x s = var_y s + 1" using rx_invD(3) [OF s] by simp
  then show ?thesis using wx_y_load rx_invD(4) [OF s] by (intro rx_write_inv [OF s c w, of _ Wx_y_store]) auto
next
  case wx_y_store
  then have w: "thr (lock s) i = Run Writing" "ry s i = var_y s" using rx_invD(2) [OF s, of i] by simp_all
  have "\<exists>u. at s u \<in> {Wx_y_load, Wx_y_store}" using wx_y_store(2) by blast
  then have "var_x s = var_y s + 1" using rx_invD(3) [OF s] by simp
  then show ?thesis using wx_y_store w rx_invD(4) [OF s] by (intro rx_write_inv [OF s c w(1), of _ Wx_wunlock]) auto
next
  case wx_wunlock
  then show ?thesis using rx_lock_inv [OF s rw_use [OF end_write]] by auto
next
  case (wx_wunlock_fn l)
  then show ?thesis using rx_lock_inv [OF s rw_wunlock] rw_moves(4) by metis
next
  case wx_wunlock_ret
  then show ?thesis using rx_invD(4) [OF s] by (intro rx_read_inv [OF s, of _ i Wx_sleep]) auto
next
  case wx_sleep
  then show ?thesis using rx_invD(4) [OF s] by (intro rx_read_inv [OF s, of _ i Wx_wlock]) auto
qed

lemma rx_wake_inv:
  assumes l: "th_wake (lock s) l" and s: "rx_inv s"
  shows "rx_inv (s\<lparr>lock := l\<rparr>)"
proof (rule rx_lock_inv [OF s rw_wake [OF l]])
  fix u
  from l show "thr l u = thr (lock s) u \<or> (thr (lock s) u \<noteq> Run Reading \<and> thr (lock s) u \<noteq> Run Writing) \<or>
      at s u \<in> {Rx_runlock, Wx_wunlock}"
    by cases (cases "u = ua"; simp)
qed

lemma rx_reachable_inv:
  fixes s :: "('i::finite) rx"
  assumes "(rx_step writers)\<^sup>*\<^sup>* (rx_init writers) s" and c: "int CARD('i) < INT_MAX"
  shows "rx_inv s"
  using assms(1)
proof (induction rule: rtranclp_induct)
  case base
  show ?case by (rule rx_init_inv)
next
  case (step s s')
  from step(2) show ?case
    by cases (use step(3) c rx_reader_inv rx_writer_inv rx_wake_inv in blast)+
qed

section \<open>Readers see both increments or neither\<close>

text \<open>
  C18. In the program \<^verbatim>\<open>examples/rwlock.c\<close>, with any numbers of readers and writers and in any
  interleaving of their steps and those of the lock, the two variables are equal whenever a task
  has the lock for reading, and no reader ever finds a mismatch, so that \<^verbatim>\<open>main\<close> succeeds.
\<close>

theorem readers_see_no_mismatch:
  fixes s :: "('i::finite) rx"
  assumes "(rx_step writers)\<^sup>*\<^sup>* (rx_init writers) s" and "int CARD('i) < INT_MAX"
  shows "\<not> mismatch s \<and> (\<forall>i. thr (lock s) i = Run Reading \<longrightarrow> var_x s = var_y s)"
proof -
  have "rx_inv s" using assms by (rule rx_reachable_inv)
  then show ?thesis using rx_invD(4) rx_equal [OF _ assms(2)] by blast
qed

theorem readers_see_no_mismatch_witness:
  "\<exists>s :: bool rx. (rx_step {True})\<^sup>*\<^sup>* (rx_init {True}) s \<and> var_x s \<noteq> var_y s \<and> \<not> mismatch s \<and>
     thr (lock s) False \<noteq> Run Reading"
proof -
  let ?s0 = "rx_init {True} :: bool rx"
  let ?s1 = "?s0\<lparr>lock := th_data True id Wl_lock (lock ?s0)\<rparr>"
  let ?s2 = "?s1\<lparr>lock := th_wait True Rw_m Wl_inc (lock ?s1)\<rparr>"
  let ?s3 = "?s2\<lparr>lock := th_data True (\<lambda>d. d\<lparr>num_writers := num_writers d + 1\<rparr>) Wl_check (lock ?s2)\<rparr>"
  let ?s4 = "?s3\<lparr>lock := th_data True id Writing (lock ?s3)\<rparr>"
  let ?s5 = "rx_goto True Wx_x_load ?s4"
  let ?s6 = "rx_goto True Wx_x_store (?s5\<lparr>rx := (rx ?s5)(True := var_x ?s5)\<rparr>)"
  let ?s7 = "rx_goto True Wx_y_load (?s6\<lparr>var_x := rx ?s6 True + 1\<rparr>)"
  have i: "thr (lock ?s0) True = Run Rw_idle" "val (lock ?s0) Rw_m = 1" "num_readers (dat (lock ?s0)) = 0"
    "at ?s0 True = Wx_wlock" "var_x ?s0 = 0" "var_y ?s0 = 0"
    by (simp_all add: rx_init_def rt_rwlock_init_def)
  have 1: "rx_step {True} ?s0 ?s1" by (rule rx_writes [OF _ wx_wlock]) (simp_all add: i)
  have 2: "rx_step {True} ?s1 ?s2" by (rule rx_writes [OF _ wx_wlock_fn [OF _ wlock_lock]]) (simp_all add: i)
  have 3: "rx_step {True} ?s2 ?s3" by (rule rx_writes [OF _ wx_wlock_fn [OF _ wlock_inc]]) (simp_all add: i)
  have 4: "rx_step {True} ?s3 ?s4"
    using rx_writes [OF _ wx_wlock_fn [OF _ wlock_check], of True "{True}" ?s3] by (simp add: i)
  have 5: "rx_step {True} ?s4 ?s5" by (rule rx_writes [OF _ wx_wlock_ret]) (simp_all add: i)
  have 6: "rx_step {True} ?s5 ?s6" by (rule rx_writes [OF _ wx_x_load]) simp_all
  have 7: "rx_step {True} ?s6 ?s7" by (rule rx_writes [OF _ wx_x_store]) simp_all
  have r: "(rx_step {True})\<^sup>*\<^sup>* ?s0 ?s7"
    using 1 2 3 4 5 6 7 by (meson converse_rtranclp_into_rtranclp rtranclp.rtrancl_refl)
  have n: "var_x ?s7 \<noteq> var_y ?s7" by (simp add: i)
  have "int CARD(bool) < INT_MAX" by simp
  from readers_see_no_mismatch [OF r this] n have "\<not> mismatch ?s7" "thr (lock ?s7) False \<noteq> Run Reading" by blast+
  with r n show ?thesis by blast
qed

end
