(* ===== verification/Rt_Units.thy ===== *)
theory Rt_Units
  imports Rt_Threads
begin

text \<open>
  What a program that waits on and posts a semaphore \<open>m\<close> may rely on: no more waits return than units
  were there at first and were posted. \<open>W\<close> says which threads the semaphore counts as waiting, those in
  its wait list and those between their decrement and the wait list; \<open>n\<close> is the number of units
  posted less the number of waits that have returned. A condition variable is such a semaphore
  whose maximum is 0.
\<close>

definition units_inv :: "(('m, 'p) thread \<Rightarrow> bool) \<Rightarrow> 'm \<Rightarrow> int \<Rightarrow> ('i::finite, 'm, 'p, 'd) threads \<Rightarrow> bool" where
  "units_inv W m n g \<longleftrightarrow> 0 \<le> maxv g m \<and> val g m + cnt W (thr g) \<le> n \<and> - val g m \<le> cnt W (thr g)"

lemma units_nonneg: "units_inv W m n g \<Longrightarrow> 0 \<le> n"
  by (simp add: units_inv_def)

locale units_user =
  fixes m :: 'm and W :: "('m, 'p) thread \<Rightarrow> bool"
  assumes waiting: "W (Waiting k p) \<longleftrightarrow> k = m"
begin

lemma keep_units:
  assumes "units_inv W m n g" and "thr g' = (thr g)(i := t)" "val g' m = val g m" "maxv g' m = maxv g m"
    and "W t \<longleftrightarrow> W (thr g i)"
  shows "units_inv W m n g'"
  using assms by (simp add: units_inv_def cnt_upd)

lemma wait_units:
  assumes "units_inv W m n g" and "\<not> W (thr g i)" "\<not> W (Run p)"
  shows "units_inv W m (n - of_bool (val g m > 0)) (th_wait i m p g)"
  using assms cnt_nonneg [of W "thr g"] by (simp add: units_inv_def cnt_upd waiting)

lemma count_units:
  assumes "units_inv W m n g" and "\<not> W (thr g i)" "W (Run p)"
  shows "units_inv W m n (th_fetch_sub i m p g)"
  using assms by (simp add: units_inv_def cnt_upd)

lemma post_units:
  assumes "units_inv W m n g" and "0 \<le> k" and "\<not> W (thr g i)" "\<not> W (Run p)"
  shows "units_inv W m (n + k) (th_post i m k p g)"
  using assms by (auto simp: units_inv_def cnt_upd new_value_def) (use cnt_nonneg [of W "thr g"] in linarith)+

lemma wake_units:
  assumes g: "units_inv W m n g" and u: "thr g u = Waiting k p" and many: "cnt (is_waiting k) (thr g) > max 0 (- val g k)"
    and p: "\<not> W (Run p)"
  shows "units_inv W m (n - of_bool (k = m)) (th_goto u (Run p) g)"
proof (cases "k = m")
  case True
  have "is_waiting m t \<Longrightarrow> W t" for t by (cases t) (simp_all add: waiting)
  then have "cnt (is_waiting m) (thr g) \<le> cnt W (thr g)" by (rule cnt_mono)
  then show ?thesis using assms True by (simp add: units_inv_def cnt_upd waiting)
next
  case False
  then show ?thesis using keep_units [OF g, of "th_goto u (Run p) g" u "Run p"] u p by (simp add: waiting)
qed

end

end
