(* ===== verification/Ex_Water.thy ===== *)
theory Ex_Water
  imports Rt_Units
begin

text \<open>
  The program \<^verbatim>\<open>examples/water/water.c\<close>: tasks for hydrogen and oxygen atoms form water, with the
  functions \<^verbatim>\<open>hydrogen\<close> and \<^verbatim>\<open>oxygen\<close> of one of the other files of that directory. This theory has
  the common part and the contract of the two functions, the locale \<open>reaction\<close>. The counters are natural numbers whose value modulo \<open>2 ^ 32\<close> is what the code holds.
  The scheduler may be stopped at any time, so what \<^verbatim>\<open>main\<close> finds is any reachable state.
\<close>

section \<open>The program\<close>

datatype atom = Hydrogen | Oxygen

record water =
  water_formed :: nat
  hydrogen_bonded :: nat
  oxygen_bonded :: nat

definition make_water :: "'i \<Rightarrow> 'p \<Rightarrow> ('i, 'm, 'p, 'd water_scheme) threads \<Rightarrow> ('i, 'm, 'p, 'd water_scheme) threads" where
  "make_water i p g = th_data i (\<lambda>d. d\<lparr>water_formed := water_formed d + 1\<rparr>) p g"

text \<open>
  The loops: the steps of the function, which is called at the point \<open>call\<close> and has returned at \<open>ret\<close>,
  and the count.
\<close>

inductive hydrogen_loop ::
  "('i \<Rightarrow> ('i, 'm, 'p, 'd water_scheme) threads \<Rightarrow> ('i, 'm, 'p, 'd water_scheme) threads \<Rightarrow> bool) \<Rightarrow> 'p \<Rightarrow> 'p \<Rightarrow>
   'i \<Rightarrow> ('i, 'm, 'p, 'd water_scheme) threads \<Rightarrow> ('i, 'm, 'p, 'd water_scheme) threads \<Rightarrow> bool"
  for hydrogen call ret i where
  hydrogen_fn: "hydrogen i g g' \<Longrightarrow> hydrogen_loop hydrogen call ret i g g'"
| hydrogen_count: "thr g i = Run ret \<Longrightarrow>
    hydrogen_loop hydrogen call ret i g (th_data i (\<lambda>d. d\<lparr>hydrogen_bonded := hydrogen_bonded d + 1\<rparr>) call g)"

inductive oxygen_loop ::
  "('i \<Rightarrow> ('i, 'm, 'p, 'd water_scheme) threads \<Rightarrow> ('i, 'm, 'p, 'd water_scheme) threads \<Rightarrow> bool) \<Rightarrow> 'p \<Rightarrow> 'p \<Rightarrow>
   'i \<Rightarrow> ('i, 'm, 'p, 'd water_scheme) threads \<Rightarrow> ('i, 'm, 'p, 'd water_scheme) threads \<Rightarrow> bool"
  for oxygen call ret i where
  oxygen_fn: "oxygen i g g' \<Longrightarrow> oxygen_loop oxygen call ret i g g'"
| oxygen_count: "thr g i = Run ret \<Longrightarrow>
    oxygen_loop oxygen call ret i g (th_data i (\<lambda>d. d\<lparr>oxygen_bonded := oxygen_bonded d + 1\<rparr>) call g)"

text \<open>What \<^verbatim>\<open>main\<close> returns once the scheduler has stopped.\<close>

definition water_main :: "'d water_scheme \<Rightarrow> int" where
  "water_main d =
     (let w = word_of_nat (water_formed d) :: u32; h = word_of_nat (hydrogen_bonded d); oo = word_of_nat (oxygen_bonded d);
          o_lo = w - 1; o_hi = w; h_lo = (w - 1) * 2; h_hi = w * 2
      in if oo < o_lo \<or> oo > o_hi \<or> h < h_lo \<or> h > h_hi then 1 else 0)"

section \<open>The contract\<close>

abbreviation atoms_of :: "('i::finite \<Rightarrow> atom) \<Rightarrow> atom \<Rightarrow> nat" where
  "atoms_of atoms a \<equiv> card {u. atoms u = a}"

text \<open>
  Every molecule has two atoms of hydrogen and one of oxygen: no atom is bonded before its
  molecule is formed, and each task lags behind by at most one atom.
\<close>

definition balanced :: "('i::finite \<Rightarrow> atom) \<Rightarrow> 'd water_scheme \<Rightarrow> bool" where
  "balanced atoms d \<longleftrightarrow>
     hydrogen_bonded d \<le> 2 * water_formed d \<and> 2 * water_formed d \<le> hydrogen_bonded d + atoms_of atoms Hydrogen \<and>
     oxygen_bonded d \<le> water_formed d \<and> water_formed d \<le> oxygen_bonded d + atoms_of atoms Oxygen"

lemma cnt_atoms:
  fixes f :: "'i::finite \<Rightarrow> 'a"
  assumes "\<And>u. P (f u) \<Longrightarrow> atoms u = a"
  shows "cnt P f \<le> int (atoms_of atoms a)"
  unfolding cnt_card using assms by (auto intro!: card_mono)

lemma u32_not_less: "b \<le> a \<Longrightarrow> a < 2 ^ 32 \<Longrightarrow> \<not> (word_of_nat a :: u32) < word_of_nat b"
  by (simp add: word_less_nat_alt unat_of_nat)

text \<open>The tasks of the program.\<close>

definition three_atoms :: "bool option \<Rightarrow> atom" where
  "three_atoms u = (case u of None \<Rightarrow> Oxygen | Some _ \<Rightarrow> Hydrogen)"

lemma three_atoms_simps [simp]: "three_atoms None = Oxygen" "three_atoms (Some b) = Hydrogen"
  by (simp_all add: three_atoms_def)

lemma three_atoms_card: "card {u. three_atoms u = Hydrogen} = 2" "card {u. three_atoms u = Oxygen} = 1"
proof -
  have "{u. three_atoms u = Hydrogen} = {Some True, Some False}" "{u. three_atoms u = Oxygen} = {None}"
    by (auto simp: three_atoms_def split: option.splits)
  then show "card {u. three_atoms u = Hydrogen} = 2" "card {u. three_atoms u = Oxygen} = 1" by simp_all
qed

locale reaction =
  fixes atoms :: "'i::finite \<Rightarrow> atom" and step :: "'g \<Rightarrow> 'g \<Rightarrow> bool" and start :: 'g and data :: "'g \<Rightarrow> 'd water_scheme"
  assumes balance: "step\<^sup>*\<^sup>* start g \<Longrightarrow> balanced atoms (data g)"
begin

lemma main_succeeds:
  assumes g: "step\<^sup>*\<^sup>* start g" and n: "atoms_of atoms Hydrogen \<le> 2" "atoms_of atoms Oxygen \<le> 1"
    and w: "1 \<le> water_formed (data g)" "water_formed (data g) < 2 ^ 31"
  shows "water_main (data g) = 0"
proof -
  let ?w = "water_formed (data g)" and ?h = "hydrogen_bonded (data g)" and ?o = "oxygen_bonded (data g)"
  have b: "?h \<le> 2 * ?w" "2 * ?w \<le> ?h + 2" "?o \<le> ?w" "?w \<le> ?o + 1"
    using balance [OF g] n by (simp_all add: balanced_def)
  have W: "(word_of_nat ?w :: u32) - 1 = word_of_nat (?w - 1)" using w(1) by (simp add: of_nat_diff)
  have D: "(word_of_nat k :: u32) * 2 = word_of_nat (2 * k)" for k by simp
  have "\<not> (word_of_nat ?o :: u32) < word_of_nat (?w - 1) \<and> \<not> (word_of_nat ?w :: u32) < word_of_nat ?o \<and>
    \<not> (word_of_nat ?h :: u32) < word_of_nat (2 * (?w - 1)) \<and> \<not> (word_of_nat (2 * ?w) :: u32) < word_of_nat ?h"
    by (intro conjI u32_not_less) (use b w in simp_all)
  then show ?thesis unfolding water_main_def Let_def W D by simp
qed

end

end
