(* ===== verification/Ex_Water_Sem.thy ===== *)
theory Ex_Water_Sem
  imports Ex_Water
begin

text \<open>
  Water with semaphores, \<^verbatim>\<open>examples/water/sem.c\<close>: every second hydrogen atom posts \<^verbatim>\<open>h2ready\<close>, on which
  an oxygen atom waits; it forms the molecule and lets two hydrogen atoms go with \<^verbatim>\<open>hdone\<close>.
\<close>

section \<open>The code\<close>

datatype ws_sem = Ws_h2ready | Ws_hdone

datatype ws_pc =
    Ws_h_add | Ws_h_post | Ws_h_wait | Ws_h_bonded
  | Ws_o_wait | Ws_o_make | Ws_o_post1 | Ws_o_post2 | Ws_o_bonded

record ws_data = water +
  rxn_h :: u32

type_synonym 'i ws = "('i, ws_sem, ws_pc, ws_data) threads"

inductive hydrogen_sem :: "'i \<Rightarrow> 'i ws \<Rightarrow> 'i ws \<Rightarrow> bool" for i where
  hs_add: "thr g i = Run Ws_h_add \<Longrightarrow>
    hydrogen_sem i g (th_data i (\<lambda>d. d\<lparr>rxn_h := rxn_h d + 1\<rparr>) (if rxn_h (dat g) AND 1 = 1 then Ws_h_post else Ws_h_wait) g)"
| hs_post: "thr g i = Run Ws_h_post \<Longrightarrow> hydrogen_sem i g (th_post i Ws_h2ready 1 Ws_h_wait g)"
| hs_wait: "thr g i = Run Ws_h_wait \<Longrightarrow> hydrogen_sem i g (th_wait i Ws_hdone Ws_h_bonded g)"

inductive oxygen_sem :: "'i \<Rightarrow> 'i ws \<Rightarrow> 'i ws \<Rightarrow> bool" for i where
  os_wait: "thr g i = Run Ws_o_wait \<Longrightarrow> oxygen_sem i g (th_wait i Ws_h2ready Ws_o_make g)"
| os_make: "thr g i = Run Ws_o_make \<Longrightarrow> oxygen_sem i g (make_water i Ws_o_post1 g)"
| os_post1: "thr g i = Run Ws_o_post1 \<Longrightarrow> oxygen_sem i g (th_post i Ws_hdone 1 Ws_o_post2 g)"
| os_post2: "thr g i = Run Ws_o_post2 \<Longrightarrow> oxygen_sem i g (th_post i Ws_hdone 1 Ws_o_bonded g)"

inductive ws_step :: "('i::finite \<Rightarrow> atom) \<Rightarrow> 'i ws \<Rightarrow> 'i ws \<Rightarrow> bool" for atoms where
  ws_hydrogen: "atoms i = Hydrogen \<Longrightarrow> hydrogen_loop hydrogen_sem Ws_h_add Ws_h_bonded i g g' \<Longrightarrow> ws_step atoms g g'"
| ws_oxygen: "atoms i = Oxygen \<Longrightarrow> oxygen_loop oxygen_sem Ws_o_wait Ws_o_bonded i g g' \<Longrightarrow> ws_step atoms g g'"
| ws_wake: "th_wake g g' \<Longrightarrow> ws_step atoms g g'"

definition ws_init :: "('i \<Rightarrow> atom) \<Rightarrow> 'i ws" where
  "ws_init atoms = \<lparr>val = (\<lambda>_. 0), maxv = (\<lambda>_. INT_MAX),
     thr = (\<lambda>u. Run (case atoms u of Hydrogen \<Rightarrow> Ws_h_add | Oxygen \<Rightarrow> Ws_o_wait)),
     dat = \<lparr>water_formed = 0, hydrogen_bonded = 0, oxygen_bonded = 0, rxn_h = 0\<rparr>\<rparr>"

section \<open>The invariant\<close>

interpretation ws_h2: units_user Ws_h2ready "is_waiting Ws_h2ready"
  by unfold_locales simp

interpretation ws_hd: units_user Ws_hdone "is_waiting Ws_hdone"
  by unfold_locales simp

fun ws_at :: "atom \<Rightarrow> (ws_sem, ws_pc) thread \<Rightarrow> bool" where
  "ws_at Hydrogen t = (t \<in> set (map Run [Ws_h_add, Ws_h_post, Ws_h_wait, Ws_h_bonded]) \<or> t = Waiting Ws_hdone Ws_h_bonded)"
| "ws_at Oxygen t = (t \<in> set (map Run [Ws_o_wait, Ws_o_make, Ws_o_post1, Ws_o_post2, Ws_o_bonded]) \<or>
     t = Waiting Ws_h2ready Ws_o_make)"

text \<open>
  How often \<^verbatim>\<open>rxn.h\<close> was incremented: once for each atom that is bonded or in the middle of the
  function. The units of the semaphores follow from it and from the molecules formed.
\<close>

definition ws_adds :: "('i::finite) ws \<Rightarrow> int" where
  "ws_adds g = int (hydrogen_bonded (dat g)) +
     cnt (\<lambda>t. t \<in> {Run Ws_h_post, Run Ws_h_wait, Run Ws_h_bonded, Waiting Ws_hdone Ws_h_bonded}) (thr g)"

definition ws_ready :: "('i::finite) ws \<Rightarrow> int" where
  "ws_ready g = ws_adds g div 2 - cnt (\<lambda>t. t = Run Ws_h_post) (thr g) - int (water_formed (dat g)) -
     cnt (\<lambda>t. t = Run Ws_o_make) (thr g)"

definition ws_done :: "('i::finite) ws \<Rightarrow> int" where
  "ws_done g = 2 * int (water_formed (dat g)) - 2 * cnt (\<lambda>t. t = Run Ws_o_post1) (thr g) -
     cnt (\<lambda>t. t = Run Ws_o_post2) (thr g) - int (hydrogen_bonded (dat g)) - cnt (\<lambda>t. t = Run Ws_h_bonded) (thr g)"

definition ws_late :: "('i::finite) ws \<Rightarrow> int" where
  "ws_late g = int (water_formed (dat g)) - int (oxygen_bonded (dat g)) -
     cnt (\<lambda>t. t \<in> {Run Ws_o_post1, Run Ws_o_post2, Run Ws_o_bonded}) (thr g)"

definition ws_inv :: "('i::finite \<Rightarrow> atom) \<Rightarrow> 'i ws \<Rightarrow> bool" where
  "ws_inv atoms g \<longleftrightarrow> (\<forall>u. ws_at (atoms u) (thr g u)) \<and> rxn_h (dat g) = of_int (ws_adds g) \<and> ws_late g = 0 \<and>
     units_inv (is_waiting Ws_h2ready) Ws_h2ready (ws_ready g) g \<and>
     units_inv (is_waiting Ws_hdone) Ws_hdone (ws_done g) g"

lemma ws_invD:
  assumes "ws_inv atoms g"
  shows "ws_at (atoms u) (thr g u)" "rxn_h (dat g) = of_int (ws_adds g)" "ws_late g = 0"
    "units_inv (is_waiting Ws_h2ready) Ws_h2ready (ws_ready g) g"
    "units_inv (is_waiting Ws_hdone) Ws_hdone (ws_done g) g"
  using assms by (simp_all add: ws_inv_def)

lemmas ws_counts = ws_adds_def ws_ready_def ws_done_def ws_late_def

lemma ws_init_inv: "ws_inv atoms (ws_init atoms)"
proof -
  have t: "thr (ws_init atoms) u \<in> {Run Ws_h_add, Run Ws_o_wait}" for u
    by (simp add: ws_init_def split: atom.split)
  have z: "cnt P (thr (ws_init atoms)) = 0" if "\<not> P (Run Ws_h_add)" "\<not> P (Run Ws_o_wait)" for P
    unfolding cnt_0 using that t by (metis empty_iff insert_iff)
  have "ws_at (atoms u) (thr (ws_init atoms) u)" for u by (cases "atoms u") (simp_all add: ws_init_def)
  then show ?thesis by (simp add: ws_inv_def ws_counts units_inv_def z) (simp add: ws_init_def)
qed

text \<open>A thread moves: the others are where they were.\<close>

lemma ws_invI:
  assumes "ws_inv atoms g" and "thr g' = (thr g)(i := t)" and "ws_at (atoms i) t"
    and "rxn_h (dat g') = of_int (ws_adds g')" "ws_late g' = ws_late g"
    and "units_inv (is_waiting Ws_h2ready) Ws_h2ready (ws_ready g') g'"
    and "units_inv (is_waiting Ws_hdone) Ws_hdone (ws_done g') g'"
  shows "ws_inv atoms g'"
  using assms by (simp add: ws_inv_def)

lemma odd_u32: "((of_int a :: u32) AND 1 = 1) \<longleftrightarrow> odd a"
proof -
  have "odd (of_int a :: u32) \<longleftrightarrow> odd a" by (simp add: bit_0 [symmetric] bit_word_of_int_iff)
  then show ?thesis by (simp add: and_one_eq odd_iff_mod_2_eq_one [symmetric])
qed

lemma ws_hydrogen_inv:
  assumes "hydrogen_sem i g g'" and g: "ws_inv atoms g" and i: "atoms i = Hydrogen"
  shows "ws_inv atoms g'"
  using assms(1)
proof cases
  case hs_add
  note d = ws_invD [OF g]
  let ?t = "Run (if odd (ws_adds g) then Ws_h_post else Ws_h_wait)"
  have t: "thr g' = (thr g)(i := ?t)" using d(2) hs_add(1) by (simp add: odd_u32)
  have a: "ws_adds g' = ws_adds g + 1" using hs_add by (simp add: ws_adds_def cnt_upd)
  have "(ws_adds g + 1) div 2 = ws_adds g div 2 + of_bool (odd (ws_adds g))"
    by (cases "even (ws_adds g)") (simp_all add: even_succ_div_two odd_succ_div_two)
  then have c: "ws_ready g' = ws_ready g" "ws_done g' = ws_done g" "ws_late g' = ws_late g"
    unfolding ws_ready_def ws_done_def ws_late_def a using hs_add d(2) by (simp_all add: cnt_upd odd_u32)
  show ?thesis using a c hs_add i d(2) ws_h2.keep_units [OF d(4) t] ws_hd.keep_units [OF d(5) t]
    by (intro ws_invI [OF g t]) simp_all
next
  case hs_post
  note d = ws_invD [OF g]
  have c: "ws_adds g' = ws_adds g" "ws_ready g' = ws_ready g + 1" "ws_done g' = ws_done g" "ws_late g' = ws_late g"
    using hs_post by (simp_all add: ws_counts cnt_upd)
  show ?thesis using c hs_post i d(2) ws_h2.post_units [OF d(4), of 1 i Ws_h_wait] ws_hd.keep_units [OF d(5), of g' i "Run Ws_h_wait"]
    by (intro ws_invI [OF g, of _ i "Run Ws_h_wait"]) simp_all
next
  case hs_wait
  note d = ws_invD [OF g]
  let ?t = "if val g Ws_hdone > 0 then Run Ws_h_bonded else Waiting Ws_hdone Ws_h_bonded"
  have c: "ws_adds g' = ws_adds g" "ws_ready g' = ws_ready g" "ws_done g' = ws_done g - of_bool (val g Ws_hdone > 0)"
    "ws_late g' = ws_late g"
    using hs_wait by (auto simp: ws_counts cnt_upd)
  show ?thesis using c hs_wait i d(2) ws_hd.wait_units [OF d(5), of i Ws_h_bonded] ws_h2.keep_units [OF d(4), of g' i ?t]
    by (intro ws_invI [OF g, of _ i ?t]) simp_all
qed

lemma ws_oxygen_inv:
  assumes "oxygen_sem i g g'" and g: "ws_inv atoms g" and i: "atoms i = Oxygen"
  shows "ws_inv atoms g'"
  using assms(1)
proof cases
  case os_wait
  note d = ws_invD [OF g]
  let ?t = "if val g Ws_h2ready > 0 then Run Ws_o_make else Waiting Ws_h2ready Ws_o_make"
  have c: "ws_adds g' = ws_adds g" "ws_ready g' = ws_ready g - of_bool (val g Ws_h2ready > 0)" "ws_done g' = ws_done g"
    "ws_late g' = ws_late g"
    using os_wait by (auto simp: ws_counts cnt_upd)
  show ?thesis using c os_wait i d(2) ws_h2.wait_units [OF d(4), of i Ws_o_make] ws_hd.keep_units [OF d(5), of g' i ?t]
    by (intro ws_invI [OF g, of _ i ?t]) simp_all
next
  case os_make
  note d = ws_invD [OF g]
  have c: "ws_adds g' = ws_adds g" "ws_ready g' = ws_ready g" "ws_done g' = ws_done g" "ws_late g' = ws_late g"
    using os_make by (simp_all add: ws_counts cnt_upd make_water_def)
  show ?thesis using c os_make i d(2) ws_h2.keep_units [OF d(4), of g' i "Run Ws_o_post1"] ws_hd.keep_units [OF d(5), of g' i "Run Ws_o_post1"]
    by (intro ws_invI [OF g, of _ i "Run Ws_o_post1"]) (simp_all add: make_water_def)
next
  case os_post1
  note d = ws_invD [OF g]
  have c: "ws_adds g' = ws_adds g" "ws_ready g' = ws_ready g" "ws_done g' = ws_done g + 1" "ws_late g' = ws_late g"
    using os_post1 by (simp_all add: ws_counts cnt_upd)
  show ?thesis using c os_post1 i d(2) ws_hd.post_units [OF d(5), of 1 i Ws_o_post2] ws_h2.keep_units [OF d(4), of g' i "Run Ws_o_post2"]
    by (intro ws_invI [OF g, of _ i "Run Ws_o_post2"]) simp_all
next
  case os_post2
  note d = ws_invD [OF g]
  have c: "ws_adds g' = ws_adds g" "ws_ready g' = ws_ready g" "ws_done g' = ws_done g + 1" "ws_late g' = ws_late g"
    using os_post2 by (simp_all add: ws_counts cnt_upd)
  show ?thesis using c os_post2 i d(2) ws_hd.post_units [OF d(5), of 1 i Ws_o_bonded] ws_h2.keep_units [OF d(4), of g' i "Run Ws_o_bonded"]
    by (intro ws_invI [OF g, of _ i "Run Ws_o_bonded"]) simp_all
qed

lemma ws_count_inv:
  assumes g: "ws_inv atoms g"
  shows "thr g i = Run Ws_h_bonded \<Longrightarrow> atoms i = Hydrogen \<Longrightarrow>
      ws_inv atoms (th_data i (\<lambda>d. d\<lparr>hydrogen_bonded := hydrogen_bonded d + 1\<rparr>) Ws_h_add g)" (is "_ \<Longrightarrow> _ \<Longrightarrow> ws_inv atoms ?h")
    and "thr g i = Run Ws_o_bonded \<Longrightarrow> atoms i = Oxygen \<Longrightarrow>
      ws_inv atoms (th_data i (\<lambda>d. d\<lparr>oxygen_bonded := oxygen_bonded d + 1\<rparr>) Ws_o_wait g)" (is "_ \<Longrightarrow> _ \<Longrightarrow> ws_inv atoms ?o")
proof -
  note d = ws_invD [OF g]
  show "ws_inv atoms ?h" if i: "thr g i = Run Ws_h_bonded" "atoms i = Hydrogen"
  proof -
    have c: "ws_adds ?h = ws_adds g" "ws_ready ?h = ws_ready g" "ws_done ?h = ws_done g" "ws_late ?h = ws_late g"
      using i by (simp_all add: ws_counts cnt_upd)
    show ?thesis using c i d(2) ws_h2.keep_units [OF d(4), of ?h i "Run Ws_h_add"] ws_hd.keep_units [OF d(5), of ?h i "Run Ws_h_add"]
      by (intro ws_invI [OF g, of _ i "Run Ws_h_add"]) simp_all
  qed
  show "ws_inv atoms ?o" if i: "thr g i = Run Ws_o_bonded" "atoms i = Oxygen"
  proof -
    have c: "ws_adds ?o = ws_adds g" "ws_ready ?o = ws_ready g" "ws_done ?o = ws_done g" "ws_late ?o = ws_late g"
      using i by (simp_all add: ws_counts cnt_upd)
    show ?thesis using c i d(2) ws_h2.keep_units [OF d(4), of ?o i "Run Ws_o_wait"] ws_hd.keep_units [OF d(5), of ?o i "Run Ws_o_wait"]
      by (intro ws_invI [OF g, of _ i "Run Ws_o_wait"]) simp_all
  qed
qed

lemma ws_wake_inv:
  assumes "th_wake g g'" and g: "ws_inv atoms g"
  shows "ws_inv atoms g'"
  using assms(1)
proof cases
  case (1 u m p)
  note d = ws_invD [OF g]
  have t: "m = Ws_hdone \<and> p = Ws_h_bonded \<and> atoms u = Hydrogen \<or> m = Ws_h2ready \<and> p = Ws_o_make \<and> atoms u = Oxygen"
    using d(1) [of u] 1(2) by (cases "atoms u") auto
  then have c: "ws_adds g' = ws_adds g" "ws_late g' = ws_late g" "ws_ready g' = ws_ready g - of_bool (m = Ws_h2ready)"
    "ws_done g' = ws_done g - of_bool (m = Ws_hdone)"
    using 1(1,2) by (auto simp: ws_counts cnt_upd)
  show ?thesis using c 1(1) t d(2) ws_h2.wake_units [OF d(4) 1(2,3)] ws_hd.wake_units [OF d(5) 1(2,3)]
    by (intro ws_invI [OF g, of _ u "Run p"]) auto
qed

lemma ws_reachable_inv: "(ws_step atoms)\<^sup>*\<^sup>* (ws_init atoms) g \<Longrightarrow> ws_inv atoms g"
proof (induction rule: rtranclp_induct)
  case base
  show ?case by (rule ws_init_inv)
next
  case (step g g')
  note ih = step(3)
  from step(2) show ?case
  proof cases
    case (ws_hydrogen i)
    from ws_hydrogen(2) show ?thesis by cases (use ih ws_hydrogen(1) ws_hydrogen_inv ws_count_inv(1) in blast)+
  next
    case (ws_oxygen i)
    from ws_oxygen(2) show ?thesis by cases (use ih ws_oxygen(1) ws_oxygen_inv ws_count_inv(2) in blast)+
  qed (use ih ws_wake_inv in blast)
qed

lemma ws_balanced:
  assumes g: "ws_inv atoms g"
  shows "balanced atoms (dat g)"
proof -
  note d = ws_invD [OF g]
  let ?in = "\<lambda>t. t \<in> {Run Ws_h_post, Run Ws_h_wait, Run Ws_h_bonded, Waiting Ws_hdone Ws_h_bonded}"
  let ?late = "\<lambda>t. t \<in> {Run Ws_o_post1, Run Ws_o_post2, Run Ws_o_bonded}"
  have h: "cnt ?in (thr g) \<le> int (atoms_of atoms Hydrogen)"
  proof (rule cnt_atoms)
    show "atoms u = Hydrogen" if "?in (thr g u)" for u using d(1) [of u] that by (cases "atoms u") auto
  qed
  have o: "cnt ?late (thr g) \<le> int (atoms_of atoms Oxygen)"
  proof (rule cnt_atoms)
    show "atoms u = Oxygen" if "?late (thr g u)" for u using d(1) [of u] that by (cases "atoms u") auto
  qed
  have r: "0 \<le> ws_ready g" "0 \<le> ws_done g" using units_nonneg [OF d(4)] units_nonneg [OF d(5)] .
  have "int (water_formed (dat g)) \<le> ws_adds g div 2"
    using r(1) cnt_nonneg [of "\<lambda>t. t = Run Ws_h_post" "thr g"] cnt_nonneg [of "\<lambda>t. t = Run Ws_o_make" "thr g"]
    unfolding ws_ready_def by linarith
  then have "2 * int (water_formed (dat g)) \<le> int (hydrogen_bonded (dat g)) + int (atoms_of atoms Hydrogen)"
    using h unfolding ws_adds_def by linarith
  moreover have "int (hydrogen_bonded (dat g)) \<le> 2 * int (water_formed (dat g))"
    using r(2) cnt_nonneg [of "\<lambda>t. t = Run Ws_o_post1" "thr g"] cnt_nonneg [of "\<lambda>t. t = Run Ws_o_post2" "thr g"]
      cnt_nonneg [of "\<lambda>t. t = Run Ws_h_bonded" "thr g"]
    unfolding ws_done_def by linarith
  moreover have "int (oxygen_bonded (dat g)) \<le> int (water_formed (dat g))"
    "int (water_formed (dat g)) \<le> int (oxygen_bonded (dat g)) + int (atoms_of atoms Oxygen)"
    using d(3) o cnt_nonneg [of ?late "thr g"] unfolding ws_late_def by linarith+
  ultimately show ?thesis unfolding balanced_def by linarith
qed

interpretation ws_reaction: reaction atoms "ws_step atoms" "ws_init atoms" dat for atoms
  by unfold_locales (rule ws_balanced [OF ws_reachable_inv])

end
