(* ===== verification/Ex_Water_Cond.thy ===== *)
theory Ex_Water_Cond
  imports Ex_Water
begin

text \<open>
  Water with a mutex and condition variables, \<^verbatim>\<open>examples/water/cond.c\<close>. The counter \<^verbatim>\<open>h\<close> is a
  mathematical integer, as it is never more than the number of hydrogen tasks (\<open>wc_h_bound\<close>).
\<close>

section \<open>The code\<close>

datatype wc_sem = Wc_m | Wc_hready | Wc_hdone

datatype wc_pc =
    Hc_lock | Hc_inc | Hc_signal | Hc_count | Hc_release | Hc_block | Hc_relock | Hc_unlock | Hc_bonded
  | Oc_lock | Oc_check | Oc_count | Oc_release | Oc_block | Oc_relock | Oc_make | Oc_sub | Oc_unlock
  | Oc_signal1 | Oc_signal2 | Oc_bonded

record wc_data = water +
  rxn_hc :: int

type_synonym 'i wc = "('i, wc_sem, wc_pc, wc_data) threads"

inductive hydrogen_cond :: "'i \<Rightarrow> 'i wc \<Rightarrow> 'i wc \<Rightarrow> bool" for i where
  hc_lock: "thr g i = Run Hc_lock \<Longrightarrow> hydrogen_cond i g (th_wait i Wc_m Hc_inc g)"
| hc_inc: "thr g i = Run Hc_inc \<Longrightarrow> hydrogen_cond i g (th_data i (\<lambda>d. d\<lparr>rxn_hc := rxn_hc d + 1\<rparr>) Hc_signal g)"
| hc_signal: "thr g i = Run Hc_signal \<Longrightarrow> hydrogen_cond i g (th_post i Wc_hready 1 Hc_count g)"
| hc_wait: "th_cond_wait Wc_hdone Wc_m Hc_count Hc_release Hc_block Hc_relock Hc_unlock i g g' \<Longrightarrow> hydrogen_cond i g g'"
| hc_unlock: "thr g i = Run Hc_unlock \<Longrightarrow> hydrogen_cond i g (th_post i Wc_m 1 Hc_bonded g)"

inductive oxygen_cond :: "'i \<Rightarrow> 'i wc \<Rightarrow> 'i wc \<Rightarrow> bool" for i where
  oc_lock: "thr g i = Run Oc_lock \<Longrightarrow> oxygen_cond i g (th_wait i Wc_m Oc_check g)"
| oc_check: "thr g i = Run Oc_check \<Longrightarrow>
    oxygen_cond i g (th_data i id (if rxn_hc (dat g) < 2 then Oc_count else Oc_make) g)"
| oc_wait: "th_cond_wait Wc_hready Wc_m Oc_count Oc_release Oc_block Oc_relock Oc_check i g g' \<Longrightarrow> oxygen_cond i g g'"
| oc_make: "thr g i = Run Oc_make \<Longrightarrow> oxygen_cond i g (make_water i Oc_sub g)"
| oc_sub: "thr g i = Run Oc_sub \<Longrightarrow> oxygen_cond i g (th_data i (\<lambda>d. d\<lparr>rxn_hc := rxn_hc d - 2\<rparr>) Oc_unlock g)"
| oc_unlock: "thr g i = Run Oc_unlock \<Longrightarrow> oxygen_cond i g (th_post i Wc_m 1 Oc_signal1 g)"
| oc_signal1: "thr g i = Run Oc_signal1 \<Longrightarrow> oxygen_cond i g (th_post i Wc_hdone 1 Oc_signal2 g)"
| oc_signal2: "thr g i = Run Oc_signal2 \<Longrightarrow> oxygen_cond i g (th_post i Wc_hdone 1 Oc_bonded g)"

inductive wc_step :: "('i::finite \<Rightarrow> atom) \<Rightarrow> 'i wc \<Rightarrow> 'i wc \<Rightarrow> bool" for atoms where
  wc_hydrogen: "atoms i = Hydrogen \<Longrightarrow> hydrogen_loop hydrogen_cond Hc_lock Hc_bonded i g g' \<Longrightarrow> wc_step atoms g g'"
| wc_oxygen: "atoms i = Oxygen \<Longrightarrow> oxygen_loop oxygen_cond Oc_lock Oc_bonded i g g' \<Longrightarrow> wc_step atoms g g'"
| wc_wake: "th_wake g g' \<Longrightarrow> wc_step atoms g g'"

definition wc_init :: "('i \<Rightarrow> atom) \<Rightarrow> 'i wc" where
  "wc_init atoms = \<lparr>val = (\<lambda>_. 0)(Wc_m := 1), maxv = (\<lambda>_. 0)(Wc_m := 1),
     thr = (\<lambda>u. Run (case atoms u of Hydrogen \<Rightarrow> Hc_lock | Oxygen \<Rightarrow> Oc_lock)),
     dat = \<lparr>water_formed = 0, hydrogen_bonded = 0, oxygen_bonded = 0, rxn_hc = 0\<rparr>\<rparr>"

section \<open>The invariant\<close>

definition wc_hs :: "(wc_sem, wc_pc) thread list" where
  "wc_hs = map Run [Hc_inc, Hc_signal, Hc_count, Hc_release, Hc_unlock,
     Oc_check, Oc_count, Oc_release, Oc_make, Oc_sub, Oc_unlock]"

definition wc_ws :: "(wc_sem, wc_pc) thread list" where
  "wc_ws = map (Waiting Wc_m) [Hc_inc, Hc_unlock, Oc_check]"

interpretation wc_mutex: mutex_user Wc_m wc_hs wc_ws
  by unfold_locales (auto simp: wc_hs_def wc_ws_def)

text \<open>The threads that \<^verbatim>\<open>hdone\<close> counts.\<close>

fun wc_counted :: "(wc_sem, wc_pc) thread \<Rightarrow> bool" where
  "wc_counted (Run p) = (p \<in> {Hc_release, Hc_block})"
| "wc_counted (Waiting m p) = (m = Wc_hdone)"

interpretation wc_hd: units_user Wc_hdone wc_counted
  by unfold_locales simp

fun wc_point :: "atom \<Rightarrow> (wc_sem, wc_pc) thread \<Rightarrow> bool" where
  "wc_point Hydrogen (Run p) = (p \<in> {Hc_lock, Hc_inc, Hc_signal, Hc_count, Hc_release, Hc_block, Hc_relock, Hc_unlock, Hc_bonded})"
| "wc_point Hydrogen (Waiting m p) = (m = Wc_m \<and> p \<in> {Hc_inc, Hc_unlock} \<or> m = Wc_hdone \<and> p = Hc_relock)"
| "wc_point Oxygen (Run p) = (p \<in> {Oc_lock, Oc_check, Oc_count, Oc_release, Oc_block, Oc_relock, Oc_make, Oc_sub, Oc_unlock,
     Oc_signal1, Oc_signal2, Oc_bonded})"
| "wc_point Oxygen (Waiting m p) = (m = Wc_m \<and> p = Oc_check \<or> m = Wc_hready \<and> p = Oc_relock)"

definition wc_at :: "atom \<Rightarrow> int \<Rightarrow> (wc_sem, wc_pc) thread \<Rightarrow> bool" where
  "wc_at a h t \<longleftrightarrow> wc_point a t \<and> (t \<in> {Run Oc_make, Run Oc_sub} \<longrightarrow> 2 \<le> h)"

text \<open>The hydrogen atoms that \<^verbatim>\<open>h\<close> has counted and that are not bonded yet, and those let go.\<close>

fun wc_in :: "(wc_sem, wc_pc) thread \<Rightarrow> bool" where
  "wc_in (Run p) = (p \<in> {Hc_signal, Hc_count, Hc_release, Hc_block, Hc_relock, Hc_unlock, Hc_bonded})"
| "wc_in (Waiting m p) = (p \<in> {Hc_relock, Hc_unlock})"

fun wc_gone :: "(wc_sem, wc_pc) thread \<Rightarrow> bool" where
  "wc_gone (Run p) = (p \<in> {Hc_relock, Hc_unlock, Hc_bonded})"
| "wc_gone (Waiting m p) = (p = Hc_unlock)"

definition wc_balance :: "('i::finite) wc \<Rightarrow> int" where
  "wc_balance g = 2 * int (water_formed (dat g)) - 2 * cnt (\<lambda>t. t = Run Oc_sub) (thr g) + rxn_hc (dat g) -
     int (hydrogen_bonded (dat g)) - cnt wc_in (thr g)"

definition wc_done :: "('i::finite) wc \<Rightarrow> int" where
  "wc_done g = 2 * int (water_formed (dat g)) - 2 * cnt (\<lambda>t. t \<in> {Run Oc_sub, Run Oc_unlock, Run Oc_signal1}) (thr g) -
     cnt (\<lambda>t. t = Run Oc_signal2) (thr g) - int (hydrogen_bonded (dat g)) - cnt wc_gone (thr g)"

definition wc_late :: "('i::finite) wc \<Rightarrow> int" where
  "wc_late g = int (water_formed (dat g)) - int (oxygen_bonded (dat g)) -
     cnt (\<lambda>t. t \<in> {Run Oc_sub, Run Oc_unlock, Run Oc_signal1, Run Oc_signal2, Run Oc_bonded}) (thr g)"

lemmas wc_counts = wc_balance_def wc_done_def wc_late_def

definition wc_inv :: "('i::finite \<Rightarrow> atom) \<Rightarrow> 'i wc \<Rightarrow> bool" where
  "wc_inv atoms g \<longleftrightarrow> mutex_inv Wc_m wc_hs wc_ws g \<and> (\<forall>u. wc_at (atoms u) (rxn_hc (dat g)) (thr g u)) \<and>
     0 \<le> rxn_hc (dat g) \<and> wc_balance g = 0 \<and> wc_late g = 0 \<and> units_inv wc_counted Wc_hdone (wc_done g) g"

lemma wc_invD:
  assumes "wc_inv atoms g"
  shows "mutex_inv Wc_m wc_hs wc_ws g" "wc_at (atoms u) (rxn_hc (dat g)) (thr g u)" "0 \<le> rxn_hc (dat g)"
    "wc_balance g = 0" "wc_late g = 0" "units_inv wc_counted Wc_hdone (wc_done g) g"
  using assms by (simp_all add: wc_inv_def)

lemma wc_init_inv: "wc_inv atoms (wc_init atoms)"
proof -
  have t: "thr (wc_init atoms) u \<in> {Run Hc_lock, Run Oc_lock}" for u
    by (simp add: wc_init_def split: atom.split)
  have z: "cnt P (thr (wc_init atoms)) = 0" if "\<not> P (Run Hc_lock)" "\<not> P (Run Oc_lock)" for P
    unfolding cnt_0 using that t by (metis empty_iff insert_iff)
  have "wc_at (atoms u) 0 (thr (wc_init atoms) u)" for u by (cases "atoms u") (simp_all add: wc_init_def wc_at_def)
  then show ?thesis
    by (simp add: wc_inv_def wc_counts units_inv_def mutex_inv_def wc_hs_def wc_ws_def z) (simp add: wc_init_def)
qed

text \<open>A thread moves: the others are where they were, and only the holder of the mutex changes \<^verbatim>\<open>h\<close>.\<close>

lemma wc_invI:
  assumes g: "wc_inv atoms g" and t: "thr g' = (thr g)(i := t)" and m: "mutex_inv Wc_m wc_hs wc_ws g'"
    and h: "rxn_hc (dat g') = rxn_hc (dat g) \<or> thr g i \<in> set wc_hs" "0 \<le> rxn_hc (dat g')"
    and i: "wc_at (atoms i) (rxn_hc (dat g')) t"
    and c: "wc_balance g' = wc_balance g" "wc_late g' = wc_late g" "units_inv wc_counted Wc_hdone (wc_done g') g'"
  shows "wc_inv atoms g'"
proof -
  note d = wc_invD [OF g]
  have "wc_at (atoms u) (rxn_hc (dat g')) (thr g' u)" for u
  proof (cases "u = i \<or> rxn_hc (dat g') = rxn_hc (dat g)")
    case False
    then have "thr g u \<notin> set wc_hs" using wc_mutex.exclusive [OF d(1), of i u] h(1) by auto
    then show ?thesis using d(2) [of u] False by (auto simp: wc_at_def wc_hs_def t)
  qed (use d(2) [of u] i t in auto)
  then show ?thesis using d m h(2) c by (simp add: wc_inv_def)
qed

text \<open>The kinds of steps.\<close>

lemma wc_data_inv:
  assumes g: "wc_inv atoms g" and p: "thr g i = Run p" "Run p \<in> set wc_hs \<longleftrightarrow> Run q \<in> set wc_hs"
      "wc_counted (Run p) \<longleftrightarrow> wc_counted (Run q)"
    and h: "rxn_hc (f (dat g)) = rxn_hc (dat g) \<or> Run p \<in> set wc_hs" "0 \<le> rxn_hc (f (dat g))"
    and i: "wc_at (atoms i) (rxn_hc (f (dat g))) (Run q)"
    and c: "wc_balance (th_data i f q g) = wc_balance g" "wc_late (th_data i f q g) = wc_late g"
      "wc_done (th_data i f q g) = wc_done g"
  shows "wc_inv atoms (th_data i f q g)"
proof -
  note d = wc_invD [OF g]
  have "mutex_inv Wc_m wc_hs wc_ws (th_data i f q g)"
    by (rule wc_mutex.keep_inv [OF d(1), of _ i "Run q"]) (use p in \<open>auto simp: wc_ws_def\<close>)
  moreover have "units_inv wc_counted Wc_hdone (wc_done g) (th_data i f q g)"
    by (rule wc_hd.keep_units [OF d(6), of _ i "Run q"]) (use p in simp_all)
  ultimately show ?thesis using h i c p(1) by (intro wc_invI [OF g, of _ i "Run q"]) simp_all
qed

lemma wc_lock_inv:
  assumes g: "wc_inv atoms g" and p: "thr g i = Run p" "Run p \<notin> set wc_hs" "\<not> wc_counted (Run p)"
    and q: "Waiting Wc_m q \<in> set wc_ws" "wc_at (atoms i) (rxn_hc (dat g)) (Run q)"
      "wc_at (atoms i) (rxn_hc (dat g)) (Waiting Wc_m q)"
    and c: "wc_balance (th_wait i Wc_m q g) = wc_balance g" "wc_late (th_wait i Wc_m q g) = wc_late g"
      "wc_done (th_wait i Wc_m q g) = wc_done g"
  shows "wc_inv atoms (th_wait i Wc_m q g)"
proof -
  note d = wc_invD [OF g]
  have q': "Run q \<in> set wc_hs" "\<not> wc_counted (Run q)" using q(1) by (auto simp: wc_ws_def wc_hs_def)
  have "mutex_inv Wc_m wc_hs wc_ws (th_wait i Wc_m q g)"
    by (rule wc_mutex.lock_inv) (use d(1) p q q' in \<open>simp_all add: wc_ws_def\<close>)
  moreover have "units_inv wc_counted Wc_hdone (wc_done g) (th_wait i Wc_m q g)"
    by (rule wc_hd.keep_units [OF d(6), of _ i "if val g Wc_m > 0 then Run q else Waiting Wc_m q"]) (use p q' in simp_all)
  ultimately show ?thesis using q c p(1) d(3)
    by (intro wc_invI [OF g, of _ i "if val g Wc_m > 0 then Run q else Waiting Wc_m q"]) simp_all
qed

lemma wc_unlock_inv:
  assumes g: "wc_inv atoms g" and p: "thr g i = Run p" "Run p \<in> set wc_hs"
    and q: "Run q \<notin> set wc_hs" "wc_counted (Run p) \<longleftrightarrow> wc_counted (Run q)" "wc_at (atoms i) (rxn_hc (dat g)) (Run q)"
    and c: "wc_balance (th_post i Wc_m 1 q g) = wc_balance g" "wc_late (th_post i Wc_m 1 q g) = wc_late g"
      "wc_done (th_post i Wc_m 1 q g) = wc_done g"
  shows "wc_inv atoms (th_post i Wc_m 1 q g)"
proof -
  note d = wc_invD [OF g]
  have "mutex_inv Wc_m wc_hs wc_ws (th_post i Wc_m 1 q g)"
    by (rule wc_mutex.unlock_inv) (use d(1) p q in \<open>auto simp: wc_ws_def\<close>)
  moreover have "units_inv wc_counted Wc_hdone (wc_done g) (th_post i Wc_m 1 q g)"
    by (rule wc_hd.keep_units [OF d(6), of _ i "Run q"]) (use p q in simp_all)
  ultimately show ?thesis using q c p(1) d(3) by (intro wc_invI [OF g, of _ i "Run q"]) simp_all
qed

lemma wc_signal_inv:
  assumes g: "wc_inv atoms g" and p: "thr g i = Run p" "Run p \<in> set wc_hs \<longleftrightarrow> Run q \<in> set wc_hs"
      "\<not> wc_counted (Run p)" "\<not> wc_counted (Run q)" and k: "k \<noteq> Wc_m"
    and i: "wc_at (atoms i) (rxn_hc (dat g)) (Run q)"
    and c: "wc_balance (th_post i k 1 q g) = wc_balance g" "wc_late (th_post i k 1 q g) = wc_late g"
      "wc_done (th_post i k 1 q g) = wc_done g + of_bool (k = Wc_hdone)"
  shows "wc_inv atoms (th_post i k 1 q g)"
proof -
  note d = wc_invD [OF g]
  have "mutex_inv Wc_m wc_hs wc_ws (th_post i k 1 q g)"
    by (rule wc_mutex.keep_inv [OF d(1), of _ i "Run q"]) (use p k in \<open>auto simp: wc_ws_def\<close>)
  moreover have "units_inv wc_counted Wc_hdone (wc_done (th_post i k 1 q g)) (th_post i k 1 q g)"
  proof (cases "k = Wc_hdone")
    case True
    then show ?thesis using wc_hd.post_units [OF d(6), of 1 i q] p c(3) by simp
  next
    case False
    then show ?thesis using wc_hd.keep_units [OF d(6), of "th_post i k 1 q g" i "Run q"] p c(3) by simp
  qed
  ultimately show ?thesis using i c p(1) d(3) by (intro wc_invI [OF g, of _ i "Run q"]) simp_all
qed

lemmas wc_points = wc_hs_def wc_ws_def wc_at_def

lemma wc_wait_hdone_inv:
  assumes "th_cond_wait Wc_hdone Wc_m Hc_count Hc_release Hc_block Hc_relock Hc_unlock i g g'"
    and g: "wc_inv atoms g" and i: "atoms i = Hydrogen"
  shows "wc_inv atoms g'"
  using assms(1)
proof cases
  case cond_count
  note d = wc_invD [OF g]
  have "mutex_inv Wc_m wc_hs wc_ws g'"
    by (rule wc_mutex.keep_inv [OF d(1), of _ i "Run Hc_release"]) (use cond_count in \<open>simp_all add: wc_points\<close>)
  moreover have "units_inv wc_counted Wc_hdone (wc_done g) g'"
    unfolding cond_count(1) by (rule wc_hd.count_units [OF d(6)]) (use cond_count in simp_all)
  ultimately show ?thesis using cond_count i d(3)
    by (intro wc_invI [OF g, of _ i "Run Hc_release"]) (simp_all add: wc_points wc_counts cnt_upd)
next
  case cond_release
  then show ?thesis using i by (auto intro!: wc_unlock_inv [OF g] simp: wc_points wc_counts cnt_upd)
next
  case cond_block
  note d = wc_invD [OF g]
  have "mutex_inv Wc_m wc_hs wc_ws g'"
    by (rule wc_mutex.keep_inv [OF d(1), of _ i "Waiting Wc_hdone Hc_relock"]) (use cond_block in \<open>simp_all add: wc_points\<close>)
  moreover have "units_inv wc_counted Wc_hdone (wc_done g) g'"
    by (rule wc_hd.keep_units [OF d(6), of _ i "Waiting Wc_hdone Hc_relock"]) (use cond_block in simp_all)
  ultimately show ?thesis using cond_block i d(3)
    by (intro wc_invI [OF g, of _ i "Waiting Wc_hdone Hc_relock"]) (simp_all add: wc_points wc_counts cnt_upd)
next
  case cond_relock
  then show ?thesis using i by (auto intro!: wc_lock_inv [OF g] simp: wc_points wc_counts cnt_upd)
qed

lemma wc_wait_hready_inv:
  assumes "th_cond_wait Wc_hready Wc_m Oc_count Oc_release Oc_block Oc_relock Oc_check i g g'"
    and g: "wc_inv atoms g" and i: "atoms i = Oxygen"
  shows "wc_inv atoms g'"
  using assms(1)
proof cases
  case cond_count
  note d = wc_invD [OF g]
  have "mutex_inv Wc_m wc_hs wc_ws g'"
    by (rule wc_mutex.keep_inv [OF d(1), of _ i "Run Oc_release"]) (use cond_count in \<open>simp_all add: wc_points\<close>)
  moreover have "units_inv wc_counted Wc_hdone (wc_done g) g'"
    by (rule wc_hd.keep_units [OF d(6), of _ i "Run Oc_release"]) (use cond_count in simp_all)
  ultimately show ?thesis using cond_count i d(3)
    by (intro wc_invI [OF g, of _ i "Run Oc_release"]) (simp_all add: wc_points wc_counts cnt_upd)
next
  case cond_release
  then show ?thesis using i by (auto intro!: wc_unlock_inv [OF g] simp: wc_points wc_counts cnt_upd)
next
  case cond_block
  note d = wc_invD [OF g]
  have "mutex_inv Wc_m wc_hs wc_ws g'"
    by (rule wc_mutex.keep_inv [OF d(1), of _ i "Waiting Wc_hready Oc_relock"]) (use cond_block in \<open>simp_all add: wc_points\<close>)
  moreover have "units_inv wc_counted Wc_hdone (wc_done g) g'"
    by (rule wc_hd.keep_units [OF d(6), of _ i "Waiting Wc_hready Oc_relock"]) (use cond_block in simp_all)
  ultimately show ?thesis using cond_block i d(3)
    by (intro wc_invI [OF g, of _ i "Waiting Wc_hready Oc_relock"]) (simp_all add: wc_points wc_counts cnt_upd)
next
  case cond_relock
  then show ?thesis using i by (auto intro!: wc_lock_inv [OF g] simp: wc_points wc_counts cnt_upd)
qed

lemma wc_hydrogen_inv:
  assumes "hydrogen_cond i g g'" and g: "wc_inv atoms g" and i: "atoms i = Hydrogen"
  shows "wc_inv atoms g'"
  using assms(1)
proof cases
  case hc_lock
  then show ?thesis using i by (auto intro!: wc_lock_inv [OF g] simp: wc_points wc_counts cnt_upd)
next
  case hc_inc
  then show ?thesis using i wc_invD(3) [OF g] by (auto intro!: wc_data_inv [OF g] simp: wc_points wc_counts cnt_upd)
next
  case hc_signal
  then show ?thesis using i by (auto intro!: wc_signal_inv [OF g] simp: wc_points wc_counts cnt_upd)
next
  case hc_wait
  then show ?thesis using g i by (rule wc_wait_hdone_inv)
next
  case hc_unlock
  then show ?thesis using i by (auto intro!: wc_unlock_inv [OF g] simp: wc_points wc_counts cnt_upd)
qed

lemma wc_oxygen_inv:
  assumes "oxygen_cond i g g'" and g: "wc_inv atoms g" and i: "atoms i = Oxygen"
  shows "wc_inv atoms g'"
  using assms(1)
proof cases
  case oc_lock
  then show ?thesis using i by (auto intro!: wc_lock_inv [OF g] simp: wc_points wc_counts cnt_upd)
next
  case oc_check
  then show ?thesis using i wc_invD(3) [OF g] by (auto intro!: wc_data_inv [OF g] simp: wc_points wc_counts cnt_upd)
next
  case oc_wait
  then show ?thesis using g i by (rule wc_wait_hready_inv)
next
  case oc_make
  then show ?thesis using i wc_invD(2) [OF g, of i] wc_invD(3) [OF g] unfolding make_water_def
    by (auto intro!: wc_data_inv [OF g] simp: wc_points wc_counts cnt_upd)
next
  case oc_sub
  then show ?thesis using i wc_invD(2) [OF g, of i]
    by (auto intro!: wc_data_inv [OF g] simp: wc_points wc_counts cnt_upd)
next
  case oc_unlock
  then show ?thesis using i by (auto intro!: wc_unlock_inv [OF g] simp: wc_points wc_counts cnt_upd)
next
  case oc_signal1
  then show ?thesis using i by (auto intro!: wc_signal_inv [OF g] simp: wc_points wc_counts cnt_upd)
next
  case oc_signal2
  then show ?thesis using i by (auto intro!: wc_signal_inv [OF g] simp: wc_points wc_counts cnt_upd)
qed

lemma wc_count_inv:
  assumes g: "wc_inv atoms g"
  shows "thr g i = Run Hc_bonded \<Longrightarrow> atoms i = Hydrogen \<Longrightarrow>
      wc_inv atoms (th_data i (\<lambda>d. d\<lparr>hydrogen_bonded := hydrogen_bonded d + 1\<rparr>) Hc_lock g)"
    and "thr g i = Run Oc_bonded \<Longrightarrow> atoms i = Oxygen \<Longrightarrow>
      wc_inv atoms (th_data i (\<lambda>d. d\<lparr>oxygen_bonded := oxygen_bonded d + 1\<rparr>) Oc_lock g)"
  using wc_invD(3) [OF g] by (auto intro!: wc_data_inv [OF g] simp: wc_points wc_counts cnt_upd)

lemma wc_waiting:
  assumes "wc_inv atoms g"
  shows "cnt (is_waiting Wc_m) (thr g) = at_one (thr g) wc_ws"
proof -
  have "is_waiting Wc_m (thr g u) = (thr g u \<in> set wc_ws)" for u
    using wc_invD(2) [OF assms, of u] by (cases "atoms u"; cases "thr g u") (auto simp: wc_points)
  then show ?thesis using cnt_cong [of "is_waiting Wc_m" "thr g" "\<lambda>t. t \<in> set wc_ws"] cnt_member [OF wc_mutex.distinct_ws] by simp
qed

lemma wc_wake_inv:
  assumes "th_wake g g'" and g: "wc_inv atoms g"
  shows "wc_inv atoms g'"
  using assms(1)
proof cases
  case (1 u m p)
  note d = wc_invD [OF g]
  have u: "wc_point (atoms u) (Waiting m p)" using d(2) [of u] 1(2) by (simp add: wc_at_def)
  then have "(atoms u, m, p) \<in> {(Hydrogen, Wc_m, Hc_inc), (Hydrogen, Wc_m, Hc_unlock), (Hydrogen, Wc_hdone, Hc_relock),
      (Oxygen, Wc_m, Oc_check), (Oxygen, Wc_hready, Oc_relock)}"
    by (cases "atoms u") auto
  then have p: "\<not> wc_counted (Run p)" "m = Wc_m \<longrightarrow> Waiting Wc_m p \<in> set wc_ws"
    "m \<noteq> Wc_m \<longrightarrow> Run p \<notin> set wc_hs \<and> Run p \<notin> set wc_ws" "wc_at (atoms u) (rxn_hc (dat g)) (Run p)"
    "(atoms u, m, p) \<in> {(Hydrogen, Wc_m, Hc_inc), (Hydrogen, Wc_m, Hc_unlock), (Hydrogen, Wc_hdone, Hc_relock),
      (Oxygen, Wc_m, Oc_check), (Oxygen, Wc_hready, Oc_relock)}"
    by (elim insertE emptyE; simp add: wc_points)+
  have "mutex_inv Wc_m wc_hs wc_ws g'"
    unfolding 1(1) by (rule wc_mutex.wake_inv [OF d(1) 1(2) _ _ 1(3) wc_waiting [OF g]]) (use p in \<open>auto simp: wc_hs_def\<close>)
  moreover have "units_inv wc_counted Wc_hdone (wc_done g - of_bool (m = Wc_hdone)) g'"
    unfolding 1(1) by (rule wc_hd.wake_units [OF d(6) 1(2,3) p(1)])
  moreover have "wc_balance g' = wc_balance g" "wc_late g' = wc_late g" "wc_done g' = wc_done g - of_bool (m = Wc_hdone)"
    using p(5) 1(1,2) by (elim insertE emptyE; simp add: wc_counts cnt_upd)+
  ultimately show ?thesis using p(4) 1(1) d(3) by (intro wc_invI [OF g, of _ u "Run p"]) simp_all
qed

lemma wc_reachable_inv: "(wc_step atoms)\<^sup>*\<^sup>* (wc_init atoms) g \<Longrightarrow> wc_inv atoms g"
proof (induction rule: rtranclp_induct)
  case base
  show ?case by (rule wc_init_inv)
next
  case (step g g')
  note ih = step(3)
  from step(2) show ?case
  proof cases
    case (wc_hydrogen i)
    from wc_hydrogen(2) show ?thesis by cases (use ih wc_hydrogen(1) wc_hydrogen_inv wc_count_inv(1) in blast)+
  next
    case (wc_oxygen i)
    from wc_oxygen(2) show ?thesis by cases (use ih wc_oxygen(1) wc_oxygen_inv wc_count_inv(2) in blast)+
  qed (use ih wc_wake_inv in blast)
qed

section \<open>The contract\<close>

lemma wc_in_atoms:
  assumes g: "wc_inv atoms g"
  shows "cnt wc_in (thr g) \<le> int (atoms_of atoms Hydrogen)"
proof (rule cnt_atoms)
  show "atoms u = Hydrogen" if "wc_in (thr g u)" for u
    using that wc_invD(2) [OF g, of u] by (cases "atoms u"; cases "thr g u") (auto simp: wc_at_def)
qed

lemma wc_balanced:
  assumes g: "wc_inv atoms g"
  shows "balanced atoms (dat g)"
proof -
  note d = wc_invD [OF g]
  let ?late = "\<lambda>t. t \<in> {Run Oc_sub, Run Oc_unlock, Run Oc_signal1, Run Oc_signal2, Run Oc_bonded}"
  have late: "cnt ?late (thr g) \<le> int (atoms_of atoms Oxygen)"
  proof (rule cnt_atoms)
    show "atoms u = Oxygen" if "?late (thr g u)" for u
      using that d(2) [of u] by (cases "atoms u") (auto simp: wc_at_def)
  qed
  have sub: "2 * cnt (\<lambda>t. t = Run Oc_sub) (thr g) \<le> rxn_hc (dat g)"
  proof (cases "\<exists>u. thr g u = Run Oc_sub")
    case True
    then obtain u where u: "thr g u = Run Oc_sub" by blast
    have "{v. thr g v = Run Oc_sub} \<subseteq> {u}"
      using wc_mutex.exclusive [OF d(1), of u] u by (auto simp: wc_hs_def)
    then have "card {v. thr g v = Run Oc_sub} \<le> 1" using card_mono [of "{u}"] by simp
    moreover have "2 \<le> rxn_hc (dat g)" using d(2) [of u] u by (simp add: wc_at_def)
    ultimately show ?thesis by (simp add: cnt_card)
  next
    case False
    then have "cnt (\<lambda>t. t = Run Oc_sub) (thr g) = 0" by (simp add: cnt_0)
    then show ?thesis using d(3) by simp
  qed
  have "0 \<le> wc_done g" using d(6) by (rule units_nonneg)
  then have "int (hydrogen_bonded (dat g)) \<le> 2 * int (water_formed (dat g))"
    using cnt_nonneg [of "\<lambda>t. t \<in> {Run Oc_sub, Run Oc_unlock, Run Oc_signal1}" "thr g"]
      cnt_nonneg [of "\<lambda>t. t = Run Oc_signal2" "thr g"] cnt_nonneg [of wc_gone "thr g"]
    unfolding wc_done_def by linarith
  moreover have "2 * int (water_formed (dat g)) \<le> int (hydrogen_bonded (dat g)) + int (atoms_of atoms Hydrogen)"
    using d(4) sub wc_in_atoms [OF g] unfolding wc_balance_def by linarith
  moreover have "int (oxygen_bonded (dat g)) \<le> int (water_formed (dat g))"
    "int (water_formed (dat g)) \<le> int (oxygen_bonded (dat g)) + int (atoms_of atoms Oxygen)"
    using d(5) late cnt_nonneg [of ?late "thr g"] unfolding wc_late_def by linarith+
  ultimately show ?thesis unfolding balanced_def by linarith
qed

interpretation wc_reaction: reaction atoms "wc_step atoms" "wc_init atoms" dat for atoms
  by unfold_locales (rule wc_balanced [OF wc_reachable_inv])

lemma wc_h_bound:
  assumes "(wc_step atoms)\<^sup>*\<^sup>* (wc_init atoms) g"
  shows "0 \<le> rxn_hc (dat g)" "rxn_hc (dat g) \<le> int (atoms_of atoms Hydrogen)"
proof -
  have g: "wc_inv atoms g" using assms by (rule wc_reachable_inv)
  note d = wc_invD [OF g]
  show "0 \<le> rxn_hc (dat g)" by (rule d(3))
  have "cnt (\<lambda>t. t = Run Oc_sub) (thr g) \<le> cnt (\<lambda>t. t \<in> {Run Oc_sub, Run Oc_unlock, Run Oc_signal1}) (thr g)"
    by (rule cnt_mono) simp
  moreover have "0 \<le> wc_done g" using d(6) by (rule units_nonneg)
  ultimately show "rxn_hc (dat g) \<le> int (atoms_of atoms Hydrogen)"
    using d(4) wc_in_atoms [OF g] cnt_nonneg [of "\<lambda>t. t = Run Oc_signal2" "thr g"] cnt_nonneg [of wc_gone "thr g"]
    unfolding wc_done_def wc_balance_def by linarith
qed

end
