(* ===== verification/Rt_Barrier_Phases.thy ===== *)
theory Rt_Barrier_Phases
  imports Rt_Barrier
begin

text \<open>
  A barrier that is used by as many threads as it has a count separates the phases of their work: no
  thread returns from its \<open>k\<close>-th call before each of the others has begun its \<open>k\<close>-th. The steps are
  those of \<open>Rt_Barrier\<close>; an observer counts the calls and the returns of each thread.
\<close>

record 'i phases =
  bar :: "'i bar"
  calls :: "'i \<Rightarrow> int"
  rets :: "'i \<Rightarrow> int"

inductive phase_step :: "('i::finite) phases \<Rightarrow> 'i phases \<Rightarrow> bool" where
  phase_code: "rt_barrier_wait i (bar p) g \<Longrightarrow> phase_step p (p\<lparr>bar := g\<rparr>)"
| phase_call: "thr (bar p) i = Run B_idle \<Longrightarrow> bar_user i (bar p) g \<Longrightarrow>
    phase_step p (p\<lparr>bar := g, calls := (calls p)(i := calls p i + 1)\<rparr>)"
| phase_return: "thr (bar p) i = Run (B_return c) \<Longrightarrow> bar_user i (bar p) g \<Longrightarrow>
    phase_step p (p\<lparr>bar := g, rets := (rets p)(i := rets p i + 1)\<rparr>)"
| phase_wake: "th_wake (bar p) g \<Longrightarrow> phase_step p (p\<lparr>bar := g\<rparr>)"

definition phases_init :: "int \<Rightarrow> 'i phases" where
  "phases_init n = \<lparr>bar = rt_barrier_init n, calls = (\<lambda>_. 0), rets = (\<lambda>_. 0)\<rparr>"

section \<open>The invariant\<close>

text \<open>How often a thread was counted out and in, and where the group is: all are out of the same group, or all are in it.\<close>

definition outs :: "'i phases \<Rightarrow> 'i \<Rightarrow> int" where
  "outs p i = rets p i + of_bool (gone (thr (bar p) i))"

definition ins :: "'i phases \<Rightarrow> 'i \<Rightarrow> int" where
  "ins p i = outs p i + of_bool (inside (thr (bar p) i))"

definition in_step :: "('i::finite) phases \<Rightarrow> bool" where
  "in_step p \<longleftrightarrow> (\<forall>i. outs p i = resets (bar p)) \<or> (\<forall>i. ins p i = resets (bar p) + 1)"

definition phase_inv :: "('i::finite) phases \<Rightarrow> bool" where
  "phase_inv p \<longleftrightarrow> bar_inv (int CARD('i)) (bar p) \<and> (\<Sum>i \<in> UNIV. rets p i) = returned (dat (bar p)) \<and>
     (\<forall>i. calls p i = rets p i + of_bool (thr (bar p) i \<noteq> Run B_idle)) \<and> in_step p"

lemma sum_outs:
  fixes p :: "('i::finite) phases"
  assumes "(\<Sum>i \<in> UNIV. rets p i) = returned (dat (bar p))"
  shows "(\<Sum>i \<in> UNIV. outs p i) = out (bar p)"
    "(\<Sum>i \<in> UNIV. ins p i) = out (bar p) + cnt inside (thr (bar p))"
  using assms by (simp_all add: ins_def outs_def sum.distrib out_def cnt_def)

text \<open>In sums: the group gathers, or it disperses.\<close>

lemma bar_sums:
  fixes p :: "('i::finite) phases"
  assumes "bar_inv (int CARD('i)) (bar p)" and "(\<Sum>i \<in> UNIV. rets p i) = returned (dat (bar p))"
  shows "(\<Sum>i \<in> UNIV. outs p i) = int CARD('i) * resets (bar p) \<or>
    (\<Sum>i \<in> UNIV. ins p i) = int CARD('i) * (resets (bar p) + 1) \<and> int CARD('i) * resets (bar p) \<le> (\<Sum>i \<in> UNIV. outs p i)"
  using bar_invD(4) [OF assms(1)] unfolding sum_outs [OF assms(2)] by (auto simp: gathering_def dispersing_def distrib_left)

lemma sum_const: "\<forall>i. f i = k \<Longrightarrow> (\<Sum>i \<in> (UNIV :: 'i::finite set). f i) = int CARD('i) * (k :: int)"
  by simp

lemma sum_ins: "(\<Sum>i \<in> UNIV. ins p i) = (\<Sum>i \<in> UNIV. outs p i) + cnt inside (thr (bar p))"
  by (simp add: ins_def sum.distrib cnt_def)

lemma all_inside: "cnt inside (thr g) = int CARD('i) \<Longrightarrow> inside (thr (g :: ('i::finite) bar) i)"
  using card_eq_UNIV_imp_eq_UNIV [of "{u. inside (thr g u)}"] by (auto simp: cnt_card)

text \<open>What a step does to the counts, and that the threads stay in step.\<close>

lemma in_step_same:
  assumes "in_step p" and "outs p' = outs p" "ins p' = ins p" "resets (bar p') = resets (bar p)"
  shows "in_step p'"
  using assms by (simp add: in_step_def)

lemma in_step_enter:
  fixes p :: "('i::finite) phases"
  assumes p: "in_step p" and o: "outs p' = outs p" and i: "ins p' = (ins p)(i := ins p i + 1)" "\<not> inside (thr (bar p) i)"
    and r: "resets (bar p') = resets (bar p)"
    and b: "bar_inv (int CARD('i)) (bar p')" "(\<Sum>i \<in> UNIV. rets p' i) = returned (dat (bar p'))"
  shows "in_step p'"
proof (cases "\<forall>i. outs p i = resets (bar p)")
  case True
  then show ?thesis using o r by (simp add: in_step_def)
next
  case False
  let ?R = "resets (bar p)" and ?n = "int CARD('i)"
  have all: "\<forall>i. ins p i = ?R + 1" using p False by (simp add: in_step_def)
  have s: "(\<Sum>i \<in> UNIV. ins p i) = ?n * (?R + 1)" using sum_const [OF all] .
  have "(\<Sum>i \<in> UNIV. ins p' i) = (\<Sum>i \<in> UNIV. ins p i) + 1" unfolding i(1) by (simp add: sum.remove [of UNIV i])
  then have "(\<Sum>i \<in> UNIV. outs p i) = ?n * ?R" using bar_sums [OF b] s r o by simp
  then have "cnt inside (thr (bar p)) = ?n" using s sum_ins [of p] by (simp add: distrib_left)
  then show ?thesis using all_inside [of "bar p" i] i(2) by simp
qed

lemma in_step_leave:
  fixes p :: "('i::finite) phases"
  assumes p: "in_step p" and o: "outs p' = (outs p)(i := outs p i + 1)" and i: "ins p' = ins p"
    and r: "resets (bar p') = resets (bar p)"
    and b: "bar_inv (int CARD('i)) (bar p')" "(\<Sum>i \<in> UNIV. rets p' i) = returned (dat (bar p'))"
  shows "in_step p'"
proof (cases "\<forall>i. ins p i = resets (bar p) + 1")
  case True
  then show ?thesis using i r by (simp add: in_step_def)
next
  case False
  let ?R = "resets (bar p)" and ?n = "int CARD('i)"
  have all: "\<forall>i. outs p i = ?R" using p False by (simp add: in_step_def)
  have s: "(\<Sum>i \<in> UNIV. outs p i) = ?n * ?R" using sum_const [OF all] .
  have "(\<Sum>i \<in> UNIV. outs p' i) = (\<Sum>i \<in> UNIV. outs p i) + 1" unfolding o by (simp add: sum.remove [of UNIV i])
  then have "(\<Sum>i \<in> UNIV. ins p i) = ?n * (?R + 1)" using bar_sums [OF b] s r i by simp
  then have "cnt inside (thr (bar p)) = ?n" using s sum_ins [of p] by (simp add: distrib_left)
  then have "ins p j = ?R + 1" for j using all_inside [of "bar p" j] all by (simp add: ins_def)
  then show ?thesis using False by simp
qed

lemma in_step_reset:
  fixes p :: "('i::finite) phases"
  assumes p: "in_step p" and o: "outs p' = outs p" "ins p' = ins p" and r: "resets (bar p') = resets (bar p) + 1"
    and b: "bar_inv (int CARD('i)) (bar p')" "(\<Sum>i \<in> UNIV. rets p' i) = returned (dat (bar p'))"
  shows "in_step p'"
proof -
  let ?R = "resets (bar p)" and ?n = "int CARD('i)"
  have n: "0 < ?n" by simp
  have g: "(\<Sum>i \<in> UNIV. outs p i) = ?n * (?R + 1) \<or>
      (\<Sum>i \<in> UNIV. ins p i) = ?n * (?R + 2) \<and> ?n * (?R + 1) \<le> (\<Sum>i \<in> UNIV. outs p i)"
    using bar_sums [OF b] unfolding o r by (simp add: add.assoc)
  have "\<not> (\<forall>i. outs p i = ?R)"
  proof
    assume "\<forall>i. outs p i = ?R"
    from sum_const [OF this] g n show False by (auto simp: distrib_left)
  qed
  then have all: "\<forall>i. ins p i = ?R + 1" using p unfolding in_step_def by blast
  have s: "(\<Sum>i \<in> UNIV. ins p i) = ?n * (?R + 1)" using sum_const [OF all] .
  then have "(\<Sum>i \<in> UNIV. outs p i) = ?n * (?R + 1)" using g n by (auto simp: distrib_left)
  then have "cnt inside (thr (bar p)) = 0" using s sum_ins [of p] by simp
  then have "outs p i = ?R + 1" for i using all by (simp add: ins_def cnt_0)
  then show ?thesis using o r by (simp add: in_step_def)
qed

text \<open>A thread moves; the others are where they were.\<close>

lemma counts_upd:
  assumes "thr (bar p') = (thr (bar p))(i := t)" and "rets p' = rets p" and "thr (bar p) i = t0"
  shows "outs p' = (outs p)(i := outs p i + of_bool (gone t) - of_bool (gone t0))"
    "ins p' = (ins p)(i := ins p i + of_bool (gone t) + of_bool (inside t) - of_bool (gone t0) - of_bool (inside t0))"
    "trues (dat (bar p')) = trues (dat (bar p)) \<Longrightarrow> resets (bar p') = resets (bar p) + of_bool (won t) - of_bool (won t0)"
proof -
  show "outs p' = (outs p)(i := outs p i + of_bool (gone t) - of_bool (gone t0))"
    "ins p' = (ins p)(i := ins p i + of_bool (gone t) + of_bool (inside t) - of_bool (gone t0) - of_bool (inside t0))"
    using assms by (auto simp: fun_eq_iff outs_def ins_def)
  show "trues (dat (bar p')) = trues (dat (bar p)) \<Longrightarrow> resets (bar p') = resets (bar p) + of_bool (won t) - of_bool (won t0)"
    using assms(3) by (simp add: resets_def assms(1) cnt_upd)
qed

lemma in_step_move:
  fixes p :: "('i::finite) phases"
  assumes p: "in_step p" and t: "thr (bar p') = (thr (bar p))(i := t)" "rets p' = rets p" "thr (bar p) i = t0"
      "trues (dat (bar p')) = trues (dat (bar p))"
    and b: "bar_inv (int CARD('i)) (bar p')" "(\<Sum>i \<in> UNIV. rets p' i) = returned (dat (bar p'))"
    and m: "(gone t, inside t, won t) = (gone t0, inside t0, won t0) \<or>
      (gone t, inside t, won t) = (gone t0, True, won t0) \<and> \<not> inside t0 \<or>
      (gone t, inside t, won t) = (True, False, won t0) \<and> \<not> gone t0 \<and> inside t0 \<or>
      (gone t, inside t, won t) = (gone t0, inside t0, True) \<and> \<not> won t0"
  shows "in_step p'"
proof -
  note c = counts_upd [OF t(1-3)] t(4)
  from m show ?thesis
  proof (elim disjE)
    assume "(gone t, inside t, won t) = (gone t0, inside t0, won t0)"
    then show ?thesis using c by (intro in_step_same [OF p]) simp_all
  next
    assume "(gone t, inside t, won t) = (gone t0, True, won t0) \<and> \<not> inside t0"
    then show ?thesis using c t(3) by (intro in_step_enter [OF p _ _ _ _ b, of i]) simp_all
  next
    assume "(gone t, inside t, won t) = (True, False, won t0) \<and> \<not> gone t0 \<and> inside t0"
    then show ?thesis using c by (intro in_step_leave [OF p _ _ _ b, of i]) simp_all
  next
    assume "(gone t, inside t, won t) = (gone t0, inside t0, True) \<and> \<not> won t0"
    then show ?thesis using c by (intro in_step_reset [OF p _ _ _ b]) simp_all
  qed
qed

lemma phase_inv_move:
  fixes p :: "('i::finite) phases"
  assumes p: "phase_inv p" and g: "bar_inv (int CARD('i)) g" and t: "thr g = (thr (bar p))(i := t)" "thr (bar p) i = t0"
    and d: "returned (dat g) = returned (dat (bar p))" "trues (dat g) = trues (dat (bar p))"
    and idle: "t \<noteq> Run B_idle" "t0 \<noteq> Run B_idle"
    and m: "(gone t, inside t, won t) = (gone t0, inside t0, won t0) \<or>
      (gone t, inside t, won t) = (gone t0, True, won t0) \<and> \<not> inside t0 \<or>
      (gone t, inside t, won t) = (True, False, won t0) \<and> \<not> gone t0 \<and> inside t0 \<or>
      (gone t, inside t, won t) = (gone t0, inside t0, True) \<and> \<not> won t0"
  shows "phase_inv (p\<lparr>bar := g\<rparr>)"
proof -
  have "in_step (p\<lparr>bar := g\<rparr>)"
    by (rule in_step_move [where p = p and i = i and t = t and ?t0.0 = t0]) (use p g t d m in \<open>simp_all add: phase_inv_def\<close>)
  then show ?thesis using p g t d idle by (auto simp: phase_inv_def)
qed

lemma phase_code_inv:
  fixes p :: "('i::finite) phases"
  assumes step: "rt_barrier_wait i (bar p) g" and p: "phase_inv p" and g: "bar_inv (int CARD('i)) g"
  shows "phase_inv (p\<lparr>bar := g\<rparr>)"
  using step
proof cases
  case bar_wait_test
  show ?thesis by (rule phase_inv_move [OF p g _ bar_wait_test(2)]) (use bar_wait_test(1) in \<open>auto simp: won_def split: if_splits\<close>)
next
  case bar_wait_cond
  then show ?thesis
  proof cases
    case cond_count
    show ?thesis by (rule phase_inv_move [OF p g _ cond_count(2)]) (use cond_count(1) in \<open>auto simp: won_def\<close>)
  next
    case cond_release
    show ?thesis by (rule phase_inv_move [OF p g _ cond_release(2)]) (use cond_release(1) in \<open>auto simp: won_def\<close>)
  next
    case cond_block
    show ?thesis by (rule phase_inv_move [OF p g _ cond_block(2)]) (use cond_block(1) in \<open>auto simp: won_def\<close>)
  next
    case cond_relock
    show ?thesis by (rule phase_inv_move [OF p g _ cond_relock(2)]) (use cond_relock(1) in \<open>auto simp: won_def split: if_splits\<close>)
  qed
next
  case (bar_wait_unlock c)
  show ?thesis by (rule phase_inv_move [OF p g _ bar_wait_unlock(2), of "Run (B_return c)"]) (use bar_wait_unlock(1) in \<open>auto simp: won_def\<close>)
next
  case bar_wait_check
  show ?thesis by (rule phase_inv_move [OF p g _ bar_wait_check(2)]) (use bar_wait_check(1) in \<open>auto simp: won_def split: if_splits\<close>)
next
  case bar_wait_sem
  show ?thesis by (rule phase_inv_move [OF p g _ bar_wait_sem(2)]) (use bar_wait_sem(1) in \<open>auto simp: won_def split: if_splits\<close>)
next
  case bar_wait_lock
  show ?thesis by (rule phase_inv_move [OF p g _ bar_wait_lock(2)]) (use bar_wait_lock(1) in \<open>auto simp: won_def split: if_splits\<close>)
next
  case bar_wait_inc
  show ?thesis by (rule phase_inv_move [OF p g _ bar_wait_inc(2)]) (use bar_wait_inc(1) in \<open>auto simp: won_def split: if_splits\<close>)
next
  case bar_wait_broadcast
  show ?thesis by (rule phase_inv_move [OF p g _ bar_wait_broadcast(2)]) (use bar_wait_broadcast(1) in \<open>auto simp: won_def split: if_splits\<close>)
next
  case bar_wait_dec
  show ?thesis by (rule phase_inv_move [OF p g _ bar_wait_dec(2)]) (use bar_wait_dec(1) in \<open>auto simp: won_def split: if_splits\<close>)
next
  case bar_wait_post
  show ?thesis by (rule phase_inv_move [OF p g _ bar_wait_post(2)]) (use bar_wait_post(1) in \<open>auto simp: won_def split: if_splits\<close>)
qed

lemma phase_wake_inv:
  fixes p :: "('i::finite) phases"
  assumes step: "th_wake (bar p) g" and p: "phase_inv p" and g: "bar_inv (int CARD('i)) g"
  shows "phase_inv (p\<lparr>bar := g\<rparr>)"
  using step
proof cases
  case (1 u m q)
  have "bar_at (int CARD('i)) (bar_tasks (dat (bar p))) (thr (bar p) u)" using p bar_invD(2) by (auto simp: phase_inv_def)
  then have "(m, q) \<in> {(Bar_sem, B_lock), (Bar_m, B_inc), (Bar_m, B_dec), (Bar_cond, B_relock)}" using 1(2) by auto
  then show ?thesis by (intro phase_inv_move [OF p g _ 1(2)]) (use 1(1) in \<open>auto simp: won_def\<close>)
qed

lemma phase_user_inv:
  fixes p :: "('i::finite) phases"
  assumes p: "phase_inv p" and g: "bar_inv (int CARD('i)) g" and step: "bar_user i (bar p) g"
  shows "thr (bar p) i = Run B_idle \<Longrightarrow> phase_inv (p\<lparr>bar := g, calls := (calls p)(i := calls p i + 1)\<rparr>)"
    and "thr (bar p) i = Run (B_return c) \<Longrightarrow> phase_inv (p\<lparr>bar := g, rets := (rets p)(i := rets p i + 1)\<rparr>)"
proof -
  have P: "(\<Sum>i \<in> UNIV. rets p i) = returned (dat (bar p))" "in_step p"
    "\<forall>i. calls p i = rets p i + of_bool (thr (bar p) i \<noteq> Run B_idle)" using p by (simp_all add: phase_inv_def)
  show "phase_inv (p\<lparr>bar := g, calls := (calls p)(i := calls p i + 1)\<rparr>)" if i: "thr (bar p) i = Run B_idle"
  proof -
    let ?p = "p\<lparr>bar := g, calls := (calls p)(i := calls p i + 1)\<rparr>"
    have g': "thr g = (thr (bar p))(i := Run B_sem)" "returned (dat g) = returned (dat (bar p))" "trues (dat g) = trues (dat (bar p))"
      using step i by (auto elim!: bar_user.cases)
    have "in_step ?p" by (rule in_step_same [OF P(2)])
      (use i g' counts_upd [of ?p p i "Run B_sem" "Run B_idle"] in \<open>simp_all add: won_def\<close>)
    then show ?thesis using P g g' i by (auto simp: phase_inv_def)
  qed
  show "phase_inv (p\<lparr>bar := g, rets := (rets p)(i := rets p i + 1)\<rparr>)" if i: "thr (bar p) i = Run (B_return c)"
  proof -
    let ?p = "p\<lparr>bar := g, rets := (rets p)(i := rets p i + 1)\<rparr>"
    have g': "thr g = (thr (bar p))(i := Run B_idle)" "returned (dat g) = returned (dat (bar p)) + 1"
      "trues (dat g) = trues (dat (bar p)) + of_bool c"
      using step i by (auto elim!: bar_user.cases)
    have "gone (Run (B_return c))" by (cases c) simp_all
    then have "outs ?p = outs p" "ins ?p = ins p" using g' i by (auto simp: fun_eq_iff outs_def ins_def)
    moreover have "resets g = resets (bar p)" using g' i by (cases c) (simp_all add: resets_def cnt_upd won_def)
    ultimately have "in_step ?p" by (intro in_step_same [OF P(2)]) simp_all
    moreover have "(\<Sum>j \<in> UNIV. rets ?p j) = (\<Sum>j \<in> UNIV. rets p j) + 1" by (simp add: sum.remove [of UNIV i])
    ultimately show ?thesis using P g g' i by (auto simp: phase_inv_def)
  qed
qed

lemma phase_bar_step: "phase_step p p' \<Longrightarrow> bar_step (bar p) (bar p')"
  by (auto elim!: phase_step.cases intro: bar_step.intros)

lemma phase_bar_reachable: "phase_step\<^sup>*\<^sup>* (phases_init n) p \<Longrightarrow> bar_step\<^sup>*\<^sup>* (rt_barrier_init n) (bar p)"
  by (induction rule: rtranclp_induct)
    (auto simp: phases_init_def dest: phase_bar_step intro: rtranclp.rtrancl_into_rtrancl)

lemma phase_reachable_inv:
  fixes p :: "('i::finite) phases"
  assumes "phase_step\<^sup>*\<^sup>* (phases_init (int CARD('i))) p" and n: "int CARD('i) < INT_MAX"
  shows "phase_inv p"
  using assms(1)
proof (induction rule: rtranclp_induct)
  case base
  show ?case using bar_init_inv [of "int CARD('i)"]
    by (simp add: phase_inv_def phases_init_def in_step_def outs_def resets_def rt_barrier_init_def won_def)
next
  case (step p p')
  have "phase_step\<^sup>*\<^sup>* (phases_init (int CARD('i))) p'" using step(1,2) by (rule rtranclp.rtrancl_into_rtrancl)
  then have g: "bar_inv (int CARD('i)) (bar p')" by (intro bar_reachable_inv [OF phase_bar_reachable _ _]) (use n in simp_all)
  from step(2) show ?case
    by cases (use step(3) g phase_code_inv phase_user_inv phase_wake_inv in auto)
qed

text \<open>The threads are at most one call apart.\<close>

lemma gone_or_inside: "gone t \<Longrightarrow> \<not> inside t" "gone t \<or> inside t \<Longrightarrow> t \<noteq> Run B_idle"
  by (cases t; auto)+

lemma phases_apart:
  assumes "phase_inv p" shows "rets p i \<le> calls p j"
proof -
  have le: "outs p k \<le> ins p k" for k by (simp add: ins_def)
  have "in_step p" using assms by (simp add: phase_inv_def)
  then have "outs p i \<le> ins p j" using le [of i] le [of j] unfolding in_step_def by (elim disjE) simp_all
  moreover have "rets p i \<le> outs p i" by (simp add: outs_def)
  moreover have "ins p j \<le> calls p j"
    using assms gone_or_inside [of "thr (bar p) j"] by (auto simp: phase_inv_def ins_def outs_def of_bool_def)
  ultimately show ?thesis by linarith
qed

text \<open>
  C17. The barrier separates phases: when as many threads use it as it has a count, and in any interleaving, no
  thread has returned from more calls than any other thread has begun. What a thread did before its \<open>k\<close>-th
  call is done when any thread goes on after its \<open>k\<close>-th.
\<close>

theorem barrier_separates_phases:
  fixes p :: "('i::finite) phases"
  assumes "phase_step\<^sup>*\<^sup>* (phases_init (int CARD('i))) p" and "int CARD('i) < INT_MAX"
  shows "\<forall>i j. rets p i \<le> calls p j"
  using phases_apart [OF phase_reachable_inv [OF assms]] by blast

text \<open>The first of two threads has called and waits: it has not returned, as the other has not called.\<close>

theorem barrier_separates_phases_witness:
  "\<exists>p :: bool phases. phase_step\<^sup>*\<^sup>* (phases_init 2) p \<and> thr (bar p) True = Waiting Bar_cond B_relock \<and>
     calls p True = 1 \<and> calls p False = 0 \<and> rets p True \<le> calls p False"
proof -
  let ?init = "phases_init 2 :: bool phases"
  let ?a1 = "th_data True (\<lambda>d. d\<lparr>begun := begun d + 1\<rparr>) B_sem (bar ?init)"
  let ?a2 = "th_wait True Bar_sem B_lock ?a1"
  let ?a3 = "th_wait True Bar_m B_inc ?a2"
  let ?a4 = "th_data True (\<lambda>d. d\<lparr>bar_tasks := bar_tasks d + 1\<rparr>) B_test ?a3"
  let ?a5 = "th_data True id B_count ?a4"
  let ?a6 = "th_fetch_sub True Bar_cond B_release ?a5"
  let ?a7 = "th_post True Bar_m 1 B_block ?a6"
  let ?a8 = "th_block True Bar_cond B_relock ?a7"
  let ?p = "\<lambda>g. \<lparr>bar = g, calls = (\<lambda>_. 0)(True := 1), rets = (\<lambda>_. 0)\<rparr> :: bool phases"
  have code: "phase_step (?p g) (?p g')" if "rt_barrier_wait True g g'" for g g'
    using phase_code [of True "?p g" g'] that by simp
  have i: "bar ?init = rt_barrier_init 2" by (simp add: phases_init_def)
  have "phase_step ?init (?init\<lparr>bar := ?a1, calls := (calls ?init)(True := calls ?init True + 1)\<rparr>)"
    by (rule phase_call [OF _ bar_call]) (simp_all add: i rt_barrier_init_def)
  moreover have "?init\<lparr>bar := ?a1, calls := (calls ?init)(True := calls ?init True + 1)\<rparr> = ?p ?a1" by (simp add: phases_init_def)
  ultimately have 1: "phase_step ?init (?p ?a1)" by simp
  have 2: "phase_step (?p ?a1) (?p ?a2)" by (rule code [OF bar_wait_sem]) simp
  have 3: "phase_step (?p ?a2) (?p ?a3)" by (rule code [OF bar_wait_lock]) (simp add: i rt_barrier_init_def)
  have 4: "phase_step (?p ?a3) (?p ?a4)" by (rule code [OF bar_wait_inc]) (simp add: i rt_barrier_init_def)
  have 5: "phase_step (?p ?a4) (?p ?a5)"
    using code [OF bar_wait_test, of ?a4] by (simp add: i rt_barrier_init_def)
  have 6: "phase_step (?p ?a5) (?p ?a6)" by (rule code [OF bar_wait_cond [OF cond_count]]) simp
  have 7: "phase_step (?p ?a6) (?p ?a7)" by (rule code [OF bar_wait_cond [OF cond_release]]) simp
  have 8: "phase_step (?p ?a7) (?p ?a8)" by (rule code [OF bar_wait_cond [OF cond_block]]) simp
  have r: "phase_step\<^sup>*\<^sup>* ?init (?p ?a8)"
    using 1 2 3 4 5 6 7 8 by (meson converse_rtranclp_into_rtranclp rtranclp.rtrancl_refl)
  have "\<forall>i j. rets (?p ?a8) i \<le> calls (?p ?a8) j" by (rule barrier_separates_phases) (use r in simp_all)
  then show ?thesis using r by (intro exI [of _ "?p ?a8"] conjI) simp_all
qed

end
