(* ===== verification/Ex_Water_Barrier.thy ===== *)
theory Ex_Water_Barrier
  imports Ex_Water Rt_Barrier_Phases
begin

text \<open>
  Water with a barrier, \<^verbatim>\<open>examples/water/barrier.c\<close>: two hydrogen atoms and one oxygen atom meet, the oxygen
  atom forms the molecule, and they meet again before they go.
\<close>

section \<open>The code\<close>

datatype wb_sem = Wb_h | Wb_o

datatype wb_pc =
    Hb_wait | Hb_call1 | Hb_in1 | Hb_call2 | Hb_in2 | Hb_post | Hb_bonded
  | Ob_wait | Ob_call1 | Ob_in1 | Ob_make | Ob_call2 | Ob_in2 | Ob_post | Ob_bonded

record 'i wb_data = water +
  barrier :: "'i phases"

type_synonym 'i wb = "('i, wb_sem, wb_pc, 'i wb_data) threads"

text \<open>A call of the barrier from the point \<open>p\<close>: the thread is at \<open>q\<close> until the call has returned, then at \<open>r\<close>.\<close>

definition wb_begin :: "'i \<Rightarrow> 'i bar \<Rightarrow> 'i wb_data \<Rightarrow> 'i wb_data" where
  "wb_begin i k d = d\<lparr>barrier := (barrier d)\<lparr>bar := k, calls := (calls (barrier d))(i := calls (barrier d) i + 1)\<rparr>\<rparr>"

definition wb_within :: "'i bar \<Rightarrow> 'i wb_data \<Rightarrow> 'i wb_data" where
  "wb_within k d = d\<lparr>barrier := (barrier d)\<lparr>bar := k\<rparr>\<rparr>"

definition wb_finish :: "'i \<Rightarrow> 'i bar \<Rightarrow> 'i wb_data \<Rightarrow> 'i wb_data" where
  "wb_finish i k d = d\<lparr>barrier := (barrier d)\<lparr>bar := k, rets := (rets (barrier d))(i := rets (barrier d) i + 1)\<rparr>\<rparr>"

inductive barrier_call :: "wb_pc \<Rightarrow> wb_pc \<Rightarrow> wb_pc \<Rightarrow> 'i \<Rightarrow> 'i wb \<Rightarrow> 'i wb \<Rightarrow> bool" for p q r i where
  wb_begins: "thr g i = Run p \<Longrightarrow> thr (bar (barrier (dat g))) i = Run B_idle \<Longrightarrow> bar_user i (bar (barrier (dat g))) k \<Longrightarrow>
    barrier_call p q r i g (th_data i (wb_begin i k) q g)"
| wb_goes_on: "thr g i = Run q \<Longrightarrow> rt_barrier_wait i (bar (barrier (dat g))) k \<Longrightarrow>
    barrier_call p q r i g (th_data i (wb_within k) q g)"
| wb_returns: "thr g i = Run q \<Longrightarrow> thr (bar (barrier (dat g))) i = Run (B_return c) \<Longrightarrow> bar_user i (bar (barrier (dat g))) k \<Longrightarrow>
    barrier_call p q r i g (th_data i (wb_finish i k) r g)"

inductive hydrogen_barrier :: "'i \<Rightarrow> 'i wb \<Rightarrow> 'i wb \<Rightarrow> bool" for i where
  hb_wait: "thr g i = Run Hb_wait \<Longrightarrow> hydrogen_barrier i g (th_wait i Wb_h Hb_call1 g)"
| hb_barrier1: "barrier_call Hb_call1 Hb_in1 Hb_call2 i g g' \<Longrightarrow> hydrogen_barrier i g g'"
| hb_barrier2: "barrier_call Hb_call2 Hb_in2 Hb_post i g g' \<Longrightarrow> hydrogen_barrier i g g'"
| hb_post: "thr g i = Run Hb_post \<Longrightarrow> hydrogen_barrier i g (th_post i Wb_h 1 Hb_bonded g)"

inductive oxygen_barrier :: "'i \<Rightarrow> 'i wb \<Rightarrow> 'i wb \<Rightarrow> bool" for i where
  ob_wait: "thr g i = Run Ob_wait \<Longrightarrow> oxygen_barrier i g (th_wait i Wb_o Ob_call1 g)"
| ob_barrier1: "barrier_call Ob_call1 Ob_in1 Ob_make i g g' \<Longrightarrow> oxygen_barrier i g g'"
| ob_make: "thr g i = Run Ob_make \<Longrightarrow> oxygen_barrier i g (make_water i Ob_call2 g)"
| ob_barrier2: "barrier_call Ob_call2 Ob_in2 Ob_post i g g' \<Longrightarrow> oxygen_barrier i g g'"
| ob_post: "thr g i = Run Ob_post \<Longrightarrow> oxygen_barrier i g (th_post i Wb_o 1 Ob_bonded g)"

inductive wb_step :: "('i::finite \<Rightarrow> atom) \<Rightarrow> 'i wb \<Rightarrow> 'i wb \<Rightarrow> bool" for atoms where
  wb_hydrogen: "atoms i = Hydrogen \<Longrightarrow> hydrogen_loop hydrogen_barrier Hb_wait Hb_bonded i g g' \<Longrightarrow> wb_step atoms g g'"
| wb_oxygen: "atoms i = Oxygen \<Longrightarrow> oxygen_loop oxygen_barrier Ob_wait Ob_bonded i g g' \<Longrightarrow> wb_step atoms g g'"
| wb_wake: "th_wake g g' \<Longrightarrow> wb_step atoms g g'"
| wb_wake_barrier: "th_wake (bar (barrier (dat g))) k \<Longrightarrow> wb_step atoms g (g\<lparr>dat := wb_within k (dat g)\<rparr>)"

definition wb_init :: "('i \<Rightarrow> atom) \<Rightarrow> 'i wb" where
  "wb_init atoms = \<lparr>val = (\<lambda>_. 0)(Wb_h := 2, Wb_o := 1), maxv = (\<lambda>_. INT_MAX),
     thr = (\<lambda>u. Run (case atoms u of Hydrogen \<Rightarrow> Hb_wait | Oxygen \<Rightarrow> Ob_wait)),
     dat = \<lparr>water_formed = 0, hydrogen_bonded = 0, oxygen_bonded = 0, barrier = phases_init 3\<rparr>\<rparr>"

section \<open>The invariant\<close>

text \<open>How many calls of its present round a thread has begun, and whether it is in one.\<close>

fun stage :: "(wb_sem, wb_pc) thread \<Rightarrow> int" where
  "stage (Run p) =
     (if p \<in> {Hb_in1, Hb_call2, Ob_in1, Ob_make, Ob_call2} then 1
      else if p \<in> {Hb_in2, Hb_post, Hb_bonded, Ob_in2, Ob_post, Ob_bonded} then 2 else 0)"
| "stage (Waiting m p) = 0"

definition in_call :: "(wb_sem, wb_pc) thread \<Rightarrow> bool" where
  "in_call t \<longleftrightarrow> t \<in> Run ` {Hb_in1, Hb_in2, Ob_in1, Ob_in2}"

definition made :: "(wb_sem, wb_pc) thread \<Rightarrow> bool" where
  "made t \<longleftrightarrow> t \<in> Run ` {Ob_call2, Ob_in2, Ob_post, Ob_bonded}"

fun wb_at :: "atom \<Rightarrow> (wb_sem, wb_pc) thread \<Rightarrow> bool" where
  "wb_at Hydrogen t = (t \<in> Run ` {Hb_wait, Hb_call1, Hb_in1, Hb_call2, Hb_in2, Hb_post, Hb_bonded} \<or> t = Waiting Wb_h Hb_call1)"
| "wb_at Oxygen t = (t \<in> Run ` {Ob_wait, Ob_call1, Ob_in1, Ob_make, Ob_call2, Ob_in2, Ob_post, Ob_bonded} \<or> t = Waiting Wb_o Ob_call1)"

definition past :: "'i wb \<Rightarrow> 'i \<Rightarrow> int" where
  "past g i = calls (barrier (dat g)) i - stage (thr g i)"

definition rounds :: "('i::finite \<Rightarrow> atom) \<Rightarrow> atom \<Rightarrow> 'i wb \<Rightarrow> int" where
  "rounds atoms a g = (\<Sum>i | atoms i = a. past g i)"

definition wb_inv :: "('i::finite \<Rightarrow> atom) \<Rightarrow> 'i wb \<Rightarrow> bool" where
  "wb_inv atoms g \<longleftrightarrow> phase_step\<^sup>*\<^sup>* (phases_init 3) (barrier (dat g)) \<and>
     (\<forall>i. wb_at (atoms i) (thr g i) \<and> even (past g i) \<and> rets (barrier (dat g)) i = calls (barrier (dat g)) i - of_bool (in_call (thr g i))) \<and>
     rounds atoms Hydrogen g = 2 * int (hydrogen_bonded (dat g)) \<and> rounds atoms Oxygen g = 2 * int (oxygen_bonded (dat g)) \<and>
     int (water_formed (dat g)) = int (oxygen_bonded (dat g)) + cnt made (thr g)"

lemma wb_invD:
  assumes "wb_inv atoms g"
  shows "phase_step\<^sup>*\<^sup>* (phases_init 3) (barrier (dat g))" "wb_at (atoms i) (thr g i)" "even (past g i)"
    "rets (barrier (dat g)) i = calls (barrier (dat g)) i - of_bool (in_call (thr g i))"
    "rounds atoms Hydrogen g = 2 * int (hydrogen_bonded (dat g))" "rounds atoms Oxygen g = 2 * int (oxygen_bonded (dat g))"
    "int (water_formed (dat g)) = int (oxygen_bonded (dat g)) + cnt made (thr g)"
  using assms by (simp_all add: wb_inv_def)

lemma wb_init_inv: "wb_inv atoms (wb_init atoms)"
proof -
  have "wb_at (atoms i) (thr (wb_init atoms) i)" "stage (thr (wb_init atoms) i) = 0" "\<not> in_call (thr (wb_init atoms) i)"
    "\<not> made (thr (wb_init atoms) i)" for i
    by (cases "atoms i"; auto simp: wb_init_def in_call_def made_def)+
  moreover from this have "cnt made (thr (wb_init atoms)) = 0" by (simp add: cnt_0)
  ultimately show ?thesis
    by (simp add: wb_inv_def rounds_def past_def) (simp add: wb_init_def phases_init_def)
qed

text \<open>A thread moves: what it changes of the barrier and of the counts.\<close>

lemma rounds_move:
  assumes "\<And>u. u \<noteq> i \<Longrightarrow> past g' u = past g u"
  shows "rounds atoms a g' = rounds atoms a g + (if atoms i = a then past g' i - past g i else 0)"
proof (cases "atoms i = a")
  case True
  then have "i \<in> {u. atoms u = a}" by simp
  then have "rounds atoms a h = past h i + (\<Sum>u \<in> {u. atoms u = a} - {i}. past h u)" for h
    unfolding rounds_def by (rule sum.remove [rotated]) simp
  moreover have "(\<Sum>u \<in> {u. atoms u = a} - {i}. past g' u) = (\<Sum>u \<in> {u. atoms u = a} - {i}. past g u)"
    using assms by (intro sum.cong) simp_all
  ultimately show ?thesis using True by simp
next
  case False
  have "past g' u = past g u" if "atoms u = a" for u using that False by (intro assms) auto
  then show ?thesis using False unfolding rounds_def by simp
qed

lemma wb_move:
  assumes g: "wb_inv atoms g" and t: "thr g' = (thr g)(i := t)" "wb_at (atoms i) t"
    and b: "phase_step\<^sup>*\<^sup>* (barrier (dat g)) (barrier (dat g'))"
      "\<And>u. u \<noteq> i \<Longrightarrow> calls (barrier (dat g')) u = calls (barrier (dat g)) u \<and> rets (barrier (dat g')) u = rets (barrier (dat g)) u"
      "rets (barrier (dat g')) i = calls (barrier (dat g')) i - of_bool (in_call t)"
    and p: "past g' i = past g i + 2 * int k"
    and h: "hydrogen_bonded (dat g') = hydrogen_bonded (dat g) + (if atoms i = Hydrogen then k else 0)"
      "oxygen_bonded (dat g') = oxygen_bonded (dat g) + (if atoms i = Oxygen then k else 0)"
      "int (water_formed (dat g')) = int (water_formed (dat g)) + (if atoms i = Oxygen then int k else 0) + of_bool (made t) - of_bool (made (thr g i))"
  shows "wb_inv atoms g'"
proof -
  note d = wb_invD [OF g]
  have past: "past g' u = past g u" if "u \<noteq> i" for u using that b(2) t(1) by (simp add: past_def)
  have r: "rounds atoms a g' = rounds atoms a g + (if atoms i = a then 2 * int k else 0)" for a
    using rounds_move [of i g' g atoms a] past p by simp
  have "wb_at (atoms u) (thr g' u) \<and> even (past g' u) \<and>
      rets (barrier (dat g')) u = calls (barrier (dat g')) u - of_bool (in_call (thr g' u))" for u
    using d(2-4) [of u] past [of u] p b(2) [of u] b(3) t by (cases "u = i") auto
  moreover have "phase_step\<^sup>*\<^sup>* (phases_init 3) (barrier (dat g'))" using d(1) b(1) by (rule rtranclp_trans)
  moreover have "cnt made (thr g') = cnt made (thr g) - of_bool (made (thr g i)) + of_bool (made t)" unfolding t(1) by (rule cnt_upd)
  ultimately show ?thesis using d(5-7) h unfolding wb_inv_def r by (auto split: if_splits)
qed

text \<open>The calls of the barrier.\<close>

lemma barrier_call_inv:
  assumes step: "barrier_call p q r i g g'" and g: "wb_inv atoms g"
    and at: "wb_at (atoms i) (Run q)" "wb_at (atoms i) (Run r)" and c: "in_call (Run q)" "\<not> in_call (Run p)" "\<not> in_call (Run r)"
    and s: "stage (Run q) = stage (Run p) + 1" "stage (Run r) = stage (Run q)"
    and m: "made (Run q) = made (Run p)" "made (Run r) = made (Run p)"
  shows "wb_inv atoms g'"
  using step
proof cases
  case (wb_begins k)
  have "phase_step (barrier (dat g)) (barrier (dat g'))" unfolding wb_begins(1)
    using phase_call [OF wb_begins(3,4)] by (simp add: wb_begin_def)
  then show ?thesis using wb_invD(4) [OF g, of i] wb_begins(1,2) c s m
    by (intro wb_move [OF g _ at(1), where k = 0]) (simp_all add: wb_begin_def past_def)
next
  case (wb_goes_on k)
  have "phase_step (barrier (dat g)) (barrier (dat g'))" unfolding wb_goes_on(1)
    using phase_code [OF wb_goes_on(3)] by (simp add: wb_within_def)
  then show ?thesis using wb_invD(4) [OF g, of i] wb_goes_on(1,2) c s m
    by (intro wb_move [OF g _ at(1), where k = 0]) (simp_all add: wb_within_def past_def)
next
  case (wb_returns x k)
  have "phase_step (barrier (dat g)) (barrier (dat g'))" unfolding wb_returns(1)
    using phase_return [OF wb_returns(3,4)] by (simp add: wb_finish_def)
  then show ?thesis using wb_invD(4) [OF g, of i] wb_returns(1,2) c s m
    by (intro wb_move [OF g _ at(2), where k = 0]) (simp_all add: wb_finish_def past_def)
qed

text \<open>The other steps of a thread.\<close>

lemma wb_local:
  assumes g: "wb_inv atoms g" and t: "thr g' = (thr g)(i := t)" "wb_at (atoms i) t" and d: "dat g' = dat g"
    and s: "stage t = stage (thr g i)" "in_call t = in_call (thr g i)" "made t = made (thr g i)"
  shows "wb_inv atoms g'"
  using wb_invD(4) [OF g, of i] t d s by (intro wb_move [OF g t, where k = 0]) (simp_all add: past_def)

lemma wb_hydrogen_inv:
  assumes "hydrogen_barrier i g g'" and g: "wb_inv atoms g" and i: "atoms i = Hydrogen"
  shows "wb_inv atoms g'"
  using assms(1)
proof cases
  case hb_wait
  let ?t = "if val g Wb_h > 0 then Run Hb_call1 else Waiting Wb_h Hb_call1"
  show ?thesis using hb_wait i by (intro wb_local [OF g, of _ i ?t]) (auto simp: in_call_def made_def)
next
  case hb_barrier1
  then show ?thesis by (rule barrier_call_inv [OF _ g]) (auto simp: i in_call_def made_def)
next
  case hb_barrier2
  then show ?thesis by (rule barrier_call_inv [OF _ g]) (auto simp: i in_call_def made_def)
next
  case hb_post
  then show ?thesis using i by (intro wb_local [OF g, of _ i "Run Hb_bonded"]) (auto simp: in_call_def made_def)
qed

lemma wb_oxygen_inv:
  assumes "oxygen_barrier i g g'" and g: "wb_inv atoms g" and i: "atoms i = Oxygen"
  shows "wb_inv atoms g'"
  using assms(1)
proof cases
  case ob_wait
  let ?t = "if val g Wb_o > 0 then Run Ob_call1 else Waiting Wb_o Ob_call1"
  show ?thesis using ob_wait i by (intro wb_local [OF g, of _ i ?t]) (auto simp: in_call_def made_def)
next
  case ob_barrier1
  then show ?thesis by (rule barrier_call_inv [OF _ g]) (auto simp: i in_call_def made_def)
next
  case ob_make
  then show ?thesis using i wb_invD(4) [OF g, of i]
    by (intro wb_move [OF g, where i = i and t = "Run Ob_call2" and k = 0]) (auto simp: make_water_def past_def in_call_def made_def)
next
  case ob_barrier2
  then show ?thesis by (rule barrier_call_inv [OF _ g]) (auto simp: i in_call_def made_def)
next
  case ob_post
  then show ?thesis using i by (intro wb_local [OF g, of _ i "Run Ob_bonded"]) (auto simp: in_call_def made_def)
qed

lemma wb_count_inv:
  assumes g: "wb_inv atoms g"
  shows "thr g i = Run Hb_bonded \<Longrightarrow> atoms i = Hydrogen \<Longrightarrow>
      wb_inv atoms (th_data i (\<lambda>d. d\<lparr>hydrogen_bonded := hydrogen_bonded d + 1\<rparr>) Hb_wait g)"
    and "thr g i = Run Ob_bonded \<Longrightarrow> atoms i = Oxygen \<Longrightarrow>
      wb_inv atoms (th_data i (\<lambda>d. d\<lparr>oxygen_bonded := oxygen_bonded d + 1\<rparr>) Ob_wait g)"
  using wb_invD(4) [OF g, of i]
  by (intro wb_move [OF g, where i = i and t = "Run Hb_wait" and k = 1] wb_move [OF g, where i = i and t = "Run Ob_wait" and k = 1];
      auto simp: past_def in_call_def made_def)+

lemma wb_wake_inv:
  assumes "th_wake g g'" and g: "wb_inv atoms g"
  shows "wb_inv atoms g'"
  using assms(1)
proof cases
  case (1 u m p)
  have "m = Wb_h \<and> p = Hb_call1 \<and> atoms u = Hydrogen \<or> m = Wb_o \<and> p = Ob_call1 \<and> atoms u = Oxygen"
    using wb_invD(2) [OF g, of u] 1(2) by (cases "atoms u") auto
  then show ?thesis using 1 by (intro wb_local [OF g, of _ u "Run p"]) (auto simp: in_call_def made_def)
qed

lemma wb_wake_barrier_inv:
  assumes "th_wake (bar (barrier (dat g))) k" and g: "wb_inv atoms g"
  shows "wb_inv atoms (g\<lparr>dat := wb_within k (dat g)\<rparr>)"
proof -
  have "phase_step (barrier (dat g)) (barrier (wb_within k (dat g)))" using phase_wake [OF assms(1)] by (simp add: wb_within_def)
  then show ?thesis using wb_invD(2,4) [OF g, of undefined]
    by (intro wb_move [OF g, where i = undefined and t = "thr g undefined" and k = 0]) (simp_all add: wb_within_def past_def)
qed

lemma wb_reachable_inv: "(wb_step atoms)\<^sup>*\<^sup>* (wb_init atoms) g \<Longrightarrow> wb_inv atoms g"
proof (induction rule: rtranclp_induct)
  case base
  show ?case by (rule wb_init_inv)
next
  case (step g g')
  note ih = step(3)
  from step(2) show ?case
  proof cases
    case (wb_hydrogen i)
    from wb_hydrogen(2) show ?thesis by cases (use ih wb_hydrogen(1) wb_hydrogen_inv wb_count_inv(1) in blast)+
  next
    case (wb_oxygen i)
    from wb_oxygen(2) show ?thesis by cases (use ih wb_oxygen(1) wb_oxygen_inv wb_count_inv(2) in blast)+
  next
    case wb_wake
    then show ?thesis using ih wb_wake_inv by blast
  next
    case (wb_wake_barrier k)
    then show ?thesis using ih wb_wake_barrier_inv by blast
  qed
qed

section \<open>The contract\<close>

text \<open>The barrier keeps the three tasks of the program within a call of each other, and with it their counts.\<close>

lemma stage_bounds: "of_bool (in_call t) \<le> stage t" "stage t \<le> 2" "of_bool (made t) \<le> stage t - of_bool (in_call t)"
  by (cases t; auto simp: in_call_def made_def)+

lemma stage_made: "wb_at Oxygen t \<Longrightarrow> stage t = 2 \<Longrightarrow> made t"
  by (cases t) (auto simp: made_def)

lemma wb_calls:
  fixes g :: "bool option wb"
  assumes g: "wb_inv three_atoms g"
  obtains w h1 h2 where "past g None = 2 * w" "past g (Some True) = 2 * h1" "past g (Some False) = 2 * h2"
    "w = int (oxygen_bonded (dat g))" "h1 + h2 = int (hydrogen_bonded (dat g))"
    "int (water_formed (dat g)) = w + of_bool (made (thr g None))"
proof -
  note d = wb_invD [OF g]
  have s: "{u. three_atoms u = Hydrogen} = {Some True, Some False}" "{u. three_atoms u = Oxygen} = {None}"
    by (auto simp: three_atoms_def split: option.splits)
  obtain w h1 h2 where p: "past g None = 2 * w" "past g (Some True) = 2 * h1" "past g (Some False) = 2 * h2"
    using d(3) by (metis evenE)
  have "made (thr g u) \<Longrightarrow> u = None" for u using d(2) [of u] by (cases u) (auto simp: made_def)
  then have "{u. made (thr g u)} = (if made (thr g None) then {None} else {})" by auto
  then have "cnt made (thr g) = of_bool (made (thr g None))" by (simp add: cnt_card)
  then have "w = int (oxygen_bonded (dat g))" "h1 + h2 = int (hydrogen_bonded (dat g))"
    "int (water_formed (dat g)) = w + of_bool (made (thr g None))"
    using p d(5-7) by (simp_all add: rounds_def s)
  then show ?thesis using that p by blast
qed

lemma wb_apart:
  fixes g :: "bool option wb"
  assumes "wb_inv three_atoms g"
  shows "rets (barrier (dat g)) i \<le> calls (barrier (dat g)) j"
proof -
  have "phase_inv (barrier (dat g))" by (rule phase_reachable_inv) (use wb_invD(1) [OF assms] in simp_all)
  then show ?thesis by (rule phases_apart)
qed

lemma wb_balanced:
  fixes g :: "bool option wb"
  assumes g: "wb_inv three_atoms g"
  shows "balanced three_atoms (dat g)"
proof -
  note d = wb_invD [OF g]
  obtain w h1 h2 where p: "past g None = 2 * w" "past g (Some True) = 2 * h1" "past g (Some False) = 2 * h2"
    "w = int (oxygen_bonded (dat g))" "h1 + h2 = int (hydrogen_bonded (dat g))"
    "int (water_formed (dat g)) = w + of_bool (made (thr g None))"
    using wb_calls [OF g] .
  let ?w = "int (water_formed (dat g))"
  have "h \<le> ?w \<and> ?w \<le> h + 1" if "past g (Some b) = 2 * h" for b h
  proof -
    have "2 * h \<le> rets (barrier (dat g)) (Some b)"
      using that d(4) [of "Some b"] stage_bounds(1) [of "thr g (Some b)"] by (simp add: past_def)
    also have "\<dots> \<le> calls (barrier (dat g)) None" by (rule wb_apart [OF g])
    also have "\<dots> = 2 * w + stage (thr g None)" using p(1) by (simp add: past_def)
    finally have le: "2 * h \<le> 2 * w + stage (thr g None)" .
    have "2 * w + of_bool (made (thr g None)) \<le> rets (barrier (dat g)) None"
      using p(1) d(4) [of None] stage_bounds(3) [of "thr g None"] by (simp add: past_def)
    also have "\<dots> \<le> calls (barrier (dat g)) (Some b)" by (rule wb_apart [OF g])
    also have "\<dots> \<le> 2 * h + 2" using that stage_bounds(2) [of "thr g (Some b)"] by (simp add: past_def)
    finally have ge: "2 * w + of_bool (made (thr g None)) \<le> 2 * h + 2" .
    have "made (thr g None) \<or> stage (thr g None) < 2"
      using stage_made [of "thr g None"] stage_bounds(2) [of "thr g None"] d(2) [of None] by fastforce
    then show ?thesis using le ge p(6) stage_bounds(2) [of "thr g None"] by (cases "made (thr g None)") auto
  qed
  from this [OF p(2)] this [OF p(3)] show ?thesis
    using p(4-6) unfolding balanced_def three_atoms_card by (cases "made (thr g None)") simp_all
qed

interpretation wb_reaction: reaction three_atoms "wb_step three_atoms" "wb_init three_atoms" dat
  by unfold_locales (rule wb_balanced [OF wb_reachable_inv])

section \<open>A molecule\<close>

text \<open>The three tasks can form a molecule: the two hydrogen atoms arrive and wait, and the oxygen atom is the last.\<close>

definition arrived :: "'i \<Rightarrow> 'i bar \<Rightarrow> 'i bar" where
  "arrived i k = th_block i Bar_cond B_relock (th_post i Bar_m 1 B_block (th_fetch_sub i Bar_cond B_release
     (th_data i id B_count (th_data i (\<lambda>d. d\<lparr>bar_tasks := bar_tasks d + 1\<rparr>) B_test (th_wait i Bar_m B_inc (th_wait i Bar_sem B_lock k))))))"

lemma arrived_run:
  assumes "thr k i = Run B_sem" "0 < val k Bar_sem" "0 < val k Bar_m" "bar_tasks (dat k) + 1 \<noteq> bar_count (dat k)"
  shows "(rt_barrier_wait i)\<^sup>*\<^sup>* k (arrived i k)"
proof -
  let ?a2 = "th_wait i Bar_sem B_lock k"
  let ?a3 = "th_wait i Bar_m B_inc ?a2"
  let ?a4 = "th_data i (\<lambda>d. d\<lparr>bar_tasks := bar_tasks d + 1\<rparr>) B_test ?a3"
  let ?a5 = "th_data i id B_count ?a4"
  let ?a6 = "th_fetch_sub i Bar_cond B_release ?a5"
  let ?a7 = "th_post i Bar_m 1 B_block ?a6"
  have "rt_barrier_wait i k ?a2" using assms by (intro bar_wait_sem)
  moreover have "rt_barrier_wait i ?a2 ?a3" using assms by (intro bar_wait_lock) simp
  moreover have "rt_barrier_wait i ?a3 ?a4" using assms by (intro bar_wait_inc) simp
  moreover have "rt_barrier_wait i ?a4 ?a5" using bar_wait_test [of ?a4 i] assms by simp
  moreover have "rt_barrier_wait i ?a5 ?a6" by (intro bar_wait_cond cond_count) simp
  moreover have "rt_barrier_wait i ?a6 ?a7" by (intro bar_wait_cond cond_release) simp
  moreover have "rt_barrier_wait i ?a7 (arrived i k)" unfolding arrived_def by (intro bar_wait_cond cond_block) simp
  ultimately show ?thesis by (meson converse_rtranclp_into_rtranclp rtranclp.rtrancl_refl)
qed

definition completed :: "'i \<Rightarrow> 'i bar \<Rightarrow> 'i bar" where
  "completed i k = th_post i Bar_m 1 (B_return False) (th_data i id (B_unlock False)
     (th_data i (\<lambda>d. d\<lparr>bar_tasks := bar_tasks d - 1\<rparr>) B_check (th_post i Bar_cond INT_MAX B_dec
     (th_data i id B_broadcast (th_data i (\<lambda>d. d\<lparr>bar_tasks := bar_tasks d + 1\<rparr>) B_test
     (th_wait i Bar_m B_inc (th_wait i Bar_sem B_lock k)))))))"

lemma completed_run:
  assumes "thr k i = Run B_sem" "0 < val k Bar_sem" "0 < val k Bar_m" "bar_tasks (dat k) + 1 = bar_count (dat k)" "bar_tasks (dat k) \<noteq> 0"
  shows "(rt_barrier_wait i)\<^sup>*\<^sup>* k (completed i k)"
proof -
  let ?a2 = "th_wait i Bar_sem B_lock k"
  let ?a3 = "th_wait i Bar_m B_inc ?a2"
  let ?a4 = "th_data i (\<lambda>d. d\<lparr>bar_tasks := bar_tasks d + 1\<rparr>) B_test ?a3"
  let ?a5 = "th_data i id B_broadcast ?a4"
  let ?a6 = "th_post i Bar_cond INT_MAX B_dec ?a5"
  let ?a7 = "th_data i (\<lambda>d. d\<lparr>bar_tasks := bar_tasks d - 1\<rparr>) B_check ?a6"
  let ?a8 = "th_data i id (B_unlock False) ?a7"
  have "rt_barrier_wait i k ?a2" using assms by (intro bar_wait_sem)
  moreover have "rt_barrier_wait i ?a2 ?a3" using assms by (intro bar_wait_lock) simp
  moreover have "rt_barrier_wait i ?a3 ?a4" using assms by (intro bar_wait_inc) simp
  moreover have "rt_barrier_wait i ?a4 ?a5" using bar_wait_test [of ?a4 i] assms by simp
  moreover have "rt_barrier_wait i ?a5 ?a6" by (intro bar_wait_broadcast) simp
  moreover have "rt_barrier_wait i ?a6 ?a7" by (intro bar_wait_dec) simp
  moreover have "rt_barrier_wait i ?a7 ?a8" using bar_wait_check [of ?a7 i] assms by simp
  moreover have "rt_barrier_wait i ?a8 (completed i k)" unfolding completed_def by (intro bar_wait_unlock) simp
  ultimately show ?thesis by (meson converse_rtranclp_into_rtranclp rtranclp.rtrancl_refl)
qed

lemma arrived_simps [simp]:
  assumes "0 < val k Bar_sem" "0 < val k Bar_m"
  shows "thr (arrived i k) = (thr k)(i := Waiting Bar_cond B_relock)" "val (arrived i k) Bar_sem = val k Bar_sem - 1"
    "maxv (arrived i k) = maxv k" "dat (arrived i k) = (dat k)\<lparr>bar_tasks := bar_tasks (dat k) + 1\<rparr>"
    "val (arrived i k) Bar_m = new_value (val k Bar_m - 1) 1 (maxv k Bar_m)"
  using assms by (simp_all add: arrived_def)

lemma wb_run:
  assumes "(rt_barrier_wait i)\<^sup>*\<^sup>* k k'" and "thr g i = Run q" "bar (barrier (dat g)) = k"
  shows "(barrier_call p q r i)\<^sup>*\<^sup>* g (th_data i (wb_within k') q g)"
  using assms(1)
proof (induction rule: rtranclp_induct)
  case base
  have "th_data i (wb_within k) q g = g" using assms(2,3) by (simp add: th_data_def th_goto_def wb_within_def fun_upd_idem)
  then show ?case by simp
next
  case (step k1 k2)
  have "barrier_call p q r i (th_data i (wb_within k1) q g) (th_data i (wb_within k2) q (th_data i (wb_within k1) q g))"
    using step(2) by (intro wb_goes_on) (simp_all add: wb_within_def)
  moreover have "th_data i (wb_within k2) q (th_data i (wb_within k1) q g) = th_data i (wb_within k2) q g"
    by (simp add: th_data_def th_goto_def wb_within_def)
  ultimately show ?case using step(3) by simp
qed

lemma rtranclp_mono_le: "(\<And>x y. R x y \<Longrightarrow> S x y) \<Longrightarrow> R\<^sup>*\<^sup>* x y \<Longrightarrow> S\<^sup>*\<^sup>* x y"
  by (metis mono_rtranclp)

text \<open>Where the tasks are: the state of the tasks, the barrier's semaphores and count.\<close>

definition wb_view :: "'i wb \<Rightarrow> ('i \<Rightarrow> (wb_sem, wb_pc) thread) \<Rightarrow> int \<Rightarrow> ('i \<Rightarrow> (bar_sem, bar_pc) thread) \<Rightarrow> int \<Rightarrow> int \<Rightarrow> bool" where
  "wb_view g t h u s n \<longleftrightarrow> thr g = t \<and> val g Wb_h = h \<and> val g Wb_o = 1 \<and> water_formed (dat g) = 0 \<and>
     (let k = bar (barrier (dat g)) in thr k = u \<and> val k Bar_sem = s \<and> val k Bar_m = 1 \<and> maxv k Bar_m = 1 \<and>
       bar_tasks (dat k) = n \<and> bar_count (dat k) = 3)"

lemma hydrogen_arrives:
  assumes g: "wb_view g t h u s n" and i: "three_atoms i = Hydrogen" "t i = Run Hb_wait" "u i = Run B_idle" and p: "0 < h" "0 < s" "n < 2"
  shows "\<exists>g'. (wb_step three_atoms)\<^sup>*\<^sup>* g g' \<and> wb_view g' (t(i := Run Hb_in1)) (h - 1) (u(i := Waiting Bar_cond B_relock)) (s - 1) (n + 1)"
proof -
  let ?k = "bar (barrier (dat g))" let ?c = "th_data i (\<lambda>d. d\<lparr>begun := begun d + 1\<rparr>) B_sem ?k"
  let ?g1 = "th_wait i Wb_h Hb_call1 g" let ?g2 = "th_data i (wb_begin i ?c) Hb_in1 ?g1"
  let ?g3 = "th_data i (wb_within (arrived i ?c)) Hb_in1 ?g2"
  note v = g [unfolded wb_view_def Let_def]
  have h: "wb_step three_atoms x y" if "hydrogen_barrier i x y" for x y using i(1) that by (intro wb_hydrogen [of three_atoms i] hydrogen_fn)
  have "wb_step three_atoms g ?g1" using v i by (intro h hb_wait) simp
  moreover have "wb_step three_atoms ?g1 ?g2" using v i p by (intro h hb_barrier1 wb_begins) (simp_all add: bar_call)
  moreover have "(barrier_call Hb_call1 Hb_in1 Hb_call2 i)\<^sup>*\<^sup>* ?g2 ?g3"
    using v p by (intro wb_run [OF arrived_run]) (simp_all add: wb_begin_def)
  then have "(wb_step three_atoms)\<^sup>*\<^sup>* ?g2 ?g3" by (rule rtranclp_mono_le [rotated]) (rule h [OF hb_barrier1])
  ultimately have "(wb_step three_atoms)\<^sup>*\<^sup>* g ?g3" by (meson converse_rtranclp_into_rtranclp)
  moreover have "wb_view ?g3 (t(i := Run Hb_in1)) (h - 1) (u(i := Waiting Bar_cond B_relock)) (s - 1) (n + 1)"
    using v p unfolding wb_view_def Let_def by (simp add: wb_begin_def wb_within_def new_value_def)
  ultimately show ?thesis by blast
qed

lemma oxygen_completes:
  assumes g: "wb_view g t h u s 2" and i: "three_atoms i = Oxygen" "t i = Run Ob_wait" "u i = Run B_idle" and p: "0 < s"
  shows "\<exists>g'. (wb_step three_atoms)\<^sup>*\<^sup>* g g' \<and> water_formed (dat g') = 1"
proof -
  let ?k = "bar (barrier (dat g))" let ?c = "th_data i (\<lambda>d. d\<lparr>begun := begun d + 1\<rparr>) B_sem ?k"
  let ?g1 = "th_wait i Wb_o Ob_call1 g" let ?g2 = "th_data i (wb_begin i ?c) Ob_in1 ?g1"
  let ?g3 = "th_data i (wb_within (completed i ?c)) Ob_in1 ?g2"
  let ?r = "th_data i (\<lambda>d. d\<lparr>returned := returned d + 1, trues := trues d + of_bool False\<rparr>) B_idle (completed i ?c)"
  let ?g4 = "th_data i (wb_finish i ?r) Ob_make ?g3" let ?g5 = "make_water i Ob_call2 ?g4"
  note v = g [unfolded wb_view_def Let_def]
  have o: "wb_step three_atoms x y" if "oxygen_barrier i x y" for x y using i(1) that by (intro wb_oxygen [of three_atoms i] oxygen_fn)
  have c: "thr (completed i ?c) i = Run (B_return False)" by (simp add: completed_def)
  have "wb_step three_atoms g ?g1" using v i by (intro o ob_wait) simp
  moreover have "wb_step three_atoms ?g1 ?g2" using v i p by (intro o ob_barrier1 wb_begins) (simp_all add: bar_call)
  moreover have "(barrier_call Ob_call1 Ob_in1 Ob_make i)\<^sup>*\<^sup>* ?g2 ?g3"
    using v p by (intro wb_run [OF completed_run]) (simp_all add: wb_begin_def)
  then have "(wb_step three_atoms)\<^sup>*\<^sup>* ?g2 ?g3" by (rule rtranclp_mono_le [rotated]) (rule o [OF ob_barrier1])
  moreover have "barrier_call Ob_call1 Ob_in1 Ob_make i ?g3 ?g4"
    using c bar_return [OF c] by (intro wb_returns [where c = False]) (simp_all add: wb_within_def)
  then have "wb_step three_atoms ?g3 ?g4" by (intro o ob_barrier1)
  moreover have "wb_step three_atoms ?g4 ?g5" by (intro o ob_make) simp
  ultimately have "(wb_step three_atoms)\<^sup>*\<^sup>* g ?g5"
    by (meson converse_rtranclp_into_rtranclp rtranclp_trans rtranclp.rtrancl_refl)
  moreover have "water_formed (dat ?g5) = 1" using v by (simp add: make_water_def wb_begin_def wb_within_def wb_finish_def)
  ultimately show ?thesis by blast
qed

lemma wb_molecule: "\<exists>g. (wb_step three_atoms)\<^sup>*\<^sup>* (wb_init three_atoms) g \<and> water_formed (dat g) = 1"
proof -
  have "wb_view (wb_init three_atoms) (thr (wb_init three_atoms)) 2 (\<lambda>_. Run B_idle) 3 0"
    by (simp add: wb_view_def wb_init_def phases_init_def rt_barrier_init_def)
  from hydrogen_arrives [OF this, of "Some True"] obtain g1 where 1: "(wb_step three_atoms)\<^sup>*\<^sup>* (wb_init three_atoms) g1"
    "wb_view g1 ((thr (wb_init three_atoms))(Some True := Run Hb_in1)) 1 ((\<lambda>_. Run B_idle)(Some True := Waiting Bar_cond B_relock)) 2 1"
    by (auto simp: wb_init_def)
  from hydrogen_arrives [OF 1(2), of "Some False"] obtain g2 where 2: "(wb_step three_atoms)\<^sup>*\<^sup>* g1 g2"
    "wb_view g2 ((thr (wb_init three_atoms))(Some True := Run Hb_in1, Some False := Run Hb_in1)) 0
      ((\<lambda>_. Run B_idle)(Some True := Waiting Bar_cond B_relock, Some False := Waiting Bar_cond B_relock)) 1 2"
    by (auto simp: wb_init_def)
  from oxygen_completes [OF 2(2), of None] obtain g where "(wb_step three_atoms)\<^sup>*\<^sup>* g2 g" "water_formed (dat g) = 1"
    by (auto simp: wb_init_def)
  with 1(1) 2(1) show ?thesis by (meson rtranclp_trans)
qed

end
