(* ===== verification/Ex_Water_Run.thy ===== *)
theory Ex_Water_Run
  imports Ex_Water_Sem Ex_Water_Cond Ex_Water_Barrier
begin

text \<open>
  The programs \<^verbatim>\<open>examples/water\<close> as a whole: \<^verbatim>\<open>main\<close> finds what it expects, whenever the scheduler is
  stopped, with \<^verbatim>\<open>sem.c\<close>, with \<^verbatim>\<open>cond.c\<close> and with \<^verbatim>\<open>barrier.c\<close>.
\<close>

text \<open>
  C25. With two hydrogen tasks and one oxygen task, and whenever the scheduler is stopped once water was
  formed, no atom is bonded that is not part of a molecule and at most one molecule's atoms are
  still to be counted, so \<^verbatim>\<open>main\<close> returns success, for the semaphores of \<^verbatim>\<open>sem.c\<close>, for the
  condition variables of \<^verbatim>\<open>cond.c\<close> and for the barrier of \<^verbatim>\<open>barrier.c\<close>, which takes exactly the three tasks of
  the program. The bound keeps \<^verbatim>\<open>w * 2\<close> from wrapping.
\<close>

theorem water_main_succeeds:
  fixes atoms :: "'i::finite \<Rightarrow> atom"
  assumes "card {u. atoms u = Hydrogen} \<le> 2" and "card {u. atoms u = Oxygen} \<le> 1"
  shows "(\<forall>g. (ws_step atoms)\<^sup>*\<^sup>* (ws_init atoms) g \<and> 1 \<le> water_formed (dat g) \<and> water_formed (dat g) < 2 ^ 31 \<longrightarrow>
       balanced atoms (dat g) \<and> water_main (dat g) = 0) \<and>
     (\<forall>g. (wc_step atoms)\<^sup>*\<^sup>* (wc_init atoms) g \<and> 1 \<le> water_formed (dat g) \<and> water_formed (dat g) < 2 ^ 31 \<longrightarrow>
       balanced atoms (dat g) \<and> water_main (dat g) = 0) \<and>
     (\<forall>g. (wb_step three_atoms)\<^sup>*\<^sup>* (wb_init three_atoms) g \<and> 1 \<le> water_formed (dat g) \<and> water_formed (dat g) < 2 ^ 31 \<longrightarrow>
       balanced three_atoms (dat g) \<and> water_main (dat g) = 0)"
  using ws_reaction.main_succeeds [OF _ assms] ws_reaction.balance wc_reaction.main_succeeds [OF _ assms] wc_reaction.balance
    wb_reaction.main_succeeds [unfolded three_atoms_card, OF _ order_refl order_refl] wb_reaction.balance
  by blast

text \<open>The first molecule of \<^verbatim>\<open>sem.c\<close>; that \<^verbatim>\<open>barrier.c\<close> reaches one is \<open>wb_molecule\<close>.\<close>

definition ws_first :: "bool option ws" where
  "ws_first = make_water None Ws_o_post1 (th_wait None Ws_h2ready Ws_o_make (th_post (Some True) Ws_h2ready 1 Ws_h_wait
     (th_data (Some True) (\<lambda>d. d\<lparr>rxn_h := rxn_h d + 1\<rparr>) Ws_h_post
     (th_data (Some False) (\<lambda>d. d\<lparr>rxn_h := rxn_h d + 1\<rparr>) Ws_h_wait (ws_init three_atoms)))))"

lemma ws_first_reachable: "(ws_step three_atoms)\<^sup>*\<^sup>* (ws_init three_atoms) ws_first"
proof -
  let ?w = "ws_step three_atoms" and ?b = "ws_init three_atoms"
  let ?add = "\<lambda>d. d\<lparr>rxn_h := rxn_h d + 1\<rparr>"
  let ?c = "th_data (Some False) ?add Ws_h_wait ?b"
  let ?d = "th_data (Some True) ?add Ws_h_post ?c"
  let ?e = "th_post (Some True) Ws_h2ready 1 Ws_h_wait ?d"
  let ?f = "th_wait None Ws_h2ready Ws_o_make ?e"
  have h: "?w g g'" if "hydrogen_sem (Some b) g g'" for b g g'
    using that by (intro ws_hydrogen [of three_atoms "Some b"] hydrogen_fn) simp_all
  have o: "?w g g'" if "oxygen_sem None g g'" for g g'
    using that by (intro ws_oxygen [of three_atoms None] oxygen_fn) simp_all
  have "?w ?b ?c" using hs_add [of ?b "Some False"] by (intro h [of False]) (simp add: ws_init_def new_value_def)
  moreover have "?w ?c ?d" using hs_add [of ?c "Some True"] by (intro h [of True]) (simp add: ws_init_def new_value_def)
  moreover have "?w ?d ?e" by (intro h [of True] hs_post) simp
  moreover have "?w ?e ?f" by (intro o os_wait) (simp add: ws_init_def new_value_def)
  moreover have "?w ?f ws_first" unfolding ws_first_def by (intro o os_make) (simp add: ws_init_def new_value_def)
  ultimately show ?thesis by (meson converse_rtranclp_into_rtranclp rtranclp.rtrancl_refl)
qed

theorem water_main_succeeds_witness:
  "(ws_step three_atoms)\<^sup>*\<^sup>* (ws_init three_atoms) ws_first \<and> water_formed (dat ws_first) = 1 \<and>
   hydrogen_bonded (dat ws_first) = 0 \<and> oxygen_bonded (dat ws_first) = 0 \<and> water_main (dat ws_first) = 0 \<and>
   (\<exists>g. (wb_step three_atoms)\<^sup>*\<^sup>* (wb_init three_atoms) g \<and> water_formed (dat g) = 1 \<and> water_main (dat g) = 0)"
proof -
  have f: "water_formed (dat ws_first) = 1" "hydrogen_bonded (dat ws_first) = 0" "oxygen_bonded (dat ws_first) = 0"
    by (simp_all add: ws_first_def make_water_def ws_init_def)
  note ok = water_main_succeeds [of three_atoms, unfolded three_atoms_card, OF order_refl order_refl]
  obtain g where g: "(wb_step three_atoms)\<^sup>*\<^sup>* (wb_init three_atoms) g" "water_formed (dat g) = 1" using wb_molecule by blast
  have "water_main (dat g) = 0" using ok g by simp
  moreover have "water_main (dat ws_first) = 0" using ok f ws_first_reachable by simp
  ultimately show ?thesis using f g ws_first_reachable by blast
qed

end
