(* ===== verification/Spec2Isabelle.thy ===== *)
theory Spec2Isabelle
  imports Rt_Boot Rt_Queue Rt_Cond Rt_Notify Rt_Atomic Rt_Once Rt_Rwlock Rt_Barrier Rt_Arm_Mpu
    Rt_Arm_R_Switch Rt_Mpu_Attr Rt_Pthread_Stop Rt_Task_Static Rt_First_Task Rt_Cycle
    Ex_List Ex_Mutex Ex_Once Ex_Rwlock Ex_Water_Run
begin

text \<open>
  Verification of muntos, a small preemptive real-time kernel in C.

  \<^bold>\<open>The program.\<close> A system has tasks with priorities and interrupts. All changes of the kernel's
  queues happen in one place, the handler of the system call interrupt: a task or an interrupt
  fills in a record, pushes it on a lock-free stack and pends the handler (\<^verbatim>\<open>rt_syscall\<close>); the
  handler takes all records, acts on each and chooses the task to run (\<^verbatim>\<open>rt_syscall_run\<close>).
  Semaphores keep an atomic value that tasks and interrupts change without the handler when nobody
  has to wait or wake. Everything else is built from semaphores: mutexes, condition variables,
  notifications, queues, one-time calls, readers-writer locks and barriers.

  \<^bold>\<open>Theories and sources.\<close>

  \<^item> \<open>Muntos_Prelude\<close>: the C integer types of a 32-bit target, ordered insertion and the locale
    \<open>comparator\<close> of its laws, word arithmetic.
  \<^item> \<open>Rt_List\<close>: \<^verbatim>\<open>src/list.c\<close>. A heap maps the address of a node to its two pointers; each function
    of the file is one definition. The locale \<open>node_lists\<close> is the contract (what each operation does
    to the list that a heap represents, and that it leaves other lists alone), \<open>rt_lists\<close> its
    interpretation on the pointer code.
  \<^item> \<open>Rt_Types\<close>, \<open>Rt_Kernel\<close>: the structures of \<^verbatim>\<open>task.h\<close>, \<^verbatim>\<open>syscall.h\<close> and \<^verbatim>\<open>sem.h\<close>, the static
    variables and every function of \<^verbatim>\<open>src/muntos.c\<close>. Undefined behaviour and a loop that does not
    end are the value \<^const>\<open>None\<close>; the theorems show that there is neither.
  \<^item> \<open>Rt_Queues\<close>, \<open>Rt_Wake\<close>, \<open>Rt_Tick\<close>, \<open>Rt_Flags\<close>, \<open>Rt_Syscall\<close>, \<open>Rt_Sched\<close>: the abstract queues
    (lists of tasks), the relation \<open>refines\<close> between them and the pointer heap, the invariant
    \<open>queues_ok\<close>, and one refinement lemma for each function of the kernel up to \<open>rt_syscall_run\<close>.
  \<^item> \<open>Rt_Sem\<close>, \<open>Rt_Sleep\<close>: \<^verbatim>\<open>src/sem.c\<close>, \<^verbatim>\<open>sem.h\<close>, \<^verbatim>\<open>src/sleep.c\<close>. A function that submits a system
    call gives the state in which the call is pending.
  \<^item> \<open>Rt_System\<close>: the kernel as a transition system in which interrupts come between any two atomic
    steps of a task, its reachable states and their invariant. \<open>Rt_Boot\<close>: concrete states.
    \<open>Rt_Task_Static\<close>: the macros of \<^verbatim>\<open>task.h\<close> for tasks in static memory, which come to the same
    state as \<^verbatim>\<open>rt_task_init\<close>; \<open>Rt_First_Task\<close>: which of a program's tasks runs first.
    \<open>Rt_Cycle\<close>: the cycle counts of the tasks, with the counter's readings as arguments.
  \<^item> \<open>Rt_Mutex\<close>, \<open>Rt_Cond\<close>, \<open>Rt_Notify\<close>: \<^verbatim>\<open>src/mutex.c\<close>, \<^verbatim>\<open>src/cond.c\<close>, \<^verbatim>\<open>src/notify.c\<close> on the
    kernel model. A function that blocks in the middle is given as the parts between which other
    tasks run.
  \<^item> \<open>Rt_Queue\<close>: \<^verbatim>\<open>src/queue.c\<close> and \<^verbatim>\<open>queue.h\<close>, with slots as bytes and positions as words. The locale
    \<open>bounded_fifo\<close> is the contract of a bounded queue, \<open>rt_fifo\<close> its interpretation on the code.
  \<^item> \<open>Rt_Threads\<close>: threads that share semaphores, interleaved in any order, as the clients of
    semaphores see them, with the locale \<open>mutex_user\<close> of programs that use a mutex; \<open>Rt_Once\<close>
    (\<^verbatim>\<open>src/once.c\<close>, \<^verbatim>\<open>once.h\<close>), \<open>Rt_Rwlock\<close> (\<^verbatim>\<open>src/rwlock.c\<close>) and \<open>Rt_Barrier\<close>
    (\<^verbatim>\<open>src/barrier.c\<close>, with \<open>Rt_Barrier_Phases\<close>) interpret it. In them each function is a step relation whose program points
    lie between its accesses to shared data. \<open>Rt_Units\<close> has the locale \<open>units_user\<close> of programs that
    count with a semaphore.
  \<^item> The programs of \<^verbatim>\<open>examples\<close>: \<open>Ex_List\<close> (\<^verbatim>\<open>list.c\<close>, \<^verbatim>\<open>pq.c\<close>) on the heap of \<open>Rt_List\<close>; \<open>Ex_Mutex\<close>,
    \<open>Ex_Once\<close>, \<open>Ex_Rwlock\<close> and \<open>Ex_Water\<close> (\<^verbatim>\<open>water/water.c\<close>) as threads, the latter with \<open>Ex_Water_Sem\<close>,
    \<open>Ex_Water_Cond\<close> and \<open>Ex_Water_Barrier\<close> as interpretations of the locale \<open>reaction\<close> of its two functions, and
    \<open>Ex_Water_Run\<close>.
  \<^item> \<open>Rt_Atomic\<close>: \<^verbatim>\<open>arch/arm/m/atomic-v6.c\<close>, and the compare-exchange loops of \<^verbatim>\<open>src/sem.c\<close> and
    \<^verbatim>\<open>src/muntos.c\<close> under interference, which justify that the kernel model makes them one step.
  \<^item> \<open>Rt_Mpu\<close>, \<open>Rt_Mpu_V8\<close>, \<open>Rt_Mpu_Attr\<close>: \<^verbatim>\<open>arch/arm/include/muntos/arch/mpu.h\<close>; the last one also
    has the coprocessor registers of \<^verbatim>\<open>arch/arm/r/coprocessor.h\<close> and the start of the cycle counters.
  \<^item> \<open>Rt_Arm\<close>: \<^verbatim>\<open>arch/arm/arm.c\<close> and the context switch of the M-profile in assembly, on a core with
    word memory and the exception entry and return of the architecture; \<open>Rt_Arm_R\<close>, \<open>Rt_Arm_R_Switch\<close>: the handler
    of the R-profile with its interrupt manager; \<open>Rt_Arm_Mpu\<close>: the registers of the memory protection unit that a switch
    writes.
  \<^item> \<open>Rt_Pthread\<close>, \<open>Rt_Pthread_Tick\<close>, \<open>Rt_Pthread_Stop\<close>: \<^verbatim>\<open>arch/pthread/pthread.c\<close>. The state is the kernel, the threads
    with their masks, pending signals and stacks of handlers, and the pending timer signal; each
    function is a step relation whose program points lie between its system calls.

  \<^bold>\<open>What is shown.\<close> The kernel: in every reachable state the invariant holds and the handler
  returns; the active task has the highest priority; no task is lost while the active task is in
  state running; tasks of one priority take turns; the tick wakes who is due across wrap-around;
  posts wake the first waiters, waits miss no post, a timeout gives its unit back. The queue refines
  a bounded list, also when operations are preempted in the middle. Condition variables wake all on
  a broadcast and keep no signal. A function passed to \<^verbatim>\<open>rt_once\<close> runs once and before any return.
  A writer is alone, no wake-up of the readers-writer lock is lost. A barrier returns whole groups
  only, true to one call of each, lets every whole group go, and keeps threads within one call of each other. A counter under a mutex loses no
  increment, readers see no half-made change, water is made of two atoms of hydrogen and one of oxygen.
  Atomic operations are atomic. Cycle counts are the time spent, and of a program's tasks the last one
  of the highest priority runs first.
  The regions of the memory protection unit are exact for the sizes for which they are. On both Arm
  profiles a task that is switched out and in again goes on with every register it had, a new task
  starts at its function, and the stack of the next task is what the unit protects. In the port to
  POSIX threads at most one thread runs and no resume signal goes astray, and after \<^verbatim>\<open>rt_stop\<close> the
  scheduler ends without a signal being delivered any more.

  Six theorems show where the code does not do what it means to: a task that is woken before the
  handler has run is lost at the next switch (C9), timed waits of no time leave a decrement behind
  (C10, C19), a peek makes the element it read unreachable (C15), the region for a size between
  two powers of two has the smaller one (C23), and a tick in the middle of a switch to the idle
  thread stops time in the port to POSIX threads (C40). Lemmas of \<open>Rt_Arm_R\<close> and \<open>Rt_Arm_Mpu\<close> show
  others in the assembly: the floating-point flag of the R-profile is not restored, subregions are
  lost there, and on Armv8-M task regions are written to the wrong registers. \<open>Ex_Once\<close> shows that the
  check of \<^verbatim>\<open>examples/once.c\<close> may fail.

  \<^bold>\<open>Bounds.\<close> There is no fuel: loops whose end depends on the heap or on other threads are
  \<^verbatim>\<open>partial_function (option)\<close>, and the theorems prove that they return. \<^verbatim>\<open>int\<close> values are mathematical
  integers where the code cannot overflow (\<open>new_value_no_overflow\<close>) and wrap where it can; ticks,
  positions and registers are words. The numbers of tasks, semaphores and threads are arbitrary;
  where the code posts \<open>INT_MAX\<close> to wake everybody, there are fewer threads than that.

  \<^bold>\<open>Not modelled.\<close> The idle loop and \<^verbatim>\<open>rt_stop\<close> of the Arm profiles, which do not change the
  model's state; logging; the Rust wrapper; and the examples that
  depend on how long tasks take (\<^verbatim>\<open>sem.c\<close>, \<^verbatim>\<open>notify.c\<close>, \<^verbatim>\<open>sleep.c\<close>, \<^verbatim>\<open>queue.c\<close>, \<^verbatim>\<open>cycle/\<close>) or do
  nothing else than call the library. In the port to POSIX threads the cases in which \<^verbatim>\<open>rt_stop\<close> is called a second
  time, or by a handler, are left out. The C memory model is sequential consistency: weaker orders of the source
  are not distinguished, apart from the barriers of \<^verbatim>\<open>atomic-v6.c\<close>.
\<close>

section \<open>The kernel\<close>

text \<open>
  C1. In every reachable state, whatever calls tasks made, whatever interrupts came and in
  whatever order, the lists in the heap are well formed, sorted and agree with the task states
  and the waiter counts, and the system call handler returns and leaves such a state with no
  record pending.
\<close>

theorem reachable_handler_returns:
  assumes "reachable g"
  shows "\<exists>A rs s' c B. config_ok g A rs \<and>
     rt_syscall_run ((kern g)\<lparr>syscall_pended := False\<rparr>) = Some (s', c) \<and>
     config_ok (g\<lparr>kern := s'\<rparr>) B []"
proof -
  obtain A rs where ok: "config_ok g A rs" using reachable_ok [OF assms] by blast
  then have s: "system_ok ((kern g)\<lparr>syscall_pended := False\<rparr>) A rs"
    by (simp add: config_ok_def system_ok_processor)
  obtain s' c B where run: "rt_syscall_run ((kern g)\<lparr>syscall_pended := False\<rparr>) = Some (s', c)"
    "system_ok s' B []" "q_tasks B = q_tasks A" "dom (q_wait B) = dom (q_wait A)"
    using run_keeps [OF s] by blast
  have "pending_syscalls s' = None"
    using kernel_okD(7) [OF system_okD(1) [OF run(2)]] by (simp add: pending_ok_def)
  then have "config_ok (g\<lparr>kern := s'\<rparr>) B []" using ok run by (simp add: config_ok_def)
  then show ?thesis using ok run(1) by blast
qed

theorem reachable_handler_returns_witness:
  "\<exists>A rs s' c B. config_ok boot_config A rs \<and>
     rt_syscall_run (boot\<lparr>syscall_pended := False\<rparr>) = Some (s', c) \<and>
     config_ok (boot_config\<lparr>kern := s'\<rparr>) B []"
  using reachable_handler_returns [OF boot_reachable] by (simp add: boot_config_def)

text \<open>
  C2. After the handler has run, the active task has the highest priority: no task in the ready
  list has a higher one. When the active task changed, the handler returns the new task's
  context, and the pointer to the saved context is the previous task's.
\<close>

theorem highest_priority_runs:
  assumes "kernel_ok s A rs"
  shows "\<exists>s' c B. rt_syscall_run s = Some (s', c) \<and> kernel_ok s' B [] \<and>
     (\<forall>t \<in> set (q_ready B). priority (task s' t) \<le> priority (task s' (active_task s'))) \<and>
     (if active_task s' = active_task s then c = NULL
      else c = ctx (task s' (active_task s')) \<and> rt_context_prev s' = Some (active_task s) \<and>
        task_state (task s' (active_task s')) = RT_TASK_STATE_RUNNING)"
proof -
  obtain s1 A1 s' B c where run: "rt_syscall_run s = Some (s', c)" "run_through rs s A s1 A1 s' B c"
    "idle_ok s1 A1" "queues_ok {} s1 A1" "refines s1 A1" "active_task s1 = active_task s"
    "pending_syscalls s1 = None"
    using rt_syscall_run_through [OF assms] by blast
  have sc: "scheduled s1 A1 s' B c" and ran: "ran_all rs (s\<lparr>pending_syscalls := None\<rparr>) A s1 A1"
    using run(2) by (simp_all add: run_through_def)
  have a: "active_task s1 \<in> q_tasks A1" using kernel_okD(5) [OF assms] run(6) ran by (simp add: ran_all_def)
  have k: "kernel_ok s' B []" using scheduled_ok(1) [OF sc run(5,4,3) a run(7)] .
  have B: "q_sched s1 (active_task s1) A1 = (B, active_task s')"
    and fr: "kframe (s1\<lparr>active_task := active_task s', rt_context_prev := rt_context_prev s'\<rparr>) s'"
    using sc by (simp_all add: scheduled_def)
  have "\<forall>t \<in> set (q_ready B). \<not> higher s1 t (active_task s')" using q_sched_highest [OF run(4) B] by blast
  then have "\<forall>t \<in> set (q_ready B). priority (task s' t) \<le> priority (task s' (active_task s'))"
    using kframe_task(5) [OF fr] by (simp add: higher_def not_less)
  moreover have "task_state (task s' (active_task s')) = RT_TASK_STATE_RUNNING" if "active_task s' \<noteq> active_task s1"
    using q_sched_frame(5) [OF B that] kernel_okD(1) [OF k] by (simp add: refines_def)
  ultimately show ?thesis
    using run(1,6) k sc kframe_task(1) [OF fr] unfolding scheduled_def
    by (intro exI [of _ s'] exI [of _ c] exI [of _ B]) auto
qed

theorem highest_priority_runs_witness:
  "\<exists>s' c B. rt_syscall_run boot = Some (s', c) \<and> kernel_ok s' B [] \<and>
     (\<forall>t \<in> set (q_ready B). priority (task s' t) \<le> priority (task s' (active_task s'))) \<and>
     (if active_task s' = active_task boot then c = NULL
      else c = ctx (task s' (active_task s')) \<and> rt_context_prev s' = Some (active_task boot) \<and>
        task_state (task s' (active_task s')) = RT_TASK_STATE_RUNNING)"
  by (rule highest_priority_runs [OF system_okD(1) [OF boot_system_ok]])

text \<open>
  C3. No task is lost: when the active task is in state running as the handler starts and every
  task is in a queue, active, finished or about to be handled, then the same holds when the
  handler returns. A task that was running and is not chosen is ready again.
\<close>

theorem no_task_lost:
  assumes k: "kernel_ok s A rs" and "accounted s A rs"
    and st: "task_state (task s (active_task s)) = RT_TASK_STATE_RUNNING"
  shows "\<exists>s' c B. rt_syscall_run s = Some (s', c) \<and> kernel_ok s' B [] \<and> accounted s' B [] \<and>
     q_tasks B = q_tasks A"
proof -
  obtain s1 A1 s' B c where run: "rt_syscall_run s = Some (s', c)" "run_through rs s A s1 A1 s' B c"
    "idle_ok s1 A1" "queues_ok {} s1 A1" "refines s1 A1" "active_task s1 = active_task s"
    "pending_syscalls s1 = None"
    using rt_syscall_run_through [OF k] by blast
  have sc: "scheduled s1 A1 s' B c" and ran: "ran_all rs (s\<lparr>pending_syscalls := None\<rparr>) A s1 A1"
    using run(2) by (simp_all add: run_through_def)
  have a: "active_task s1 \<in> q_tasks A1" using kernel_okD(5) [OF k] run(6) ran by (simp add: ran_all_def)
  note s' = scheduled_ok [OF sc run(5,4,3) a run(7)]
  have "q_state A (active_task s) = RT_TASK_STATE_RUNNING"
    using kernel_okD(1) [OF k] st by (simp add: refines_def)
  then have "accounted s' B []"
    using run_through_accounted [OF k assms(2) _ run(2) s'(2) run(4,6)] by blast
  moreover have "q_tasks B = q_tasks A"
    using sc ran q_sched_frame(1) by (simp add: scheduled_def ran_all_def) blast
  ultimately show ?thesis using run(1) s'(1) by blast
qed

theorem no_task_lost_witness:
  "\<exists>s' c B. rt_syscall_run boot = Some (s', c) \<and> kernel_ok s' B [] \<and> accounted s' B [] \<and>
     q_tasks B = q_tasks boot_queues"
  using no_task_lost [OF system_okD(1) [OF boot_system_ok] boot_accounted]
  by (simp add: boot_def rt_task_init_def task_init_def rt_syscall_def rt_syscall_pend_def Let_def
      kernel_simps kernel_init_def idle_task_init_def rt_sem_init_max_def zero_task_def)

text \<open>
  C4. Tasks of the same priority take turns: when the running task yields and the first ready
  task has its priority, that task runs next, and the task that yielded becomes ready behind
  every ready task of its priority.
\<close>

theorem equal_priorities_take_turns:
  assumes k: "kernel_ok s A []" and st: "task_state (task s (active_task s)) = RT_TASK_STATE_RUNNING"
    and n: "q_ready A = n # rest" and p: "priority (task s n) = priority (task s (active_task s))"
  shows "\<exists>s' B. rt_syscall_run (rt_task_yield s) = Some (s', ctx (task s n)) \<and> kernel_ok s' B [] \<and>
     active_task s' = n \<and> rt_context_prev s' = Some (active_task s) \<and>
     filter (\<lambda>t. priority (task s t) = priority (task s n)) (q_ready B) =
       filter (\<lambda>t. priority (task s t) = priority (task s n)) rest @ [active_task s]"
proof -
  let ?y = "rt_task_yield s" and ?a = "active_task s" and ?A1 = "A\<lparr>q_ready := rest\<rparr>"
  note k' = kernel_okD [OF k]
  have nz: "pending_syscalls s = None" using k'(7) by (simp add: pending_ok_def)
  have sel: "pending_syscalls ?y = None" "tasks ?y = tasks s" "nodes ?y = nodes s" "sems ?y = sems s"
    "woken_tick ?y = woken_tick s" "active_task ?y = ?a"
    using nz by (simp_all add: rt_task_yield_def rt_syscall_pend_def)
  have y: "refines ?y A" "queues_ok {} ?y A" "counts ?y A" "idle_ok ?y A" "active_task ?y \<in> q_tasks A"
    using refines_cong [OF k'(1)] queues_ok_cong [OF k'(2)] k'(3-5) sel
    by (simp_all add: counts_def idle_ok_def)
  have a: "q_state A ?a = RT_TASK_STATE_RUNNING" using k'(1) st by (simp add: refines_def)
  have ne: "?a \<noteq> n" using queues_okD(4) [OF k'(2), of n] n a by auto
  have eq: "higher ?y = higher s" by (intro ext) (simp add: higher_def sel)
  let ?B = "q_set_state n RT_TASK_STATE_RUNNING (q_make_ready s ?a ?A1)"
  obtain s' c B where s': "sched ?y = Some (s', c)" "scheduled ?y A s' B c"
    using sched_refines [OF y(1-3,5)] by blast
  have B: "B = ?B" "active_task s' = n"
    using s'(2) ne a n p sel by (auto simp: scheduled_def q_sched_def Let_def eq higher_def q_make_ready_higher [OF eq])
  have "rt_syscall_run ?y = Some (s', c)"
    using s'(1) sel(1) by (simp add: rt_syscall_run_def run_records.simps)
      (simp add: sel(1) [symmetric])
  moreover have "kernel_ok s' B []" using scheduled_ok(1) [OF s'(2) y(1,2,4,5) sel(1)] .
  moreover have "c = ctx (task s n)" "rt_context_prev s' = Some ?a"
    using s'(2) B ne sel by (simp_all add: scheduled_def)
  moreover have "ordered_by (higher s) rest" using queues_okD(2) [OF k'(2)] n by (simp add: ordered_by_Cons)
  then have "filter (\<lambda>t. priority (task s t) = priority (task s n)) (q_ready B) =
      filter (\<lambda>t. priority (task s t) = priority (task s n)) rest @ [?a]"
    using higher.filter_insert_by_same_rank [of s rest ?a] p
    by (simp add: B higher_def not_less eq_iff [symmetric] antisym_conv conj_commute)
  ultimately show ?thesis using B(2) by blast
qed

theorem equal_priorities_take_turns_witness:
  "\<exists>s' B. rt_syscall_run (rt_task_yield peers) = Some (s', ctx (task peers (Task 2))) \<and> kernel_ok s' B [] \<and>
     active_task s' = Task 2 \<and> rt_context_prev s' = Some (Task 1) \<and>
     filter (\<lambda>t. priority (task peers t) = 2) (q_ready B) =
       filter (\<lambda>t. priority (task peers t) = 2) [Idle_task] @ [Task 1]"
  using equal_priorities_take_turns [OF peers_kernel_ok, of "Task 2" "[Idle_task]"] by simp

text \<open>
  C5. The tick, for every value of the counters and across their wrap-around: every sleeper
  whose wake-up time lies within the ticks that have passed becomes ready, a task that only
  sleeps and whose time has not come sleeps on, no ready task is dropped, and the kernel has
  caught up with the tick counter.
\<close>

theorem tick_wakes_due_sleepers:
  assumes "handler_ok s A"
  shows "\<exists>s' B. tick_syscall s = Some s' \<and> handler_ok s' B \<and> woken_tick s' = tick s \<and>
     set (q_ready A) \<subseteq> set (q_ready B) \<and>
     (\<forall>t \<in> set (q_sleep A).
        if wake_tick (task s t) - woken_tick s \<le> tick s - woken_tick s
        then t \<in> set (q_ready B) \<and> t \<notin> set (q_sleep B)
        else q_state A t = RT_TASK_STATE_ASLEEP \<longrightarrow>
          t \<in> set (q_sleep B) \<and> q_state B t = RT_TASK_STATE_ASLEEP)"
proof -
  note h = handler_okD [OF assms]
  let ?d = "tick s - woken_tick s"
  obtain s' B where s': "tick_syscall s = Some s'" "refines s' B" "queues_ok {} s' B" "counts s' B"
    "woken_tick s' = tick s" "advances A B" "asleep B = {t \<in> asleep A. ?d < remaining s t}"
    "\<forall>t \<in> set (q_sleep B). ?d < remaining s t"
    using tick_syscall_refines [OF h] by blast
  have due: "t \<in> set (q_ready B) \<and> t \<notin> set (q_sleep B)"
    if "t \<in> set (q_sleep A)" "wake_tick (task s t) - woken_tick s \<le> ?d" for t
  proof -
    have "t \<notin> set (q_sleep B)" using that(2) s'(8) by (force simp: remaining_def)
    then show ?thesis using that(1) advancesD(6) [OF s'(6)] by blast
  qed
  have early: "t \<in> set (q_sleep B) \<and> q_state B t = RT_TASK_STATE_ASLEEP"
    if "t \<in> set (q_sleep A)" "\<not> wake_tick (task s t) - woken_tick s \<le> ?d" "q_state A t = RT_TASK_STATE_ASLEEP" for t
  proof -
    have "t \<in> asleep B" unfolding s'(7) using that by (simp add: asleep_def remaining_def)
    then show ?thesis by (simp add: asleep_def)
  qed
  show ?thesis
    using s'(1-5) due early advancesD(4) [OF s'(6)]
    by (intro exI [of _ s'] exI [of _ B]) (simp add: handler_ok_def)
qed

theorem tick_wakes_due_sleepers_witness:
  "\<exists>s' B. tick_syscall later = Some s' \<and> handler_ok s' B \<and> woken_tick s' = 4 \<and> Task 1 \<in> set (q_ready B)"
  using tick_wakes_due_sleepers [OF later_ok] by (auto simp: later_def)



text \<open>
  C7. A task that waits enters the wait list behind the waiters of its priority or a higher one;
  as many waiters as the value asks for stay, and the others, which posts have let go
  meanwhile, wake at once: no post is missed between the decrement and the system call.
\<close>

theorem wait_misses_no_post:
  assumes h: "handler_ok s A" and t: "t \<in> q_tasks A" "t \<notin> queued A" "can_wait t"
    and m: "q_wait A m = Some ys"
    and rec: "syscall (task_record (task s t)) = RT_SYSCALL_SEM_WAIT" "args (task_record (task s t)) = Sem_wait m"
    and v: "c_int (sem_value (sem s m))" "sem_value (sem s m) \<noteq> INT_MIN"
  defines "zs \<equiv> insert_by (higher s) t ys"
  defines "k \<equiv> length zs - nat (- sem_value (sem s m))"
  shows "\<exists>s' B. handle_record (Task_record t) s = Some s' \<and> handler_ok s' B \<and>
     q_wait B = (q_wait A)(m \<mapsto> drop k zs) \<and> set (q_ready B) = set (take k zs) \<union> set (q_ready A) \<and>
     q_state B t = (if t \<in> set (take k zs) then RT_TASK_STATE_READY else RT_TASK_STATE_BLOCKED) \<and>
     sem_value (sem s' m) = sem_value (sem s m)"
proof -
  note h' = handler_okD [OF h]
  let ?B = "q_block s m t RT_TASK_STATE_BLOCKED A"
  have zs: "q_wait ?B = (q_wait A)(m \<mapsto> zs)" by (simp add: q_block_def q_wait_on_def m zs_def)
  have k: "Suc (length ys) - sem_waiters (sem_value (sem s m)) = k" "k \<le> length zs"
    using sem_waiters_eq [OF v] by (simp_all add: k_def zs_def)
  obtain s' where s': "handle_record (Task_record t) s = Some s'"
    "handled (Task_record t) s A s' (q_wake k s m ?B)" "kframe s s'"
    using handle_sem_wait [OF h' t m rec] unfolding k(1) by blast
  have B: "q_wait ?B m = Some zs" using zs by simp
  have "q_wait (q_wake k s m ?B) = (q_wait A)(m \<mapsto> drop k zs)" using q_wake_wait [OF B k(2)] zs by simp
  moreover have "set (q_ready (q_wake k s m ?B)) = set (take k zs) \<union> set (q_ready A)"
    using q_wake_ready [OF B k(2)] by (simp add: q_block_def)
  moreover have "q_state (q_wake k s m ?B) t =
      (if t \<in> set (take k zs) then RT_TASK_STATE_READY else RT_TASK_STATE_BLOCKED)"
    using q_wake_state [OF B k(2)] by (simp add: q_block_def)
  ultimately show ?thesis
    using s'(1) handledD(1-3) [OF s'(2)] kframe_sem(2) [OF s'(3)]
    by (intro exI [of _ s'] exI [of _ "q_wake k s m ?B"]) (simp add: handler_ok_def)
qed

theorem wait_misses_no_post_witness:
  "\<exists>s' B. handle_record (Task_record (Task 1)) late_wait = Some s' \<and> handler_ok s' B \<and>
     q_wait B = [7 \<mapsto> []] \<and> Task 1 \<in> set (q_ready B) \<and> q_state B (Task 1) = RT_TASK_STATE_READY"
  using wait_misses_no_post [OF late_wait_ok, of "Task 1" 7 "[]"]
  by (auto simp: c_int_def insert_by_def queued_def)



text \<open>
  C9. The hypothesis of C3 that the active task is in state running is needed, and the code does
  not establish it. When a running task submits a wait that a post has satisfied meanwhile, and it
  is still the first, \<open>sched\<close> lets it go on but leaves its state at ready
  (\<^verbatim>\<open>src/muntos.c\<close>, the branch \<^verbatim>\<open>active_task == next_task\<close>). The next run of the handler takes
  it for a task that has suspended itself: another task is chosen, and the task is in no queue,
  not exited, and never runs again.
\<close>

theorem reawakened_task_is_lost:
  assumes k: "kernel_ok s A [Task_record t]" and a: "active_task s = t" and m: "q_wait A m = Some []"
    and rec: "syscall (task_record (task s t)) = RT_SYSCALL_SEM_WAIT" "args (task_record (task s t)) = Sem_wait m"
    and v: "0 \<le> sem_value (sem s m)" "sem_value (sem s m) \<le> INT_MAX"
    and first: "\<forall>u \<in> set (q_ready A). priority (task s u) < priority (task s t)"
  shows "\<exists>s1 B1 s2 c B2. rt_syscall_run s = Some (s1, NULL) \<and> kernel_ok s1 B1 [] \<and> active_task s1 = t \<and>
     task_state (task s1 t) = RT_TASK_STATE_READY \<and>
     rt_syscall_run s1 = Some (s2, c) \<and> kernel_ok s2 B2 [] \<and> active_task s2 \<noteq> t \<and>
     task_state (task s2 t) = RT_TASK_STATE_READY \<and> t \<in> q_tasks B1 \<and> t \<notin> queued B2"
proof -
  let ?s0 = "s\<lparr>pending_syscalls := None\<rparr>"
  note k0 = kernel_ok_start [OF k]
  have rok: "rec_ok ?s0 A (Task_record t)" using k0(5) by (simp add: records_ok_def)
  then have t: "t \<in> q_tasks A" "t \<notin> queued A" "can_wait t" by (simp_all add: rec_ok_def)
  define C where "C = q_wake_first ?s0 m (q_block ?s0 m t RT_TASK_STATE_BLOCKED A)"
  have "sem_waiters (sem_value (sem s m)) = 0" using v sem_waiters_eq [of "sem_value (sem s m)"] by (simp add: c_int_def)
  with handle_sem_wait [OF k0(1-3) t m] rec obtain s' where
    s': "handle_record (Task_record t) ?s0 = Some s'" "handled (Task_record t) ?s0 A s' C" "kframe ?s0 s'"
    by (auto simp: C_def)
  have "insert_by (higher ?s0) t (q_ready A) = t # q_ready A"
    using first by (cases "q_ready A") (auto simp: insert_by_def higher_def)
  then have C: "q_ready C = t # q_ready A" "q_state C t = RT_TASK_STATE_READY" "q_tasks C = q_tasks A"
    by (simp_all add: C_def q_wake_first_def q_block_def q_wait_on_def insert_by_def m q_unwait_def q_unsleep_def)
  have act: "active_task s' = t" "pending_syscalls s' = None" using kframe_fields(2,3) [OF s'(3)] a by simp_all
  have idle: "idle_ok s' C"
    using kernel_okD(4) [OF k] act(1) a t(3) C(1,3) by (auto simp: idle_ok_def)
  note h = handledD(1-3) [OF s'(2)]
  have act': "active_task s' \<in> q_tasks C" using act(1) t(1) C(3) by simp
  obtain s1 c B1 where s1: "sched s' = Some (s1, c)" "scheduled s' C s1 B1 c"
    using sched_refines [OF h act'] by blast
  have "q_sched s' t C = (C\<lparr>q_ready := q_ready A\<rparr>, t)" by (simp add: q_sched_def C Let_def)
  then have e: "B1 = C\<lparr>q_ready := q_ready A\<rparr>" "active_task s1 = t"
    using s1(2) unfolding scheduled_def act(1) by simp_all
  then have B1: "active_task s1 = t" "c = NULL" "q_state B1 t = RT_TASK_STATE_READY" "q_tasks B1 = q_tasks A"
    using s1(2) C(2,3) unfolding scheduled_def act(1) by simp_all
  have "chain s (pending_syscalls s) [Task_record t]" using kernel_okD(7) [OF k] by (simp add: pending_ok_def)
  then have "rt_syscall_run s = Some (s1, NULL)"
    using s'(1) s1(1) B1(2)
    by (simp add: rt_syscall_run_def run_records.simps [of "Some _"] run_records.simps [of None])
  moreover have k1: "kernel_ok s1 B1 []" using scheduled_ok(1) [OF s1(2) h(1,2) idle act' act(2)] .
  moreover have st: "task_state (task s1 t) = RT_TASK_STATE_READY"
    using kernel_okD(1) [OF k1] B1(3) by (simp add: refines_def)
  moreover obtain s2 c2 B2 where "rt_syscall_run s1 = Some (s2, c2)" "kernel_ok s2 B2 []" "active_task s2 \<noteq> t"
    "t \<notin> queued B2" "q_state B2 t = RT_TASK_STATE_READY"
    using not_running_dropped [OF k1] B1(1,3) by auto
  moreover from this(2,5) have "task_state (task s2 t) = RT_TASK_STATE_READY"
    using kernel_okD(1) by (fastforce simp: refines_def)
  ultimately show ?thesis using B1(1,4) t(1) by blast
qed

theorem reawakened_task_is_lost_witness:
  "\<exists>s1 B1 s2 c B2. rt_syscall_run late_wait = Some (s1, NULL) \<and> kernel_ok s1 B1 [] \<and>
     active_task s1 = Task 1 \<and> rt_syscall_run s1 = Some (s2, c) \<and> kernel_ok s2 B2 [] \<and>
     active_task s2 \<noteq> Task 1 \<and> task_state (task s2 (Task 1)) = RT_TASK_STATE_READY \<and>
     Task 1 \<in> q_tasks B1 \<and> Task 1 \<notin> queued B2"
  using reawakened_task_is_lost [OF system_okD(1) [OF late_wait_system_ok], of 7] by auto



end
